(* ===== verification/HbusPrelude.thy ===== *)
theory HbusPrelude
  imports Main "HOL-Library.Word" "HOL-Library.Monad_Syntax"
begin

unbundle bit_operations_syntax

text \<open>
  Shared vocabulary of the hbus development: the machine integer types of the C sources, the
  collections of rewrite rules the component theories extend, little-endian byte strings (the
  memory image of integers on the x86-64 and aarch64 targets named in \<^verbatim>\<open>src/CMakeLists.txt\<close>),
  removal of a list element by position, and the swap-removal of the hash map's entry array.

  Results of type \<open>'a option\<close> are used with one meaning throughout: \<open>None\<close> is ``the C code has
  no defined result here'', because a loop never ends or an invalid pointer is dereferenced.
\<close>

type_synonym u8 = "8 word"
type_synonym u16 = "16 word"
type_synonym u32 = "32 word"
type_synonym u64 = "64 word"
type_synonym bytes = "8 word list"

named_theorems stb_defs
  \<open>definitions of the table operations that proofs unfold together\<close>
named_theorems hbuf_view_simps
  \<open>what the typed view of a buffer becomes under each buffer operation\<close>
named_theorems hmsg_simps
  \<open>field accessors and constants of the message header\<close>

section \<open>Little-endian byte strings\<close>

fun le_encode :: "nat \<Rightarrow> nat \<Rightarrow> bytes" where
  "le_encode 0 v = []"
| "le_encode (Suc n) v = of_nat v # le_encode n (v div 256)"

fun le_decode :: "bytes \<Rightarrow> nat" where
  "le_decode [] = 0"
| "le_decode (b # bs) = unat b + 256 * le_decode bs"

definition enc16 :: "u16 \<Rightarrow> bytes" where "enc16 w = le_encode 2 (unat w)"
definition enc32 :: "u32 \<Rightarrow> bytes" where "enc32 w = le_encode 4 (unat w)"
definition enc64 :: "u64 \<Rightarrow> bytes" where "enc64 w = le_encode 8 (unat w)"
definition dec16 :: "bytes \<Rightarrow> u16" where "dec16 bs = of_nat (le_decode bs)"
definition dec32 :: "bytes \<Rightarrow> u32" where "dec32 bs = of_nat (le_decode bs)"
definition dec64 :: "bytes \<Rightarrow> u64" where "dec64 bs = of_nat (le_decode bs)"

lemma length_le_encode [simp]: "length (le_encode n v) = n"
  by (induction n arbitrary: v) auto

lemma unat_of_nat_u8 [simp]: "unat (of_nat v :: u8) = v mod 256"
  by (simp add: unat_of_nat)

lemma le_decode_encode: "le_decode (le_encode n v) = v mod 256 ^ n"
  by (induction n arbitrary: v) (simp_all add: mod_mult2_eq)

lemma le_decode_less: "le_decode bs < 256 ^ length bs"
proof (induction bs)
  case (Cons b bs)
  have "unat b < 256"
    using unsigned_less [of b] by simp
  moreover have "le_decode bs + 1 \<le> 256 ^ length bs"
    using Cons.IH by simp
  ultimately have "unat b + 256 * le_decode bs < 256 * (le_decode bs + 1)"
    by simp
  also have "\<dots> \<le> 256 * 256 ^ length bs"
    using \<open>le_decode bs + 1 \<le> 256 ^ length bs\<close> by (rule mult_le_mono2)
  finally show ?case by simp
qed simp

lemma le_encode_decode: "le_encode (length bs) (le_decode bs) = bs"
proof (induction bs)
  case (Cons b bs)
  have b: "unat b < 256"
    using unsigned_less [of b] by simp
  have "(of_nat (unat b + 256 * le_decode bs) :: u8) = b"
    using b by (simp add: word_unat_eq_iff unat_of_nat del: of_nat_add of_nat_mult)
  moreover have "(unat b + 256 * le_decode bs) div 256 = le_decode bs"
    using b by simp
  ultimately show ?case
    using Cons.IH by simp
qed simp

lemma length_enc [simp]:
  "length (enc16 a) = 2" "length (enc32 b) = 4" "length (enc64 c) = 8"
  by (simp_all add: enc16_def enc32_def enc64_def)

lemma unat_u16_less: "unat (w :: u16) < 65536"
  using unsigned_less [of w] by simp

lemma unat_u32_less: "unat (w :: u32) < 4294967296"
  using unsigned_less [of w] by simp

lemma unat_u64_less: "unat (w :: u64) < 18446744073709551616"
  using unsigned_less [of w] by simp

lemma dec16_enc16 [simp]: "dec16 (enc16 w) = w"
  by (simp add: dec16_def enc16_def le_decode_encode unat_u16_less)

lemma dec32_enc32 [simp]: "dec32 (enc32 w) = w"
  by (simp add: dec32_def enc32_def le_decode_encode unat_u32_less)

lemma dec64_enc64 [simp]: "dec64 (enc64 w) = w"
  by (simp add: dec64_def enc64_def le_decode_encode unat_u64_less)

lemma enc16_dec16: "length bs = 2 \<Longrightarrow> enc16 (dec16 bs) = bs"
  using le_decode_less [of bs] le_encode_decode [of bs]
  by (simp add: enc16_def dec16_def unat_of_nat)

lemma enc32_dec32: "length bs = 4 \<Longrightarrow> enc32 (dec32 bs) = bs"
  using le_decode_less [of bs] le_encode_decode [of bs]
  by (simp add: enc32_def dec32_def unat_of_nat)

lemma enc64_dec64: "length bs = 8 \<Longrightarrow> enc64 (dec64 bs) = bs"
  using le_decode_less [of bs] le_encode_decode [of bs]
  by (simp add: enc64_def dec64_def unat_of_nat)

lemma enc32_inject [simp]: "enc32 a = enc32 b \<longleftrightarrow> a = b"
  by (metis dec32_enc32)

lemma enc64_inject [simp]: "enc64 a = enc64 b \<longleftrightarrow> a = b"
  by (metis dec64_enc64)

section \<open>Removing list elements by position\<close>

definition remove_nth :: "nat \<Rightarrow> 'a list \<Rightarrow> 'a list" where
  "remove_nth i xs = take i xs @ drop (Suc i) xs"

lemma length_remove_nth [simp]: "i < length xs \<Longrightarrow> length (remove_nth i xs) = length xs - 1"
  by (simp add: remove_nth_def)

lemma set_remove_nth_distinct:
  assumes "distinct xs" and "i < length xs"
  shows "set (remove_nth i xs) = set xs - {xs ! i}"
proof -
  have "xs = take i xs @ xs ! i # drop (Suc i) xs"
    using assms(2) by (rule id_take_nth_drop)
  then have "distinct (take i xs @ xs ! i # drop (Suc i) xs)"
    and "set xs = set (take i xs @ xs ! i # drop (Suc i) xs)"
    using assms(1) by simp_all
  then show ?thesis
    by (auto simp: remove_nth_def)
qed

lemma distinct_remove_nth: "distinct xs \<Longrightarrow> distinct (remove_nth i xs)"
  by (auto simp: remove_nth_def dest: set_take_disj_set_drop_if_distinct [of _ i "Suc i"])

lemma remove_nth_append [simp]: "remove_nth (length xs) (xs @ y # ys) = xs @ ys"
  by (simp add: remove_nth_def)

text \<open>Deleting entry \<open>i\<close> by moving the last entry into its place.\<close>

definition swap_remove :: "nat \<Rightarrow> 'a list \<Rightarrow> 'a list" where
  "swap_remove i xs = butlast (xs[i := last xs])"

lemma length_swap_remove [simp]: "length (swap_remove i xs) = length xs - 1"
  by (simp add: swap_remove_def)

lemma nth_swap_remove:
  "i < length xs \<Longrightarrow> j < length xs - 1 \<Longrightarrow>
    swap_remove i xs ! j = (if j = i then last xs else xs ! j)"
  by (simp add: swap_remove_def nth_butlast nth_list_update)

lemma map_swap_remove:
  "i < length xs \<Longrightarrow> map f (swap_remove i xs) = swap_remove i (map f xs)"
  by (cases "xs = []") (simp_all add: swap_remove_def map_butlast map_update last_map)

lemma set_swap_remove_distinct:
  assumes "distinct xs" and "i < length xs"
  shows "set (swap_remove i xs) = set xs - {xs ! i}" and "distinct (swap_remove i xs)"
proof -
  define n where "n = length xs - 1"
  have n: "n < length xs" "last xs = xs ! n"
    using assms(2) by (simp add: n_def, cases xs, simp_all add: n_def last_conv_nth)
  have nth: "\<And>j. j < n \<Longrightarrow> swap_remove i xs ! j = (if j = i then xs ! n else xs ! j)"
    using nth_swap_remove [OF assms(2)] n by (simp add: n_def)
  have len: "length (swap_remove i xs) = n"
    by (simp add: n_def)
  have inj: "\<And>a b. a < length xs \<Longrightarrow> b < length xs \<Longrightarrow> xs ! a = xs ! b \<longleftrightarrow> a = b"
    using assms(1) by (simp add: nth_eq_iff_index_eq)
  show "distinct (swap_remove i xs)"
    unfolding distinct_conv_nth len using nth inj n assms(2) by auto
  show "set (swap_remove i xs) = set xs - {xs ! i}"
  proof (intro set_eqI iffI)
    fix x assume "x \<in> set (swap_remove i xs)"
    then obtain j where "j < n" "x = swap_remove i xs ! j"
      unfolding in_set_conv_nth len by blast
    then show "x \<in> set xs - {xs ! i}"
      using nth [of j] inj n assms(2) by (auto simp: n_def split: if_splits)
  next
    fix x assume "x \<in> set xs - {xs ! i}"
    then obtain j where j: "j < length xs" "x = xs ! j" "j \<noteq> i"
      by (auto simp: in_set_conv_nth)
    show "x \<in> set (swap_remove i xs)"
    proof (cases "j = n")
      case True
      then have "i < n" and "swap_remove i xs ! i = x"
        using j assms(2) nth [of i] by (auto simp: n_def)
      then show ?thesis by (metis len nth_mem)
    next
      case False
      then have "j < n" and "swap_remove i xs ! j = x"
        using j nth [of j] by (auto simp: n_def)
      then show ?thesis by (metis len nth_mem)
    qed
  qed
qed

section \<open>Searching association lists by position\<close>

fun index_of :: "'a \<Rightarrow> 'a list \<Rightarrow> nat option" where
  "index_of x [] = None"
| "index_of x (y # ys) = (if x = y then Some 0 else map_option Suc (index_of x ys))"

lemma index_of_None: "index_of x xs = None \<longleftrightarrow> x \<notin> set xs"
  by (induction xs) auto

lemma index_of_SomeD: "index_of x xs = Some i \<Longrightarrow> i < length xs \<and> xs ! i = x"
  by (induction xs arbitrary: i) (auto split: if_splits)

lemma index_of_distinct: "distinct xs \<Longrightarrow> i < length xs \<Longrightarrow> index_of (xs ! i) xs = Some i"
proof (induction xs arbitrary: i)
  case (Cons y ys)
  then show ?case by (cases i) auto
qed simp

lemma index_of_eq_Some:
  "distinct xs \<Longrightarrow> index_of x xs = Some i \<longleftrightarrow> i < length xs \<and> xs ! i = x"
  using index_of_SomeD index_of_distinct by metis

lemma index_of_notin [simp]: "x \<notin> set xs \<Longrightarrow> index_of x xs = None"
  by (simp add: index_of_None)

lemma nth_tl_Suc: "0 < length xs \<Longrightarrow> tl xs ! i = xs ! Suc i"
  by (cases xs) auto

end
