(* ===== verification/StbHash.thy ===== *)
theory StbHash
  imports HbusPrelude
begin

text \<open>
  The hash functions of \<^verbatim>\<open>src/3rd/include/hcore/stb_ds.h\<close> on a target with 64-bit
  \<^verbatim>\<open>size_t\<close>: the string hash, the weakened SipHash over arbitrary byte strings and the custom
  mixers for 4- and 8-byte keys, at their machine widths. A key is the list of its bytes; the
  \<^verbatim>\<open>int\<close> sub-expressions of the C text are 32-bit words, sign-extended where C converts them to
  \<^verbatim>\<open>size_t\<close>. The lemmas show that the mixer for 4-byte keys, the only one the topic maps of hbus
  use, is injective for every seed, and that the mixer for 8-byte keys is not.
\<close>

section \<open>Rotations and byte assembly\<close>

definition stbds_rotate_left :: "u64 \<Rightarrow> nat \<Rightarrow> u64" where
  "stbds_rotate_left val n = push_bit n val OR drop_bit (64 - n) val"

definition stbds_rotate_right :: "u64 \<Rightarrow> nat \<Rightarrow> u64" where
  "stbds_rotate_right val n = drop_bit n val OR push_bit (64 - n) val"

text \<open>The recurring \<^verbatim>\<open>d[0] | (d[1] << 8) | (d[2] << 16) | (d[3] << 24)\<close>, of type \<^verbatim>\<open>int\<close>.\<close>

definition load_int :: "u8 \<Rightarrow> u8 \<Rightarrow> u8 \<Rightarrow> u8 \<Rightarrow> u32" where
  "load_int d0 d1 d2 d3 =
     ucast d0 OR push_bit 8 (ucast d1) OR push_bit 16 (ucast d2) OR push_bit 24 (ucast d3)"

text \<open>Two such loads joined to a \<^verbatim>\<open>size_t\<close>; the low half is converted from \<^verbatim>\<open>int\<close>.\<close>

definition load_size_t :: "bytes \<Rightarrow> u64" where
  "load_size_t d =
     scast (load_int (d ! 0) (d ! 1) (d ! 2) (d ! 3)) OR
     push_bit 16 (push_bit 16 (scast (load_int (d ! 4) (d ! 5) (d ! 6) (d ! 7))))"

section \<open>Strings\<close>

definition stbds_hash_string :: "bytes \<Rightarrow> u64 \<Rightarrow> u64" where
  "stbds_hash_string str seed =
     (let hash = foldl (\<lambda>hash c. stbds_rotate_left hash 9 + ucast c) seed str;
          hash = hash XOR seed;
          hash = NOT hash + push_bit 18 hash;
          hash = hash XOR (hash XOR stbds_rotate_right hash 31);
          hash = hash * 21;
          hash = hash XOR (hash XOR stbds_rotate_right hash 11);
          hash = hash + push_bit 6 hash;
          hash = hash XOR stbds_rotate_right hash 22
      in hash + seed)"

section \<open>SipHash with one compression and one finalisation round\<close>

type_synonym sip_state = "u64 \<times> u64 \<times> u64 \<times> u64"

fun stbds_sipround :: "sip_state \<Rightarrow> sip_state" where
  "stbds_sipround (v0, v1, v2, v3) =
     (let v0 = v0 + v1; v1 = stbds_rotate_left v1 13; v1 = v1 XOR v0;
          v0 = stbds_rotate_left v0 32;
          v2 = v2 + v3; v3 = stbds_rotate_left v3 16; v3 = v3 XOR v2;
          v2 = v2 + v1; v1 = stbds_rotate_left v1 17; v1 = v1 XOR v2;
          v2 = stbds_rotate_left v2 32;
          v0 = v0 + v3; v3 = stbds_rotate_left v3 21; v3 = v3 XOR v0
      in (v0, v1, v2, v3))"

fun sip_absorb :: "u64 \<Rightarrow> sip_state \<Rightarrow> sip_state" where
  "sip_absorb data (v0, v1, v2, v3) =
     (case stbds_sipround (v0, v1, v2, v3 XOR data) of
        (v0', v1', v2', v3') \<Rightarrow> (v0' XOR data, v1', v2', v3'))"

text \<open>The \<^verbatim>\<open>for\<close> loop over whole words; it returns the unread tail as well.\<close>

function sip_words :: "bytes \<Rightarrow> sip_state \<Rightarrow> sip_state \<times> bytes" where
  "sip_words d v =
     (if 8 \<le> length d then sip_words (drop 8 d) (sip_absorb (load_size_t d) v) else (v, d))"
  by pat_completeness auto
termination
  by (relation "measure (\<lambda>(d, v). length d)") auto

declare sip_words.simps [simp del]

text \<open>The fall-through \<^verbatim>\<open>switch\<close> on the number of bytes left.\<close>

definition sip_tail :: "nat \<Rightarrow> bytes \<Rightarrow> u64" where
  "sip_tail len d =
     (let data = push_bit 56 (of_nat len);
          r = length d;
          data = (if 7 \<le> r then data OR push_bit 24 (push_bit 24 (ucast (d ! 6))) else data);
          data = (if 6 \<le> r then data OR push_bit 20 (push_bit 20 (ucast (d ! 5))) else data);
          data = (if 5 \<le> r then data OR push_bit 16 (push_bit 16 (ucast (d ! 4))) else data);
          data = (if 4 \<le> r then data OR scast (push_bit 24 (ucast (d ! 3)) :: u32) else data);
          data = (if 3 \<le> r then data OR push_bit 16 (ucast (d ! 2)) else data);
          data = (if 2 \<le> r then data OR push_bit 8 (ucast (d ! 1)) else data);
          data = (if 1 \<le> r then data OR ucast (d ! 0) else data)
      in data)"

definition stbds_siphash_bytes :: "bytes \<Rightarrow> u64 \<Rightarrow> u64" where
  "stbds_siphash_bytes p seed =
     (let v0 = (push_bit 16 (push_bit 16 0x736f6d65) + 0x70736575) XOR seed;
          v1 = (push_bit 16 (push_bit 16 0x646f7261) + 0x6e646f6d) XOR NOT seed;
          v2 = (push_bit 16 (push_bit 16 0x6c796765) + 0x6e657261) XOR seed;
          v3 = (push_bit 16 (push_bit 16 0x74656462) + 0x79746573) XOR NOT seed
      in case sip_words p (v0, v1, v2, v3) of
        (v, d) \<Rightarrow>
          (case sip_absorb (sip_tail (length p) d) v of
             (v0, v1, v2, v3) \<Rightarrow>
               (case stbds_sipround (v0, v1, v2 XOR 0xff, v3) of
                  (v0, v1, v2, v3) \<Rightarrow> v1 XOR v2 XOR v3)))"

section \<open>The dispatcher with its 4- and 8-byte mixers\<close>

definition hash32_bb :: "u32 \<Rightarrow> u64 \<Rightarrow> u32" where
  "hash32_bb hash seed =
     (let hash = hash XOR ucast seed;
          hash = (hash XOR 61) XOR drop_bit 16 hash;
          hash = hash + push_bit 3 hash;
          hash = hash XOR drop_bit 4 hash;
          hash = hash * 0x27d4eb2d;
          hash = hash XOR ucast seed;
          hash = hash XOR drop_bit 15 hash
      in hash)"

definition hash64_mix :: "u64 \<Rightarrow> u64 \<Rightarrow> u64" where
  "hash64_mix hash seed =
     (let hash = hash XOR seed;
          hash = NOT hash + push_bit 21 hash;
          hash = hash XOR stbds_rotate_right hash 24;
          hash = hash * 265;
          hash = hash XOR stbds_rotate_right hash 14;
          hash = hash XOR seed;
          hash = hash * 21;
          hash = hash XOR stbds_rotate_right hash 28;
          hash = hash + push_bit 31 hash;
          hash = NOT hash + push_bit 18 hash
      in hash)"

definition stbds_hash_bytes :: "bytes \<Rightarrow> u64 \<Rightarrow> u64" where
  "stbds_hash_bytes p seed =
     (if length p = 4 then
        (let hash = hash32_bb (load_int (p ! 0) (p ! 1) (p ! 2) (p ! 3)) seed
         in (push_bit 16 (push_bit 16 (ucast hash)) OR ucast hash) XOR seed)
      else if length p = 8 then hash64_mix (load_size_t p) seed
      else stbds_siphash_bytes p seed)"

section \<open>Injectivity of the 4-byte mixer\<close>

lemma drop_bit_fixed_zero:
  fixes z :: "'a::len word"
  assumes "0 < n" and "drop_bit n z = z"
  shows "z = 0"
proof -
  have "unat z div 2 ^ n = unat z"
    using assms(2) by (metis unat_drop_bit_eq drop_bit_eq_div)
  moreover have "1 < (2::nat) ^ n"
    using assms(1) by (rule one_less_power [rotated]) simp
  ultimately have "unat z = 0"
    by (metis div_less_dividend less_irrefl neq0_conv)
  then show ?thesis by (simp add: unat_eq_zero)
qed

lemma inj_xorshift:
  assumes "0 < n"
  shows "inj (\<lambda>x :: 'a::len word. x XOR drop_bit n x)"
proof (rule injI)
  fix x y :: "'a word"
  assume eq: "x XOR drop_bit n x = y XOR drop_bit n y"
  have "(x XOR y) XOR drop_bit n (x XOR y) = (x XOR drop_bit n x) XOR (y XOR drop_bit n y)"
    by (simp add: xor.assoc xor.left_commute)
  also have "\<dots> = 0" using eq by simp
  finally have "drop_bit n (x XOR y) = x XOR y"
    by (metis xor.assoc xor.right_neutral xor_self_eq)
  then have "x XOR y = 0" by (rule drop_bit_fixed_zero [OF assms])
  then show "x = y" by (metis xor.assoc xor.right_neutral xor_self_eq)
qed

lemma inj_xor: "inj (\<lambda>x :: 'a::len word. x XOR s)"
  by (rule injI) (metis xor.assoc xor.right_neutral xor_self_eq)

lemma inj_mult_unit: "a * b = 1 \<Longrightarrow> inj (\<lambda>x :: 'a::len word. x * a)"
  by (rule injI) (metis mult.assoc mult.right_neutral)

text \<open>The mixer is a composition of three xor-shifts, three xors and two odd multiplications.\<close>

lemma inj_hash32_bb: "inj (\<lambda>hash. hash32_bb hash seed)"
proof -
  define s where "s = (ucast seed :: u32)"
  have eq: "(\<lambda>hash. hash32_bb hash seed) =
      (\<lambda>x. x XOR drop_bit 15 x) \<circ> (\<lambda>x. x XOR s) \<circ> (\<lambda>x. x * 0x27d4eb2d) \<circ>
      (\<lambda>x. x XOR drop_bit 4 x) \<circ> (\<lambda>x. x * 9) \<circ> (\<lambda>x. x XOR 61) \<circ>
      (\<lambda>x. x XOR drop_bit 16 x) \<circ> (\<lambda>x. x XOR s)"
    unfolding hash32_bb_def Let_def s_def [symmetric]
    by (rule ext) (simp add: push_bit_eq_mult distrib_left mult.commute xor.assoc
        xor.commute xor.left_commute)
  have "inj (\<lambda>x :: u32. x * 9)"
    by (rule inj_mult_unit [where b = 954437177]) simp
  moreover have "inj (\<lambda>x :: u32. x * 0x27d4eb2d)"
    by (rule inj_mult_unit [where b = 4218002597]) simp
  ultimately show ?thesis
    unfolding eq by (intro inj_compose inj_xorshift inj_xor) simp_all
qed

lemma load_int_bytes:
  "ucast (load_int d0 d1 d2 d3) = d0"
  "ucast (drop_bit 8 (load_int d0 d1 d2 d3)) = d1"
  "ucast (drop_bit 16 (load_int d0 d1 d2 d3)) = d2"
  "ucast (drop_bit 24 (load_int d0 d1 d2 d3)) = d3"
  by (rule bit_word_eqI; auto simp: load_int_def bit_simps dest: bit_imp_le_length)+

lemma load_int_inject:
  "load_int a0 a1 a2 a3 = load_int b0 b1 b2 b3 \<longleftrightarrow> a0 = b0 \<and> a1 = b1 \<and> a2 = b2 \<and> a3 = b3"
  by (metis load_int_bytes)

lemma hash_bytes4_low:
  "ucast ((push_bit 16 (push_bit 16 (ucast h)) OR ucast h) XOR seed) XOR ucast seed = (h :: u32)"
  for seed :: u64
  by (rule bit_word_eqI) (auto simp: bit_simps)

lemma list4_eq:
  "length p = 4 \<Longrightarrow> length q = 4 \<Longrightarrow>
    p = q \<longleftrightarrow> p ! 0 = q ! 0 \<and> p ! 1 = q ! 1 \<and> p ! 2 = q ! 2 \<and> p ! 3 = q ! 3"
  by (auto simp: list_eq_iff_nth_eq less_Suc_eq numeral_eq_Suc)

lemma stbds_hash_bytes4_inject:
  assumes "length p = 4" "length q = 4" and "stbds_hash_bytes p seed = stbds_hash_bytes q seed"
  shows "p = q"
proof -
  let ?h = "\<lambda>p. hash32_bb (load_int (p ! 0) (p ! 1) (p ! 2) (p ! 3)) seed"
  have "?h p = ?h q"
    using assms by (metis stbds_hash_bytes_def hash_bytes4_low)
  then have "load_int (p ! 0) (p ! 1) (p ! 2) (p ! 3) = load_int (q ! 0) (q ! 1) (q ! 2) (q ! 3)"
    by (rule injD [OF inj_hash32_bb])
  then show ?thesis
    using assms(1,2) by (simp add: load_int_inject list4_eq)
qed

text \<open>
  In the 8-byte case the low half is an \<^verbatim>\<open>int\<close> that C sign-extends: when its top bit is set it
  overwrites the high half.
\<close>

lemma load_size_t_sign_extends:
  assumes "bit (p ! 3) 7" and "take 4 p = take 4 q" and "length p = 8" "length q = 8"
  shows "load_size_t p = load_size_t q"
proof -
  have same: "p ! i = q ! i" if "i < 4" for i
    using assms(2) that by (metis nth_take)
  have ones: "bit (scast (load_int (p ! 0) (p ! 1) (p ! 2) (p ! 3)) :: u64) n"
    if "32 \<le> n" "n < 64" for n
    using that assms(1) by (simp add: bit_simps load_int_def)
  show ?thesis
    unfolding load_size_t_def using same ones
    by (intro bit_word_eqI) (auto simp: bit_or_iff bit_push_bit_iff)
qed

end
