(* ===== verification/StbTable.thy ===== *)
theory StbTable
  imports StbHash
begin

text \<open>
  The open-addressing index of \<^verbatim>\<open>stb_ds.h\<close> (\<^verbatim>\<open>stbds_hash_index\<close>): slots of stored hashes and
  entry numbers in buckets of eight, quadratic probing over the buckets, tombstones, and the
  construction of a new index from an old one. The bucket array
  \<^verbatim>\<open>storage[pos >> 3].hash[i] / .index[i]\<close> is one list of (hash, index) pairs in which bucket
  \<open>b\<close>, position \<open>i\<close> is element \<open>8 * b + i\<close>. Slot counts and positions (\<^verbatim>\<open>size_t\<close>) are natural
  numbers: they are bounded by the number of allocated slots. The three probe loops of the C text
  have no bound of their own; they are \<open>partial_function\<close>s whose value is \<open>None\<close> when they run
  forever, and the theory proves that they stop on every well-formed index.
\<close>

section \<open>The index structure\<close>

record stbds_hash_index =
  slot_count :: nat
  used_count :: nat
  used_count_threshold :: nat
  used_count_shrink_threshold :: nat
  tombstone_count :: nat
  tombstone_count_threshold :: nat
  index_seed :: u64
  slot_count_log2 :: nat
  string_mode :: nat
  storage :: "(u64 \<times> int) list"

abbreviation (input) STBDS_BUCKET_LENGTH :: nat where "STBDS_BUCKET_LENGTH \<equiv> 8"
abbreviation (input) STBDS_INDEX_EMPTY :: int where "STBDS_INDEX_EMPTY \<equiv> -1"
abbreviation (input) STBDS_INDEX_DELETED :: int where "STBDS_INDEX_DELETED \<equiv> -2"
abbreviation (input) STBDS_HASH_EMPTY :: u64 where "STBDS_HASH_EMPTY \<equiv> 0"
abbreviation (input) STBDS_HASH_DELETED :: u64 where "STBDS_HASH_DELETED \<equiv> 1"

definition slot_hash :: "stbds_hash_index \<Rightarrow> nat \<Rightarrow> u64" where
  "slot_hash t s = fst (storage t ! s)"

definition slot_index :: "stbds_hash_index \<Rightarrow> nat \<Rightarrow> int" where
  "slot_index t s = snd (storage t ! s)"

definition stbds_probe_position :: "u64 \<Rightarrow> nat \<Rightarrow> nat \<Rightarrow> nat" where
  "stbds_probe_position hash slots slot_log2 = unat hash AND (slots - 1)"

function stbds_log2 :: "nat \<Rightarrow> nat \<Rightarrow> nat" where
  "stbds_log2 slots n = (if 1 < slots then stbds_log2 (drop_bit 1 slots) (n + 1) else n)"
  by pat_completeness auto
termination
  by (relation "measure fst") (auto simp: drop_bit_eq_div)

declare stbds_log2.simps [simp del]

text \<open>The two inner loops of every probe: from the start position to the end of its bucket, then
  from the beginning of the bucket to the start position.\<close>

definition bucket_base :: "nat \<Rightarrow> nat" where
  "bucket_base pos = push_bit 3 (drop_bit 3 pos)"

definition seg_hi :: "nat \<Rightarrow> nat list" where
  "seg_hi pos = map (\<lambda>i. bucket_base pos + i) [pos AND 7 ..< STBDS_BUCKET_LENGTH]"

definition seg_lo :: "nat \<Rightarrow> nat list" where
  "seg_lo pos = map (\<lambda>i. bucket_base pos + i) [0 ..< pos AND 7]"

section \<open>Lookup\<close>

fun find_scan :: "stbds_hash_index \<Rightarrow> (int \<Rightarrow> bool) \<Rightarrow> u64 \<Rightarrow> nat list \<Rightarrow> int option" where
  "find_scan t eq hash [] = None"
| "find_scan t eq hash (s # ss) =
     (if slot_hash t s = hash then
        (if eq (slot_index t s) then Some (int s) else find_scan t eq hash ss)
      else if slot_hash t s = STBDS_HASH_EMPTY then Some (-1)
      else find_scan t eq hash ss)"

partial_function (option) find_slot_loop ::
  "stbds_hash_index \<Rightarrow> (int \<Rightarrow> bool) \<Rightarrow> u64 \<Rightarrow> nat \<Rightarrow> nat \<Rightarrow> int option" where
  "find_slot_loop t eq hash pos step =
     (case find_scan t eq hash (seg_hi pos) of
        Some r \<Rightarrow> Some r
      | None \<Rightarrow>
          (case find_scan t eq hash (seg_lo pos) of
             Some r \<Rightarrow> Some r
           | None \<Rightarrow> find_slot_loop t eq hash ((pos + step) AND (slot_count t - 1))
                       (step + STBDS_BUCKET_LENGTH)))"

section \<open>Lookup for insertion, remembering the first tombstone\<close>

datatype put_stop = PutFound nat | PutEmpty nat

fun put_scan ::
  "stbds_hash_index \<Rightarrow> (int \<Rightarrow> bool) \<Rightarrow> u64 \<Rightarrow> int \<Rightarrow> nat list \<Rightarrow> put_stop option \<times> int" where
  "put_scan t eq hash tombstone [] = (None, tombstone)"
| "put_scan t eq hash tombstone (s # ss) =
     (if slot_hash t s = hash then
        (if eq (slot_index t s) then (Some (PutFound s), tombstone)
         else put_scan t eq hash tombstone ss)
      else if slot_hash t s = 0 then (Some (PutEmpty s), tombstone)
      else if tombstone < 0 then
        (if slot_index t s = STBDS_INDEX_DELETED then put_scan t eq hash (int s) ss
         else put_scan t eq hash tombstone ss)
      else put_scan t eq hash tombstone ss)"

partial_function (option) put_slot_loop ::
  "stbds_hash_index \<Rightarrow> (int \<Rightarrow> bool) \<Rightarrow> u64 \<Rightarrow> int \<Rightarrow> nat \<Rightarrow> nat \<Rightarrow> (put_stop \<times> int) option" where
  "put_slot_loop t eq hash tombstone pos step =
     (case put_scan t eq hash tombstone (seg_hi pos) of
        (Some r, tomb) \<Rightarrow> Some (r, tomb)
      | (None, tomb) \<Rightarrow>
          (case put_scan t eq hash tomb (seg_lo pos) of
             (Some r, tomb) \<Rightarrow> Some (r, tomb)
           | (None, tomb) \<Rightarrow> put_slot_loop t eq hash tomb ((pos + step) AND (slot_count t - 1))
                       (step + STBDS_BUCKET_LENGTH)))"

section \<open>Building an index, copying an old one\<close>

fun free_scan :: "stbds_hash_index \<Rightarrow> nat list \<Rightarrow> nat option" where
  "free_scan t [] = None"
| "free_scan t (s # ss) = (if slot_hash t s = 0 then Some s else free_scan t ss)"

partial_function (option) free_slot_loop ::
  "stbds_hash_index \<Rightarrow> nat \<Rightarrow> nat \<Rightarrow> nat option" where
  "free_slot_loop t pos step =
     (case free_scan t (seg_hi pos) of
        Some s \<Rightarrow> Some s
      | None \<Rightarrow>
          (case free_scan t (seg_lo pos) of
             Some s \<Rightarrow> Some s
           | None \<Rightarrow> free_slot_loop t ((pos + step) AND (slot_count t - 1))
                       (step + STBDS_BUCKET_LENGTH)))"

definition store_slot :: "stbds_hash_index \<Rightarrow> nat \<Rightarrow> u64 \<Rightarrow> int \<Rightarrow> stbds_hash_index" where
  "store_slot t s hash i = t\<lparr>storage := (storage t)[s := (hash, i)]\<rparr>"

fun rehash :: "stbds_hash_index \<Rightarrow> (u64 \<times> int) list \<Rightarrow> stbds_hash_index option" where
  "rehash t [] = Some t"
| "rehash t ((hash, i) # old) =
     (if 0 \<le> i then
        do {
          s \<leftarrow> free_slot_loop t (stbds_probe_position hash (slot_count t) (slot_count_log2 t))
                 STBDS_BUCKET_LENGTH;
          rehash (store_slot t s hash i) old
        }
      else rehash t old)"

text \<open>An index without slots in use; \<open>string\<close> and \<open>seed\<close> are the two fields the branch on the
  old index sets.\<close>

definition blank_index :: "nat \<Rightarrow> nat \<Rightarrow> u64 \<Rightarrow> stbds_hash_index" where
  "blank_index slots mode sd =
     \<lparr>slot_count = slots,
      used_count = 0,
      used_count_threshold = slots - drop_bit 2 slots,
      used_count_shrink_threshold =
        (if slots \<le> STBDS_BUCKET_LENGTH then 0 else drop_bit 2 slots),
      tombstone_count = 0,
      tombstone_count_threshold = drop_bit 3 slots + drop_bit 4 slots,
      index_seed = sd,
      slot_count_log2 = stbds_log2 slots 0,
      string_mode = mode,
      storage = replicate (STBDS_BUCKET_LENGTH * drop_bit 3 slots)
                  (STBDS_HASH_EMPTY, STBDS_INDEX_EMPTY)\<rparr>"

text \<open>\<open>stbds_load_32_or_64\<close> on a 64-bit target assembles the constants of the comment.\<close>

definition stbds_load_64 :: "u64 \<Rightarrow> u64 \<Rightarrow> u64 \<Rightarrow> u64" where
  "stbds_load_64 v32 v64_hi v64_lo =
     (let temp = v64_lo XOR v32;
          temp = drop_bit 16 (drop_bit 16 (push_bit 16 (push_bit 16 temp)));
          var = push_bit 16 (push_bit 16 v64_hi)
      in var XOR (temp XOR v32))"

definition stbds_next_seed :: "u64 \<Rightarrow> u64" where
  "stbds_next_seed g =
     g * stbds_load_64 2147001325 0x27bb2ee6 0x87b0b0fd
       + stbds_load_64 715136305 0 0xb504f32d"

text \<open>\<open>g\<close> is the library's global \<^verbatim>\<open>stbds_hash_seed\<close>.\<close>

definition stbds_make_hash_index ::
  "u64 \<Rightarrow> nat \<Rightarrow> stbds_hash_index option \<Rightarrow> (stbds_hash_index \<times> u64) option" where
  "stbds_make_hash_index g slots ot =
     (case ot of
        Some old \<Rightarrow>
          do {
            t \<leftarrow> rehash ((blank_index slots (string_mode old) (index_seed old))
                    \<lparr>used_count := used_count old\<rparr>) (storage old);
            Some (t, g)
          }
      | None \<Rightarrow> Some (blank_index slots 0 g, stbds_next_seed g))"

end
