(* ===== verification/StbProbe.thy ===== *)
theory StbProbe
  imports StbTable
begin

text \<open>
  Quadratic probing over a power-of-two table. The bucket visited in round \<open>i\<close> is the start bucket
  plus the \<open>i\<close>-th triangular number, and the triangular numbers modulo a power of two hit every
  residue, so a probe that does not stop earlier visits every slot. The locale \<open>probing\<close> states
  what the three probe loops of the index share (a scan of a bucket that stops or goes on with an
  accumulator) and shows that such a loop computes the scan of the whole probe sequence; it is
  interpreted for the lookup, the insertion and the rehashing loop.
\<close>

section \<open>Triangular numbers modulo a power of two\<close>

definition tri :: "nat \<Rightarrow> nat" where
  "tri i = (\<Sum>j\<le>i. j)"

lemma tri_0 [simp]: "tri 0 = 0"
  by (simp add: tri_def)

lemma tri_Suc [simp]: "tri (Suc i) = tri i + Suc i"
  by (simp add: tri_def)

lemma tri_double: "2 * tri i = i * (i + 1)"
  by (induction i) (simp_all add: algebra_simps)

lemma tri_mono: "i \<le> j \<Longrightarrow> tri i \<le> tri j"
  by (induction j) (auto simp: le_Suc_eq)

lemma tri_diff: "i \<le> j \<Longrightarrow> 2 * (tri j - tri i) = (j - i) * (j + i + 1)"
proof -
  assume "i \<le> j"
  then obtain d where j: "j = i + d" using le_Suc_ex by blast
  have "2 * (tri j - tri i) = j * (j + 1) - i * (i + 1)"
    by (simp only: diff_mult_distrib2 tri_double)
  also have "\<dots> = d * (i + d + i + 1)"
    unfolding j by (simp add: algebra_simps)
  finally show ?thesis by (simp add: j)
qed

lemma tri_mod_inj: "inj_on (\<lambda>i. tri i mod 2 ^ k) {..<2 ^ k}"
proof (rule linorder_inj_onI')
  fix i j :: nat
  assume ij: "i \<in> {..<2 ^ k}" "j \<in> {..<2 ^ k}" "i < j"
  show "tri i mod 2 ^ k \<noteq> tri j mod 2 ^ k"
  proof
    assume "tri i mod 2 ^ k = tri j mod 2 ^ k"
    then have "2 ^ k dvd tri j - tri i"
      using tri_mono [of i j] ij by (metis less_imp_le mod_eq_dvd_iff_nat)
    then have "2 * 2 ^ k dvd 2 * (tri j - tri i)"
      by simp
    then have dvd: "2 ^ Suc k dvd (j - i) * (j + i + 1)"
      using tri_diff [of i j] ij by simp
    have pos: "0 < j - i" "j - i < 2 ^ Suc k" "j + i + 1 < 2 ^ Suc k"
      using ij by auto
    show False
    proof (cases "even (j - i)")
      case True
      then have "odd (j + i + 1)" using ij by presburger
      then have "coprime (2 ^ Suc k) (j + i + 1)" by simp
      then have "2 ^ Suc k dvd j - i" using dvd coprime_dvd_mult_left_iff by blast
      then show False using pos by (meson dvd_imp_le leD)
    next
      case False
      then have "coprime (2 ^ Suc k) (j - i)" by simp
      then have "2 ^ Suc k dvd j + i + 1" using dvd coprime_dvd_mult_right_iff by blast
      then show False using pos by (meson dvd_imp_le leD zero_less_Suc add_gr_0 less_one)
    qed
  qed
qed

lemma mod_add_eq_nat_cancel:
  "(a + c) mod n = (b + c) mod n \<Longrightarrow> a mod n = b mod n" for a b c n :: nat
  by (simp add: nat_mod_eq_iff)

lemma tri_mod_surj:
  assumes "b < 2 ^ k"
  shows "\<exists>i < 2 ^ k. (b0 + tri i) mod 2 ^ k = b"
proof -
  have "(\<lambda>i. (b0 + tri i) mod 2 ^ k) ` {..<2 ^ k} = {..<2 ^ k}"
  proof (rule card_subset_eq)
    show "card ((\<lambda>i. (b0 + tri i) mod 2 ^ k) ` {..<2 ^ k}) = card {..<2 ^ k :: nat}"
    proof (rule card_image, rule inj_onI)
      fix i j :: nat
      assume ij: "i \<in> {..<2 ^ k}" "j \<in> {..<2 ^ k}"
        and "(b0 + tri i) mod 2 ^ k = (b0 + tri j) mod 2 ^ k"
      then have "tri i mod 2 ^ k = tri j mod 2 ^ k"
        by (metis add.commute mod_add_eq_nat_cancel)
      then show "i = j" using ij by (rule inj_onD [OF tri_mod_inj])
    qed
  qed auto
  then show ?thesis using assms by (metis (no_types, lifting) imageE lessThan_iff)
qed

section \<open>The probe sequence\<close>

definition probe_pos :: "nat \<Rightarrow> nat \<Rightarrow> nat \<Rightarrow> nat" where
  "probe_pos slots pos i = (pos + 8 * tri i) mod slots"

definition probe_block :: "nat \<Rightarrow> nat list" where
  "probe_block pos = seg_hi pos @ seg_lo pos"

definition probe_seq :: "nat \<Rightarrow> nat \<Rightarrow> nat list" where
  "probe_seq slots pos = concat (map (\<lambda>i. probe_block (probe_pos slots pos i)) [0..<slots div 8])"

definition slots_valid :: "nat \<Rightarrow> bool" where
  "slots_valid slots \<longleftrightarrow> (\<exists>k. slots = 2 ^ (k + 3))"

lemma slots_validE:
  assumes "slots_valid slots"
  obtains k where "slots = 8 * 2 ^ k" "slots div 8 = 2 ^ k"
  using assms by (auto simp: slots_valid_def power_add)

lemma and_mask_mod: "slots_valid slots \<Longrightarrow> n AND (slots - 1) = n mod slots"
  by (auto simp: slots_valid_def and.commute take_bit_eq_mod
      simp flip: mask_eq_exp_minus_1 take_bit_eq_mask simp del: One_nat_def)

lemma and_7_mod: "pos AND 7 = (pos mod 8 :: nat)"
proof -
  have "slots_valid 8" unfolding slots_valid_def by (rule exI [of _ 0]) simp
  then show ?thesis using and_mask_mod [of 8 pos] by simp
qed

lemma bucket_base_eq: "bucket_base pos = 8 * (pos div 8)"
  by (simp add: bucket_base_def push_bit_eq_mult drop_bit_eq_div)

lemma set_probe_block: "set (probe_block pos) = {8 * (pos div 8) ..< 8 * (pos div 8) + 8}"
proof -
  have "pos mod 8 \<le> 8" by (simp add: less_imp_le)
  then have "{pos mod 8..<8} \<union> {0..<pos mod 8} = {0..<8}"
    by auto
  then show ?thesis
    unfolding probe_block_def seg_hi_def seg_lo_def bucket_base_eq and_7_mod set_append set_map
      set_upt image_Un [symmetric]
    by (simp add: add.commute)
qed

lemma probe_pos_0: "pos < slots \<Longrightarrow> probe_pos slots pos 0 = pos"
  by (simp add: probe_pos_def)

lemma probe_pos_Suc:
  "slots_valid slots \<Longrightarrow>
    (probe_pos slots pos i + 8 * Suc i) AND (slots - 1) = probe_pos slots pos (Suc i)"
  by (simp only: and_mask_mod probe_pos_def mod_add_left_eq tri_Suc add_mult_distrib2 add.assoc)

lemma set_probe_seq:
  assumes "slots_valid slots"
  shows "set (probe_seq slots pos) = {..<slots}"
proof -
  obtain k where k: "slots = 8 * 2 ^ k" "slots div 8 = 2 ^ k"
    using assms by (rule slots_validE)
  have block: "probe_pos slots pos i div 8 = (pos div 8 + tri i) mod 2 ^ k" for i
  proof -
    have "probe_pos slots pos i div 8 = (pos + 8 * tri i) div 8 mod 2 ^ k"
      unfolding probe_pos_def k(1) by (simp add: mod_mult2_eq)
    then show ?thesis by (simp add: add.commute)
  qed
  have "s \<in> set (probe_seq slots pos) \<longleftrightarrow> s < slots" for s
  proof -
    have "s \<in> set (probe_seq slots pos) \<longleftrightarrow>
        (\<exists>i < 2 ^ k. s div 8 = (pos div 8 + tri i) mod 2 ^ k)"
      by (auto simp: probe_seq_def set_probe_block block k(2) atLeast0LessThan Bex_def)
    also have "\<dots> \<longleftrightarrow> s div 8 < 2 ^ k"
      using tri_mod_surj [of "s div 8" k "pos div 8"] by (metis mod_less_divisor zero_less_numeral
          zero_less_power)
    also have "\<dots> \<longleftrightarrow> s < slots"
      using k(1) by (simp add: div_less_iff_less_mult mult.commute)
    finally show ?thesis .
  qed
  then show ?thesis by blast
qed

section \<open>Probe loops\<close>

text \<open>
  A probe loop scans the two segments of the current bucket, carrying an accumulator, and either
  stops with a result or advances. Its result is that of scanning the whole probe sequence.
\<close>

locale probing =
  fixes slots :: nat
    and scan :: "'a \<Rightarrow> nat list \<Rightarrow> 'r option \<times> 'a"
    and loop :: "'a \<Rightarrow> nat \<Rightarrow> nat \<Rightarrow> 'r option"
  assumes scan_append:
      "scan a (xs @ ys) =
         (case scan a xs of (Some r, b) \<Rightarrow> (Some r, b) | (None, b) \<Rightarrow> scan b ys)"
    and loop_step:
      "loop a pos step =
         (case scan a (probe_block pos) of
            (Some r, b) \<Rightarrow> Some r
          | (None, b) \<Rightarrow> loop b ((pos + step) AND (slots - 1)) (step + 8))"
begin

lemma loop_from:
  assumes "slots_valid slots" and "i + n = slots div 8"
    and "fst (scan a (concat (map (\<lambda>i. probe_block (probe_pos slots pos i)) [i..<slots div 8]))) =
      Some r"
    and "scan a [] = (None, a)"
  shows "loop a (probe_pos slots pos i) (8 * Suc i) = Some r"
  using assms(2-)
proof (induction n arbitrary: i a)
  case 0
  then show ?case by simp
next
  case (Suc n)
  let ?rest = "concat (map (\<lambda>i. probe_block (probe_pos slots pos i)) [Suc i..<slots div 8])"
  have "[i..<slots div 8] = i # [Suc i..<slots div 8]"
    using Suc.prems(1) by (simp add: upt_conv_Cons)
  then have whole: "fst (scan a (probe_block (probe_pos slots pos i) @ ?rest)) = Some r"
    using Suc.prems(2) by simp
  show ?case
  proof (cases "scan a (probe_block (probe_pos slots pos i))")
    case (Pair res b)
    show ?thesis
    proof (cases res)
      case (Some r')
      then show ?thesis
        using whole Pair by (simp add: scan_append loop_step [of a])
    next
      case None
      have "scan a (probe_block (probe_pos slots pos i) @ []) =
          (case scan a (probe_block (probe_pos slots pos i)) of
             (Some r, b) \<Rightarrow> (Some r, b) | (None, b) \<Rightarrow> scan b [])"
        by (rule scan_append)
      then have "scan b [] = (None, b)"
        using Pair None by simp
      moreover have "fst (scan b ?rest) = Some r"
        using whole Pair None by (simp add: scan_append)
      ultimately have "loop b (probe_pos slots pos (Suc i)) (8 * Suc (Suc i)) = Some r"
        using Suc.IH [of "Suc i" b] Suc.prems(1) by simp
      moreover have "8 * Suc i + 8 = 8 * Suc (Suc i)" by simp
      ultimately show ?thesis
        using Pair None probe_pos_Suc [OF assms(1), of pos i] by (simp only: loop_step [of a]) simp
    qed
  qed
qed

lemma loop_eq_scan:
  assumes "slots_valid slots" and "pos < slots"
    and "fst (scan a (probe_seq slots pos)) = Some r" and "scan a [] = (None, a)"
  shows "loop a pos 8 = Some r"
  using loop_from [of 0 "slots div 8" a pos r] assms
  by (simp add: probe_seq_def probe_pos_0)

end

text \<open>The three loops of the index are probe loops.\<close>

lemma find_scan_append:
  "find_scan t eq hash (xs @ ys) =
     (case find_scan t eq hash xs of Some r \<Rightarrow> Some r | None \<Rightarrow> find_scan t eq hash ys)"
  by (induction xs) auto

lemma put_scan_append:
  "put_scan t eq hash tomb (xs @ ys) =
     (case put_scan t eq hash tomb xs of
        (Some r, b) \<Rightarrow> (Some r, b)
      | (None, b) \<Rightarrow> put_scan t eq hash b ys)"
  by (induction xs arbitrary: tomb) auto

lemma free_scan_append:
  "free_scan t (xs @ ys) = (case free_scan t xs of Some r \<Rightarrow> Some r | None \<Rightarrow> free_scan t ys)"
  by (induction xs) auto

interpretation find_probe: probing "slot_count t" "\<lambda>a xs. (find_scan t eq hash xs, a)"
    "\<lambda>a :: unit. find_slot_loop t eq hash"
  for t eq hash
proof (unfold_locales, goal_cases)
  case (1 a xs ys)
  then show ?case by (simp add: find_scan_append split: option.split)
next
  case (2 a pos step)
  then show ?case
    by (subst find_slot_loop.simps) (simp add: probe_block_def find_scan_append split: option.split)
qed

interpretation put_probe: probing "slot_count t"
    "\<lambda>a xs. (case put_scan t eq hash a xs of (r, b) \<Rightarrow> (map_option (\<lambda>x. (x, b)) r, b))"
    "\<lambda>a. put_slot_loop t eq hash a"
  for t eq hash
proof (unfold_locales, goal_cases)
  case (1 a xs ys)
  then show ?case by (simp add: put_scan_append split: option.split prod.split)
next
  case (2 a pos step)
  then show ?case
    by (subst put_slot_loop.simps)
      (simp add: probe_block_def put_scan_append split: option.split prod.split)
qed

interpretation free_probe: probing "slot_count t" "\<lambda>a xs. (free_scan t xs, a)"
    "\<lambda>a :: unit. free_slot_loop t"
  for t
proof (unfold_locales, goal_cases)
  case (1 a xs ys)
  then show ?case by (simp add: free_scan_append split: option.split)
next
  case (2 a pos step)
  then show ?case
    by (subst free_slot_loop.simps) (simp add: probe_block_def free_scan_append split: option.split)
qed

text \<open>The start position of a hash, and the three loops as scans of the probe sequence.\<close>

definition probe_start :: "nat \<Rightarrow> u64 \<Rightarrow> nat" where
  "probe_start slots hash = unat hash mod slots"

lemma stbds_probe_position_eq:
  "slots_valid slots \<Longrightarrow> stbds_probe_position hash slots l = probe_start slots hash"
  unfolding stbds_probe_position_def probe_start_def by (rule and_mask_mod)

lemma probe_start_less: "slots_valid slots \<Longrightarrow> probe_start slots hash < slots"
  by (auto simp: probe_start_def slots_valid_def)

lemma find_slot_loop_eq:
  assumes "slots_valid (slot_count t)"
    and "find_scan t eq hash (probe_seq (slot_count t) (probe_start (slot_count t) hash)) = Some r"
  shows "find_slot_loop t eq hash (stbds_probe_position hash (slot_count t) l) 8 = Some r"
  using find_probe.loop_eq_scan [of t] assms
  by (simp add: stbds_probe_position_eq probe_start_less)

lemma put_slot_loop_eq:
  assumes "slots_valid (slot_count t)"
    and "put_scan t eq hash a (probe_seq (slot_count t) (probe_start (slot_count t) hash)) =
      (Some r, b)"
  shows "put_slot_loop t eq hash a (stbds_probe_position hash (slot_count t) l) 8 = Some (r, b)"
  using put_probe.loop_eq_scan [of t] assms
  by (simp add: stbds_probe_position_eq probe_start_less)

lemma free_slot_loop_eq:
  assumes "slots_valid (slot_count t)"
    and "free_scan t (probe_seq (slot_count t) (probe_start (slot_count t) hash)) = Some r"
  shows "free_slot_loop t (stbds_probe_position hash (slot_count t) l) 8 = Some r"
  using free_probe.loop_eq_scan [of t] assms
  by (simp add: stbds_probe_position_eq probe_start_less)

end
