(* ===== verification/StbIndex.thy ===== *)
theory StbIndex
  imports StbProbe
begin

text \<open>
  Well-formed indexes. \<open>slots_ok N G J st\<close> says that the \<open>N\<close> slots \<open>st\<close> hold exactly the entry
  numbers \<open>J\<close>, entry \<open>j\<close> under the hash \<open>G j\<close>, each once, and that no empty slot precedes an
  entry on its probe path. The lemmas give the result of the three probe loops on such slots and
  show that storing, deleting and renumbering an entry and rebuilding the index keep them so.
\<close>

section \<open>The invariant of the slots\<close>

definition path_to :: "nat \<Rightarrow> u64 \<Rightarrow> nat \<Rightarrow> nat set" where
  "path_to slots hash s =
     set (takeWhile (\<lambda>x. x \<noteq> s) (probe_seq slots (probe_start slots hash)))"

definition slots_ok :: "nat \<Rightarrow> (nat \<Rightarrow> u64) \<Rightarrow> nat set \<Rightarrow> (u64 \<times> int) list \<Rightarrow> bool" where
  "slots_ok N G J st \<longleftrightarrow>
     slots_valid N \<and> length st = N \<and> finite J \<and>
     (\<forall>s < N. st ! s = (0, -1) \<or> st ! s = (1, -2) \<or> (\<exists>j \<in> J. st ! s = (G j, int j))) \<and>
     (\<forall>j \<in> J. 2 \<le> G j \<and>
        (\<exists>s < N. st ! s = (G j, int j) \<and> (\<forall>x \<in> path_to N (G j) s. fst (st ! x) \<noteq> 0))) \<and>
     (\<forall>s < N. \<forall>s' < N. 0 \<le> snd (st ! s) \<longrightarrow> snd (st ! s) = snd (st ! s') \<longrightarrow> s = s')"

definition tombs :: "(u64 \<times> int) list \<Rightarrow> nat set" where
  "tombs st = {s. s < length st \<and> fst (st ! s) = 1}"

lemma path_to_less: "slots_valid N \<Longrightarrow> x \<in> path_to N h s \<Longrightarrow> x < N"
  unfolding path_to_def by (metis set_takeWhileD set_probe_seq lessThan_iff)

lemma slots_okD:
  assumes "slots_ok N G J st"
  shows "slots_valid N" "length st = N" "finite J"
    "\<And>s. s < N \<Longrightarrow> st ! s = (0, -1) \<or> st ! s = (1, -2) \<or> (\<exists>j \<in> J. st ! s = (G j, int j))"
    "\<And>j. j \<in> J \<Longrightarrow> 2 \<le> G j"
    "\<And>s s'. s < N \<Longrightarrow> s' < N \<Longrightarrow> 0 \<le> snd (st ! s) \<Longrightarrow> snd (st ! s) = snd (st ! s') \<Longrightarrow> s = s'"
  using assms unfolding slots_ok_def by blast+

lemma slots_ok_slotE:
  assumes "slots_ok N G J st" and "j \<in> J"
  obtains s where "s < N" "st ! s = (G j, int j)"
    "\<And>x. x \<in> path_to N (G j) s \<Longrightarrow> fst (st ! x) \<noteq> 0"
  using assms unfolding slots_ok_def by blast

lemma word_ge_2_neq: "2 \<le> (h :: u64) \<Longrightarrow> h \<noteq> 0 \<and> h \<noteq> 1"
  by (auto simp: word_le_nat_alt)

lemma slots_ok_indexD:
  assumes ok: "slots_ok N G J st" and s: "s < N" and h: "fst (st ! s) = h" "2 \<le> h"
  obtains j where "j \<in> J" "G j = h" "st ! s = (h, int j)"
  using slots_okD(4) [OF ok s] h word_ge_2_neq by fastforce

lemma slots_ok_cong:
  "(\<And>j. j \<in> J \<Longrightarrow> G j = G' j) \<Longrightarrow> slots_ok N G J st \<Longrightarrow> slots_ok N G' J st"
  by (simp add: slots_ok_def cong: ball_cong bex_cong)

lemma slots_ok_blank:
  assumes "slots_valid N"
  shows "slots_ok N G {} (replicate N (0, -1))" and "tombs (replicate N (0, -1)) = {}"
  using assms by (auto simp: slots_ok_def tombs_def)

lemma exists_empty_slot:
  assumes ok: "slots_ok N G J st" and few: "card J + card (tombs st) < N"
  shows "\<exists>s < N. fst (st ! s) = 0"
proof (rule ccontr)
  assume none: "\<not> ?thesis"
  define U where "U = {s. s < N \<and> 0 \<le> snd (st ! s)}"
  have "card U \<le> card J"
  proof (rule card_inj_on_le [of "\<lambda>s. nat (snd (st ! s))"])
    show "inj_on (\<lambda>s. nat (snd (st ! s))) U"
      by (rule inj_onI) (use slots_okD(6) [OF ok] in \<open>auto simp: U_def\<close>)
    show "(\<lambda>s. nat (snd (st ! s))) ` U \<subseteq> J"
      using slots_okD(4) [OF ok] by (force simp: U_def)
    show "finite J" by (rule slots_okD(3) [OF ok])
  qed
  moreover have "{..<N} \<subseteq> U \<union> tombs st"
  proof
    fix s assume "s \<in> {..<N}"
    then have s: "s < N" by simp
    show "s \<in> U \<union> tombs st"
      using slots_okD(4) [OF ok s] none s slots_okD(2) [OF ok] by (auto simp: U_def tombs_def)
  qed
  then have "N \<le> card (U \<union> tombs st)"
    using card_mono [of "U \<union> tombs st" "{..<N}"] by (simp add: U_def tombs_def)
  moreover have "card (U \<union> tombs st) \<le> card U + card (tombs st)"
    by (rule card_Un_le)
  ultimately show False using few by linarith
qed

section \<open>Splitting the probe sequence at a slot\<close>

lemma probe_seq_split:
  assumes "slots_valid N" "s < N"
  obtains ys where "probe_seq N (probe_start N h) =
      takeWhile (\<lambda>x. x \<noteq> s) (probe_seq N (probe_start N h)) @ s # ys"
proof -
  let ?q = "probe_seq N (probe_start N h)"
  have "s \<in> set ?q"
    using assms set_probe_seq by blast
  then have "dropWhile (\<lambda>x. x \<noteq> s) ?q \<noteq> []"
    by (simp add: dropWhile_eq_Nil_conv)
  then have "hd (dropWhile (\<lambda>x. x \<noteq> s) ?q) = s"
    using hd_dropWhile by blast
  then have "?q = takeWhile (\<lambda>x. x \<noteq> s) ?q @ s # tl (dropWhile (\<lambda>x. x \<noteq> s) ?q)"
    using \<open>dropWhile (\<lambda>x. x \<noteq> s) ?q \<noteq> []\<close> by (metis list.collapse takeWhile_dropWhile_id)
  then show ?thesis by (rule that)
qed

text \<open>A slot that a scan reaches is preceded on the path only by what the scan went past.\<close>

lemma path_to_prefix:
  assumes "probe_seq N (probe_start N h) = xs @ s # ys"
  shows "path_to N h s \<subseteq> set xs"
proof -
  have "takeWhile (\<lambda>x. x \<noteq> s) (xs @ s # ys) = takeWhile (\<lambda>x. x \<noteq> s) xs"
    by (induction xs) auto
  then show ?thesis
    unfolding path_to_def assms by (metis set_takeWhileD subsetI)
qed

section \<open>What the scans return\<close>

definition no_match :: "stbds_hash_index \<Rightarrow> (int \<Rightarrow> bool) \<Rightarrow> u64 \<Rightarrow> nat \<Rightarrow> bool" where
  "no_match t eq h s \<longleftrightarrow> \<not> (slot_hash t s = h \<and> eq (slot_index t s))"

lemma find_scan_skip:
  "(\<And>x. x \<in> set xs \<Longrightarrow> slot_hash t x \<noteq> 0 \<and> no_match t eq h x) \<Longrightarrow>
    find_scan t eq h (xs @ ys) = find_scan t eq h ys"
  by (induction xs) (auto simp: no_match_def)

lemma find_scan_none:
  "h \<noteq> 0 \<Longrightarrow> (\<And>x. x \<in> set xs \<Longrightarrow> no_match t eq h x) \<Longrightarrow>
    (\<exists>x \<in> set xs. slot_hash t x = 0) \<Longrightarrow> find_scan t eq h xs = Some (-1)"
  by (induction xs) (auto simp: no_match_def)

lemma put_scan_skip:
  "(\<And>x. x \<in> set xs \<Longrightarrow> slot_hash t x \<noteq> 0 \<and> no_match t eq h x) \<Longrightarrow>
    \<exists>b. put_scan t eq h a (xs @ ys) = put_scan t eq h b ys"
  by (induction xs arbitrary: a) (auto simp: no_match_def)

lemma put_scan_tomb:
  "0 \<le> a \<Longrightarrow> h \<noteq> 0 \<Longrightarrow> (\<And>x. x \<in> set xs \<Longrightarrow> no_match t eq h x) \<Longrightarrow>
    (\<exists>x \<in> set xs. slot_hash t x = 0) \<Longrightarrow> \<exists>s. put_scan t eq h a xs = (Some (PutEmpty s), a)"
  by (induction xs) (auto simp: no_match_def)

text \<open>The slot an insertion stores to: the first tombstone before the empty slot, else that slot.\<close>

definition put_target :: "nat \<Rightarrow> int \<Rightarrow> nat" where
  "put_target s tomb = (if 0 \<le> tomb then nat tomb else s)"

lemma put_scan_none:
  assumes "h \<noteq> 0" and "\<And>x. x \<in> set xs \<Longrightarrow> no_match t eq h x"
    and "\<exists>x \<in> set xs. slot_hash t x = 0"
  shows "\<exists>s tomb ps qs. put_scan t eq h (-1) xs = (Some (PutEmpty s), tomb) \<and>
    xs = ps @ put_target s tomb # qs \<and> (\<forall>x \<in> set ps. slot_hash t x \<noteq> 0) \<and>
    (if 0 \<le> tomb then slot_index t (put_target s tomb) = -2
     else slot_hash t (put_target s tomb) = 0)"
  using assms(2,3)
proof (induction xs)
  case Nil
  then show ?case by simp
next
  case (Cons y ys)
  consider "slot_hash t y = 0" | "slot_hash t y \<noteq> 0" "slot_hash t y \<noteq> h" "slot_index t y = -2"
    | "slot_hash t y \<noteq> 0" "slot_hash t y = h \<or> slot_index t y \<noteq> -2"
    by blast
  then show ?case
  proof cases
    case 1
    then have "put_scan t eq h (-1) (y # ys) = (Some (PutEmpty y), -1)"
      using assms(1) by auto
    then show ?thesis
      using 1 by (intro exI [of _ y] exI [of _ "-1"] exI [of _ "[]"] exI [of _ ys])
        (simp add: put_target_def)
  next
    case 2
    then obtain s where "put_scan t eq h (int y) ys = (Some (PutEmpty s), int y)"
      using put_scan_tomb [of "int y" h ys t eq] Cons.prems assms(1) by auto
    then have "put_scan t eq h (-1) (y # ys) = (Some (PutEmpty s), int y)"
      using 2 by simp
    then show ?thesis
      using 2 by (intro exI [of _ s] exI [of _ "int y"] exI [of _ "[]"] exI [of _ ys])
        (simp add: put_target_def)
  next
    case 3
    then have "put_scan t eq h (-1) (y # ys) = put_scan t eq h (-1) ys"
      using Cons.prems(1) [of y] by (auto simp: no_match_def)
    moreover obtain s tomb ps qs where
      "put_scan t eq h (-1) ys = (Some (PutEmpty s), tomb)" "ys = ps @ put_target s tomb # qs"
      "\<forall>x \<in> set ps. slot_hash t x \<noteq> 0"
      "if 0 \<le> tomb then slot_index t (put_target s tomb) = -2
       else slot_hash t (put_target s tomb) = 0"
      using Cons.IH Cons.prems 3 by auto
    ultimately show ?thesis
      using 3 by (intro exI [of _ s] exI [of _ tomb] exI [of _ "y # ps"] exI [of _ qs]) auto
  qed
qed

lemma free_scan_some:
  "(\<exists>x \<in> set xs. slot_hash t x = 0) \<Longrightarrow>
    \<exists>s ps qs. free_scan t xs = Some s \<and> xs = ps @ s # qs \<and> slot_hash t s = 0 \<and>
      (\<forall>x \<in> set ps. slot_hash t x \<noteq> 0)"
proof (induction xs)
  case (Cons y ys)
  show ?case
  proof (cases "slot_hash t y = 0")
    case True
    then show ?thesis by (intro exI [of _ y] exI [of _ "[]"] exI [of _ ys]) simp
  next
    case False
    then obtain s ps qs where "free_scan t ys = Some s" "ys = ps @ s # qs" "slot_hash t s = 0"
      "\<forall>x \<in> set ps. slot_hash t x \<noteq> 0"
      using Cons by auto
    then show ?thesis
      using False by (intro exI [of _ s] exI [of _ "y # ps"] exI [of _ qs]) auto
  qed
qed simp

section \<open>The probe loops on well-formed slots\<close>

text \<open>\<open>eq\<close> decides, for the entries in the table, whether they have the key looked for, whose hash
  is \<open>h\<close>: it can only answer yes at an entry stored under \<open>h\<close>.\<close>

lemma seq_less:
  "slots_ok N G J st \<Longrightarrow> x \<in> set (probe_seq N p) \<Longrightarrow> x < N"
  using set_probe_seq [OF slots_okD(1)] by auto

lemma match_entry:
  assumes ok: "slots_ok (slot_count t) G J (storage t)" and h_ge_2: "2 \<le> h"
    and s: "s < slot_count t" and "\<not> no_match t eq h s"
  obtains j where "j \<in> J" "G j = h" "eq (int j)" "storage t ! s = (h, int j)"
proof -
  have "fst (storage t ! s) = h" and e: "eq (snd (storage t ! s))"
    using assms(4) by (auto simp: no_match_def slot_hash_def slot_index_def)
  then show ?thesis
    using slots_ok_indexD [OF ok s _ h_ge_2] that by (metis snd_conv)
qed

lemma reach_entry:
  assumes ok: "slots_ok (slot_count t) G J (storage t)" and h_ge_2: "2 \<le> h"
    and j: "j \<in> J" "G j = h" "eq (int j)"
    and only: "\<And>j'. j' \<in> J \<Longrightarrow> G j' = h \<Longrightarrow> eq (int j') \<Longrightarrow> j' = j"
  obtains s ps ys where "s < slot_count t" "storage t ! s = (h, int j)"
    "probe_seq (slot_count t) (probe_start (slot_count t) h) = ps @ s # ys"
    "\<And>x. x \<in> set ps \<Longrightarrow> slot_hash t x \<noteq> 0 \<and> no_match t eq h x"
proof -
  let ?q = "probe_seq (slot_count t) (probe_start (slot_count t) h)"
  obtain s where s: "s < slot_count t" "storage t ! s = (h, int j)"
    and path: "\<And>x. x \<in> path_to (slot_count t) h s \<Longrightarrow> fst (storage t ! x) \<noteq> 0"
    using slots_ok_slotE [OF ok j(1)] j(2) by metis
  obtain ys where split: "?q = takeWhile (\<lambda>x. x \<noteq> s) ?q @ s # ys"
    by (rule probe_seq_split [OF slots_okD(1) [OF ok] s(1)])
  have "slot_hash t x \<noteq> 0 \<and> no_match t eq h x" if x: "x \<in> set (takeWhile (\<lambda>x. x \<noteq> s) ?q)" for x
  proof
    show "slot_hash t x \<noteq> 0"
      using path x by (simp add: path_to_def slot_hash_def)
    have less: "x < slot_count t" and "x \<noteq> s"
      using x seq_less [OF ok] by (auto dest: set_takeWhileD)
    show "no_match t eq h x"
    proof (rule ccontr)
      assume "\<not> no_match t eq h x"
      then obtain j' where "j' \<in> J" "G j' = h" "eq (int j')" "storage t ! x = (h, int j')"
        using match_entry [OF ok h_ge_2 less] by blast
      then have "storage t ! x = (h, int j)" using only by auto
      then have "x = s" using slots_okD(6) [OF ok less s(1)] s(2) by simp
      then show False using \<open>x \<noteq> s\<close> by simp
    qed
  qed
  then show ?thesis using that [OF s split] by blast
qed

lemma find_slot_present:
  assumes ok: "slots_ok (slot_count t) G J (storage t)" and h_ge_2: "2 \<le> h"
    and j: "j \<in> J" "G j = h" "eq (int j)"
    and only: "\<And>j'. j' \<in> J \<Longrightarrow> G j' = h \<Longrightarrow> eq (int j') \<Longrightarrow> j' = j"
  shows "\<exists>s < slot_count t. storage t ! s = (h, int j) \<and>
    find_slot_loop t eq h (stbds_probe_position h (slot_count t) l) 8 = Some (int s)"
proof -
  obtain s ps ys where s: "s < slot_count t" "storage t ! s = (h, int j)"
    and q: "probe_seq (slot_count t) (probe_start (slot_count t) h) = ps @ s # ys"
    and ps: "\<And>x. x \<in> set ps \<Longrightarrow> slot_hash t x \<noteq> 0 \<and> no_match t eq h x"
    by (rule reach_entry [OF ok h_ge_2, of j eq]) (use j only in blast)+
  have "find_scan t eq h (ps @ s # ys) = Some (int s)"
    using find_scan_skip [of ps t eq h "s # ys"] ps s(2) j(3)
    by (simp add: slot_hash_def slot_index_def)
  then show ?thesis
    using find_slot_loop_eq [OF slots_okD(1) [OF ok], of eq h] q s by auto
qed

lemma put_slot_present:
  assumes ok: "slots_ok (slot_count t) G J (storage t)" and h_ge_2: "2 \<le> h"
    and j: "j \<in> J" "G j = h" "eq (int j)"
    and only: "\<And>j'. j' \<in> J \<Longrightarrow> G j' = h \<Longrightarrow> eq (int j') \<Longrightarrow> j' = j"
  shows "\<exists>s tomb. storage t ! s = (h, int j) \<and>
    put_slot_loop t eq h (-1) (stbds_probe_position h (slot_count t) l) 8 =
      Some (PutFound s, tomb)"
proof -
  obtain s ps ys where s: "s < slot_count t" "storage t ! s = (h, int j)"
    and q: "probe_seq (slot_count t) (probe_start (slot_count t) h) = ps @ s # ys"
    and ps: "\<And>x. x \<in> set ps \<Longrightarrow> slot_hash t x \<noteq> 0 \<and> no_match t eq h x"
    by (rule reach_entry [OF ok h_ge_2, of j eq]) (use j only in blast)+
  obtain b where "put_scan t eq h (-1) (ps @ s # ys) = put_scan t eq h b (s # ys)"
    using put_scan_skip [of ps t eq h "-1" "s # ys"] ps by blast
  then have "put_scan t eq h (-1) (ps @ s # ys) = (Some (PutFound s), b)"
    using s(2) j(3) by (simp add: slot_hash_def slot_index_def)
  then show ?thesis
    using put_slot_loop_eq [OF slots_okD(1) [OF ok], of eq h] q s by auto
qed

lemma absent_no_match:
  assumes ok: "slots_ok (slot_count t) G J (storage t)" and h_ge_2: "2 \<le> h"
    and absent: "\<And>j. j \<in> J \<Longrightarrow> G j = h \<Longrightarrow> \<not> eq (int j)" and x: "x < slot_count t"
  shows "no_match t eq h x"
  using match_entry [OF ok h_ge_2 x] absent by metis

lemma find_slot_absent:
  assumes ok: "slots_ok (slot_count t) G J (storage t)" and h_ge_2: "2 \<le> h"
    and absent: "\<And>j. j \<in> J \<Longrightarrow> G j = h \<Longrightarrow> \<not> eq (int j)"
    and few: "card J + card (tombs (storage t)) < slot_count t"
  shows "find_slot_loop t eq h (stbds_probe_position h (slot_count t) l) 8 = Some (-1)"
proof -
  let ?q = "probe_seq (slot_count t) (probe_start (slot_count t) h)"
  have "\<exists>x \<in> set ?q. slot_hash t x = 0"
    using exists_empty_slot [OF ok few] set_probe_seq [OF slots_okD(1) [OF ok]]
    by (auto simp: slot_hash_def)
  then have "find_scan t eq h ?q = Some (-1)"
    using find_scan_none [of h ?q t eq] word_ge_2_neq [OF h_ge_2] seq_less [OF ok]
      absent_no_match [OF ok h_ge_2, of eq] absent by blast
  then show ?thesis by (rule find_slot_loop_eq [OF slots_okD(1) [OF ok]])
qed

lemma put_slot_absent:
  assumes ok: "slots_ok (slot_count t) G J (storage t)" and h_ge_2: "2 \<le> h"
    and absent: "\<And>j. j \<in> J \<Longrightarrow> G j = h \<Longrightarrow> \<not> eq (int j)"
    and few: "card J + card (tombs (storage t)) < slot_count t"
  shows "\<exists>s tomb. put_slot_loop t eq h (-1) (stbds_probe_position h (slot_count t) l) 8 =
      Some (PutEmpty s, tomb) \<and> put_target s tomb < slot_count t \<and>
    (\<forall>x \<in> path_to (slot_count t) h (put_target s tomb). fst (storage t ! x) \<noteq> 0) \<and>
    (if 0 \<le> tomb then storage t ! put_target s tomb = (1, -2)
     else storage t ! put_target s tomb = (0, -1))"
proof -
  let ?q = "probe_seq (slot_count t) (probe_start (slot_count t) h)"
  have "\<exists>x \<in> set ?q. slot_hash t x = 0"
    using exists_empty_slot [OF ok few] set_probe_seq [OF slots_okD(1) [OF ok]]
    by (auto simp: slot_hash_def)
  then obtain s tomb ps qs where scan: "put_scan t eq h (-1) ?q = (Some (PutEmpty s), tomb)"
    and q: "?q = ps @ put_target s tomb # qs" and ps: "\<forall>x \<in> set ps. slot_hash t x \<noteq> 0"
    and free: "if 0 \<le> tomb then slot_index t (put_target s tomb) = -2
       else slot_hash t (put_target s tomb) = 0"
    using put_scan_none [of h ?q t eq] word_ge_2_neq [OF h_ge_2] seq_less [OF ok]
      absent_no_match [OF ok h_ge_2, of eq] absent by blast
  have less: "put_target s tomb < slot_count t"
    using seq_less [OF ok, of "put_target s tomb" "probe_start (slot_count t) h"] q by simp
  have "put_slot_loop t eq h (-1) (stbds_probe_position h (slot_count t) l) 8 =
      Some (PutEmpty s, tomb)"
    by (rule put_slot_loop_eq [OF slots_okD(1) [OF ok] scan])
  moreover have "\<forall>x \<in> path_to (slot_count t) h (put_target s tomb). fst (storage t ! x) \<noteq> 0"
    using path_to_prefix [OF q] ps by (auto simp: slot_hash_def)
  moreover have "if 0 \<le> tomb then storage t ! put_target s tomb = (1, -2)
     else storage t ! put_target s tomb = (0, -1)"
    using free slots_okD(4) [OF ok less] slots_okD(5) [OF ok] word_ge_2_neq
    by (auto simp: slot_hash_def slot_index_def)
  ultimately show ?thesis using less by blast
qed

lemma free_slot_some:
  assumes ok: "slots_ok (slot_count t) G J (storage t)" and h_ge_2: "2 \<le> h"
    and few: "card J + card (tombs (storage t)) < slot_count t"
  shows "\<exists>s < slot_count t. free_slot_loop t (stbds_probe_position h (slot_count t) l) 8 = Some s \<and>
    storage t ! s = (0, -1) \<and> (\<forall>x \<in> path_to (slot_count t) h s. fst (storage t ! x) \<noteq> 0)"
proof -
  let ?q = "probe_seq (slot_count t) (probe_start (slot_count t) h)"
  have "\<exists>x \<in> set ?q. slot_hash t x = 0"
    using exists_empty_slot [OF ok few] set_probe_seq [OF slots_okD(1) [OF ok]]
    by (auto simp: slot_hash_def)
  then obtain s ps qs where scan: "free_scan t ?q = Some s" and q: "?q = ps @ s # qs"
    and s0: "slot_hash t s = 0" and ps: "\<forall>x \<in> set ps. slot_hash t x \<noteq> 0"
    using free_scan_some by blast
  have less: "s < slot_count t"
    using seq_less [OF ok, of s "probe_start (slot_count t) h"] q by simp
  have "storage t ! s = (0, -1)"
    using s0 slots_okD(4) [OF ok less] slots_okD(5) [OF ok] word_ge_2_neq
    by (auto simp: slot_hash_def)
  moreover have "\<forall>x \<in> path_to (slot_count t) h s. fst (storage t ! x) \<noteq> 0"
    using path_to_prefix [OF q] ps by (auto simp: slot_hash_def)
  ultimately show ?thesis
    using less free_slot_loop_eq [OF slots_okD(1) [OF ok] scan] by blast
qed

section \<open>Updating the slots\<close>

lemma tombs_update:
  "p < length st \<Longrightarrow> tombs (st[p := x]) = (if fst x = 1 then insert p (tombs st) else tombs st - {p})"
  by (auto simp: tombs_def nth_list_update)

lemma finite_tombs [simp]: "finite (tombs st)"
  by (simp add: tombs_def)

lemma slots_ok_store:
  assumes ok: "slots_ok N G J st" and p: "p < N" "snd (st ! p) < 0" and j: "j \<notin> J"
    and h: "2 \<le> G j" and path: "\<forall>x \<in> path_to N (G j) p. fst (st ! x) \<noteq> 0"
  shows "slots_ok N G (insert j J) (st[p := (G j, int j)])"
proof -
  note D = slots_okD [OF ok]
  have nth: "st[p := (G j, int j)] ! s = (if s = p then (G j, int j) else st ! s)" if "s < N" for s
    using that D(2) by (simp add: nth_list_update)
  have fresh: "snd (st ! s) \<noteq> int j" if "s < N" for s
    using D(4) [OF that] j by auto
  have entry: "\<exists>s < N. st[p := (G j, int j)] ! s = (G i, int i) \<and>
      (\<forall>x \<in> path_to N (G i) s. fst (st[p := (G j, int j)] ! x) \<noteq> 0)" if "i \<in> insert j J" for i
  proof (cases "i = j")
    case True
    then show ?thesis
      using path p(1) word_ge_2_neq [OF h] path_to_less [OF D(1)] by (intro exI [of _ p]) (auto simp: nth)
  next
    case False
    with that have "i \<in> J" by simp
    then obtain s where "s < N" "st ! s = (G i, int i)"
      "\<And>x. x \<in> path_to N (G i) s \<Longrightarrow> fst (st ! x) \<noteq> 0"
      by (rule slots_ok_slotE [OF ok]) blast
    moreover from this p(2) have "s \<noteq> p" by auto
    ultimately show ?thesis
      using word_ge_2_neq [OF h] path_to_less [OF D(1)] by (intro exI [of _ s]) (auto simp: nth)
  qed
  show ?thesis
    unfolding slots_ok_def
  proof (intro conjI)
    show "\<forall>s < N. st[p := (G j, int j)] ! s = (0, -1) \<or> st[p := (G j, int j)] ! s = (1, -2) \<or>
        (\<exists>i \<in> insert j J. st[p := (G j, int j)] ! s = (G i, int i))"
      using D(4) by (auto simp: nth)
    show "\<forall>s < N. \<forall>s' < N. 0 \<le> snd (st[p := (G j, int j)] ! s) \<longrightarrow>
        snd (st[p := (G j, int j)] ! s) = snd (st[p := (G j, int j)] ! s') \<longrightarrow> s = s'"
      using D(6) fresh fresh [THEN not_sym] by (auto simp: nth)
  qed (use D h entry in auto)
qed

lemma slots_ok_delete:
  assumes ok: "slots_ok N G J st" and p: "p < N" "st ! p = (G j, int j)"
  shows "slots_ok N G (J - {j}) (st[p := (1, -2)])"
proof -
  note D = slots_okD [OF ok]
  have nth: "st[p := (1, -2)] ! s = (if s = p then (1, -2) else st ! s)" if "s < N" for s
    using that D(2) by (simp add: nth_list_update)
  have only: "st ! s = (G j, int j) \<Longrightarrow> s = p" if "s < N" for s
    using D(6) [OF that p(1)] p(2) by simp
  have entry: "\<exists>s < N. st[p := (1, -2)] ! s = (G i, int i) \<and>
      (\<forall>x \<in> path_to N (G i) s. fst (st[p := (1, -2)] ! x) \<noteq> 0)" if "i \<in> J - {j}" for i
  proof -
    obtain s where "s < N" "st ! s = (G i, int i)"
      "\<And>x. x \<in> path_to N (G i) s \<Longrightarrow> fst (st ! x) \<noteq> 0"
      using slots_ok_slotE [OF ok] \<open>i \<in> J - {j}\<close> by blast
    moreover from this p(2) have "s \<noteq> p" using that by auto
    ultimately show ?thesis
      using path_to_less [OF D(1)] by (intro exI [of _ s]) (auto simp: nth)
  qed
  show ?thesis
    unfolding slots_ok_def
  proof (intro conjI)
    show "\<forall>s < N. st[p := (1, -2)] ! s = (0, -1) \<or> st[p := (1, -2)] ! s = (1, -2) \<or>
        (\<exists>i \<in> J - {j}. st[p := (1, -2)] ! s = (G i, int i))"
      using D(4) only by (fastforce simp: nth)
    show "\<forall>s < N. \<forall>s' < N. 0 \<le> snd (st[p := (1, -2)] ! s) \<longrightarrow>
        snd (st[p := (1, -2)] ! s) = snd (st[p := (1, -2)] ! s') \<longrightarrow> s = s'"
      using D(6) by (auto simp: nth)
  qed (use D entry in auto)
qed

text \<open>Renumbering an entry: \<open>old\<close> takes the place of \<open>j\<close>, under the same hash.\<close>

lemma slots_ok_renumber:
  assumes ok: "slots_ok N G J st" and p: "p < N" "st ! p = (G j, int j)"
    and j: "j \<in> J" and new: "new \<notin> J"
  shows "slots_ok N (G(new := G j)) (insert new (J - {j})) (st[p := (G j, int new)])"
proof -
  note D = slots_okD [OF ok]
  let ?st = "st[p := (1, -2)]" and ?G = "G(new := G j)"
  have path: "\<forall>x \<in> path_to N (?G new) p. fst (?st ! x) \<noteq> 0"
  proof -
    obtain s where s: "s < N" "st ! s = (G j, int j)"
      "\<And>x. x \<in> path_to N (G j) s \<Longrightarrow> fst (st ! x) \<noteq> 0"
      using slots_ok_slotE [OF ok j] by blast
    have "s = p" using D(6) [OF s(1) p(1)] s(2) p(2) by simp
    then show ?thesis
      using s(3) D(2) p(1) by (auto simp: nth_list_update)
  qed
  have "slots_ok N ?G (J - {j}) ?st"
    by (rule slots_ok_cong [OF _ slots_ok_delete [OF ok p]]) (use new in auto)
  then have "slots_ok N ?G (insert new (J - {j})) (?st[p := (?G new, int new)])"
    by (rule slots_ok_store [OF _ p(1)]) (use D(2,5) p new j path in auto)
  then show ?thesis by simp
qed

section \<open>Rebuilding an index\<close>

definition in_use :: "(u64 \<times> int) list \<Rightarrow> nat set" where
  "in_use old = {j. int j \<in> snd ` set old}"

lemma in_use_simps [simp]:
  "in_use [] = {}"
  "in_use ((h, i) # old) = (if 0 \<le> i then insert (nat i) (in_use old) else in_use old)"
  by (auto simp: in_use_def)

lemma finite_in_use [simp]: "finite (in_use old)"
  by (induction old) auto

lemma store_slot_simps [simp]:
  "storage (store_slot t s h i) = (storage t)[s := (h, i)]"
  "slot_count (store_slot t s h i) = slot_count t"
  by (simp_all add: store_slot_def)

lemma rehash_ok:
  assumes "slots_ok (slot_count t) G J (storage t)" and "tombs (storage t) = {}"
    and "\<And>h i. (h, i) \<in> set old \<Longrightarrow> 0 \<le> i \<Longrightarrow> h = G (nat i) \<and> 2 \<le> h"
    and "distinct (filter (\<lambda>i. 0 \<le> i) (map snd old))" and "J \<inter> in_use old = {}"
    and "card J + card (in_use old) < slot_count t"
  shows "\<exists>st. rehash t old = Some (t\<lparr>storage := st\<rparr>) \<and>
    slots_ok (slot_count t) G (J \<union> in_use old) st \<and> tombs st = {}"
  using assms
proof (induction old arbitrary: t J)
  case Nil
  then show ?case by (intro exI [of _ "storage t"]) simp
next
  case (Cons e old)
  obtain h i where e: "e = (h, i)" by (cases e)
  show ?case
  proof (cases "0 \<le> i")
    case False
    then show ?thesis using Cons.IH [OF Cons.prems(1,2)] Cons.prems(3-) by (simp add: e)
  next
    case True
    define j where "j = nat i"
    have j: "int j = i" "j \<notin> J" "h = G j" "2 \<le> G j" "j \<notin> in_use old"
      using Cons.prems(3) [of h i] Cons.prems(4,5) True
      by (auto simp: e j_def in_use_def image_iff)
    have card: "card (insert j (in_use old)) = Suc (card (in_use old))"
      using j(5) by simp
    have "card J + card (tombs (storage t)) < slot_count t"
      using Cons.prems(2,6) by simp
    then obtain s where s: "s < slot_count t" "storage t ! s = (0, -1)"
      "free_slot_loop t (stbds_probe_position h (slot_count t) (slot_count_log2 t)) 8 = Some s"
      "\<forall>x \<in> path_to (slot_count t) (G j) s. fst (storage t ! x) \<noteq> 0"
      using free_slot_some [OF Cons.prems(1) j(4)] j(3) by blast
    let ?t = "store_slot t s h i"
    have ok: "slots_ok (slot_count ?t) G (insert j J) (storage ?t)"
      using slots_ok_store [OF Cons.prems(1) s(1) _ j(2,4) s(4)] s(2) j by simp
    have tombs: "tombs (storage ?t) = {}"
      using tombs_update [of s "storage t" "(h, i)"] s(1) slots_okD(2) [OF Cons.prems(1)]
        Cons.prems(2) j word_ge_2_neq by auto
    have "distinct (filter (\<lambda>i. 0 \<le> i) (map snd old))"
      using Cons.prems(4) by (simp add: e split: if_splits)
    moreover have "insert j J \<inter> in_use old = {}"
      using Cons.prems(5) j(5) by (auto simp: e True)
    moreover have "card (insert j J) + card (in_use old) < slot_count ?t"
      using Cons.prems(6) card j(2) slots_okD(3) [OF Cons.prems(1)] True by (simp add: e j_def)
    ultimately obtain st where st: "rehash ?t old = Some (?t\<lparr>storage := st\<rparr>)"
      "slots_ok (slot_count ?t) G (insert j J \<union> in_use old) st" "tombs st = {}"
      using Cons.IH [OF ok tombs] Cons.prems(3) by (meson list.set_intros(2))
    have "rehash t (e # old) = Some (t\<lparr>storage := st\<rparr>)"
      using True s(3) st(1) by (simp add: e store_slot_def)
    moreover have "J \<union> in_use (e # old) = insert j J \<union> in_use old"
      using True by (simp add: e j_def)
    ultimately show ?thesis
      using st by (intro exI [of _ st]) simp
  qed
qed

end
