(* ===== verification/StbMap.thy ===== *)
theory StbMap
  imports StbIndex
begin

text \<open>
  The dynamic arrays and hash maps of \<^verbatim>\<open>stb_ds.h\<close>. An array is its header (capacity, index,
  \<^verbatim>\<open>temp\<close>) and the list of its live elements; the C \<^verbatim>\<open>length\<close> is the length of that list, and
  \<^verbatim>\<open>NULL\<close> is \<open>None\<close>. A map is such an array whose element 0 is the default element and whose
  element \<open>i + 1\<close> is entry \<open>i\<close>: a key (its bytes) and a value, \<open>None\<close> while the value's memory is
  not written. The refinement lemmas show that on every well-formed map \<^verbatim>\<open>hmgeti\<close>, \<^verbatim>\<open>hmput\<close> and
  \<^verbatim>\<open>hmdel\<close> stop, keep the map well-formed and act on the entry list as position search,
  update-or-append and swap-removal.
\<close>

section \<open>Dynamic arrays\<close>

record 'e stbds_array =
  capacity :: nat
  hash_table :: "stbds_hash_index option"
  temp :: int
  elems :: "'e list"

definition stbds_arrlen :: "'e stbds_array option \<Rightarrow> nat" where
  "stbds_arrlen a = (case a of None \<Rightarrow> 0 | Some x \<Rightarrow> length (elems x))"

definition stbds_arrcap :: "'e stbds_array option \<Rightarrow> nat" where
  "stbds_arrcap a = (case a of None \<Rightarrow> 0 | Some x \<Rightarrow> capacity x)"

definition stbds_arrgrowf :: "'e stbds_array option \<Rightarrow> nat \<Rightarrow> nat \<Rightarrow> 'e stbds_array option" where
  "stbds_arrgrowf a addlen min_cap =
     (let min_len = stbds_arrlen a + addlen;
          min_cap = (if min_cap < min_len then min_len else min_cap)
      in if min_cap \<le> stbds_arrcap a then a
         else
           (let min_cap = (if min_cap < 2 * stbds_arrcap a then 2 * stbds_arrcap a
                           else if min_cap < 4 then 4 else min_cap)
            in Some (case a of
                 None \<Rightarrow> \<lparr>capacity = min_cap, hash_table = None, temp = 0, elems = []\<rparr>
               | Some x \<Rightarrow> x\<lparr>capacity := min_cap\<rparr>)))"

section \<open>Keys and lookup\<close>

datatype hm_mode = STBDS_HM_BINARY | STBDS_HM_STRING

type_synonym 'v hm_elem = "bytes \<times> 'v option"
type_synonym 'v hmap = "'v hm_elem stbds_array option"

text \<open>The hash of a key with the two reserved values avoided.\<close>

definition stored_hash :: "hm_mode \<Rightarrow> bytes \<Rightarrow> u64 \<Rightarrow> u64" where
  "stored_hash mode key sd =
     (let hash = (case mode of STBDS_HM_STRING \<Rightarrow> stbds_hash_string key sd
                             | STBDS_HM_BINARY \<Rightarrow> stbds_hash_bytes key sd)
      in if hash < 2 then hash + 2 else hash)"

text \<open>\<^verbatim>\<open>strcmp\<close> on strings and \<^verbatim>\<open>memcmp\<close> on fixed-size keys both compare the key bytes. The index
  counts from the element after the default element.\<close>

definition stbds_is_key_equal :: "'v hm_elem stbds_array \<Rightarrow> bytes \<Rightarrow> int \<Rightarrow> bool" where
  "stbds_is_key_equal a key i \<longleftrightarrow> fst (elems a ! nat (i + 1)) = key"

definition stbds_hm_find_slot ::
  "hm_mode \<Rightarrow> 'v hm_elem stbds_array \<Rightarrow> bytes \<Rightarrow> int option" where
  "stbds_hm_find_slot mode a key =
     do {
       table \<leftarrow> hash_table a;
       let hash = stored_hash mode key (index_seed table);
       find_slot_loop table (stbds_is_key_equal a key) hash
         (stbds_probe_position hash (slot_count table) (slot_count_log2 table))
         STBDS_BUCKET_LENGTH
     }"

text \<open>The array \<^verbatim>\<open>stbds_arrgrowf(0, elemsize, 0, 1)\<close> with its zeroed default element.\<close>

definition default_array :: "'v hm_elem stbds_array option" where
  "default_array =
     (case stbds_arrgrowf None 0 1 of None \<Rightarrow> None | Some a \<Rightarrow> Some (a\<lparr>elems := [([], None)]\<rparr>))"

definition stbds_hmget_key_ts ::
  "hm_mode \<Rightarrow> 'v hmap \<Rightarrow> bytes \<Rightarrow> ('v hm_elem stbds_array \<times> int) option" where
  "stbds_hmget_key_ts mode t key =
     (case t of
        None \<Rightarrow> do { a \<leftarrow> default_array; Some (a, STBDS_INDEX_EMPTY) }
      | Some a \<Rightarrow>
          (case hash_table a of
             None \<Rightarrow> Some (a, -1)
           | Some table \<Rightarrow>
               do {
                 slot \<leftarrow> stbds_hm_find_slot mode a key;
                 Some (a, if slot < 0 then STBDS_INDEX_EMPTY else slot_index table (nat slot))
               }))"

definition stbds_hmget_key ::
  "hm_mode \<Rightarrow> 'v hmap \<Rightarrow> bytes \<Rightarrow> 'v hm_elem stbds_array option" where
  "stbds_hmget_key mode t key =
     do { (a, tmp) \<leftarrow> stbds_hmget_key_ts mode t key; Some (a\<lparr>temp := tmp\<rparr>) }"

section \<open>Insertion\<close>

text \<open>Creating or doubling the index before an insertion.\<close>

definition hm_ensure_index ::
  "u64 \<Rightarrow> hm_mode \<Rightarrow> 'v hm_elem stbds_array \<Rightarrow> (u64 \<times> 'v hm_elem stbds_array) option" where
  "hm_ensure_index g mode a =
     (case hash_table a of
        None \<Rightarrow>
          do {
            (nt, g) \<leftarrow> stbds_make_hash_index g STBDS_BUCKET_LENGTH None;
            Some (g, a\<lparr>hash_table := Some
              (nt\<lparr>string_mode := (case mode of STBDS_HM_STRING \<Rightarrow> 1 | STBDS_HM_BINARY \<Rightarrow> 0)\<rparr>)\<rparr>)
          }
      | Some table \<Rightarrow>
          if used_count_threshold table \<le> used_count table then
            do {
              (nt, g) \<leftarrow> stbds_make_hash_index g (slot_count table * 2) (Some table);
              Some (g, a\<lparr>hash_table := Some nt\<rparr>)
            }
          else Some (g, a))"

text \<open>The code after \<^verbatim>\<open>found_empty_slot\<close>.\<close>

definition hm_append_entry ::
  "'v hm_elem stbds_array \<Rightarrow> stbds_hash_index \<Rightarrow> bytes \<Rightarrow> u64 \<Rightarrow> nat \<Rightarrow> int \<Rightarrow>
    'v hm_elem stbds_array option" where
  "hm_append_entry a table key hash pos tombstone =
     (let pos = (if 0 \<le> tombstone then nat tombstone else pos);
          table = (if 0 \<le> tombstone
                   then table\<lparr>tombstone_count := tombstone_count table - 1\<rparr> else table);
          table = table\<lparr>used_count := used_count table + 1\<rparr>;
          i = length (elems a)
      in do {
        a \<leftarrow> (if capacity a < i + 1 then stbds_arrgrowf (Some a) 1 0 else Some a);
        Some (a\<lparr>elems := elems a @ [(key, None)],
                hash_table := Some (store_slot table pos hash (int i - 1)),
                temp := int i - 1\<rparr>)
      })"

definition stbds_hmput_key ::
  "u64 \<Rightarrow> hm_mode \<Rightarrow> 'v hmap \<Rightarrow> bytes \<Rightarrow> (u64 \<times> 'v hm_elem stbds_array) option" where
  "stbds_hmput_key g mode t key =
     do {
       a \<leftarrow> (case t of None \<Rightarrow> default_array | Some a \<Rightarrow> Some a);
       (g, a) \<leftarrow> hm_ensure_index g mode a;
       table \<leftarrow> hash_table a;
       let hash = stored_hash mode key (index_seed table);
       (stop, tombstone) \<leftarrow> put_slot_loop table (stbds_is_key_equal a key) hash (-1)
         (stbds_probe_position hash (slot_count table) (slot_count_log2 table))
         STBDS_BUCKET_LENGTH;
       (case stop of
          PutFound s \<Rightarrow> Some (g, a\<lparr>temp := slot_index table s\<rparr>)
        | PutEmpty s \<Rightarrow>
            do { a \<leftarrow> hm_append_entry a table key hash s tombstone; Some (g, a) })
     }"

section \<open>Deletion\<close>

text \<open>Shrinking or rebuilding the index after a deletion.\<close>

definition hm_shrink_index ::
  "u64 \<Rightarrow> stbds_hash_index \<Rightarrow> (stbds_hash_index \<times> u64) option" where
  "hm_shrink_index g table =
     (if used_count table < used_count_shrink_threshold table \<and>
         STBDS_BUCKET_LENGTH < slot_count table
      then stbds_make_hash_index g (drop_bit 1 (slot_count table)) (Some table)
      else if tombstone_count_threshold table < tombstone_count table
      then stbds_make_hash_index g (slot_count table) (Some table)
      else Some (table, g))"

text \<open>The swap of the last entry into the place of the deleted one, with its slot renumbered.
  \<open>table\<close> is the index in which the deleted entry's slot is already a tombstone.\<close>

definition hm_move_last ::
  "hm_mode \<Rightarrow> 'v hm_elem stbds_array \<Rightarrow> stbds_hash_index \<Rightarrow> int \<Rightarrow> int \<Rightarrow>
    ('v hm_elem stbds_array \<times> stbds_hash_index) option" where
  "hm_move_last mode a table old_index final_index =
     (if old_index \<noteq> final_index then
        do {
          let a = a\<lparr>elems := (elems a)[nat (old_index + 1) := elems a ! nat (final_index + 1)],
                    hash_table := Some table\<rparr>;
          slot \<leftarrow> stbds_hm_find_slot mode a (fst (elems a ! nat (old_index + 1)));
          (if slot < 0 then None
           else Some (a, store_slot table (nat slot) (slot_hash table (nat slot)) old_index))
        }
      else Some (a, table))"

definition stbds_hmdel_key ::
  "u64 \<Rightarrow> hm_mode \<Rightarrow> 'v hmap \<Rightarrow> bytes \<Rightarrow> (u64 \<times> 'v hmap) option" where
  "stbds_hmdel_key g mode t key =
     (case t of
        None \<Rightarrow> Some (g, None)
      | Some a \<Rightarrow>
          let a = a\<lparr>temp := 0\<rparr>
          in (case hash_table a of
                None \<Rightarrow> Some (g, Some a)
              | Some table \<Rightarrow>
                  do {
                    slot \<leftarrow> stbds_hm_find_slot mode a key;
                    (if slot < 0 then Some (g, Some a)
                     else
                       do {
                         let old_index = slot_index table (nat slot);
                         let final_index = int (length (elems a)) - 1 - 1;
                         let table = table\<lparr>used_count := used_count table - 1,
                                          tombstone_count := tombstone_count table + 1\<rparr>;
                         let table = store_slot table (nat slot) STBDS_HASH_DELETED
                                       STBDS_INDEX_DELETED;
                         (a, table) \<leftarrow> hm_move_last mode (a\<lparr>temp := 1\<rparr>) table old_index final_index;
                         (table, g) \<leftarrow> hm_shrink_index g table;
                         Some (g, Some (a\<lparr>elems := butlast (elems a), hash_table := Some table\<rparr>))
                       })
                  }))"

section \<open>The map macros\<close>

definition hmlen :: "'v hmap \<Rightarrow> int" where
  "hmlen t = (case t of None \<Rightarrow> 0 | Some a \<Rightarrow> int (length (elems a)) - 1)"

definition hmgeti :: "hm_mode \<Rightarrow> 'v hmap \<Rightarrow> bytes \<Rightarrow> ('v hmap \<times> int) option" where
  "hmgeti mode t key = do { a \<leftarrow> stbds_hmget_key mode t key; Some (Some a, temp a) }"

definition hmput :: "u64 \<Rightarrow> hm_mode \<Rightarrow> 'v hmap \<Rightarrow> bytes \<Rightarrow> 'v \<Rightarrow> (u64 \<times> 'v hmap) option" where
  "hmput g mode t key v =
     do {
       (g, a) \<leftarrow> stbds_hmput_key g mode t key;
       Some (g, Some (a\<lparr>elems := (elems a)[nat (temp a + 1) := (key, Some v)]\<rparr>))
     }"

definition hmdel :: "u64 \<Rightarrow> hm_mode \<Rightarrow> 'v hmap \<Rightarrow> bytes \<Rightarrow> (u64 \<times> 'v hmap \<times> int) option" where
  "hmdel g mode t key =
     do {
       (g, t) \<leftarrow> stbds_hmdel_key g mode t key;
       Some (g, t, case t of None \<Rightarrow> 0 | Some a \<Rightarrow> temp a)
     }"

text \<open>\<^verbatim>\<open>hmfree\<close>: the memory is released and the pointer set to \<^verbatim>\<open>NULL\<close>.\<close>

definition hmfree :: "'v hmap \<Rightarrow> 'v hmap" where
  "hmfree t = None"

end
