(* ===== verification/StbRefine.thy ===== *)
theory StbRefine
  imports StbMap
begin

text \<open>
  The hash map refines its entry list. \<open>hm_ok\<close> is the representation invariant of a map,
  \<open>hm_entries\<close> its abstraction (the entries in index order), and the abstract operations are
  \<open>alist_put\<close> (overwrite in place or append) and \<open>alist_del\<close> (swap-removal). Because these are
  functions of the entry list alone, the iteration order depends only on the sequence of
  insertions and deletions, as the library documents, and not on hashes or the seed.
\<close>

section \<open>Abstraction and invariant\<close>

definition hm_entries :: "'v hmap \<Rightarrow> 'v hm_elem list" where
  "hm_entries t = (case t of None \<Rightarrow> [] | Some a \<Rightarrow> tl (elems a))"

abbreviation entry_keys :: "'v hm_elem stbds_array \<Rightarrow> bytes list" where
  "entry_keys a \<equiv> map fst (tl (elems a))"

definition entry_hash :: "hm_mode \<Rightarrow> u64 \<Rightarrow> bytes list \<Rightarrow> nat \<Rightarrow> u64" where
  "entry_hash mode sd ks j = stored_hash mode (ks ! j) sd"

definition index_slots :: "hm_mode \<Rightarrow> stbds_hash_index \<Rightarrow> bytes list \<Rightarrow> bool" where
  "index_slots mode table ks \<longleftrightarrow>
     slots_ok (slot_count table) (entry_hash mode (index_seed table) ks) {..<length ks}
       (storage table) \<and>
     used_count table = length ks \<and> tombstone_count table = card (tombs (storage table))"

definition thresholds_ok :: "stbds_hash_index \<Rightarrow> bool" where
  "thresholds_ok table \<longleftrightarrow>
     used_count_threshold table = slot_count table - slot_count table div 4 \<and>
     used_count_shrink_threshold table =
       (if slot_count table \<le> 8 then 0 else slot_count table div 4) \<and>
     tombstone_count_threshold table = slot_count table div 8 + slot_count table div 16"

definition index_ok :: "hm_mode \<Rightarrow> stbds_hash_index \<Rightarrow> bytes list \<Rightarrow> bool" where
  "index_ok mode table ks \<longleftrightarrow>
     index_slots mode table ks \<and> thresholds_ok table \<and>
     used_count table \<le> used_count_threshold table \<and>
     tombstone_count table \<le> tombstone_count_threshold table"

definition hm_ok :: "hm_mode \<Rightarrow> 'v hmap \<Rightarrow> bool" where
  "hm_ok mode t \<longleftrightarrow>
     (case t of
        None \<Rightarrow> True
      | Some a \<Rightarrow>
          elems a \<noteq> [] \<and> length (elems a) \<le> capacity a \<and> distinct (entry_keys a) \<and>
          (case hash_table a of
             None \<Rightarrow> length (elems a) = 1
           | Some table \<Rightarrow> index_ok mode table (entry_keys a)))"

definition alist_put :: "'k \<Rightarrow> 'v \<Rightarrow> ('k \<times> 'v) list \<Rightarrow> ('k \<times> 'v) list" where
  "alist_put k v xs =
     (case index_of k (map fst xs) of Some i \<Rightarrow> xs[i := (k, v)] | None \<Rightarrow> xs @ [(k, v)])"

definition alist_del :: "'k \<Rightarrow> ('k \<times> 'v) list \<Rightarrow> ('k \<times> 'v) list" where
  "alist_del k xs = (case index_of k (map fst xs) of Some i \<Rightarrow> swap_remove i xs | None \<Rightarrow> xs)"

definition alist_find :: "'k \<Rightarrow> ('k \<times> 'v) list \<Rightarrow> int" where
  "alist_find k xs = (case index_of k (map fst xs) of Some i \<Rightarrow> int i | None \<Rightarrow> -1)"

section \<open>Stored hashes and thresholds\<close>

lemma stored_hash_ge_2: "2 \<le> stored_hash mode key sd"
proof -
  have "2 \<le> h + 2" if "h < 2" for h :: u64
  proof -
    have "unat h < 2" using that by (simp add: word_less_nat_alt)
    then have "h = 0 \<or> h = 1" by (auto simp: word_unat_eq_iff)
    then show ?thesis by auto
  qed
  then show ?thesis
    by (auto simp: stored_hash_def Let_def not_less split: hm_mode.split)
qed

lemma thresholds_leave_room:
  assumes "slots_valid (slot_count table)" and "thresholds_ok table"
  shows "used_count_threshold table + tombstone_count_threshold table < slot_count table"
    and "0 < used_count_threshold table" "used_count_threshold table < slot_count table"
  using assms by (auto simp: slots_valid_def thresholds_ok_def power_add)

lemma index_ok_few:
  assumes "index_ok mode table ks"
  shows "card {..<length ks} + card (tombs (storage table)) < slot_count table"
  using assms thresholds_leave_room(1) [of table] slots_okD(1)
  by (fastforce simp: index_ok_def index_slots_def)

lemma stbds_log2_irrelevant: "stbds_probe_position h n l = stbds_probe_position h n l'"
  by (simp add: stbds_probe_position_def)

section \<open>Building indexes\<close>

lemma distinct_filter_nth:
  "(\<And>i j. i < length xs \<Longrightarrow> j < length xs \<Longrightarrow> P (xs ! i) \<Longrightarrow> xs ! i = xs ! j \<Longrightarrow> i = j) \<Longrightarrow>
    distinct (filter P xs)"
proof (induction xs)
  case (Cons x xs)
  have "x \<notin> set xs" if "P x"
    using Cons.prems [of 0] that by (force simp: in_set_conv_nth)
  moreover have "distinct (filter P xs)"
    using Cons.prems [of "Suc i" "Suc j" for i j] by (intro Cons.IH) auto
  ultimately show ?case by auto
qed simp

lemma in_use_slots_ok:
  assumes "slots_ok N G J st"
  shows "in_use st = J"
proof -
  have "int j \<in> snd ` set st \<longleftrightarrow> j \<in> J" for j
  proof
    assume "int j \<in> snd ` set st"
    then obtain s where s: "s < N" "snd (st ! s) = int j"
      using slots_okD(2) [OF assms] by (auto simp: in_set_conv_nth image_iff)
    then show "j \<in> J" using slots_okD(4) [OF assms s(1)] by auto
  next
    assume "j \<in> J"
    then obtain s where "s < N" "st ! s = (G j, int j)"
      by (rule slots_ok_slotE [OF assms])
    then show "int j \<in> snd ` set st"
      using slots_okD(2) [OF assms] by (metis image_eqI nth_mem snd_conv)
  qed
  then show ?thesis by (simp add: in_use_def)
qed

lemma blank_index_simps [simp]:
  "slot_count (blank_index n m sd) = n" "index_seed (blank_index n m sd) = sd"
  "used_count (blank_index n m sd) = 0" "tombstone_count (blank_index n m sd) = 0"
  "string_mode (blank_index n m sd) = m"
  by (simp_all add: blank_index_def)

lemma thresholds_blank: "thresholds_ok (blank_index n m sd)"
  by (simp add: thresholds_ok_def blank_index_def drop_bit_eq_div)

lemma storage_blank:
  "slots_valid n \<Longrightarrow> storage (blank_index n m sd) = replicate n (0, -1)"
  by (auto simp: blank_index_def drop_bit_eq_div slots_valid_def power_add)

lemma index_ok_blank:
  assumes "slots_valid n"
  shows "index_ok mode (blank_index n m sd) []"
  using assms slots_ok_blank [OF assms] thresholds_blank [of n m sd]
  by (simp add: index_ok_def index_slots_def storage_blank)

lemma rebuild_ok:
  assumes old: "index_slots mode old ks" and n: "slots_valid n" and room: "length ks \<le> n - n div 4"
  shows "\<exists>t. stbds_make_hash_index g n (Some old) = Some (t, g) \<and> index_ok mode t ks \<and>
    slot_count t = n \<and> index_seed t = index_seed old"
proof -
  let ?t = "(blank_index n (string_mode old) (index_seed old))\<lparr>used_count := used_count old\<rparr>"
  let ?G = "entry_hash mode (index_seed old) ks"
  have ok: "slots_ok (slot_count old) ?G {..<length ks} (storage old)"
    using old by (simp add: index_slots_def)
  have less: "length ks < n"
  proof -
    obtain k where "n = 8 * 2 ^ k" using n by (rule slots_validE)
    moreover have "(0::nat) < 2 ^ k" by simp
    ultimately show ?thesis using room by linarith
  qed
  have "\<exists>st. rehash ?t (storage old) = Some (?t\<lparr>storage := st\<rparr>) \<and>
      slots_ok (slot_count ?t) ?G ({} \<union> in_use (storage old)) st \<and> tombs st = {}"
  proof (rule rehash_ok)
    show "slots_ok (slot_count ?t) ?G {} (storage ?t)" "tombs (storage ?t) = {}"
      using slots_ok_blank [OF n] by (simp_all add: storage_blank [OF n])
    show "h = ?G (nat i) \<and> 2 \<le> h" if hi: "(h, i) \<in> set (storage old)" "0 \<le> i" for h i
    proof -
      obtain s where "s < slot_count old" "storage old ! s = (h, i)"
        using hi(1) slots_okD(2) [OF ok] by (metis in_set_conv_nth)
      then show ?thesis
        using slots_okD(4,5) [OF ok] hi(2) by fastforce
    qed
    show "distinct (filter ((\<le>) 0) (map snd (storage old)))"
      using slots_okD(2,6) [OF ok] by (intro distinct_filter_nth) auto
    show "card {} + card (in_use (storage old)) < slot_count ?t"
      using less by (simp add: in_use_slots_ok [OF ok])
  qed auto
  then obtain st where st: "rehash ?t (storage old) = Some (?t\<lparr>storage := st\<rparr>)"
    "slots_ok n ?G {..<length ks} st" "tombs st = {}"
    by (auto simp: in_use_slots_ok [OF ok])
  have "index_ok mode (?t\<lparr>storage := st\<rparr>) ks"
    using st old room thresholds_blank [of n "string_mode old" "index_seed old"]
    by (simp add: index_ok_def index_slots_def thresholds_ok_def)
  then show ?thesis
    using st(1) by (intro exI [of _ "?t\<lparr>storage := st\<rparr>"]) (simp add: stbds_make_hash_index_def)
qed

section \<open>Lookup\<close>

lemma is_key_equal_entry:
  "elems a \<noteq> [] \<Longrightarrow> j < length (entry_keys a) \<Longrightarrow>
    stbds_is_key_equal a key (int j) \<longleftrightarrow> entry_keys a ! j = key"
  by (cases "elems a") (simp_all add: stbds_is_key_equal_def nat_add_distrib)

text \<open>The slot search over any subset \<open>J\<close> of entries whose keys differ.\<close>

lemma find_slot_ok:
  assumes ok: "slots_ok (slot_count table) (entry_hash mode (index_seed table) ks) J (storage table)"
    and eq: "\<And>j. j \<in> J \<Longrightarrow> stbds_is_key_equal a key (int j) \<longleftrightarrow> ks ! j = key"
    and inj: "inj_on ((!) ks) J" and table: "hash_table a = Some table"
  shows "j \<in> J \<Longrightarrow> ks ! j = key \<Longrightarrow>
      \<exists>s < slot_count table. storage table ! s = (entry_hash mode (index_seed table) ks j, int j) \<and>
        stbds_hm_find_slot mode a key = Some (int s)"
    and "(\<And>j. j \<in> J \<Longrightarrow> ks ! j \<noteq> key) \<Longrightarrow>
      card J + card (tombs (storage table)) < slot_count table \<Longrightarrow>
      stbds_hm_find_slot mode a key = Some (-1)"
proof -
  let ?h = "stored_hash mode key (index_seed table)"
  note h2 = stored_hash_ge_2 [of mode key "index_seed table"]
  {
    assume j: "j \<in> J" "ks ! j = key"
    have "\<exists>s < slot_count table. storage table ! s = (?h, int j) \<and>
        find_slot_loop table (stbds_is_key_equal a key) ?h
          (stbds_probe_position ?h (slot_count table) (slot_count_log2 table)) 8 = Some (int s)"
      by (rule find_slot_present [OF ok h2 j(1)])
        (use j eq inj in \<open>auto simp: entry_hash_def dest: inj_onD\<close>)
    then show "\<exists>s < slot_count table.
        storage table ! s = (entry_hash mode (index_seed table) ks j, int j) \<and>
        stbds_hm_find_slot mode a key = Some (int s)"
      using j(2) table by (auto simp: stbds_hm_find_slot_def entry_hash_def Let_def)
  next
    assume absent: "\<And>j. j \<in> J \<Longrightarrow> ks ! j \<noteq> key"
      and few: "card J + card (tombs (storage table)) < slot_count table"
    have "find_slot_loop table (stbds_is_key_equal a key) ?h
        (stbds_probe_position ?h (slot_count table) (slot_count_log2 table)) 8 = Some (-1)"
      by (rule find_slot_absent [OF ok h2 _ few]) (use absent eq in auto)
    then show "stbds_hm_find_slot mode a key = Some (-1)"
      using table by (simp add: stbds_hm_find_slot_def Let_def)
  }
qed

lemma hm_okD:
  assumes "hm_ok mode (Some a)"
  shows "elems a \<noteq> []" "length (elems a) \<le> capacity a" "distinct (entry_keys a)"
    "hash_table a = None \<Longrightarrow> entry_keys a = []"
    "hash_table a = Some table \<Longrightarrow> index_ok mode table (entry_keys a)"
  using assms by (cases "elems a"; auto simp: hm_ok_def)+

lemma find_slot_map:
  assumes ok: "hm_ok mode (Some a)" and table: "hash_table a = Some table"
  shows "case index_of key (entry_keys a) of
      None \<Rightarrow> stbds_hm_find_slot mode a key = Some (-1)
    | Some j \<Rightarrow> \<exists>s < slot_count table.
        storage table ! s = (entry_hash mode (index_seed table) (entry_keys a) j, int j) \<and>
        stbds_hm_find_slot mode a key = Some (int s)"
proof -
  let ?ks = "entry_keys a"
  have ix: "index_ok mode table ?ks"
    by (rule hm_okD(5) [OF ok table])
  have slots: "slots_ok (slot_count table) (entry_hash mode (index_seed table) ?ks) {..<length ?ks}
      (storage table)"
    using ix by (simp add: index_ok_def index_slots_def)
  have eq: "stbds_is_key_equal a key (int j) \<longleftrightarrow> ?ks ! j = key" if "j \<in> {..<length ?ks}" for j
    using is_key_equal_entry [OF hm_okD(1) [OF ok]] that by blast
  have inj: "inj_on ((!) ?ks) {..<length ?ks}"
    using hm_okD(3) [OF ok] by (simp add: inj_on_nth)
  note find = find_slot_ok [OF slots eq inj table]
  show ?thesis
  proof (cases "index_of key ?ks")
    case None
    then have "\<And>j. j \<in> {..<length ?ks} \<Longrightarrow> ?ks ! j \<noteq> key"
      by (metis index_of_None lessThan_iff nth_mem)
    then show ?thesis
      using find(2) index_ok_few [OF ix] by (simp add: None)
  next
    case (Some j)
    then have "j \<in> {..<length ?ks}" "?ks ! j = key"
      using index_of_SomeD [OF Some] by auto
    then show ?thesis using Some find(1) by simp
  qed
qed

lemma default_array_eq:
  "default_array = Some \<lparr>capacity = 4, hash_table = None, temp = 0, elems = [([], None)]\<rparr>"
  by (simp add: default_array_def stbds_arrgrowf_def stbds_arrlen_def stbds_arrcap_def)

lemma hmgeti_refines:
  assumes ok: "hm_ok mode t"
  shows "\<exists>t'. hmgeti mode t key = Some (t', alist_find key (hm_entries t)) \<and> hm_ok mode t' \<and>
    hm_entries t' = hm_entries t"
proof (cases t)
  case None
  then show ?thesis
    by (simp add: hmgeti_def stbds_hmget_key_def stbds_hmget_key_ts_def default_array_eq
        alist_find_def hm_entries_def hm_ok_def)
next
  case (Some a)
  have temp: "hm_ok mode (Some (a\<lparr>temp := i\<rparr>))" for i
    using ok by (auto simp: Some hm_ok_def split: option.splits)
  show ?thesis
  proof (cases "hash_table a")
    case None
    then show ?thesis
      using Some temp hm_okD(4) [of mode a] ok
      by (simp add: hmgeti_def stbds_hmget_key_def stbds_hmget_key_ts_def alist_find_def
          hm_entries_def)
  next
    case (Some table)
    then show ?thesis
      using \<open>t = Some a\<close> temp find_slot_map [OF ok [unfolded \<open>t = Some a\<close>] Some, of key]
      by (auto simp: hmgeti_def stbds_hmget_key_def stbds_hmget_key_ts_def alist_find_def
          hm_entries_def slot_index_def split: option.splits)
  qed
qed

section \<open>Insertion\<close>

lemma ensure_index_ok:
  assumes ok: "hm_ok mode (Some a)"
  shows "\<exists>g' a' table. hm_ensure_index g mode a = Some (g', a') \<and> hm_ok mode (Some a') \<and>
    elems a' = elems a \<and> hash_table a' = Some table \<and>
    used_count table < used_count_threshold table"
proof (cases "hash_table a")
  case None
  let ?t = "(blank_index 8 0 g)
    \<lparr>string_mode := (case mode of STBDS_HM_STRING \<Rightarrow> 1 | STBDS_HM_BINARY \<Rightarrow> 0)\<rparr>"
  have valid: "slots_valid 8"
    unfolding slots_valid_def by (rule exI [of _ 0]) simp
  have "index_ok mode ?t (entry_keys a)"
    using index_ok_blank [OF valid, of mode 0 g] hm_okD(4) [OF ok None]
    by (simp add: index_ok_def index_slots_def thresholds_ok_def)
  then have "hm_ok mode (Some (a\<lparr>hash_table := Some ?t\<rparr>))"
    using hm_okD(1-3) [OF ok] by (simp add: hm_ok_def)
  then show ?thesis
    using None thresholds_leave_room(2) [of "blank_index 8 0 g"] valid thresholds_blank [of 8 0 g]
    by (simp add: hm_ensure_index_def stbds_make_hash_index_def)
next
  case (Some table)
  have ix: "index_ok mode table (entry_keys a)"
    by (rule hm_okD(5) [OF ok Some])
  show ?thesis
  proof (cases "used_count_threshold table \<le> used_count table")
    case False
    then show ?thesis using ok Some by (simp add: hm_ensure_index_def)
  next
    case True
    let ?n = "slot_count table * 2"
    have valid: "slots_valid (slot_count table)"
      using ix slots_okD(1) by (auto simp: index_ok_def index_slots_def)
    then obtain k where k: "slot_count table = 8 * 2 ^ k" by (rule slots_validE)
    have n: "slots_valid ?n"
      unfolding slots_valid_def k by (rule exI [of _ "Suc k"]) (simp add: power_add)
    have used: "length (entry_keys a) \<le> slot_count table - slot_count table div 4"
      "used_count table = length (entry_keys a)"
      using ix by (simp_all add: index_ok_def index_slots_def thresholds_ok_def)
    have "(0::nat) < 2 ^ k" by simp
    then have more: "length (entry_keys a) < ?n - ?n div 4"
      using used(1) unfolding k by linarith
    obtain t where t: "stbds_make_hash_index g ?n (Some table) = Some (t, g)"
      "index_ok mode t (entry_keys a)" "slot_count t = ?n"
      using rebuild_ok [of mode table "entry_keys a" ?n g] ix n more
      by (auto simp: index_ok_def [of mode table])
    have "hm_ok mode (Some (a\<lparr>hash_table := Some t\<rparr>))"
      using hm_okD(1-3) [OF ok] t(2) by (simp add: hm_ok_def)
    moreover have "used_count t < used_count_threshold t"
      using t(2,3) more by (simp add: index_ok_def index_slots_def thresholds_ok_def)
    ultimately show ?thesis using True Some t(1) by (simp add: hm_ensure_index_def)
  qed
qed

lemma arrgrowf_one:
  assumes "capacity a < length (elems a) + 1"
  shows "\<exists>c. stbds_arrgrowf (Some a) 1 0 = Some (a\<lparr>capacity := c\<rparr>) \<and> length (elems a) < c"
  using assms by (auto simp: stbds_arrgrowf_def stbds_arrlen_def stbds_arrcap_def Let_def)

lemma entry_hash_append:
  "j < length ks \<Longrightarrow> entry_hash mode sd (ks @ ks') j = entry_hash mode sd ks j"
  by (simp add: entry_hash_def nth_append)

lemma append_entry_ok:
  assumes ok: "hm_ok mode (Some a)" and table: "hash_table a = Some table"
    and room: "used_count table < used_count_threshold table"
    and new: "key \<notin> set (entry_keys a)" and h: "h = stored_hash mode key (index_seed table)"
    and target: "put_target s tomb < slot_count table"
      "\<forall>x \<in> path_to (slot_count table) h (put_target s tomb). fst (storage table ! x) \<noteq> 0"
      "if 0 \<le> tomb then storage table ! put_target s tomb = (1, -2)
       else storage table ! put_target s tomb = (0, -1)"
  shows "\<exists>a'. hm_append_entry a table key h s tomb = Some a' \<and> hm_ok mode (Some a') \<and>
    elems a' = elems a @ [(key, None)] \<and> temp a' = int (length (elems a)) - 1"
proof -
  let ?ks = "entry_keys a" and ?p = "put_target s tomb"
  let ?n = "length ?ks"
  let ?G = "entry_hash mode (index_seed table) (?ks @ [key])"
  define table' where "table' =
    (if 0 \<le> tomb then table\<lparr>tombstone_count := tombstone_count table - 1\<rparr> else table)
      \<lparr>used_count := used_count table + 1\<rparr>"
  have ix: "index_ok mode table ?ks" by (rule hm_okD(5) [OF ok table])
  have slots: "slots_ok (slot_count table) (entry_hash mode (index_seed table) ?ks) {..<?n}
      (storage table)"
    using ix by (simp add: index_ok_def index_slots_def)
  have G: "?G ?n = h" by (simp add: entry_hash_def nth_append h)
  have "slots_ok (slot_count table) ?G (insert ?n {..<?n}) ((storage table)[?p := (?G ?n, int ?n)])"
  proof (rule slots_ok_store)
    show "slots_ok (slot_count table) ?G {..<?n} (storage table)"
      by (rule slots_ok_cong [OF _ slots]) (simp add: entry_hash_append)
    show "snd (storage table ! ?p) < 0" using target(3) by (auto split: if_splits)
    show "2 \<le> ?G ?n" unfolding G h by (rule stored_hash_ge_2)
    show "\<forall>x \<in> path_to (slot_count table) (?G ?n) ?p. fst (storage table ! x) \<noteq> 0"
      unfolding G by (rule target(2))
  qed (use target(1) in auto)
  then have slots': "slots_ok (slot_count table) ?G {..<Suc ?n} ((storage table)[?p := (h, int ?n)])"
    by (simp only: G lessThan_Suc)
  have "tombs ((storage table)[?p := (h, int ?n)]) = tombs (storage table) - {?p}"
    using tombs_update [of ?p "storage table" "(h, int ?n)"] target(1) slots_okD(2) [OF slots]
      word_ge_2_neq [OF stored_hash_ge_2] h by auto
  moreover have "?p \<in> tombs (storage table) \<longleftrightarrow> 0 \<le> tomb"
    using target(1,3) slots_okD(2) [OF slots] by (auto simp: tombs_def split: if_splits)
  ultimately have tombs: "card (tombs ((storage table)[?p := (h, int ?n)])) = tombstone_count table'"
    using ix by (auto simp: table'_def index_ok_def index_slots_def card_Diff_singleton)
  have "index_ok mode (store_slot table' ?p h (int ?n)) (?ks @ [key])"
    using ix slots' tombs room
    by (auto simp: table'_def store_slot_def index_ok_def index_slots_def thresholds_ok_def
        intro: le_trans [OF diff_le_self])
  moreover have "distinct (?ks @ [key])" using new hm_okD(3) [OF ok] by simp
  moreover have len: "int (length (elems a)) - 1 = int ?n"
    using hm_okD(1) [OF ok] by (cases "elems a") simp_all
  obtain c where grow: "(if capacity a < length (elems a) + 1 then stbds_arrgrowf (Some a) 1 0
      else Some a) = Some (a\<lparr>capacity := c\<rparr>)" and "length (elems a) < c"
    using arrgrowf_one [of a] that [of "capacity a"]
    by (cases "capacity a < length (elems a) + 1") auto
  ultimately show ?thesis
    using hm_okD(1) [OF ok]
    by (cases "0 \<le> tomb")
      (simp_all add: hm_append_entry_def Let_def grow len hm_ok_def put_target_def table'_def)
qed

lemma put_base:
  assumes "hm_ok mode t"
  shows "\<exists>a0. (case t of None \<Rightarrow> default_array | Some a \<Rightarrow> Some a) = Some a0 \<and>
    hm_ok mode (Some a0) \<and> tl (elems a0) = hm_entries t"
  using assms by (cases t) (simp_all add: default_array_eq hm_entries_def hm_ok_def [of _ "Some _"])

lemma put_key_refines:
  assumes ok: "hm_ok mode t"
  shows "\<exists>g' a. stbds_hmput_key g mode t key = Some (g', a) \<and> hm_ok mode (Some a) \<and>
    (case index_of key (map fst (hm_entries t)) of
       Some i \<Rightarrow> tl (elems a) = hm_entries t \<and> temp a = int i
     | None \<Rightarrow> tl (elems a) = hm_entries t @ [(key, None)] \<and>
         temp a = int (length (hm_entries t)))"
proof -
  obtain a0 where a0: "(case t of None \<Rightarrow> default_array | Some a \<Rightarrow> Some a) = Some a0"
    and ok0: "hm_ok mode (Some a0)" and e0: "tl (elems a0) = hm_entries t"
    using put_base [OF ok] by blast
  obtain g' a table where ens: "hm_ensure_index g mode a0 = Some (g', a)"
    and oka: "hm_ok mode (Some a)" and ea: "elems a = elems a0"
    and table: "hash_table a = Some table" and room: "used_count table < used_count_threshold table"
    using ensure_index_ok [OF ok0] by blast
  let ?ks = "entry_keys a" and ?h = "stored_hash mode key (index_seed table)"
  have ix: "index_ok mode table ?ks" by (rule hm_okD(5) [OF oka table])
  have slots: "slots_ok (slot_count table) (entry_hash mode (index_seed table) ?ks)
      {..<length ?ks} (storage table)"
    using ix by (simp add: index_ok_def index_slots_def)
  have eq: "j < length ?ks \<Longrightarrow> stbds_is_key_equal a key (int j) \<longleftrightarrow> ?ks ! j = key" for j
    using is_key_equal_entry [OF hm_okD(1) [OF oka]] by blast
  note h2 = stored_hash_ge_2 [of mode key "index_seed table"]
  have temp_ok: "hm_ok mode (Some (a\<lparr>temp := i\<rparr>))" for i
    using oka by (auto simp: hm_ok_def split: option.splits)
  show ?thesis
  proof (cases "index_of key ?ks")
    case (Some j)
    then have j: "j < length ?ks" "?ks ! j = key"
      using index_of_SomeD [OF Some] by auto
    have "\<exists>s tomb. storage table ! s = (?h, int j) \<and>
        put_slot_loop table (stbds_is_key_equal a key) ?h (-1)
          (stbds_probe_position ?h (slot_count table) (slot_count_log2 table)) 8 =
            Some (PutFound s, tomb)"
    proof (rule put_slot_present [OF slots h2])
      show "j' = j" if "j' \<in> {..<length ?ks}" "stbds_is_key_equal a key (int j')" for j'
        using that eq j hm_okD(3) [OF oka] by (metis lessThan_iff nth_eq_iff_index_eq)
    qed (use j eq in \<open>auto simp: entry_hash_def\<close>)
    then have "stbds_hmput_key g mode t key = Some (g', a\<lparr>temp := int j\<rparr>)"
      by (auto simp: stbds_hmput_key_def a0 ens table Let_def slot_index_def)
    then show ?thesis using Some temp_ok e0 ea by simp
  next
    case None
    then have new: "key \<notin> set ?ks" by (simp add: index_of_None)
    have absent: "\<not> stbds_is_key_equal a key (int j)" if "j \<in> {..<length ?ks}" for j
      using new eq that by (metis lessThan_iff nth_mem)
    obtain s tomb where put: "put_slot_loop table (stbds_is_key_equal a key) ?h (-1)
          (stbds_probe_position ?h (slot_count table) (slot_count_log2 table)) 8 =
            Some (PutEmpty s, tomb)"
      and target: "put_target s tomb < slot_count table"
        "\<forall>x \<in> path_to (slot_count table) ?h (put_target s tomb). fst (storage table ! x) \<noteq> 0"
        "if 0 \<le> tomb then storage table ! put_target s tomb = (1, -2)
         else storage table ! put_target s tomb = (0, -1)"
      using put_slot_absent [OF slots h2 _ index_ok_few [OF ix], where eq = "stbds_is_key_equal a key"]
        absent by blast
    obtain a' where "hm_append_entry a table key ?h s tomb = Some a'" "hm_ok mode (Some a')"
      "elems a' = elems a @ [(key, None)]" "temp a' = int (length (elems a)) - 1"
      using append_entry_ok [OF oka table room new refl target] by blast
    moreover have "int (length (elems a)) - 1 = int (length (tl (elems a)))"
      using hm_okD(1) [OF oka] by (cases "elems a") simp_all
    ultimately show ?thesis
      using None e0 ea hm_okD(1) [OF oka]
      by (simp add: stbds_hmput_key_def a0 ens table Let_def put)
  qed
qed

lemma hmput_refines:
  assumes ok: "hm_ok mode t"
  shows "\<exists>g' t'. hmput g mode t key v = Some (g', t') \<and> hm_ok mode t' \<and>
    hm_entries t' = alist_put key (Some v) (hm_entries t)"
proof -
  let ?es = "hm_entries t"
  obtain g' a where put: "stbds_hmput_key g mode t key = Some (g', a)"
    and oka: "hm_ok mode (Some a)"
    and es: "case index_of key (map fst ?es) of
       Some i \<Rightarrow> tl (elems a) = ?es \<and> temp a = int i
     | None \<Rightarrow> tl (elems a) = ?es @ [(key, None)] \<and> temp a = int (length ?es)"
    using put_key_refines [OF ok] by blast
  let ?i = "nat (temp a)" and ?a = "a\<lparr>elems := (elems a)[nat (temp a + 1) := (key, Some v)]\<rparr>"
  have idx: "0 \<le> temp a" "?i < length (tl (elems a))" "fst (tl (elems a) ! ?i) = key"
    using es by (auto simp del: length_tl split: option.splits dest!: index_of_SomeD)
  have "nat (temp a + 1) = Suc ?i" using idx(1) by simp
  then have tl: "tl (elems ?a) = (tl (elems a))[?i := (key, Some v)]"
    using hm_okD(1) [OF oka] by (cases "elems a") simp_all
  have keys: "entry_keys ?a = entry_keys a"
    by (simp only: tl map_update fst_conv) (metis idx(2,3) list_update_id nth_map)
  have "hm_ok mode (Some ?a)"
    using oka keys by (auto simp: hm_ok_def split: option.splits)
  moreover have "hm_entries (Some ?a) = tl (elems ?a)"
    by (simp add: hm_entries_def)
  then have "hm_entries (Some ?a) = alist_put key (Some v) ?es"
    unfolding tl using es by (auto simp: alist_put_def split: option.splits)
  ultimately show ?thesis using put by (auto simp: hmput_def)
qed

section \<open>Deletion\<close>

lemma butlast_swap: "i < length xs \<Longrightarrow> Suc i = length xs \<Longrightarrow> swap_remove i xs = butlast xs"
  by (metis butlast_list_update diff_Suc_1 swap_remove_def)

lemma entry_hash_swap:
  assumes "i < length ks" "j < length ks - 1"
  shows "entry_hash mode sd (swap_remove i ks) j =
    ((entry_hash mode sd ks)(i := entry_hash mode sd ks (length ks - 1))) j"
proof -
  have "last ks = ks ! (length ks - 1)"
    using assms by (cases ks) (simp_all add: last_conv_nth)
  then show ?thesis using assms by (simp add: entry_hash_def nth_swap_remove)
qed

text \<open>After the deleted slot is a tombstone, moving the last entry yields the index of the
  swap-removed key list.\<close>

lemma move_last_ok:
  assumes ok: "hm_ok mode (Some a)" and table: "hash_table a = Some table0"
    and i: "i < length (entry_keys a)" and n: "n = length (entry_keys a) - 1"
    and sd: "index_seed table = index_seed table0"
    and slots: "slots_ok (slot_count table) (entry_hash mode (index_seed table) (entry_keys a))
      ({..<length (entry_keys a)} - {i}) (storage table)"
  shows "\<exists>a' st. hm_move_last mode a table (int i) (int n) = Some (a', table\<lparr>storage := st\<rparr>) \<and>
    tl (butlast (elems a')) = swap_remove i (tl (elems a)) \<and> elems a' \<noteq> [] \<and>
    length (elems a') = length (elems a) \<and> capacity a' = capacity a \<and> temp a' = temp a \<and>
    slots_ok (slot_count table) (entry_hash mode (index_seed table) (swap_remove i (entry_keys a)))
      {..<n} st \<and>
    tombs st = tombs (storage table)"
proof -
  let ?ks = "entry_keys a"
  let ?G = "entry_hash mode (index_seed table) ?ks"
  obtain d es where e: "elems a = d # es" using hm_okD(1) [OF ok] by (cases "elems a") auto
  have es: "?ks = map fst es" "length es = Suc n" "es \<noteq> []" using i n by (auto simp: e)
  have dist: "distinct ?ks" by (rule hm_okD(3) [OF ok])
  show ?thesis
  proof (cases "i = n")
    case True
    have cong: "entry_hash mode (index_seed table) (swap_remove i ?ks) j = ?G j" if "j \<in> {..<n}" for j
      using entry_hash_swap [of i ?ks j mode] i that True by (simp add: n)
    have J: "{..<length ?ks} - {i} = {..<n}" using True es(1,2) by auto
    have "slots_ok (slot_count table) (entry_hash mode (index_seed table) (swap_remove i ?ks))
        {..<n} (storage table)"
      by (rule slots_ok_cong [OF _ slots [unfolded J]]) (rule cong [symmetric])
    moreover have "swap_remove i es = butlast es" using True es by (intro butlast_swap) auto
    ultimately show ?thesis
      using True es by (intro exI [of _ a] exI [of _ "storage table"])
        (simp add: hm_move_last_def e)
  next
    case False
    then have in_: "i < n" using i n by simp
    let ?a = "a\<lparr>elems := (elems a)[nat (int i + 1) := elems a ! nat (int n + 1)],
      hash_table := Some table\<rparr>"
    have elems': "elems ?a = d # es[i := es ! n]"
      by (simp add: e nat_add_distrib)
    have key: "fst (elems ?a ! nat (int i + 1)) = ?ks ! n"
      using in_ es by (simp add: e nat_add_distrib)
    have eq: "stbds_is_key_equal ?a (?ks ! n) (int j) \<longleftrightarrow> ?ks ! j = ?ks ! n"
      if "j \<in> {..<length ?ks} - {i}" for j
      using that es by (simp add: stbds_is_key_equal_def elems' nat_add_distrib e)
    have inj: "inj_on ((!) ?ks) ({..<length ?ks} - {i})"
      using dist by (simp add: inj_on_nth)
    have nJ: "n \<in> {..<length ?ks} - {i}" using in_ es by simp
    obtain s where s: "s < slot_count table" "storage table ! s = (?G n, int n)"
      "stbds_hm_find_slot mode ?a (?ks ! n) = Some (int s)"
      using find_slot_ok(1) [OF slots eq inj _ nJ refl] by auto
    let ?st = "(storage table)[s := (?G n, int i)]"
    have J: "insert i ({..<length ?ks} - {i} - {n}) = {..<n}" using in_ es by auto
    have cong: "(?G(i := ?G n)) j = entry_hash mode (index_seed table) (swap_remove i ?ks) j"
      if "j \<in> {..<n}" for j
      using entry_hash_swap [of i ?ks j mode] i n that by simp
    have "slots_ok (slot_count table) (?G(i := ?G n)) {..<n} ?st"
      using slots_ok_renumber [OF slots s(1,2) nJ, of i] unfolding J by simp
    then have ok': "slots_ok (slot_count table)
        (entry_hash mode (index_seed table) (swap_remove i ?ks)) {..<n} ?st"
      by (rule slots_ok_cong [rotated]) (rule cong)
    have "2 \<le> ?G n" unfolding entry_hash_def by (rule stored_hash_ge_2)
    then have tombs: "tombs ?st = tombs (storage table)"
      using tombs_update [of s "storage table" "(?G n, int i)"] s(1,2) slots_okD(2) [OF slots]
        word_ge_2_neq by (auto simp: tombs_def)
    have "hm_move_last mode a table (int i) (int n) = Some (?a, table\<lparr>storage := ?st\<rparr>)"
      using False s(2,3) key by (simp add: hm_move_last_def store_slot_def slot_hash_def Let_def)
    moreover have "tl (butlast (elems ?a)) = swap_remove i es"
      using es by (simp add: elems' swap_remove_def last_conv_nth)
    ultimately show ?thesis
      using ok' tombs by (intro exI [of _ ?a] exI [of _ ?st]) (simp add: e nat_add_distrib)
  qed
qed

lemma shrink_index_ok:
  assumes slots: "index_slots mode table ks" and thr: "thresholds_ok table"
    and used: "used_count table \<le> used_count_threshold table"
  shows "\<exists>t. hm_shrink_index g table = Some (t, g) \<and> index_ok mode t ks \<and>
    index_seed t = index_seed table"
proof -
  have valid: "slots_valid (slot_count table)" and len: "used_count table = length ks"
    using slots slots_okD(1) by (auto simp: index_slots_def)
  obtain k where k: "slot_count table = 8 * 2 ^ k" using valid by (rule slots_validE)
  consider (shrink) "used_count table < used_count_shrink_threshold table" "8 < slot_count table"
    | (rebuild) "\<not> (used_count table < used_count_shrink_threshold table \<and> 8 < slot_count table)"
        "tombstone_count_threshold table < tombstone_count table"
    | (keep) "\<not> (used_count table < used_count_shrink_threshold table \<and> 8 < slot_count table)"
        "\<not> tombstone_count_threshold table < tombstone_count table"
    by blast
  then show ?thesis
  proof cases
    case shrink
    then obtain k' where k': "k = Suc k'" using k by (cases k) auto
    have half: "drop_bit 1 (slot_count table) = 8 * 2 ^ k'"
      by (simp add: drop_bit_eq_div k k')
    have "slots_valid (drop_bit 1 (slot_count table))"
      unfolding half slots_valid_def by (rule exI [of _ k']) (simp add: power_add)
    moreover have "length ks \<le> drop_bit 1 (slot_count table) - drop_bit 1 (slot_count table) div 4"
      using shrink len thr unfolding half by (simp add: thresholds_ok_def k k')
    ultimately show ?thesis
      using rebuild_ok [OF slots] shrink by (fastforce simp: hm_shrink_index_def)
  next
    case rebuild
    have "length ks \<le> slot_count table - slot_count table div 4"
      using used len thr by (simp add: thresholds_ok_def)
    then show ?thesis
      using rebuild_ok [OF slots valid] rebuild by (fastforce simp: hm_shrink_index_def)
  next
    case keep
    then show ?thesis
      using slots thr used by (auto simp: hm_shrink_index_def index_ok_def)
  qed
qed

lemma hmdel_key_found:
  assumes "hash_table a = Some table" "stbds_hm_find_slot mode (a\<lparr>temp := 0\<rparr>) key = Some (int s)"
    "hm_move_last mode (a\<lparr>temp := 1\<rparr>)
       (store_slot (table\<lparr>used_count := used_count table - 1,
          tombstone_count := tombstone_count table + 1\<rparr>) s 1 (-2))
       (slot_index table s) (int (length (elems a)) - 1 - 1) = Some (a', table')"
    "hm_shrink_index g table' = Some (t, g')"
  shows "stbds_hmdel_key g mode (Some a) key =
    Some (g', Some (a'\<lparr>elems := butlast (elems a'), hash_table := Some t\<rparr>))"
  using assms by (simp add: stbds_hmdel_key_def Let_def)

lemma hmdel_key_present:
  assumes ok: "hm_ok mode (Some a)" and table: "hash_table a = Some table"
    and i: "index_of key (entry_keys a) = Some i"
  shows "\<exists>a'. stbds_hmdel_key g mode (Some a) key = Some (g, Some a') \<and> hm_ok mode (Some a') \<and>
    tl (elems a') = swap_remove i (tl (elems a)) \<and> temp a' = 1"
proof -
  let ?ks = "entry_keys a"
  let ?G = "entry_hash mode (index_seed table) ?ks" and ?n = "length ?ks - 1"
  define a1 where "a1 = a\<lparr>temp := 1\<rparr>"
  have i_less: "i < length ?ks" using index_of_SomeD [OF i] by blast
  have ix: "index_ok mode table ?ks" by (rule hm_okD(5) [OF ok table])
  have slots: "slots_ok (slot_count table) ?G {..<length ?ks} (storage table)"
    using ix by (simp add: index_ok_def index_slots_def)
  have ok1: "hm_ok mode (Some a1)" and ok0: "hm_ok mode (Some (a\<lparr>temp := 0\<rparr>))"
    using ok by (auto simp: a1_def hm_ok_def split: option.splits)
  obtain s where s: "s < slot_count table" "storage table ! s = (?G i, int i)"
    "stbds_hm_find_slot mode (a\<lparr>temp := 0\<rparr>) key = Some (int s)"
    using find_slot_map [OF ok0, of table key] table i by auto
  let ?st = "(storage table)[s := (1, -2)]"
  define table1 where "table1 = store_slot (table\<lparr>used_count := used_count table - 1,
    tombstone_count := tombstone_count table + 1\<rparr>) s 1 (-2)"
  have t1: "slot_count table1 = slot_count table" "index_seed table1 = index_seed table"
    "storage table1 = ?st" "thresholds_ok table1"
    using ix by (simp_all add: table1_def store_slot_def thresholds_ok_def index_ok_def)
  have "s \<notin> tombs (storage table)"
    using s(2) word_ge_2_neq [OF stored_hash_ge_2] by (auto simp: tombs_def entry_hash_def)
  then have tombs: "card (tombs ?st) = tombstone_count table1"
    using ix tombs_update [of s "storage table" "(1, -2)"] s(1) slots_okD(2) [OF slots]
    by (simp add: table1_def store_slot_def index_ok_def index_slots_def)
  have del: "slots_ok (slot_count table1) (entry_hash mode (index_seed table1) (entry_keys a1))
      ({..<length (entry_keys a1)} - {i}) (storage table1)"
    using slots_ok_delete [OF slots s(1,2)] by (simp add: t1 a1_def)
  obtain a' st where move: "hm_move_last mode a1 table1 (int i) (int ?n) =
      Some (a', table1\<lparr>storage := st\<rparr>)"
    and tl': "tl (butlast (elems a')) = swap_remove i (tl (elems a))"
    and a': "elems a' \<noteq> []" "length (elems a') = length (elems a)" "capacity a' = capacity a"
      "temp a' = 1"
    and st: "slots_ok (slot_count table1)
      (entry_hash mode (index_seed table1) (swap_remove i ?ks)) {..<?n} st"
      "tombs st = tombs (storage table1)"
    using move_last_ok [OF ok1 _ _ _ _ del, of table ?n] table i_less
    by (auto simp: a1_def t1(2))
  have keys': "map fst (swap_remove i (tl (elems a))) = swap_remove i ?ks"
    using i_less by (simp add: map_swap_remove)
  have "index_slots mode (table1\<lparr>storage := st\<rparr>) (swap_remove i ?ks)"
    using st tombs ix i_less by (simp add: index_slots_def t1(3) index_ok_def)
      (simp add: table1_def store_slot_def)
  moreover have "thresholds_ok (table1\<lparr>storage := st\<rparr>)"
    using t1(4) by (simp add: thresholds_ok_def)
  moreover have "used_count (table1\<lparr>storage := st\<rparr>) \<le> used_count_threshold (table1\<lparr>storage := st\<rparr>)"
    using ix by (auto simp: table1_def store_slot_def index_ok_def intro: le_trans [OF diff_le_self])
  ultimately obtain t where t: "hm_shrink_index g (table1\<lparr>storage := st\<rparr>) = Some (t, g)"
    "index_ok mode t (swap_remove i ?ks)"
    using shrink_index_ok by blast
  let ?a = "a'\<lparr>elems := butlast (elems a'), hash_table := Some t\<rparr>"
  have ne: "butlast (elems a') \<noteq> []"
    using a'(2) i_less by (cases "elems a'" rule: rev_cases) (auto simp: length_Suc_conv)
  have "hm_ok mode (Some ?a)"
    using ne a'(2,3) tl' keys' t(2) hm_okD(2,3) [OF ok] set_swap_remove_distinct(2) [of ?ks i] i_less
    by (simp add: hm_ok_def)
  moreover have "int (length (elems a)) - 1 - 1 = int ?n"
    using i_less by (cases "elems a") (auto simp: of_nat_diff)
  moreover have "slot_index table s = int i"
    by (simp add: slot_index_def s(2))
  ultimately have "stbds_hmdel_key g mode (Some a) key = Some (g, Some ?a)"
    using hmdel_key_found [OF table s(3), of a' "table1\<lparr>storage := st\<rparr>" g t g] move t(1)
    unfolding a1_def table1_def by metis
  then show ?thesis
    using tl' a'(4) \<open>hm_ok mode (Some ?a)\<close> by (intro exI [of _ ?a]) simp
qed

lemma hmdel_refines:
  assumes ok: "hm_ok mode t"
  shows "\<exists>t'. hmdel g mode t key = Some (g, t', if key \<in> set (map fst (hm_entries t)) then 1 else 0) \<and>
    hm_ok mode t' \<and> hm_entries t' = alist_del key (hm_entries t)"
proof (cases t)
  case None
  then show ?thesis
    by (simp add: hmdel_def stbds_hmdel_key_def hm_entries_def alist_del_def hm_ok_def)
next
  case (Some a)
  have ok0: "hm_ok mode (Some (a\<lparr>temp := 0\<rparr>))"
    using ok by (auto simp: Some hm_ok_def split: option.splits)
  show ?thesis
  proof (cases "index_of key (entry_keys a)")
    case (Some i)
    then obtain table where table: "hash_table a = Some table"
      using hm_okD(4) [of mode a] ok \<open>t = Some a\<close> by (cases "hash_table a") auto
    show ?thesis
      using hmdel_key_present [OF _ table Some, of mode g] ok index_of_SomeD [OF Some] \<open>t = Some a\<close> Some
      by (auto simp: hmdel_def hm_entries_def alist_del_def in_set_conv_nth)
  next
    case None
    have "stbds_hmdel_key g mode (Some a) key = Some (g, Some (a\<lparr>temp := 0\<rparr>))"
      using find_slot_map [OF ok0, of _ key] None
      by (cases "hash_table a") (simp_all add: stbds_hmdel_key_def Let_def)
    then show ?thesis
      using \<open>t = Some a\<close> None ok0
      by (auto simp: hmdel_def hm_entries_def alist_del_def index_of_None)
  qed
qed

end
