(* ===== verification/Hhash.thy ===== *)
theory Hhash
  imports StbRefine
begin

text \<open>
  The integer-keyed maps of \<^verbatim>\<open>src/3rd/include/hcore/hhash.h\<close>: the \<^verbatim>\<open>HIHASH_*\<close> macros over the
  stb_ds maps with 4-byte keys. \<open>int_map\<close> is the contract its clients (broker and node) rely on,
  stated over the entry list; it is interpreted on the macros. The properties of the map that
  every client needs in terms of keys only (lookup after insert, after delete, distinct keys) are
  proved once in the locale.
\<close>

section \<open>The macros\<close>

type_synonym 'v hihash = "'v hmap"
type_synonym iterate = int

definition HIHASH_INIT :: "'v hihash" where
  "HIHASH_INIT = None"

definition HIHASH_FINI :: "'v hihash \<Rightarrow> 'v hihash" where
  "HIHASH_FINI h = hmfree h"

definition HIHASH_FIND :: "'v hihash \<Rightarrow> u32 \<Rightarrow> ('v hihash \<times> iterate) option" where
  "HIHASH_FIND h k = hmgeti STBDS_HM_BINARY h (enc32 k)"

definition HIHASH_SET :: "u64 \<Rightarrow> 'v hihash \<Rightarrow> u32 \<Rightarrow> 'v \<Rightarrow> (u64 \<times> 'v hihash) option" where
  "HIHASH_SET g h k v = hmput g STBDS_HM_BINARY h (enc32 k) v"

definition HIHASH_DEL :: "u64 \<Rightarrow> 'v hihash \<Rightarrow> u32 \<Rightarrow> (u64 \<times> 'v hihash) option" where
  "HIHASH_DEL g h k = do { (g, h, r) \<leftarrow> hmdel g STBDS_HM_BINARY h (enc32 k); Some (g, h) }"

definition HC_RET_OK :: nat where "HC_RET_OK = 0"
definition HC_RET_NOTFOUND :: nat where "HC_RET_NOTFOUND = 3"

definition HIHASH_EXIST :: "'v hihash \<Rightarrow> u32 \<Rightarrow> ('v hihash \<times> nat) option" where
  "HIHASH_EXIST h k =
     do { (h, i) \<leftarrow> HIHASH_FIND h k; Some (h, if 0 \<le> i then HC_RET_OK else HC_RET_NOTFOUND) }"

definition HIHASH_SIZE :: "'v hihash \<Rightarrow> int" where
  "HIHASH_SIZE h = (if h = None then 0 else hmlen h)"

definition HIHASH_ITERATE_VALID :: "'v hihash \<Rightarrow> iterate \<Rightarrow> bool" where
  "HIHASH_ITERATE_VALID h it \<longleftrightarrow> 0 \<le> it \<and> it < hmlen h"

definition HIHASH_ITERATE_BEGIN :: iterate where "HIHASH_ITERATE_BEGIN = 0"

definition HIHASH_ITERATE_NEXT :: "iterate \<Rightarrow> iterate" where
  "HIHASH_ITERATE_NEXT it = it + 1"

text \<open>Element accesses \<^verbatim>\<open>h[it]\<close>; \<open>None\<close> for a null map or unwritten memory.\<close>

definition HIHASH_GETV :: "'v hihash \<Rightarrow> iterate \<Rightarrow> 'v option" where
  "HIHASH_GETV h it = do { a \<leftarrow> h; snd (elems a ! nat (it + 1)) }"

definition HIHASH_GETK :: "'v hihash \<Rightarrow> iterate \<Rightarrow> u32 option" where
  "HIHASH_GETK h it = do { a \<leftarrow> h; Some (dec32 (fst (elems a ! nat (it + 1)))) }"

text \<open>A store through the pointer \<^verbatim>\<open>HIHASH_GETVPTR(h, it)\<close>.\<close>

definition HIHASH_STORE :: "'v hihash \<Rightarrow> iterate \<Rightarrow> 'v \<Rightarrow> 'v hihash" where
  "HIHASH_STORE h it v =
     map_option (\<lambda>a. a\<lparr>elems := (elems a)
       [nat (it + 1) := (fst (elems a ! nat (it + 1)), Some v)]\<rparr>) h"

section \<open>Association lists under put and delete\<close>

lemma map_of_update_distinct:
  assumes "distinct (map fst xs)" "i < length xs" "fst (xs ! i) = k"
  shows "map_of (xs[i := (k, v)]) = (map_of xs)(k \<mapsto> v)"
  using assms
proof (induction xs arbitrary: i)
  case (Cons x xs)
  show ?case
  proof (cases i)
    case 0
    then show ?thesis using Cons.prems by (cases x) auto
  next
    case (Suc i')
    then have "k \<in> fst ` set xs" using Cons.prems(2,3) by auto
    then have "fst x \<noteq> k" using Cons.prems(1) by auto
    then show ?thesis using Cons Suc by (cases x) (auto simp: fun_eq_iff)
  qed
qed simp

lemma map_of_alist_put:
  assumes "distinct (map fst xs)"
  shows "map_of (alist_put k v xs) = (map_of xs)(k \<mapsto> v)"
proof (cases "index_of k (map fst xs)")
  case None
  then have "map_of xs k = None" by (simp add: index_of_None map_of_eq_None_iff)
  then show ?thesis using None
    by (auto simp: alist_put_def map_of_append map_add_def split: option.split)
next
  case (Some i)
  then show ?thesis
    using index_of_SomeD [OF Some] map_of_update_distinct [OF assms, of i] by (auto simp: alist_put_def)
qed

lemma distinct_alist_put:
  assumes "distinct (map fst xs)"
  shows "distinct (map fst (alist_put k v xs))"
proof (cases "index_of k (map fst xs)")
  case None
  then show ?thesis using assms by (simp add: alist_put_def index_of_None)
next
  case (Some i)
  then have "map fst (xs[i := (k, v)]) = map fst xs"
    using index_of_SomeD [OF Some] by (metis fst_conv list_update_id map_update)
  then show ?thesis using assms Some by (simp add: alist_put_def)
qed

lemma alist_del_keys:
  assumes "distinct (map fst xs)"
  shows "distinct (map fst (alist_del k xs))" "set (alist_del k xs) = {e \<in> set xs. fst e \<noteq> k}"
proof -
  have dist: "distinct xs" using assms by (simp add: distinct_map)
  show "distinct (map fst (alist_del k xs))"
    using assms set_swap_remove_distinct(2) [OF assms]
    by (auto simp: alist_del_def map_swap_remove split: option.split dest!: index_of_SomeD)
  show "set (alist_del k xs) = {e \<in> set xs. fst e \<noteq> k}"
  proof (cases "index_of k (map fst xs)")
    case None
    then show ?thesis by (force simp: alist_del_def index_of_None)
  next
    case (Some i)
    then have i: "i < length xs" "fst (xs ! i) = k" using index_of_SomeD [OF Some] by auto
    have "fst e = k \<longleftrightarrow> e = xs ! i" if "e \<in> set xs" for e
      using that i assms by (metis eq_key_imp_eq_value nth_mem prod.collapse)
    then show ?thesis
      using Some set_swap_remove_distinct(1) [OF dist i(1)] by (auto simp: alist_del_def)
  qed
qed

lemma map_of_alist_del:
  assumes "distinct (map fst xs)"
  shows "map_of (alist_del k xs) = (map_of xs)(k := None)"
proof
  fix x
  note D = alist_del_keys [OF assms, of k]
  show "map_of (alist_del k xs) x = ((map_of xs)(k := None)) x"
  proof (cases "map_of (alist_del k xs) x")
    case None
    then have "x \<notin> fst ` {e \<in> set xs. fst e \<noteq> k}"
      by (simp add: map_of_eq_None_iff D(2))
    then have "x = k \<or> map_of xs x = None"
      by (auto simp: map_of_eq_None_iff image_iff)
    then show ?thesis using None by auto
  next
    case (Some v)
    then have "(x, v) \<in> set xs" "x \<noteq> k"
      using map_of_SomeD [OF Some] by (auto simp: D(2))
    then show ?thesis using Some assms by (simp add: map_of_eq_Some_iff)
  qed
qed

lemma alist_find_iff:
  "alist_find k xs = -1 \<longleftrightarrow> map_of xs k = None"
  "alist_find k xs = int i \<Longrightarrow> i < length xs \<and> fst (xs ! i) = k"
  "0 \<le> alist_find k xs \<longleftrightarrow> map_of xs k \<noteq> None"
  "alist_find k xs < int (length xs)"
proof -
  have "k \<in> set (map fst xs) \<longleftrightarrow> map_of xs k \<noteq> None"
    by (auto simp: map_of_eq_None_iff)
  then show "alist_find k xs = -1 \<longleftrightarrow> map_of xs k = None"
    "0 \<le> alist_find k xs \<longleftrightarrow> map_of xs k \<noteq> None"
    by (auto simp: alist_find_def index_of_None split: option.split dest: index_of_SomeD)
  show "alist_find k xs = int i \<Longrightarrow> i < length xs \<and> fst (xs ! i) = k"
    "alist_find k xs < int (length xs)"
    by (auto simp: alist_find_def split: option.splits dest!: index_of_SomeD)
qed

section \<open>The contract of an integer-keyed map\<close>

locale int_map =
  fixes inv :: "'h \<Rightarrow> bool"
    and entries :: "'h \<Rightarrow> ('k \<times> 'v) list"
    and init :: 'h
    and find :: "'h \<Rightarrow> 'k \<Rightarrow> ('h \<times> int) option"
    and put :: "'g \<Rightarrow> 'h \<Rightarrow> 'k \<Rightarrow> 'v \<Rightarrow> ('g \<times> 'h) option"
    and del :: "'g \<Rightarrow> 'h \<Rightarrow> 'k \<Rightarrow> ('g \<times> 'h) option"
    and valid :: "'h \<Rightarrow> int \<Rightarrow> bool"
    and getv :: "'h \<Rightarrow> int \<Rightarrow> 'v option"
    and getk :: "'h \<Rightarrow> int \<Rightarrow> 'k option"
    and store :: "'h \<Rightarrow> int \<Rightarrow> 'v \<Rightarrow> 'h"
  assumes init_inv: "inv init" and init_entries: "entries init = []"
    and keys_distinct: "inv h \<Longrightarrow> distinct (map fst (entries h))"
    and find_spec: "inv h \<Longrightarrow>
      \<exists>h'. find h k = Some (h', alist_find k (entries h)) \<and> inv h' \<and> entries h' = entries h"
    and put_spec: "inv h \<Longrightarrow>
      \<exists>g' h'. put g h k v = Some (g', h') \<and> inv h' \<and> entries h' = alist_put k v (entries h)"
    and del_spec: "inv h \<Longrightarrow>
      \<exists>g' h'. del g h k = Some (g', h') \<and> inv h' \<and> entries h' = alist_del k (entries h)"
    and valid_spec: "inv h \<Longrightarrow> valid h it \<longleftrightarrow> 0 \<le> it \<and> it < int (length (entries h))"
    and getv_spec: "inv h \<Longrightarrow> i < length (entries h) \<Longrightarrow> getv h (int i) = Some (snd (entries h ! i))"
    and getk_spec: "inv h \<Longrightarrow> i < length (entries h) \<Longrightarrow> getk h (int i) = Some (fst (entries h ! i))"
    and store_spec: "inv h \<Longrightarrow> i < length (entries h) \<Longrightarrow>
      inv (store h (int i) v) \<and>
      entries (store h (int i) v) = (entries h)[i := (fst (entries h ! i), v)]"
begin

lemma find_absent:
  assumes "inv h" "map_of (entries h) k = None"
  shows "\<exists>h'. find h k = Some (h', -1) \<and> inv h' \<and> entries h' = entries h \<and> \<not> valid h' (-1)"
  using find_spec [OF assms(1), of k] valid_spec assms(2) by (metis alist_find_iff(1) neg_0_le_iff_le
      not_one_le_zero)

lemma find_present:
  assumes "inv h" "map_of (entries h) k = Some v"
  shows "\<exists>h' i. find h k = Some (h', int i) \<and> inv h' \<and> entries h' = entries h \<and>
    valid h' (int i) \<and> getv h' (int i) = Some v \<and> i < length (entries h) \<and>
    entries h ! i = (k, v)"
proof -
  obtain h' where h': "find h k = Some (h', alist_find k (entries h))" "inv h'"
    "entries h' = entries h"
    using find_spec [OF assms(1)] by blast
  have "0 \<le> alist_find k (entries h)" using assms(2) by (simp add: alist_find_iff(3))
  then obtain i where i: "alist_find k (entries h) = int i" using nonneg_int_cases by blast
  then have i': "i < length (entries h)" "fst (entries h ! i) = k"
    using alist_find_iff(2) [OF i] by simp_all
  have "snd (entries h ! i) = v"
    using map_of_is_SomeI [OF keys_distinct [OF assms(1)], of "fst (entries h ! i)"] i' assms(2)
    by (metis nth_mem option.inject prod.collapse)
  then have "entries h ! i = (k, v)" using i'(2) by (metis prod.collapse)
  then show ?thesis
    using h' i i' valid_spec [OF h'(2)] getv_spec [OF h'(2), of i] by auto
qed

lemma put_map: "inv h \<Longrightarrow>
    \<exists>g' h'. put g h k v = Some (g', h') \<and> inv h' \<and> map_of (entries h') = (map_of (entries h))(k \<mapsto> v)"
  using put_spec [of h g k v] map_of_alist_put [OF keys_distinct] by metis

lemma del_map: "inv h \<Longrightarrow>
    \<exists>g' h'. del g h k = Some (g', h') \<and> inv h' \<and> map_of (entries h') = (map_of (entries h))(k := None)"
  using del_spec [of h g k] map_of_alist_del [OF keys_distinct] by metis

lemma store_map:
  assumes "inv h" "i < length (entries h)" "entries h ! i = (k, w)"
  shows "inv (store h (int i) v)"
    "map_of (entries (store h (int i) v)) = (map_of (entries h))(k \<mapsto> v)"
  using store_spec [OF assms(1,2), of v] assms
    map_of_update_distinct [OF keys_distinct [OF assms(1)] assms(2), of k v] by simp_all

end

section \<open>The stb_ds macros satisfy the contract\<close>

definition hi_ok :: "'v hihash \<Rightarrow> bool" where
  "hi_ok h \<longleftrightarrow> hm_ok STBDS_HM_BINARY h \<and>
     (\<forall>e \<in> set (hm_entries h). length (fst e) = 4 \<and> snd e \<noteq> None)"

definition hi_entry :: "'v hm_elem \<Rightarrow> u32 \<times> 'v" where
  "hi_entry e = (dec32 (fst e), the (snd e))"

definition hi_entries :: "'v hihash \<Rightarrow> (u32 \<times> 'v) list" where
  "hi_entries h = map hi_entry (hm_entries h)"

lemma hi_keys: "hi_ok h \<Longrightarrow> map fst (hm_entries h) = map enc32 (map fst (hi_entries h))"
  by (auto simp: hi_ok_def hi_entries_def hi_entry_def enc32_dec32)

lemma index_of_map_inj: "inj f \<Longrightarrow> index_of (f x) (map f xs) = index_of x xs"
  by (induction xs) (auto dest: injD)

lemma inj_enc32: "inj enc32"
  by (rule injI) simp

lemma hi_index_of:
  "hi_ok h \<Longrightarrow> index_of (enc32 k) (map fst (hm_entries h)) = index_of k (map fst (hi_entries h))"
  unfolding hi_keys by (rule index_of_map_inj [OF inj_enc32])

lemma hi_distinct: "hi_ok h \<Longrightarrow> distinct (map fst (hi_entries h))"
proof -
  assume ok: "hi_ok h"
  then have "distinct (map fst (hm_entries h))"
    by (cases h) (auto simp: hi_ok_def hm_entries_def dest: hm_okD)
  then show ?thesis unfolding hi_keys [OF ok] distinct_map by blast
qed

lemma hi_find:
  "hi_ok h \<Longrightarrow> alist_find (enc32 k) (hm_entries h) = alist_find k (hi_entries h)"
  by (simp add: alist_find_def hi_index_of del: map_map)

lemma hi_put:
  assumes "hi_ok h" and "hm_entries h' = alist_put (enc32 k) (Some v) (hm_entries h)"
    and "hm_ok STBDS_HM_BINARY h'"
  shows "hi_ok h'" "hi_entries h' = alist_put k v (hi_entries h)"
proof -
  have "set (hm_entries h') \<subseteq> insert (enc32 k, Some v) (set (hm_entries h))"
    unfolding assms(2) alist_put_def
    by (auto split: option.split dest!: set_update_subset_insert [THEN subsetD])
  then show "hi_ok h'" using assms(1,3) by (auto simp: hi_ok_def)
  show "hi_entries h' = alist_put k v (hi_entries h)"
    unfolding hi_entries_def assms(2) alist_put_def hi_index_of [OF assms(1), unfolded hi_entries_def]
    by (auto simp: hi_entry_def map_update split: option.split)
qed

lemma hi_del:
  assumes "hi_ok h" and "hm_entries h' = alist_del (enc32 k) (hm_entries h)"
    and "hm_ok STBDS_HM_BINARY h'"
  shows "hi_ok h'" "hi_entries h' = alist_del k (hi_entries h)"
proof -
  have "distinct (map fst (hm_entries h))"
    using assms(1) by (cases h) (auto simp: hi_ok_def hm_entries_def dest: hm_okD)
  then show "hi_ok h'"
    using assms(1,3) by (auto simp: hi_ok_def assms(2) alist_del_keys)
  show "hi_entries h' = alist_del k (hi_entries h)"
    unfolding hi_entries_def assms(2) alist_del_def hi_index_of [OF assms(1), unfolded hi_entries_def]
    by (auto simp: map_swap_remove split: option.split dest!: index_of_SomeD)
qed

lemma hmlen_entries: "hm_ok mode h \<Longrightarrow> hmlen h = int (length (hm_entries h))"
  by (cases h) (auto simp: hmlen_def hm_entries_def hm_ok_def Suc_le_eq of_nat_diff)

lemma hi_elem:
  assumes "hi_ok h" "i < length (hi_entries h)"
  obtains a where "h = Some a" "elems a ! nat (int i + 1) = hm_entries h ! i" "Suc i < length (elems a)"
proof (cases h)
  case None
  then show ?thesis using assms by (simp add: hi_entries_def hm_entries_def)
next
  case (Some a)
  then show ?thesis
    using assms that by (cases "elems a") (auto simp: hi_entries_def hm_entries_def nat_add_distrib)
qed

lemma hi_store:
  assumes ok: "hi_ok h" and i: "i < length (hi_entries h)"
  shows "hi_ok (HIHASH_STORE h (int i) v) \<and>
    hi_entries (HIHASH_STORE h (int i) v) = (hi_entries h)[i := (fst (hi_entries h ! i), v)]"
proof -
  obtain a where a: "h = Some a" "elems a ! nat (int i + 1) = hm_entries h ! i"
    "Suc i < length (elems a)"
    using hi_elem [OF assms] by blast
  define k where "k = fst (hm_entries h ! i)"
  have i': "i < length (hm_entries h)" using i by (simp add: hi_entries_def)
  have entries: "hm_entries (HIHASH_STORE h (int i) v) = (hm_entries h)[i := (k, Some v)]"
    using a by (cases "elems a") (auto simp: HIHASH_STORE_def hm_entries_def nat_add_distrib k_def)
  have keys: "map fst ((hm_entries h)[i := (k, Some v)]) = map fst (hm_entries h)"
    using i' by (simp add: map_update k_def) (metis length_map list_update_id nth_map)
  have "hm_ok STBDS_HM_BINARY (HIHASH_STORE h (int i) v)"
    using ok keys entries a unfolding hi_ok_def
    by (auto simp: hm_ok_def HIHASH_STORE_def hm_entries_def split: option.splits)
  moreover have "\<forall>e \<in> set ((hm_entries h)[i := (k, Some v)]). length (fst e) = 4 \<and> snd e \<noteq> None"
    using ok i' set_update_subset_insert [of "hm_entries h" i "(k, Some v)"]
    unfolding hi_ok_def k_def by (metis (no_types, lifting) fst_conv insert_iff nth_mem
        option.distinct(1) snd_conv subsetD)
  ultimately show ?thesis
    using i' by (simp add: hi_ok_def entries)
      (simp add: hi_entries_def entries map_update hi_entry_def k_def)
qed

interpretation hi: int_map hi_ok hi_entries HIHASH_INIT HIHASH_FIND HIHASH_SET HIHASH_DEL
    HIHASH_ITERATE_VALID HIHASH_GETV HIHASH_GETK HIHASH_STORE
proof (unfold_locales, goal_cases)
  case 1
  then show ?case by (simp add: hi_ok_def HIHASH_INIT_def hm_ok_def hm_entries_def)
next
  case 2
  then show ?case by (simp add: HIHASH_INIT_def hi_entries_def hm_entries_def)
next
  case (3 h)
  then show ?case by (rule hi_distinct)
next
  case (4 h k)
  then obtain h' where "hmgeti STBDS_HM_BINARY h (enc32 k) =
      Some (h', alist_find (enc32 k) (hm_entries h))" "hm_ok STBDS_HM_BINARY h'"
    "hm_entries h' = hm_entries h"
    using hmgeti_refines [of STBDS_HM_BINARY h "enc32 k"] by (auto simp: hi_ok_def)
  then show ?case
    using 4 by (auto simp: HIHASH_FIND_def hi_find hi_entries_def hi_ok_def)
next
  case (5 h g k v)
  then obtain g' h' where "hmput g STBDS_HM_BINARY h (enc32 k) v = Some (g', h')"
    "hm_ok STBDS_HM_BINARY h'" "hm_entries h' = alist_put (enc32 k) (Some v) (hm_entries h)"
    using hmput_refines [of STBDS_HM_BINARY h g "enc32 k" v] by (auto simp: hi_ok_def)
  then show ?case using hi_put [OF 5] by (auto simp: HIHASH_SET_def)
next
  case (6 h g k)
  then obtain h' where "hmdel g STBDS_HM_BINARY h (enc32 k) =
      Some (g, h', if enc32 k \<in> set (map fst (hm_entries h)) then 1 else 0)"
    "hm_ok STBDS_HM_BINARY h'" "hm_entries h' = alist_del (enc32 k) (hm_entries h)"
    using hmdel_refines [of STBDS_HM_BINARY h g "enc32 k"] unfolding hi_ok_def by blast
  then show ?case using hi_del [OF 6] by (auto simp: HIHASH_DEL_def)
next
  case (7 h it)
  then show ?case
    by (simp add: HIHASH_ITERATE_VALID_def hi_ok_def hmlen_entries [of STBDS_HM_BINARY] hi_entries_def)
next
  case (8 h i)
  then obtain a where a: "h = Some a" "elems a ! nat (int i + 1) = hm_entries h ! i"
    using hi_elem by blast
  have i: "i < length (hm_entries h)" using 8 by (simp add: hi_entries_def)
  then have "snd (hm_entries h ! i) \<noteq> None"
    using 8(1) nth_mem unfolding hi_ok_def by blast
  then show ?case using a i by (auto simp: HIHASH_GETV_def hi_entries_def hi_entry_def)
next
  case (9 h i)
  then obtain a where a: "h = Some a" "elems a ! nat (int i + 1) = hm_entries h ! i"
    using hi_elem by blast
  have "i < length (hm_entries h)" using 9 by (simp add: hi_entries_def)
  then show ?case using a by (auto simp: HIHASH_GETK_def hi_entries_def hi_entry_def)
next
  case (10 h i v)
  then show ?case by (rule hi_store)
qed

end
