(* ===== verification/Hmsg.thy ===== *)
theory Hmsg
  imports HbusPrelude
begin

text \<open>
  The wire format of hbus, \<^verbatim>\<open>src/include/hmsg.h\<close>: the 32-byte header \<^verbatim>\<open>hmsg_t\<close> (naturally aligned,
  so without padding) and its flexible payload, the validity check of a received block, the
  command and data halves of the flags and the extended topic under which subscriptions are
  filed. The code has no encoder or decoder: it writes the bytes of the struct and casts what it
  receives to it. \<open>hmsg_bytes\<close> and \<open>hmsg_of_bytes\<close> are that memory layout, on a little-endian machine.
  The lemmas show that the two are inverse, that the validity check
  means what it should in spite of its mixed signed and unsigned comparisons, and that an extended
  topic determines version, flags and topic.
\<close>

section \<open>Constants\<close>

abbreviation (input) HMSG_MAGIC :: u16 where "HMSG_MAGIC \<equiv> 0x55AA"
abbreviation (input) HMSG_APPID_BROKER :: u16 where "HMSG_APPID_BROKER \<equiv> 0xFFFE"
abbreviation (input) HMSG_APPID_EVERYONR :: u16 where "HMSG_APPID_EVERYONR \<equiv> 0xFFFF"
abbreviation (input) HMSG_FCMD_REGISTER :: u8 where "HMSG_FCMD_REGISTER \<equiv> 0x00"
abbreviation (input) HMSG_FCMD_DATA :: u8 where "HMSG_FCMD_DATA \<equiv> 0x10"
abbreviation (input) HMSG_FCMD_SUB :: u8 where "HMSG_FCMD_SUB \<equiv> 0x20"
abbreviation (input) HMSG_FCMD_UNSUB :: u8 where "HMSG_FCMD_UNSUB \<equiv> 0x30"
abbreviation (input) HMSG_FDATA_PUBSUB :: u8 where "HMSG_FDATA_PUBSUB \<equiv> 0x00"
abbreviation (input) HMSG_FDATA_REQUEST :: u8 where "HMSG_FDATA_REQUEST \<equiv> 0x01"
abbreviation (input) HMSG_FDATA_REPOND :: u8 where "HMSG_FDATA_REPOND \<equiv> 0x02"
abbreviation (input) HMSG_MSGID_STATUS :: u16 where "HMSG_MSGID_STATUS \<equiv> 0x0000"
abbreviation (input) HMSG_PATLOAD_SIZE_MAX :: int where "HMSG_PATLOAD_SIZE_MAX \<equiv> 1024 * 1024 * 64"
abbreviation (input) HMSG_SIZEOF :: nat where "HMSG_SIZEOF \<equiv> 32"

section \<open>The message and its memory image\<close>

record hmsg_t =
  m_magic :: u16
  m_crc_head :: u16
  m_version :: u8
  m_flags :: u8
  m_topic :: u16
  m_from :: u16
  m_to :: u16
  m_seq :: u32
  m_timestamp_us :: u64
  m_crc_payload :: u32
  m_payload_size :: u32
  m_payload :: bytes

text \<open>A message whose unnamed fields are zero, as after \<^verbatim>\<open>calloc\<close> or a designated initialiser.\<close>

definition hmsg_zero :: hmsg_t where
  "hmsg_zero =
     \<lparr>m_magic = 0, m_crc_head = 0, m_version = 0, m_flags = 0, m_topic = 0, m_from = 0, m_to = 0,
      m_seq = 0, m_timestamp_us = 0, m_crc_payload = 0, m_payload_size = 0, m_payload = []\<rparr>"

text \<open>The bytes of a message in memory, and the fields read through a \<^verbatim>\<open>hmsg_t*\<close> into a buffer.\<close>

definition hmsg_bytes :: "hmsg_t \<Rightarrow> bytes" where
  "hmsg_bytes m =
     enc16 (m_magic m) @ enc16 (m_crc_head m) @ [m_version m, m_flags m] @ enc16 (m_topic m) @
     enc16 (m_from m) @ enc16 (m_to m) @ enc32 (m_seq m) @ enc64 (m_timestamp_us m) @
     enc32 (m_crc_payload m) @ enc32 (m_payload_size m) @ m_payload m"

definition field :: "nat \<Rightarrow> nat \<Rightarrow> bytes \<Rightarrow> bytes" where
  "field offset width buf = take width (drop offset buf)"

definition hmsg_of_bytes :: "bytes \<Rightarrow> hmsg_t" where
  "hmsg_of_bytes buf =
     \<lparr>m_magic = dec16 (field 0 2 buf), m_crc_head = dec16 (field 2 2 buf),
      m_version = buf ! 4, m_flags = buf ! 5, m_topic = dec16 (field 6 2 buf),
      m_from = dec16 (field 8 2 buf), m_to = dec16 (field 10 2 buf),
      m_seq = dec32 (field 12 4 buf), m_timestamp_us = dec64 (field 16 8 buf),
      m_crc_payload = dec32 (field 24 4 buf), m_payload_size = dec32 (field 28 4 buf),
      m_payload = drop HMSG_SIZEOF buf\<rparr>"

section \<open>The macros\<close>

text \<open>\<open>len\<close> is an \<^verbatim>\<open>int\<close>: it is converted to \<^verbatim>\<open>size_t\<close> where it meets \<^verbatim>\<open>sizeof\<close> and stays signed
  in the comparison with the maximum.\<close>

definition HMSG_HEAD_VALID :: "hmsg_t \<Rightarrow> int \<Rightarrow> bool" where
  "HMSG_HEAD_VALID msg len \<longleftrightarrow>
     HMSG_MAGIC = m_magic msg \<and>
     (of_nat HMSG_SIZEOF :: u64) \<le> of_int len \<and>
     len \<le> HMSG_PATLOAD_SIZE_MAX \<and>
     (of_int len :: u64) = of_nat HMSG_SIZEOF + ucast (m_payload_size msg)"

definition HMSG_FLAGS :: "u8 \<Rightarrow> u8 \<Rightarrow> u8" where
  "HMSG_FLAGS fcmd fdata = fcmd OR fdata"

definition HMSG_FLAGS_CMD :: "u8 \<Rightarrow> u8" where
  "HMSG_FLAGS_CMD fl = fl AND 0xF0"

definition HMSG_FLAGS_DATA :: "u8 \<Rightarrow> u8" where
  "HMSG_FLAGS_DATA fl = fl AND 0x0F"

text \<open>The operands are promoted to \<^verbatim>\<open>int\<close>, a 32-bit word.\<close>

definition HMSG_TOPICEX :: "u32 \<Rightarrow> u32 \<Rightarrow> u32 \<Rightarrow> u32" where
  "HMSG_TOPICEX ver fl tpc = push_bit 24 ver OR push_bit 16 fl OR tpc"

definition HMSG_TOPICEX_INMSG :: "hmsg_t \<Rightarrow> u32" where
  "HMSG_TOPICEX_INMSG msg =
     HMSG_TOPICEX (ucast (m_version msg)) (ucast (m_flags msg)) (ucast (m_topic msg))"

section \<open>Reading what was written\<close>

lemma length_hmsg_bytes [hmsg_simps]: "length (hmsg_bytes m) = 32 + length (m_payload m)"
  by (simp add: hmsg_bytes_def)

lemma field_skip: "length xs = k \<Longrightarrow> field (k + o') w (xs @ ys) = field o' w ys"
  by (simp add: field_def)

lemma field_here: "length xs = w \<Longrightarrow> field 0 w (xs @ ys) = xs"
  by (simp add: field_def)

lemma hmsg_roundtrip: "hmsg_of_bytes (hmsg_bytes m) = m"
proof -
  have "length (enc16 x) = 2" "length (enc32 y) = 4" "length (enc64 z) = 8" for x y z
    by simp_all
  then show ?thesis
    unfolding hmsg_of_bytes_def hmsg_bytes_def field_def
    by (simp add: nth_append enc16_dec16)
qed

lemma take_field: "o' \<le> o'' \<Longrightarrow> drop o' xs = take (o'' - o') (drop o' xs) @ drop o'' xs"
  by (metis append_take_drop_id drop_drop le_add_diff_inverse2)

lemma hmsg_bytes_of_bytes:
  assumes "32 \<le> length buf"
  shows "hmsg_bytes (hmsg_of_bytes buf) = buf"
proof -
  have nth: "[buf ! 4, buf ! 5] = field 4 2 buf"
    using assms by (simp add: field_def take_Suc_conv_app_nth numeral_eq_Suc)
  have enc: "enc16 (dec16 (field k 2 buf)) = field k 2 buf" if "k + 2 \<le> 32" for k
    using that assms by (intro enc16_dec16) (simp add: field_def)
  have enc4: "enc32 (dec32 (field k 4 buf)) = field k 4 buf" if "k + 4 \<le> 32" for k
    using that assms by (intro enc32_dec32) (simp add: field_def)
  have enc8: "enc64 (dec64 (field 16 8 buf)) = field 16 8 buf"
    using assms by (intro enc64_dec64) (simp add: field_def)
  have "buf = field 0 2 buf @ field 2 2 buf @ field 4 2 buf @ field 6 2 buf @ field 8 2 buf @
      field 10 2 buf @ field 12 4 buf @ field 16 8 buf @ field 24 4 buf @ field 28 4 buf @
      drop 32 buf"
    unfolding field_def
    using take_field [of 0 2 buf] take_field [of 2 4 buf] take_field [of 4 6 buf]
      take_field [of 6 8 buf] take_field [of 8 10 buf] take_field [of 10 12 buf]
      take_field [of 12 16 buf] take_field [of 16 24 buf] take_field [of 24 28 buf]
      take_field [of 28 32 buf] by simp
  then show ?thesis
    using nth by (simp add: hmsg_bytes_def hmsg_of_bytes_def enc enc4 enc8)
qed

section \<open>The validity check\<close>

lemma head_valid_iff:
  assumes "- (2 ^ 31) \<le> len" "len < 2 ^ 31"
  shows "HMSG_HEAD_VALID msg len \<longleftrightarrow>
    m_magic msg = 0x55AA \<and> len = 32 + int (unat (m_payload_size msg)) \<and> len \<le> 67108864"
proof -
  let ?p = "unat (m_payload_size msg)"
  have p: "?p < 2 ^ 32" using unat_u32_less by simp
  have sum: "of_nat 32 + ucast (m_payload_size msg) = (of_nat (32 + ?p) :: u64)"
    by (simp add: word_unat_eq_iff unat_word_ariths unat_of_nat unsigned_ucast_eq)
  have eq: "(of_int len :: u64) = of_nat (32 + ?p) \<longleftrightarrow> len = 32 + int ?p"
  proof
    assume "(of_int len :: u64) = of_nat (32 + ?p)"
    then have "(of_int len :: u64) = of_int (32 + int ?p)" by simp
    then have "uint (of_int len :: u64) = uint (of_int (32 + int ?p) :: u64)" by simp
    then have "len mod 2 ^ 64 = (32 + int ?p) mod 2 ^ 64"
      by (simp add: uint_word_of_int del: of_int_add of_int_of_nat_eq)
    moreover define q where "q = int ?p"
    moreover have "0 \<le> q" "q < 4294967296"
      using unat_u32_less [of "m_payload_size msg"] unfolding q_def by linarith+
    ultimately have *: "len mod 18446744073709551616 = (32 + q) mod 18446744073709551616"
      and q: "0 \<le> q" "q < 4294967296"
      by simp_all
    have "len mod 18446744073709551616 = (if 0 \<le> len then len else len + 18446744073709551616)"
      using assms mod_add_self2 [of len 18446744073709551616]
        mod_pos_pos_trivial [of "len + 18446744073709551616" 18446744073709551616]
      by (auto simp: mod_pos_pos_trivial)
    then have "len = 32 + q"
      using assms q * by (simp add: mod_pos_pos_trivial split: if_splits)
    then show "len = 32 + int ?p" by (simp only: q_def)
  qed simp
  have le: "(of_nat 32 :: u64) \<le> of_int (32 + int ?p)"
  proof -
    have "unat (of_nat (32 + ?p) :: u64) = 32 + ?p"
      using unat_u32_less [of "m_payload_size msg"] by (simp add: unat_of_nat del: of_nat_add)
    then show ?thesis by (simp add: word_le_nat_alt)
  qed
  show ?thesis
    unfolding HMSG_HEAD_VALID_def sum eq using le by auto
qed

lemma head_valid_payload:
  assumes "HMSG_HEAD_VALID (hmsg_of_bytes buf) (int (length buf))" and "int (length buf) < 2 ^ 31"
  shows "length (m_payload (hmsg_of_bytes buf)) = unat (m_payload_size (hmsg_of_bytes buf))"
    and "32 \<le> length buf"
proof -
  have len: "length buf = 32 + unat (m_payload_size (hmsg_of_bytes buf))"
    using assms head_valid_iff [of "int (length buf)" "hmsg_of_bytes buf"] by linarith
  then show "32 \<le> length buf" by simp
  have "length (m_payload (hmsg_of_bytes buf)) = length buf - 32"
    by (simp add: hmsg_of_bytes_def)
  then show "length (m_payload (hmsg_of_bytes buf)) = unat (m_payload_size (hmsg_of_bytes buf))"
    using len by simp
qed

section \<open>Flags and extended topics\<close>

lemma flags_split: "HMSG_FLAGS (HMSG_FLAGS_CMD fl) (HMSG_FLAGS_DATA fl) = fl"
  unfolding HMSG_FLAGS_def HMSG_FLAGS_CMD_def HMSG_FLAGS_DATA_def
proof -
  have "fl AND 240 OR fl AND 15 = fl AND (240 OR 15)" by (simp only: bit.conj_disj_distrib)
  also have "(240 OR 15 :: u8) = - 1" by simp
  finally show "fl AND 240 OR fl AND 15 = fl" by simp
qed

definition topicex :: "u8 \<Rightarrow> u8 \<Rightarrow> u16 \<Rightarrow> u32" where
  "topicex ver fl tpc = HMSG_TOPICEX (ucast ver) (ucast fl) (ucast tpc)"

lemma topicex_fields:
  "ucast (topicex ver fl tpc) = tpc" "ucast (drop_bit 16 (topicex ver fl tpc)) = fl"
  "ucast (drop_bit 24 (topicex ver fl tpc)) = ver"
  by (rule bit_word_eqI;
      auto simp: topicex_def HMSG_TOPICEX_def bit_simps dest: bit_imp_le_length)+

lemma topicex_inject:
  "topicex v f t = topicex v' f' t' \<longleftrightarrow> v = v' \<and> f = f' \<and> t = t'"
  by (metis topicex_fields)

lemma topicex_inmsg: "HMSG_TOPICEX_INMSG msg = topicex (m_version msg) (m_flags msg) (m_topic msg)"
  by (simp add: HMSG_TOPICEX_INMSG_def topicex_def)

end
