(* ===== verification/Hbuf.thy ===== *)
theory Hbuf
  imports HbusPrelude
begin

text \<open>
  Byte buffers of \<^verbatim>\<open>src/3rd/include/hcore/hbuf.h\<close>. The header declares the buffer structure, the
  functions and the item macros; the functions themselves are compiled into libhcore, so they
  are the fields of a parameter \<open>hbuf_api\<close> and what clients rely on are the laws of the locale
  \<open>hbuf_lib\<close> (a push of no bytes is refused and leaves the buffer alone, a successful one appends, remove
  deletes one item) and \<open>hbuf_mem\<close> (below the documented 1 GiB limit the allocator serves every request).
  Item views, proved once for every item width, turn the byte-level laws into list operations.
\<close>

section \<open>The structure and the library interface\<close>

record hbuf_t =
  b_len :: nat
  b_size :: nat
  b_data :: bytes

text \<open>Every function returns its code and the buffer it leaves behind.\<close>

record hbuf_api =
  hbuf_init :: "nat \<Rightarrow> int \<times> hbuf_t"
  hbuf_fini :: "hbuf_t \<Rightarrow> int \<times> hbuf_t"
  hbuf_push :: "hbuf_t \<Rightarrow> bytes \<Rightarrow> int \<times> hbuf_t"
  hbuf_remove :: "hbuf_t \<Rightarrow> nat \<Rightarrow> nat \<Rightarrow> int \<times> hbuf_t"
  hbuf_clear :: "hbuf_t \<Rightarrow> int \<times> hbuf_t"

section \<open>The item macros\<close>

definition HBUF_ITEM_COUNT :: "hbuf_t \<Rightarrow> nat \<Rightarrow> nat" where
  "HBUF_ITEM_COUNT b sz = b_len b div sz"

text \<open>The bytes read through \<^verbatim>\<open>*HBUF_ITEM_AT(b, TYPE, i)\<close>; outside the allocated block the read is
  undefined.\<close>

definition HBUF_ITEM_AT :: "hbuf_t \<Rightarrow> nat \<Rightarrow> nat \<Rightarrow> bytes option" where
  "HBUF_ITEM_AT b sz i =
     (if (i + 1) * sz \<le> length (b_data b) then Some (take sz (drop (i * sz) (b_data b))) else None)"

definition HBUF_PTR_COUNT :: "hbuf_t \<Rightarrow> nat" where
  "HBUF_PTR_COUNT b = HBUF_ITEM_COUNT b 8"

definition HBUF_PTR_AT :: "hbuf_t \<Rightarrow> nat \<Rightarrow> u64 option" where
  "HBUF_PTR_AT b i = map_option dec64 (HBUF_ITEM_AT b 8 i)"

definition HBUF_PTR_PUSH :: "hbuf_api \<Rightarrow> hbuf_t \<Rightarrow> u64 \<Rightarrow> int \<times> hbuf_t" where
  "HBUF_PTR_PUSH B b p = hbuf_push B b (enc64 p)"

definition HBUF_I32_AT :: "hbuf_t \<Rightarrow> nat \<Rightarrow> u32 option" where
  "HBUF_I32_AT b i = map_option dec32 (HBUF_ITEM_AT b 4 i)"

text \<open>The search loop \<^verbatim>\<open>for (i = 0; i < n; ++i) if (item_i == x) ...\<close>: the position at which it stops,
  if it does.\<close>

function buf_search :: "(nat \<Rightarrow> 'a option) \<Rightarrow> nat \<Rightarrow> 'a \<Rightarrow> nat \<Rightarrow> nat option option" where
  "buf_search at n x i =
     (if i < n then do { y \<leftarrow> at i; if y = x then Some (Some i) else buf_search at n x (i + 1) }
      else Some None)"
  by pat_completeness auto
termination by (relation "measure (\<lambda>(at, n, x, i). n - i)") auto

declare buf_search.simps [simp del]

lemma buf_search_list:
  assumes "\<And>j. j < length xs \<Longrightarrow> at j = Some (xs ! j)" and "i \<le> length xs"
  shows "buf_search at (length xs) x i = Some (map_option (\<lambda>j. j + i) (index_of x (drop i xs)))"
  using assms
proof (induction at "length xs" x i rule: buf_search.induct)
  case (1 at x i)
  show ?case
  proof (cases "i < length xs")
    case True
    then have "drop i xs = xs ! i # drop (Suc i) xs" by (simp add: Cons_nth_drop_Suc)
    then show ?thesis
      using 1 True by (subst buf_search.simps) (auto simp: option.map_comp o_def)
  next
    case False
    then show ?thesis using 1 by (subst buf_search.simps) simp
  qed
qed

section \<open>Contents\<close>

definition hbuf_wf :: "hbuf_t \<Rightarrow> bool" where
  "hbuf_wf b \<longleftrightarrow> b_len b \<le> b_size b \<and> length (b_data b) = b_size b \<and> 0 < b_size b"

definition content :: "hbuf_t \<Rightarrow> bytes" where
  "content b = take (b_len b) (b_data b)"

lemma length_content: "hbuf_wf b \<Longrightarrow> length (content b) = b_len b"
  by (simp add: content_def hbuf_wf_def)

section \<open>The laws of the library\<close>

definition HBUF_LIMIT :: nat where "HBUF_LIMIT = 1073741824"

locale hbuf_lib =
  fixes B :: hbuf_api
  assumes init_law: "fst (hbuf_init B s) = 0 \<Longrightarrow>
      hbuf_wf (snd (hbuf_init B s)) \<and> content (snd (hbuf_init B s)) = []"
    and push_law: "hbuf_wf b \<Longrightarrow> d \<noteq> [] \<Longrightarrow> fst (hbuf_push B b d) = 0 \<Longrightarrow>
      hbuf_wf (snd (hbuf_push B b d)) \<and> content (snd (hbuf_push B b d)) = content b @ d"
    and push_nil_law: "fst (hbuf_push B b []) \<noteq> 0 \<and> snd (hbuf_push B b []) = b"
    and remove_law: "hbuf_wf b \<Longrightarrow> 0 < w \<Longrightarrow> w dvd b_len b \<Longrightarrow> (i + 1) * w \<le> b_len b \<Longrightarrow>
      fst (hbuf_remove B b i w) = 0 \<and> hbuf_wf (snd (hbuf_remove B b i w)) \<and>
      content (snd (hbuf_remove B b i w)) =
        take (i * w) (content b) @ drop ((i + 1) * w) (content b)"
    and clear_law: "hbuf_wf b \<Longrightarrow>
      hbuf_wf (snd (hbuf_clear B b)) \<and> content (snd (hbuf_clear B b)) = []"

locale hbuf_mem = hbuf_lib +
  assumes init_mem: "0 < s \<Longrightarrow> s \<le> HBUF_LIMIT \<Longrightarrow> fst (hbuf_init B s) = 0"
    and push_mem: "hbuf_wf b \<Longrightarrow> d \<noteq> [] \<Longrightarrow> b_len b + length d \<le> HBUF_LIMIT \<Longrightarrow>
      fst (hbuf_push B b d) = 0"

section \<open>Item views\<close>

text \<open>A buffer read as a list of fixed-width items.\<close>

definition items :: "nat \<Rightarrow> (bytes \<Rightarrow> 'a) \<Rightarrow> hbuf_t \<Rightarrow> 'a list" where
  "items w dec b = map (\<lambda>i. dec (take w (drop (i * w) (content b)))) [0 ..< b_len b div w]"

definition holds_items :: "nat \<Rightarrow> hbuf_t \<Rightarrow> bool" where
  "holds_items w b \<longleftrightarrow> hbuf_wf b \<and> w dvd b_len b"

locale item_codec =
  fixes w :: nat and enc :: "'a \<Rightarrow> bytes" and dec :: "bytes \<Rightarrow> 'a"
  assumes width: "0 < w" and length_enc_w: "length (enc x) = w" and dec_enc: "dec (enc x) = x"
begin

lemma length_items: "length (items w dec b) = HBUF_ITEM_COUNT b w"
  by (simp add: items_def HBUF_ITEM_COUNT_def)

lemma item_at:
  assumes "holds_items w b" "i < length (items w dec b)"
  shows "map_option dec (HBUF_ITEM_AT b w i) = Some (items w dec b ! i)"
proof -
  have i: "i < b_len b div w" using assms(2) by (simp add: items_def)
  then have "(i + 1) * w \<le> b_len b"
    by (metis Suc_eq_plus1 Suc_leI div_times_less_eq_dividend le_trans mult_le_mono1)
  then have fits: "(i + 1) * w \<le> b_len b" "(i + 1) * w \<le> length (b_data b)"
    using assms(1) by (simp_all add: holds_items_def hbuf_wf_def)
  then have "take w (drop (i * w) (b_data b)) = take w (drop (i * w) (content b))"
    by (simp add: content_def drop_take)
  then show ?thesis using fits i by (simp add: HBUF_ITEM_AT_def items_def)
qed

lemma items_content_cong:
  "hbuf_wf b \<Longrightarrow> hbuf_wf b' \<Longrightarrow> content b = content b' \<Longrightarrow> items w dec b = items w dec b'"
  by (metis items_def length_content)

lemma search_items:
  assumes "holds_items w b"
  shows "buf_search (\<lambda>i. map_option dec (HBUF_ITEM_AT b w i)) (HBUF_ITEM_COUNT b w) x 0 =
    Some (index_of x (items w dec b))"
proof -
  have "buf_search (\<lambda>i. map_option dec (HBUF_ITEM_AT b w i)) (length (items w dec b)) x 0 =
      Some (map_option (\<lambda>j. j + 0) (index_of x (drop 0 (items w dec b))))"
    by (rule buf_search_list) (simp_all add: item_at [OF assms])
  then show ?thesis by (simp add: length_items option.map_ident)
qed

lemma items_empty: "hbuf_wf b \<Longrightarrow> content b = [] \<Longrightarrow> holds_items w b \<and> items w dec b = []"
  by (simp add: holds_items_def items_def length_content [symmetric])

lemma items_snoc:
  assumes b: "holds_items w b" and b': "hbuf_wf b'" "content b' = content b @ enc x"
  shows "holds_items w b'" "items w dec b' = items w dec b @ [x]"
proof -
  have len: "b_len b' = b_len b + w" "length (content b) = b_len b"
    using b b' length_content [of b] length_content [of b'] by (simp_all add: holds_items_def length_enc_w)
  obtain n where n: "b_len b = n * w"
    using b by (metis dvdE holds_items_def mult.commute)
  show "holds_items w b'" using b b' len by (simp add: holds_items_def)
  have "take w (drop (i * w) (content b')) = take w (drop (i * w) (content b))" if "i < n" for i
  proof -
    have "i * w + w \<le> n * w" using that by (metis Suc_leI add.commute mult_Suc mult_le_mono1)
    then show ?thesis using b'(2) len n by simp
  qed
  moreover have "dec (take w (drop (n * w) (content b'))) = x"
    using b' len n by (simp add: length_enc_w dec_enc)
  ultimately show "items w dec b' = items w dec b @ [x]"
    using len n width by (simp add: items_def)
qed

lemma items_remove:
  assumes b: "holds_items w b" "i < length (items w dec b)"
    and b': "hbuf_wf b'" "content b' = take (i * w) (content b) @ drop ((i + 1) * w) (content b)"
  shows "holds_items w b'" "items w dec b' = remove_nth i (items w dec b)"
proof -
  obtain n where n: "b_len b = n * w"
    using b by (metis dvdE holds_items_def mult.commute)
  have i: "i < n" using b(2) n width by (simp add: items_def)
  then have iw: "i * w + w \<le> n * w" by (metis Suc_leI add.commute mult_Suc mult_le_mono1)
  have lc: "length (content b) = n * w" using b(1) length_content n by (simp add: holds_items_def)
  have "length (content b') = (n - 1) * w"
    using b'(2) lc iw by (simp add: diff_mult_distrib)
  then have len: "b_len b' = (n - 1) * w" using b'(1) length_content by simp
  show "holds_items w b'" using b' len by (simp add: holds_items_def)
  have nth: "take w (drop (j * w) (content b')) =
      take w (drop ((if j < i then j else Suc j) * w) (content b))" if "j < n - 1" for j
  proof (cases "j < i")
    case True
    then have "j * w + w \<le> i * w" by (metis Suc_leI add.commute mult_Suc mult_le_mono1)
    then show ?thesis using True b'(2) lc iw by (simp add: drop_take min_def)
  next
    case False
    then have le: "i * w \<le> j * w" by simp
    have "min (n * w) (i * w) = i * w" using iw by simp
    then show ?thesis using False b'(2) lc iw le by (simp add: add.commute add.assoc)
  qed
  show "items w dec b' = remove_nth i (items w dec b)"
  proof (rule nth_equalityI)
    show "length (items w dec b') = length (remove_nth i (items w dec b))"
      using len n width i b(2) by (simp add: items_def)
    show "items w dec b' ! j = remove_nth i (items w dec b) ! j" if "j < length (items w dec b')" for j
      using that len n width i nth [of j]
      by (auto simp: items_def remove_nth_def nth_append)
  qed
qed

end

text \<open>The library operations on item views, for every codec.\<close>

locale hbuf_items = hbuf_lib B + item_codec w enc dec
  for B :: hbuf_api and w :: nat and enc :: "'a \<Rightarrow> bytes" and dec :: "bytes \<Rightarrow> 'a"
begin

lemma enc_nonempty: "enc x \<noteq> []"
  using width length_enc_w [of x] by auto

lemma init_items: "fst (hbuf_init B s) = 0 \<Longrightarrow>
    holds_items w (snd (hbuf_init B s)) \<and> items w dec (snd (hbuf_init B s)) = []"
  using init_law items_empty by blast

lemma push_items: "holds_items w b \<Longrightarrow> fst (hbuf_push B b (enc x)) = 0 \<Longrightarrow>
    holds_items w (snd (hbuf_push B b (enc x))) \<and>
    items w dec (snd (hbuf_push B b (enc x))) = items w dec b @ [x]"
  using push_law [OF _ enc_nonempty] items_snoc unfolding holds_items_def by blast

lemma remove_items:
  assumes "holds_items w b" "i < length (items w dec b)"
  shows "fst (hbuf_remove B b i w) = 0 \<and> holds_items w (snd (hbuf_remove B b i w)) \<and>
    items w dec (snd (hbuf_remove B b i w)) = remove_nth i (items w dec b)"
proof -
  have "i < b_len b div w" using assms(2) by (simp add: items_def)
  then have "(i + 1) * w \<le> b_len b"
    by (metis Suc_eq_plus1 Suc_leI div_times_less_eq_dividend le_trans mult_le_mono1)
  then show ?thesis
    using remove_law [of b w i] items_remove [OF assms] assms(1) width
    unfolding holds_items_def by blast
qed

end

interpretation i32: item_codec 4 enc32 dec32
  by unfold_locales simp_all

interpretation ptr: item_codec 8 enc64 dec64
  by unfold_locales simp_all

interpretation i16: item_codec 2 enc16 dec16
  by unfold_locales simp_all

sublocale hbuf_lib \<subseteq> i32: hbuf_items B 4 enc32 dec32
  by unfold_locales

sublocale hbuf_lib \<subseteq> ptr: hbuf_items B 8 enc64 dec64
  by unfold_locales

abbreviation ptrs :: "hbuf_t \<Rightarrow> u64 list" where "ptrs \<equiv> items 8 dec64"
abbreviation i32s :: "hbuf_t \<Rightarrow> u32 list" where "i32s \<equiv> items 4 dec32"

lemma HBUF_PTR_search:
  "holds_items 8 b \<Longrightarrow> buf_search (HBUF_PTR_AT b) (HBUF_PTR_COUNT b) p 0 = Some (index_of p (ptrs b))"
  unfolding HBUF_PTR_AT_def HBUF_PTR_COUNT_def by (rule ptr.search_items)

lemma HBUF_I32_search:
  "holds_items 4 b \<Longrightarrow>
    buf_search (HBUF_I32_AT b) (HBUF_ITEM_COUNT b 4) t 0 = Some (index_of t (i32s b))"
  unfolding HBUF_I32_AT_def by (rule i32.search_items)

lemma HBUF_PTR_COUNT_items: "HBUF_PTR_COUNT b = length (ptrs b)"
  by (simp add: HBUF_PTR_COUNT_def ptr.length_items)

lemma HBUF_PTR_AT_items: "holds_items 8 b \<Longrightarrow> i < length (ptrs b) \<Longrightarrow> HBUF_PTR_AT b i = Some (ptrs b ! i)"
  unfolding HBUF_PTR_AT_def by (rule ptr.item_at)

lemma HBUF_I32_AT_items: "holds_items 4 b \<Longrightarrow> i < length (i32s b) \<Longrightarrow> HBUF_I32_AT b i = Some (i32s b ! i)"
  unfolding HBUF_I32_AT_def by (rule i32.item_at)

section \<open>An instance with the library's documented limits\<close>

text \<open>\<open>hbuf_bounded limit\<close> satisfies the laws: sizes start at 32 and double, a push beyond the limit
  fails with the code of a failed allocation. With a limit of 1 GiB it also satisfies
  \<open>hbuf_mem\<close>.\<close>

definition hbuf_bounded :: "nat \<Rightarrow> hbuf_api" where
  "hbuf_bounded limit =
     \<lparr>hbuf_init = (\<lambda>s. if s \<le> limit then (0, \<lparr>b_len = 0, b_size = max 32 s, b_data = replicate (max 32 s) 0\<rparr>)
                       else (0x15, \<lparr>b_len = 0, b_size = 0, b_data = []\<rparr>)),
      hbuf_fini = (\<lambda>b. (0, \<lparr>b_len = 0, b_size = 0, b_data = []\<rparr>)),
      hbuf_push = (\<lambda>b d. if d = [] \<or> b_size b = 0 then (0xF0, b)
                   else if limit < b_len b + length d then (0x15, b)
                   else let c = content b @ d; n = max (b_size b) (2 * length c)
                        in (0, \<lparr>b_len = length c, b_size = n, b_data = c @ replicate (n - length c) 0\<rparr>)),
      hbuf_remove = (\<lambda>b i w. let c = take (i * w) (content b) @ drop ((i + 1) * w) (content b)
                        in (0, \<lparr>b_len = length c, b_size = b_size b,
                                b_data = c @ replicate (b_size b - length c) 0\<rparr>)),
      hbuf_clear = (\<lambda>b. (0, b\<lparr>b_len := 0\<rparr>))\<rparr>"

abbreviation hbuf_1g :: hbuf_api where "hbuf_1g \<equiv> hbuf_bounded HBUF_LIMIT"

interpretation bounded: hbuf_lib "hbuf_bounded limit" for limit
proof (unfold_locales, goal_cases)
  case (1 s)
  then show ?case by (auto simp: hbuf_bounded_def hbuf_wf_def content_def split: if_splits)
next
  case (2 b d)
  then show ?case
    by (auto simp: hbuf_bounded_def hbuf_wf_def content_def Let_def split: if_splits)
next
  case (3 b)
  then show ?case by (simp add: hbuf_bounded_def)
next
  case (4 b w i)
  then show ?case
    by (auto simp: hbuf_bounded_def hbuf_wf_def content_def Let_def)
next
  case (5 b)
  then show ?case by (auto simp: hbuf_bounded_def hbuf_wf_def content_def)
qed

interpretation one_gib: hbuf_mem hbuf_1g
  by unfold_locales (auto simp: hbuf_bounded_def hbuf_wf_def Let_def)

end
