(* ===== verification/Broker.thy ===== *)
theory Broker
  imports Hhash Hmsg Hbuf
begin

text \<open>
  The broker process, \<^verbatim>\<open>src/src/hbroker.c\<close>: the global topic map, the sessions hanging off the open
  connections and the event handlers that the libhv loop calls. Handlers are functions on the
  broker state; \<open>None\<close> means that the C code would dereference an invalid pointer or loop for
  ever. \<^verbatim>\<open>malloc\<close> is an argument (the address it returned, 0 for \<^verbatim>\<open>NULL\<close>), the buffer library is the
  parameter \<open>B\<close>, and \<^verbatim>\<open>hio_write\<close> appends to the outbox. Log output is left out, but the pointers
  that the log calls dereference are not.
\<close>

section \<open>State\<close>

type_synonym hio = nat

record hsession_t =
  s_io :: hio
  s_buf_topics :: hbuf_t
  s_node_id :: u16
  s_timeout_sec :: u16

text \<open>\<open>map_topic_sessions\<close> is the field of \<^verbatim>\<open>hbus_ctx_t\<close>, \<open>hash_seed\<close> the global of stb_ds, \<open>sessions\<close>
  the heap of live \<^verbatim>\<open>hsession_t\<close> objects by address, \<open>context_of\<close> what \<^verbatim>\<open>hio_context\<close> returns for the
  open connections.\<close>

record broker =
  map_topic_sessions :: "hbuf_t hihash"
  hash_seed :: u64
  sessions :: "u64 \<Rightarrow> hsession_t option"
  context_of :: "hio \<Rightarrow> u64 option"
  outbox :: "(hio \<times> bytes) list"

abbreviation (input) HSESSION_TIMEOUT_SEC :: u16 where "HSESSION_TIMEOUT_SEC \<equiv> 30"

definition broker_init :: "u64 \<Rightarrow> broker" where
  "broker_init seed =
     \<lparr>map_topic_sessions = None, hash_seed = seed, sessions = (\<lambda>_. None), context_of = (\<lambda>_. None),
      outbox = []\<rparr>"

definition hbus_ctx_free :: "broker \<Rightarrow> broker" where
  "hbus_ctx_free st = st\<lparr>map_topic_sessions := HIHASH_FINI (map_topic_sessions st)\<rparr>"

section \<open>The topic map\<close>

definition hbus_ctx_session_add :: "hbuf_api \<Rightarrow> u32 \<Rightarrow> u64 \<Rightarrow> broker \<Rightarrow> broker option" where
  "hbus_ctx_session_add B topic s st =
     do { (h, it) \<leftarrow> HIHASH_FIND (map_topic_sessions st) topic;
          st \<leftarrow> Some (st\<lparr>map_topic_sessions := h\<rparr>);
          if HIHASH_ITERATE_VALID h it then
            do { buf_sessions \<leftarrow> HIHASH_GETV h it;
                 found \<leftarrow> buf_search (HBUF_PTR_AT buf_sessions) (HBUF_PTR_COUNT buf_sessions) s 0;
                 _ \<leftarrow> sessions st s;
                 if found \<noteq> None then Some st
                 else Some (st\<lparr>map_topic_sessions :=
                        HIHASH_STORE h it (snd (HBUF_PTR_PUSH B buf_sessions s))\<rparr>) }
          else
            do { b \<leftarrow> Some (snd (hbuf_init B (8 * 8)));
                 b \<leftarrow> Some (snd (HBUF_PTR_PUSH B b s));
                 (g, h) \<leftarrow> HIHASH_SET (hash_seed st) h topic b;
                 _ \<leftarrow> sessions st s;
                 Some (st\<lparr>map_topic_sessions := h, hash_seed := g\<rparr>) } }"

definition hbus_ctx_session_rm :: "hbuf_api \<Rightarrow> u32 \<Rightarrow> u64 \<Rightarrow> broker \<Rightarrow> broker option" where
  "hbus_ctx_session_rm B topic_ex s st =
     do { (h, it) \<leftarrow> HIHASH_FIND (map_topic_sessions st) topic_ex;
          st \<leftarrow> Some (st\<lparr>map_topic_sessions := h\<rparr>);
          if \<not> HIHASH_ITERATE_VALID h it then do { _ \<leftarrow> sessions st s; Some st }
          else
            do { buf_sessions \<leftarrow> HIHASH_GETV h it;
                 found \<leftarrow> buf_search (HBUF_PTR_AT buf_sessions) (HBUF_PTR_COUNT buf_sessions) s 0;
                 buf_sessions \<leftarrow>
                   (case found of
                      Some i \<Rightarrow> do { _ \<leftarrow> sessions st s; Some (snd (hbuf_remove B buf_sessions i 8)) }
                    | None \<Rightarrow> Some buf_sessions);
                 h \<leftarrow> Some (HIHASH_STORE h it buf_sessions);
                 if HBUF_PTR_COUNT buf_sessions = 0 then
                   do { h \<leftarrow> Some (HIHASH_STORE h it (snd (hbuf_fini B buf_sessions)));
                        (g, h) \<leftarrow> HIHASH_DEL (hash_seed st) h topic_ex;
                        Some (st\<lparr>map_topic_sessions := h, hash_seed := g\<rparr>) }
                 else Some (st\<lparr>map_topic_sessions := h\<rparr>) } }"

section \<open>Sessions\<close>

definition hbus_seesion_alloc :: "hbuf_api \<Rightarrow> u64 \<Rightarrow> hio \<Rightarrow> broker \<Rightarrow> u64 \<times> broker" where
  "hbus_seesion_alloc B malloc io st =
     (if malloc = 0 then (0, st)
      else let (r, b) = hbuf_init B (2 * 16) in
        if r \<noteq> 0 then (0, st)
        else (malloc, st\<lparr>sessions := (sessions st)(malloc \<mapsto>
          \<lparr>s_io = io, s_buf_topics = b, s_node_id = 0, s_timeout_sec = HSESSION_TIMEOUT_SEC\<rparr>)\<rparr>))"

text \<open>The loop over the session's own topics, from position \<open>i\<close>.\<close>

function rm_topics :: "hbuf_api \<Rightarrow> u64 \<Rightarrow> nat \<Rightarrow> nat \<Rightarrow> broker \<Rightarrow> broker option" where
  "rm_topics B s n i st =
     (if i < n then
        do { ses \<leftarrow> sessions st s;
             tmp_topic \<leftarrow> HBUF_I32_AT (s_buf_topics ses) i;
             st \<leftarrow> hbus_ctx_session_rm B tmp_topic s st;
             rm_topics B s n (i + 1) st }
      else Some st)"
  by pat_completeness auto
termination by (relation "measure (\<lambda>(B, s, n, i, st). n - i)") auto

declare rm_topics.simps [simp del]

text \<open>The closing \<^verbatim>\<open>hbuf_fini(&s->buf_topics); free(s)\<close> ends the life of the object.\<close>

definition hbus_seesion_free :: "hbuf_api \<Rightarrow> u64 \<Rightarrow> broker \<Rightarrow> broker option" where
  "hbus_seesion_free B s st =
     do { ses \<leftarrow> sessions st s;
          st \<leftarrow> rm_topics B s (HBUF_ITEM_COUNT (s_buf_topics ses) 4) 0 st;
          Some (st\<lparr>sessions := (sessions st)(s := None)\<rparr>) }"

section \<open>Event handlers\<close>

text \<open>The forwarding loop: every session of the topic's buffer that the message is addressed to is
  sent the received block.\<close>

function forward :: "hbuf_t \<Rightarrow> hmsg_t \<Rightarrow> bytes \<Rightarrow> nat \<Rightarrow> nat \<Rightarrow> broker \<Rightarrow> broker option" where
  "forward buf_sessions msg buf session_num i st =
     (if i < session_num then
        do { p \<leftarrow> HBUF_PTR_AT buf_sessions i;
             tmp_session \<leftarrow> sessions st p;
             st \<leftarrow> Some (if m_to msg = s_node_id tmp_session \<or> HMSG_APPID_EVERYONR = m_to msg
                        then st\<lparr>outbox := outbox st @ [(s_io tmp_session, buf)]\<rparr> else st);
             forward buf_sessions msg buf session_num (i + 1) st }
      else Some st)"
  by pat_completeness auto
termination by (relation "measure (\<lambda>(b, m, d, n, i, st). n - i)") auto

declare forward.simps [simp del]

definition route :: "hmsg_t \<Rightarrow> bytes \<Rightarrow> broker \<Rightarrow> broker option" where
  "route msg buf st =
     do { (h, it) \<leftarrow> HIHASH_FIND (map_topic_sessions st) (HMSG_TOPICEX_INMSG msg);
          st \<leftarrow> Some (st\<lparr>map_topic_sessions := h\<rparr>);
          if HIHASH_ITERATE_VALID h it then
            do { buf_sessions \<leftarrow> HIHASH_GETV h it;
                 forward buf_sessions msg buf (HBUF_PTR_COUNT buf_sessions) 0 st }
          else Some st }"

definition on_sub :: "hbuf_api \<Rightarrow> u64 \<Rightarrow> hmsg_t \<Rightarrow> broker \<Rightarrow> broker option" where
  "on_sub B session msg st =
     do { flags_to_sub \<leftarrow> Some (HMSG_FLAGS HMSG_FCMD_DATA (HMSG_FLAGS_DATA (m_flags msg)));
          topic_to_sub \<leftarrow> Some (HMSG_TOPICEX 0 (ucast flags_to_sub) (ucast (m_topic msg)));
          ses \<leftarrow> sessions st session;
          found \<leftarrow> buf_search (HBUF_I32_AT (s_buf_topics ses))
                     (HBUF_ITEM_COUNT (s_buf_topics ses) 4) topic_to_sub 0;
          if found \<noteq> None then Some st
          else do {
            st \<leftarrow> hbus_ctx_session_add B topic_to_sub session st;
            ses \<leftarrow> sessions st session;
            Some (st\<lparr>sessions := (sessions st)(session \<mapsto>
              ses\<lparr>s_buf_topics := snd (hbuf_push B (s_buf_topics ses) (enc32 topic_to_sub))\<rparr>)\<rparr>) } }"

definition on_unsub :: "hbuf_api \<Rightarrow> u64 \<Rightarrow> hmsg_t \<Rightarrow> broker \<Rightarrow> broker option" where
  "on_unsub B session msg st =
     do { flags_to_unsub \<leftarrow> Some (HMSG_FLAGS HMSG_FCMD_DATA (HMSG_FLAGS_DATA (m_flags msg)));
          topic_to_unsub \<leftarrow> Some (HMSG_TOPICEX 0 (ucast flags_to_unsub) (ucast (m_topic msg)));
          ses \<leftarrow> sessions st session;
          found \<leftarrow> buf_search (HBUF_I32_AT (s_buf_topics ses))
                     (HBUF_ITEM_COUNT (s_buf_topics ses) 4) topic_to_unsub 0;
          case found of
            None \<Rightarrow> Some st
          | Some j \<Rightarrow>
              hbus_ctx_session_rm B topic_to_unsub session
                (st\<lparr>sessions := (sessions st)(session \<mapsto>
                  ses\<lparr>s_buf_topics := snd (hbuf_remove B (s_buf_topics ses) j 4)\<rparr>)\<rparr>) }"

definition on_register :: "u64 \<Rightarrow> hmsg_t \<Rightarrow> broker \<Rightarrow> broker option" where
  "on_register session msg st =
     do { ses \<leftarrow> sessions st session;
          Some (st\<lparr>sessions := (sessions st)(session \<mapsto> ses\<lparr>s_node_id := m_from msg\<rparr>)\<rparr>) }"

text \<open>\<open>buf\<close> is the unpacked block that libhv hands over, \<open>readbytes\<close> its length.\<close>

definition on_read :: "hbuf_api \<Rightarrow> hio \<Rightarrow> bytes \<Rightarrow> broker \<Rightarrow> broker option" where
  "on_read B io buf st =
     (let msg = hmsg_of_bytes buf; readbytes = int (length buf) in
      if \<not> HMSG_HEAD_VALID msg readbytes then Some st
      else do {
        session \<leftarrow> context_of st io;
        if HMSG_APPID_BROKER \<noteq> m_to msg then route msg buf st
        else if HMSG_FCMD_SUB AND m_flags msg \<noteq> 0 then on_sub B session msg st
        else if HMSG_FCMD_UNSUB = m_flags msg then on_unsub B session msg st
        else if HMSG_FCMD_REGISTER = m_flags msg then on_register session msg st
        else Some st })"

definition on_close :: "hbuf_api \<Rightarrow> hio \<Rightarrow> broker \<Rightarrow> broker option" where
  "on_close B io st =
     do { s \<leftarrow> context_of st io;
          st \<leftarrow> hbus_seesion_free B s st;
          Some (st\<lparr>context_of := (context_of st)(io := None)\<rparr>) }"

definition on_accept :: "hbuf_api \<Rightarrow> u64 \<Rightarrow> hio \<Rightarrow> broker \<Rightarrow> broker" where
  "on_accept B malloc io st =
     (let (s, st) = hbus_seesion_alloc B malloc io st
      in st\<lparr>context_of := (context_of st)(io \<mapsto> s)\<rparr>)"

text \<open>The periodic report: for each topic the node ids of its sessions, in map order.\<close>

function timer_nodes :: "broker \<Rightarrow> hbuf_t \<Rightarrow> nat \<Rightarrow> nat \<Rightarrow> u16 list option" where
  "timer_nodes st buf_sessions n i =
     (if i < n then
        do { p \<leftarrow> HBUF_PTR_AT buf_sessions i;
             s \<leftarrow> sessions st p;
             rest \<leftarrow> timer_nodes st buf_sessions n (i + 1);
             Some (s_node_id s # rest) }
      else Some [])"
  by pat_completeness auto
termination by (relation "measure (\<lambda>(st, b, n, i). n - i)") auto

function timer_topics :: "broker \<Rightarrow> iterate \<Rightarrow> (u32 \<times> u16 list) list option" where
  "timer_topics st it =
     (if HIHASH_ITERATE_VALID (map_topic_sessions st) it then
        do { topic_ex \<leftarrow> HIHASH_GETK (map_topic_sessions st) it;
             buf_sessions \<leftarrow> HIHASH_GETV (map_topic_sessions st) it;
             nodes \<leftarrow> timer_nodes st buf_sessions (HBUF_PTR_COUNT buf_sessions) 0;
             rest \<leftarrow> timer_topics st (HIHASH_ITERATE_NEXT it);
             Some ((topic_ex, nodes) # rest) }
      else Some [])"
  by pat_completeness auto
termination
  by (relation "measure (\<lambda>(st, it). nat (hmlen (map_topic_sessions st) - it))")
    (auto simp: HIHASH_ITERATE_VALID_def HIHASH_ITERATE_NEXT_def)

declare timer_nodes.simps [simp del] timer_topics.simps [simp del]

definition on_timer :: "broker \<Rightarrow> (u32 \<times> u16 list) list option" where
  "on_timer st = timer_topics st HIHASH_ITERATE_BEGIN"

end
