(* ===== verification/BrokerMap.thy ===== *)
theory BrokerMap
  imports Broker
begin

text \<open>
  What the two routines on the broker's topic map do: \<^verbatim>\<open>hbus_ctx_session_add\<close> appends a session to
  the subscriber list of a topic unless it is there, \<^verbatim>\<open>hbus_ctx_session_rm\<close> removes it and drops a
  topic whose list became empty. The forwarding, clean-up and report loops are then described by
  list functions on the subscriber lists. Everything rests on the contract \<open>int_map\<close> of the hash
  map, through its interpretation \<open>hi\<close>, and on the laws of the buffer library.
\<close>

section \<open>Subscriber lists\<close>

definition subs :: "hbuf_t hihash \<Rightarrow> u32 \<Rightarrow> u64 list" where
  "subs h t = (case map_of (hi_entries h) t of None \<Rightarrow> [] | Some b \<Rightarrow> ptrs b)"

definition topic_map_ok :: "hbuf_t hihash \<Rightarrow> bool" where
  "topic_map_ok h \<longleftrightarrow> hi_ok h \<and>
     (\<forall>t b. map_of (hi_entries h) t = Some b \<longrightarrow> holds_items 8 b \<and> ptrs b \<noteq> [] \<and> distinct (ptrs b))"

text \<open>A step that changes at most the topic map and the hash seed.\<close>

definition only_map :: "broker \<Rightarrow> broker \<Rightarrow> bool" where
  "only_map st st' \<longleftrightarrow> sessions st' = sessions st \<and> context_of st' = context_of st \<and>
     outbox st' = outbox st"

lemma only_map_refl [simp]: "only_map st st"
  "only_map st (st\<lparr>map_topic_sessions := h\<rparr>)"
  "only_map st (st\<lparr>map_topic_sessions := h, hash_seed := g\<rparr>)"
  by (simp_all add: only_map_def)

lemma only_map_trans: "only_map st st' \<Longrightarrow> only_map st' st'' \<Longrightarrow> only_map st st''"
  by (simp add: only_map_def)

lemma topic_map_okD:
  assumes "topic_map_ok h"
  shows "hi_ok h" "map_of (hi_entries h) t = Some b \<Longrightarrow> holds_items 8 b"
    "map_of (hi_entries h) t = Some b \<Longrightarrow> ptrs b \<noteq> []"
    "map_of (hi_entries h) t = Some b \<Longrightarrow> distinct (ptrs b)"
    "distinct (subs h t)"
  using assms by (auto simp: topic_map_ok_def subs_def split: option.split)

lemma topic_map_init [simp]: "topic_map_ok None" "subs None t = []"
  by (simp_all add: topic_map_ok_def subs_def hi.init_inv [unfolded HIHASH_INIT_def]
      hi.init_entries [unfolded HIHASH_INIT_def])

lemma subs_same_entries: "hi_entries h' = hi_entries h \<Longrightarrow> subs h' = subs h"
  by (simp add: subs_def fun_eq_iff)

lemma topic_map_ok_same_entries:
  "hi_entries h' = hi_entries h \<Longrightarrow> hi_ok h' \<Longrightarrow> topic_map_ok h \<Longrightarrow> topic_map_ok h'"
  by (simp add: topic_map_ok_def)

lemma topic_map_update:
  assumes "topic_map_ok h" "hi_ok h'" "map_of (hi_entries h') = (map_of (hi_entries h))(t \<mapsto> b)"
    and "holds_items 8 b" "ptrs b \<noteq> []" "distinct (ptrs b)"
  shows "topic_map_ok h'" "subs h' = (subs h)(t := ptrs b)"
  using assms by (auto simp: topic_map_ok_def subs_def fun_eq_iff)

lemma topic_map_delete:
  assumes "topic_map_ok h" "hi_ok h'" "map_of (hi_entries h') = (map_of (hi_entries h))(t := None)"
  shows "topic_map_ok h'" "subs h' = (subs h)(t := [])"
  using assms by (auto simp: topic_map_ok_def subs_def fun_eq_iff)

lemma remove_nth_index_of: "index_of x xs = Some i \<Longrightarrow> remove_nth i xs = remove1 x xs"
  by (induction xs arbitrary: i) (auto simp: remove_nth_def split: if_splits)

section \<open>Adding a session\<close>

definition append_new :: "'a \<Rightarrow> 'a list \<Rightarrow> 'a list" where
  "append_new x xs = (if x \<in> set xs then xs else xs @ [x])"

lemma append_new_simps [simp]:
  "set (append_new x xs) = insert x (set xs)" "append_new x xs \<noteq> []"
  "distinct (append_new x xs) = distinct xs"
  by (auto simp: append_new_def)

lemma ptrs_len: "holds_items 8 b \<Longrightarrow> b_len b = 8 * length (ptrs b)"
  by (auto simp: holds_items_def items_def)

lemma i32s_len: "holds_items 4 b \<Longrightarrow> b_len b = 4 * length (i32s b)"
  by (auto simp: holds_items_def items_def)

context hbuf_lib
begin

lemma ptr_remove:
  assumes "holds_items 8 b" "index_of p (ptrs b) = Some i"
  shows "holds_items 8 (snd (hbuf_remove B b i 8))" "ptrs (snd (hbuf_remove B b i 8)) = remove1 p (ptrs b)"
  using ptr.remove_items [OF assms(1), of i] index_of_SomeD [OF assms(2)]
    remove_nth_index_of [OF assms(2)] by simp_all

lemma i32_init: "fst (hbuf_init B s) = 0 \<Longrightarrow>
    holds_items 4 (snd (hbuf_init B s)) \<and> i32s (snd (hbuf_init B s)) = []"
  by (rule i32.init_items)

lemma i32_remove:
  assumes "holds_items 4 b" "index_of t (i32s b) = Some i"
  shows "holds_items 4 (snd (hbuf_remove B b i 4))" "i32s (snd (hbuf_remove B b i 4)) = remove1 t (i32s b)"
  using i32.remove_items [OF assms(1), of i] index_of_SomeD [OF assms(2)]
    remove_nth_index_of [OF assms(2)] by simp_all

end

context hbuf_mem
begin

lemma ptr_push:
  assumes "holds_items 8 b" "length (ptrs b) < 2 ^ 27"
  shows "holds_items 8 (snd (HBUF_PTR_PUSH B b p))" "ptrs (snd (HBUF_PTR_PUSH B b p)) = ptrs b @ [p]"
proof -
  have "fst (hbuf_push B b (enc64 p)) = 0"
    using assms ptrs_len [OF assms(1)] ptr.enc_nonempty [of p]
    by (intro push_mem) (auto simp: holds_items_def HBUF_LIMIT_def)
  then show "holds_items 8 (snd (HBUF_PTR_PUSH B b p))" "ptrs (snd (HBUF_PTR_PUSH B b p)) = ptrs b @ [p]"
    using ptr.push_items [OF assms(1)] by (simp_all add: HBUF_PTR_PUSH_def)
qed

lemma i32_push:
  assumes "holds_items 4 b" "length (i32s b) < 2 ^ 28"
  shows "holds_items 4 (snd (hbuf_push B b (enc32 t)))" "i32s (snd (hbuf_push B b (enc32 t))) = i32s b @ [t]"
proof -
  have "fst (hbuf_push B b (enc32 t)) = 0"
    using assms i32s_len [OF assms(1)] i32.enc_nonempty [of t]
    by (intro push_mem) (auto simp: holds_items_def HBUF_LIMIT_def)
  then show "holds_items 4 (snd (hbuf_push B b (enc32 t)))"
    "i32s (snd (hbuf_push B b (enc32 t))) = i32s b @ [t]"
    using i32.push_items [OF assms(1)] by simp_all
qed

lemma new_ptr_buf:
  "holds_items 8 (snd (HBUF_PTR_PUSH B (snd (hbuf_init B 64)) p))"
  "ptrs (snd (HBUF_PTR_PUSH B (snd (hbuf_init B 64)) p)) = [p]"
  using ptr.init_items [of 64] init_mem [of 64] ptr_push [of "snd (hbuf_init B 64)" p]
  by (simp_all add: HBUF_LIMIT_def)

end

text \<open>The bound keeps a subscriber list below the 1 GiB limit of a buffer.\<close>

lemma session_add_spec:
  assumes B: "hbuf_mem B" and ok: "topic_map_ok (map_topic_sessions st)"
    and s: "sessions st s \<noteq> None" and room: "length (subs (map_topic_sessions st) t) < 2 ^ 27"
  obtains st' where "hbus_ctx_session_add B t s st = Some st'" "only_map st st'"
    "topic_map_ok (map_topic_sessions st')"
    "subs (map_topic_sessions st') =
       (subs (map_topic_sessions st))(t := append_new s (subs (map_topic_sessions st) t))"
proof (cases "map_of (hi_entries (map_topic_sessions st)) t")
  case None
  obtain h where h: "HIHASH_FIND (map_topic_sessions st) t = Some (h, -1)" "hi_ok h"
    "hi_entries h = hi_entries (map_topic_sessions st)" "\<not> HIHASH_ITERATE_VALID h (-1)"
    using hi.find_absent [OF topic_map_okD(1) [OF ok] None] by blast
  let ?b = "snd (HBUF_PTR_PUSH B (snd (hbuf_init B 64)) s)"
  obtain g' h' where h': "HIHASH_SET (hash_seed st) h t ?b = Some (g', h')" "hi_ok h'"
    "map_of (hi_entries h') = (map_of (hi_entries h))(t \<mapsto> ?b)"
    using hi.put_map [OF h(2)] by blast
  note new = hbuf_mem.new_ptr_buf [OF B, of s]
  have "subs (map_topic_sessions st) t = []" using None by (simp add: subs_def)
  then have "topic_map_ok h'" "subs h' =
      (subs (map_topic_sessions st))(t := append_new s (subs (map_topic_sessions st) t))"
    using topic_map_update [OF ok h'(2), of t ?b] h'(3) h(3) new by (simp_all add: append_new_def)
  then show ?thesis
    using that [of "st\<lparr>map_topic_sessions := h', hash_seed := g'\<rparr>"] h h' s
    by (auto simp: hbus_ctx_session_add_def)
next
  case (Some b)
  obtain h i where h: "HIHASH_FIND (map_topic_sessions st) t = Some (h, int i)" "hi_ok h"
    "hi_entries h = hi_entries (map_topic_sessions st)" "HIHASH_ITERATE_VALID h (int i)"
    "HIHASH_GETV h (int i) = Some b" "i < length (hi_entries h)" "hi_entries h ! i = (t, b)"
    using hi.find_present [OF topic_map_okD(1) [OF ok] Some] by auto
  have b: "holds_items 8 b" "distinct (ptrs b)" "subs (map_topic_sessions st) t = ptrs b"
    using topic_map_okD [OF ok] Some by (auto simp: subs_def)
  note search = HBUF_PTR_search [OF b(1), of s]
  show ?thesis
  proof (cases "s \<in> set (ptrs b)")
    case True
    then have "hbus_ctx_session_add B t s st = Some (st\<lparr>map_topic_sessions := h\<rparr>)"
      using h s search by (auto simp: hbus_ctx_session_add_def index_of_None)
    moreover have "subs h = (subs (map_topic_sessions st))(t := append_new s (subs (map_topic_sessions st) t))"
      using True b(3) subs_same_entries [OF h(3)] by (auto simp: append_new_def)
    ultimately show ?thesis
      using that topic_map_ok_same_entries [OF h(3,2) ok] by simp
  next
    case False
    let ?b = "snd (HBUF_PTR_PUSH B b s)"
    have new: "holds_items 8 ?b" "ptrs ?b = append_new s (ptrs b)"
      using hbuf_mem.ptr_push [OF B b(1), of s] room b(3) False by (simp_all add: append_new_def)
    note st = hi.store_map [OF h(2,6,7), of ?b]
    have "hbus_ctx_session_add B t s st =
        Some (st\<lparr>map_topic_sessions := HIHASH_STORE h (int i) ?b\<rparr>)"
      using h s search False by (auto simp: hbus_ctx_session_add_def index_of_None)
    moreover have "topic_map_ok (HIHASH_STORE h (int i) ?b)"
      "subs (HIHASH_STORE h (int i) ?b) =
        (subs (map_topic_sessions st))(t := append_new s (subs (map_topic_sessions st) t))"
      using topic_map_update [OF ok st(1), of t ?b] st(2) h(3) new b by simp_all
    ultimately show ?thesis using that by simp
  qed
qed

section \<open>Removing a session\<close>

lemma topic_map_store_any:
  assumes "topic_map_ok h" "hi_ok h'" "hi_entries h' = hi_entries h" "i < length (hi_entries h')"
    "hi_entries h' ! i = (t, w)"
  shows "hi_ok (HIHASH_STORE h' (int i) b)"
    "map_of (hi_entries (HIHASH_STORE h' (int i) b)) = (map_of (hi_entries h))(t \<mapsto> b)"
    "i < length (hi_entries (HIHASH_STORE h' (int i) b))"
    "hi_entries (HIHASH_STORE h' (int i) b) ! i = (t, b)"
  using hi.store_map [OF assms(2,4,5), of b] hi.store_spec [OF assms(2,4), of b] assms
  by simp_all

lemma session_rm_spec:
  assumes B: "hbuf_lib B" and ok: "topic_map_ok (map_topic_sessions st)"
    and s: "sessions st s \<noteq> None"
  obtains st' where "hbus_ctx_session_rm B t s st = Some st'" "only_map st st'"
    "topic_map_ok (map_topic_sessions st')"
    "subs (map_topic_sessions st') =
       (subs (map_topic_sessions st))(t := remove1 s (subs (map_topic_sessions st) t))"
proof (cases "map_of (hi_entries (map_topic_sessions st)) t")
  case None
  obtain h where h: "HIHASH_FIND (map_topic_sessions st) t = Some (h, -1)" "hi_ok h"
    "hi_entries h = hi_entries (map_topic_sessions st)" "\<not> HIHASH_ITERATE_VALID h (-1)"
    using hi.find_absent [OF topic_map_okD(1) [OF ok] None] by blast
  have "subs h = (subs (map_topic_sessions st))(t := remove1 s (subs (map_topic_sessions st) t))"
    using None subs_same_entries [OF h(3)] by (auto simp: subs_def)
  then show ?thesis
    using that [of "st\<lparr>map_topic_sessions := h\<rparr>"] h s topic_map_ok_same_entries [OF h(3,2) ok]
    by (auto simp: hbus_ctx_session_rm_def)
next
  case (Some b)
  obtain h i where h: "HIHASH_FIND (map_topic_sessions st) t = Some (h, int i)" "hi_ok h"
    "hi_entries h = hi_entries (map_topic_sessions st)" "HIHASH_ITERATE_VALID h (int i)"
    "HIHASH_GETV h (int i) = Some b" "i < length (hi_entries h)" "hi_entries h ! i = (t, b)"
    using hi.find_present [OF topic_map_okD(1) [OF ok] Some] by auto
  have b: "holds_items 8 b" "distinct (ptrs b)" "subs (map_topic_sessions st) t = ptrs b"
    using topic_map_okD [OF ok] Some by (auto simp: subs_def)
  define b' where "b' = (case index_of s (ptrs b) of None \<Rightarrow> b | Some j \<Rightarrow> snd (hbuf_remove B b j 8))"
  have b': "holds_items 8 b'" "ptrs b' = remove1 s (ptrs b)"
    using hbuf_lib.ptr_remove [OF B b(1), of s] b(1)
    by (auto simp: b'_def index_of_None remove1_idem split: option.split)
  let ?h = "HIHASH_STORE h (int i) b'"
  note st = topic_map_store_any [OF ok h(2,3,6,7)]
  have eval: "hbus_ctx_session_rm B t s st =
     (if HBUF_PTR_COUNT b' = 0
      then do { (g, h) \<leftarrow> HIHASH_DEL (hash_seed st) (HIHASH_STORE ?h (int i) (snd (hbuf_fini B b'))) t;
                Some (st\<lparr>map_topic_sessions := h, hash_seed := g\<rparr>) }
      else Some (st\<lparr>map_topic_sessions := ?h\<rparr>))"
    using h s HBUF_PTR_search [OF b(1), of s]
    by (auto simp: hbus_ctx_session_rm_def b'_def split: option.split)
  show ?thesis
  proof (cases "ptrs b' = []")
    case True
    let ?h2 = "HIHASH_STORE ?h (int i) (snd (hbuf_fini B b'))"
    note st2 = hi.store_map [OF st(1,3,4) [of b'], of "snd (hbuf_fini B b')"]
    obtain g' h' where h': "HIHASH_DEL (hash_seed st) ?h2 t = Some (g', h')" "hi_ok h'"
      "map_of (hi_entries h') = (map_of (hi_entries ?h2))(t := None)"
      using hi.del_map [OF st2(1)] by blast
    have "map_of (hi_entries h') = (map_of (hi_entries (map_topic_sessions st)))(t := None)"
      using h'(3) st2(2) st(2) by simp
    from topic_map_delete [OF ok h'(2) this] show ?thesis
      using that [of "st\<lparr>map_topic_sessions := h', hash_seed := g'\<rparr>"] True b b' h'(1)
      by (simp add: eval HBUF_PTR_COUNT_items)
  next
    case False
    then show ?thesis
      using that [of "st\<lparr>map_topic_sessions := ?h\<rparr>"] b b' topic_map_update [OF ok st(1) st(2), of b']
      by (simp add: eval HBUF_PTR_COUNT_items)
  qed
qed

section \<open>The loops of the handlers\<close>

text \<open>Closing a session takes it out of the subscriber list of each of its topics.\<close>

lemma rm_topics_spec:
  assumes "hbuf_lib B" "topic_map_ok (map_topic_sessions st)" "sessions st s = Some ses"
    "holds_items 4 (s_buf_topics ses)" "i \<le> length (i32s (s_buf_topics ses))"
  shows "\<exists>st'. rm_topics B s (length (i32s (s_buf_topics ses))) i st = Some st' \<and> only_map st st' \<and>
    topic_map_ok (map_topic_sessions st') \<and>
    subs (map_topic_sessions st') =
      (\<lambda>t. if t \<in> set (drop i (i32s (s_buf_topics ses))) then removeAll s (subs (map_topic_sessions st) t)
           else subs (map_topic_sessions st) t)"
  using assms
proof (induction B s "length (i32s (s_buf_topics ses))" i st rule: rm_topics.induct)
  case (1 B s i st)
  let ?ts = "i32s (s_buf_topics ses)"
  show ?case
  proof (cases "i < length ?ts")
    case True
    have at: "HBUF_I32_AT (s_buf_topics ses) i = Some (?ts ! i)"
      using HBUF_I32_AT_items 1 True by simp
    obtain st1 where st1: "hbus_ctx_session_rm B (?ts ! i) s st = Some st1" "only_map st st1"
      "topic_map_ok (map_topic_sessions st1)"
      "subs (map_topic_sessions st1) = (subs (map_topic_sessions st))
         (?ts ! i := remove1 s (subs (map_topic_sessions st) (?ts ! i)))"
      using session_rm_spec [OF 1(2,3), of s "?ts ! i"] 1(4) by auto
    have s1: "sessions st1 s = Some ses" using st1(2) 1(4) by (simp add: only_map_def)
    obtain st' where st': "rm_topics B s (length ?ts) (i + 1) st1 = Some st'" "only_map st1 st'"
      "topic_map_ok (map_topic_sessions st')"
      "subs (map_topic_sessions st') =
        (\<lambda>t. if t \<in> set (drop (i + 1) ?ts) then removeAll s (subs (map_topic_sessions st1) t)
             else subs (map_topic_sessions st1) t)"
      using 1(1) [OF True 1(4) at st1(1) 1(2) st1(3) s1 1(5)] True by auto
    have d: "drop i ?ts = ?ts ! i # drop (Suc i) ?ts" using True by (simp add: Cons_nth_drop_Suc)
    have r1: "remove1 s (subs (map_topic_sessions st) t) = removeAll s (subs (map_topic_sessions st) t)" for t
      using topic_map_okD(5) [OF 1(3)] by (simp add: distinct_remove1_removeAll)
    have "rm_topics B s (length ?ts) i st = Some st'"
      using True 1(4) at st1(1) st'(1) by (subst rm_topics.simps) simp
    then show ?thesis
      using st' st1(2) only_map_trans
      by (auto simp: st1(4) d r1 fun_eq_iff removeAll_filter_not_eq)
  next
    case False
    then have "rm_topics B s (length ?ts) i st = Some st"
      by (subst rm_topics.simps) simp
    then show ?thesis using False 1 by simp
  qed
qed

text \<open>A message is forwarded to the addressed sessions of a buffer, in buffer order.\<close>

definition addressed :: "hmsg_t \<Rightarrow> hsession_t \<Rightarrow> bool" where
  "addressed msg s \<longleftrightarrow> m_to msg = s_node_id s \<or> m_to msg = 0xFFFF"

definition recipients :: "broker \<Rightarrow> hmsg_t \<Rightarrow> u64 list \<Rightarrow> hio list" where
  "recipients st msg ps =
     map s_io (filter (addressed msg) (map (\<lambda>p. the (sessions st p)) ps))"

lemma recipients_outbox [simp]:
  "recipients (st\<lparr>outbox := x\<rparr>) = recipients st" "recipients (st\<lparr>map_topic_sessions := h\<rparr>) = recipients st"
  by (simp_all add: recipients_def fun_eq_iff)

lemma forward_spec:
  assumes "holds_items 8 b" "\<forall>p \<in> set (ptrs b). sessions st p \<noteq> None" "i \<le> length (ptrs b)"
  shows "forward b msg buf (length (ptrs b)) i st =
    Some (st\<lparr>outbox := outbox st @ map (\<lambda>io. (io, buf)) (recipients st msg (drop i (ptrs b)))\<rparr>)"
  using assms
proof (induction b msg buf "length (ptrs b)" i st rule: forward.induct)
  case (1 b msg buf i st)
  show ?case
  proof (cases "i < length (ptrs b)")
    case True
    then obtain s where s: "sessions st (ptrs b ! i) = Some s" using 1(3) nth_mem by blast
    have at: "HBUF_PTR_AT b i = Some (ptrs b ! i)" using HBUF_PTR_AT_items 1 True by simp
    have d: "drop i (ptrs b) = ptrs b ! i # drop (Suc i) (ptrs b)"
      using True by (simp add: Cons_nth_drop_Suc)
    show ?thesis
      using 1(1) [OF True at s refl] 1(2-4) True s at
      by (subst forward.simps) (auto simp: d recipients_def addressed_def)
  next
    case False
    then show ?thesis using 1(4) by (subst forward.simps) (simp add: recipients_def)
  qed
qed

lemma timer_nodes_spec:
  assumes "holds_items 8 b" "\<forall>p \<in> set (ptrs b). sessions st p \<noteq> None" "i \<le> length (ptrs b)"
  shows "timer_nodes st b (length (ptrs b)) i =
    Some (map (\<lambda>p. s_node_id (the (sessions st p))) (drop i (ptrs b)))"
  using assms
proof (induction st b "length (ptrs b)" i rule: timer_nodes.induct)
  case (1 st b i)
  show ?case
  proof (cases "i < length (ptrs b)")
    case True
    then obtain s where s: "sessions st (ptrs b ! i) = Some s" using 1(3) nth_mem by blast
    have at: "HBUF_PTR_AT b i = Some (ptrs b ! i)" using HBUF_PTR_AT_items 1 True by simp
    have d: "drop i (ptrs b) = ptrs b ! i # drop (Suc i) (ptrs b)"
      using True by (simp add: Cons_nth_drop_Suc)
    show ?thesis
      using 1(1) [OF True at s] 1(2-4) True s at by (subst timer_nodes.simps) (simp add: d)
  next
    case False
    then show ?thesis using 1(4) by (subst timer_nodes.simps) simp
  qed
qed

text \<open>The report lists the topics in map order, each with the node ids of its subscribers.\<close>

lemma timer_topics_spec:
  assumes ok: "topic_map_ok (map_topic_sessions st)"
    and live: "\<forall>t. \<forall>p \<in> set (subs (map_topic_sessions st) t). sessions st p \<noteq> None"
    and "i \<le> length (hi_entries (map_topic_sessions st))"
  shows "timer_topics st (int i) =
    Some (map (\<lambda>(t, b). (t, map (\<lambda>p. s_node_id (the (sessions st p))) (ptrs b)))
      (drop i (hi_entries (map_topic_sessions st))))"
  using assms(3)
proof (induction "length (hi_entries (map_topic_sessions st)) - i" arbitrary: i)
  case 0
  then have "\<not> HIHASH_ITERATE_VALID (map_topic_sessions st) (int i)"
    by (simp add: hi.valid_spec [OF topic_map_okD(1) [OF ok]])
  then show ?case using 0 by (subst timer_topics.simps) simp
next
  case (Suc n)
  let ?es = "hi_entries (map_topic_sessions st)"
  have i: "i < length ?es" using Suc(2) by simp
  obtain t b where e: "?es ! i = (t, b)" by fastforce
  have "(t, b) \<in> set ?es" using i e nth_mem by metis
  then have m: "map_of ?es t = Some b"
    using hi.keys_distinct [OF topic_map_okD(1) [OF ok]] by simp
  then have b: "holds_items 8 b" "\<forall>p \<in> set (ptrs b). sessions st p \<noteq> None"
    using topic_map_okD(2) [OF ok m] live [rule_format, of _ t] by (auto simp: subs_def)
  have "HIHASH_ITERATE_VALID (map_topic_sessions st) (int i)"
    "HIHASH_GETK (map_topic_sessions st) (int i) = Some t"
    "HIHASH_GETV (map_topic_sessions st) (int i) = Some b"
    using i e topic_map_okD(1) [OF ok]
    by (simp_all add: hi.valid_spec hi.getk_spec hi.getv_spec)
  moreover have "timer_topics st (HIHASH_ITERATE_NEXT (int i)) =
      Some (map (\<lambda>(t, b). (t, map (\<lambda>p. s_node_id (the (sessions st p))) (ptrs b))) (drop (Suc i) ?es))"
    using Suc(1) [of "Suc i"] Suc(2) i by (simp add: HIHASH_ITERATE_NEXT_def add.commute)
  moreover have "drop i ?es = (t, b) # drop (Suc i) ?es" using i e by (metis Cons_nth_drop_Suc)
  ultimately show ?case
    using timer_nodes_spec [OF b, of 0] by (subst timer_topics.simps) (simp add: HBUF_PTR_COUNT_items)
qed

end
