(* ===== verification/BrokerSpec.thy ===== *)
theory BrokerSpec
  imports BrokerMap
begin

text \<open>
  The abstract publish/subscribe broker and the refinement: an abstract state is the node id of
  every open connection and, per extended topic, the connections subscribed to it in the order of
  subscription. \<open>broker_ok\<close> is the invariant of the concrete state: subscriber lists and session
  topics agree, nothing dangles, connections and sessions correspond one to one. Every handler is
  total on states that satisfy it, preserves it and refines its abstract counterpart.
\<close>

section \<open>The abstract broker\<close>

record abroker =
  a_node :: "hio \<Rightarrow> u16 option"
  a_subs :: "u32 \<Rightarrow> hio list"

definition a_init :: abroker where
  "a_init = \<lparr>a_node = (\<lambda>_. None), a_subs = (\<lambda>_. [])\<rparr>"

definition a_accept :: "hio \<Rightarrow> abroker \<Rightarrow> abroker" where
  "a_accept io a = a\<lparr>a_node := (a_node a)(io \<mapsto> 0)\<rparr>"

definition a_register :: "hio \<Rightarrow> u16 \<Rightarrow> abroker \<Rightarrow> abroker" where
  "a_register io n a = a\<lparr>a_node := (a_node a)(io \<mapsto> n)\<rparr>"

definition a_subscribe :: "hio \<Rightarrow> u32 \<Rightarrow> abroker \<Rightarrow> abroker" where
  "a_subscribe io t a = a\<lparr>a_subs := (a_subs a)(t := append_new io (a_subs a t))\<rparr>"

definition a_unsubscribe :: "hio \<Rightarrow> u32 \<Rightarrow> abroker \<Rightarrow> abroker" where
  "a_unsubscribe io t a = a\<lparr>a_subs := (a_subs a)(t := removeAll io (a_subs a t))\<rparr>"

definition a_close :: "hio \<Rightarrow> abroker \<Rightarrow> abroker" where
  "a_close io a = a\<lparr>a_node := (a_node a)(io := None), a_subs := (\<lambda>t. removeAll io (a_subs a t))\<rparr>"

definition a_recipients :: "hmsg_t \<Rightarrow> abroker \<Rightarrow> hio list" where
  "a_recipients msg a =
     filter (\<lambda>io. a_node a io = Some (m_to msg) \<or> m_to msg = 0xFFFF) (a_subs a (HMSG_TOPICEX_INMSG msg))"

text \<open>The topic that a subscription message names.\<close>

definition sub_topic :: "hmsg_t \<Rightarrow> u32" where
  "sub_topic msg = topicex 0 (HMSG_FLAGS 0x10 (HMSG_FLAGS_DATA (m_flags msg))) (m_topic msg)"

text \<open>What a received message does: the new state and the connections it is sent to.\<close>

definition a_read :: "hio \<Rightarrow> hmsg_t \<Rightarrow> abroker \<Rightarrow> abroker \<times> hio list" where
  "a_read io msg a =
     (if m_to msg \<noteq> 0xFFFE then (a, a_recipients msg a)
      else if bit (m_flags msg) 5 then (a_subscribe io (sub_topic msg) a, [])
      else if m_flags msg = 0 then (a_register io (m_from msg) a, [])
      else (a, []))"

section \<open>The invariant and the abstraction\<close>

definition session_topics :: "broker \<Rightarrow> u64 \<Rightarrow> u32 list" where
  "session_topics st p = (case sessions st p of None \<Rightarrow> [] | Some s \<Rightarrow> i32s (s_buf_topics s))"

definition session_ok :: "hsession_t \<Rightarrow> bool" where
  "session_ok s \<longleftrightarrow> holds_items 4 (s_buf_topics s) \<and> distinct (i32s (s_buf_topics s)) \<and>
     (\<forall>t \<in> set (i32s (s_buf_topics s)). \<exists>f n. t = topicex 0 f n)"

definition MAX_SESSIONS :: nat where "MAX_SESSIONS = 2 ^ 27"

definition subs_agree :: "broker \<Rightarrow> bool" where
  "subs_agree st \<longleftrightarrow>
     (\<forall>t p. p \<in> set (subs (map_topic_sessions st) t) \<longleftrightarrow> t \<in> set (session_topics st p))"

definition links_ok :: "broker \<Rightarrow> bool" where
  "links_ok st \<longleftrightarrow>
     (\<forall>io p. context_of st io = Some p \<longleftrightarrow> map_option s_io (sessions st p) = Some io) \<and>
     sessions st 0 = None \<and> card (dom (sessions st)) \<le> MAX_SESSIONS"

definition broker_ok :: "broker \<Rightarrow> bool" where
  "broker_ok st \<longleftrightarrow> topic_map_ok (map_topic_sessions st) \<and> subs_agree st \<and> links_ok st \<and>
     (\<forall>p s. sessions st p = Some s \<longrightarrow> session_ok s)"

definition io_of :: "broker \<Rightarrow> u64 \<Rightarrow> hio" where
  "io_of st p = s_io (the (sessions st p))"

definition abs_broker :: "broker \<Rightarrow> abroker" where
  "abs_broker st =
     \<lparr>a_node = (\<lambda>io. case context_of st io of None \<Rightarrow> None | Some p \<Rightarrow> map_option s_node_id (sessions st p)),
      a_subs = (\<lambda>t. map (io_of st) (subs (map_topic_sessions st) t))\<rparr>"

lemma broker_okD:
  assumes "broker_ok st"
  shows "topic_map_ok (map_topic_sessions st)" "subs_agree st" "links_ok st"
    "sessions st p = Some s \<Longrightarrow> session_ok s"
    "sessions st p = Some s \<Longrightarrow> context_of st (s_io s) = Some p"
    "context_of st io = Some p \<Longrightarrow> \<exists>s. sessions st p = Some s \<and> s_io s = io"
    "distinct (subs (map_topic_sessions st) t)"
  using assms topic_map_okD(5) by (auto simp: broker_ok_def links_ok_def)

lemma in_session_topics:
  "t \<in> set (session_topics st p) \<longleftrightarrow> (\<exists>s. sessions st p = Some s \<and> t \<in> set (i32s (s_buf_topics s)))"
  by (cases "sessions st p") (simp_all add: session_topics_def)

lemma subscriber_live:
  assumes "broker_ok st" "p \<in> set (subs (map_topic_sessions st) t)"
  shows "\<exists>s. sessions st p = Some s \<and> t \<in> set (i32s (s_buf_topics s))"
proof -
  have "t \<in> set (session_topics st p)" using assms by (simp add: broker_ok_def subs_agree_def)
  then show ?thesis by (simp only: in_session_topics)
qed

lemma io_of_inj:
  assumes "links_ok st" "sessions st p = Some s" "sessions st q = Some s'"
  shows "io_of st p = io_of st q \<longleftrightarrow> p = q"
proof
  assume "io_of st p = io_of st q"
  then have "context_of st (s_io s) = Some p" "context_of st (s_io s) = Some q"
    using assms by (simp_all add: links_ok_def io_of_def)
  then show "p = q" by simp
qed simp

lemma io_of_inj_on:
  assumes "broker_ok st" "sessions st p \<noteq> None"
  shows "inj_on (io_of st) (insert p (set (subs (map_topic_sessions st) t)))"
proof (rule inj_onI)
  fix x y
  assume "x \<in> insert p (set (subs (map_topic_sessions st) t))"
    "y \<in> insert p (set (subs (map_topic_sessions st) t))" and eq: "io_of st x = io_of st y"
  then obtain s s' where "sessions st x = Some s" "sessions st y = Some s'"
    using assms(2) subscriber_live [OF assms(1)] by blast
  then show "x = y" using io_of_inj [OF broker_okD(3) [OF assms(1)]] eq by metis
qed

lemma a_subs_distinct:
  assumes "broker_ok st"
  shows "distinct (a_subs (abs_broker st) t)"
proof -
  have "inj_on (io_of st) (set (subs (map_topic_sessions st) t))"
    using subscriber_live [OF assms] io_of_inj_on [OF assms] inj_on_subset
    by (metis empty_iff empty_set inj_on_def list.set_intros(1) neq_Nil_conv option.distinct(1)
        subset_insertI)
  then show ?thesis
    using broker_okD(7) [OF assms] by (simp add: abs_broker_def distinct_map)
qed

lemma subscribers_bound:
  assumes "broker_ok st"
  shows "length (subs (map_topic_sessions st) t) \<le> MAX_SESSIONS"
    "sessions st p \<noteq> None \<Longrightarrow> p \<notin> set (subs (map_topic_sessions st) t) \<Longrightarrow>
      length (subs (map_topic_sessions st) t) < MAX_SESSIONS"
proof -
  let ?xs = "subs (map_topic_sessions st) t" and ?D = "dom (sessions st)"
  have "set ?xs \<subseteq> ?D" using subscriber_live [OF assms] by blast
  then have D: "finite ?D" "card ?D \<le> MAX_SESSIONS" "set ?xs \<subseteq> ?D"
    using assms by (simp_all add: broker_ok_def links_ok_def)
  have len: "length ?xs = card (set ?xs)"
    using broker_okD(7) [OF assms] by (simp add: distinct_card)
  show "length ?xs \<le> MAX_SESSIONS" using D card_mono len by (metis le_trans)
  show "length ?xs < MAX_SESSIONS" if "sessions st p \<noteq> None" "p \<notin> set ?xs"
  proof -
    have "set ?xs \<subset> ?D" using D that by auto
    then show ?thesis using D psubset_card_mono len by (metis less_le_trans)
  qed
qed

text \<open>A session's topic list stays small: its topics are distinct and of version 0.\<close>

lemma topics_bound:
  assumes "session_ok s"
  shows "length (i32s (s_buf_topics s)) < 2 ^ 28"
proof -
  have sub: "set (i32s (s_buf_topics s)) \<subseteq> (\<lambda>(f, n). topicex 0 f n) ` UNIV"
    using assms by (fastforce simp: session_ok_def image_iff)
  have "length (i32s (s_buf_topics s)) = card (set (i32s (s_buf_topics s)))"
    using assms by (simp add: session_ok_def distinct_card)
  also have "\<dots> \<le> card ((\<lambda>(f, n). topicex 0 f n) ` (UNIV :: (u8 \<times> u16) set))"
    using sub by (intro card_mono) auto
  also have "\<dots> \<le> card (UNIV :: (u8 \<times> u16) set)" by (rule card_image_le) simp
  also have "\<dots> = 2 ^ 24" by (simp add: card_word card_prod)
  finally show ?thesis by simp
qed

section \<open>Changes that keep the invariant\<close>

lemma broker_ok_same_subs:
  assumes "broker_ok st" "sessions st' = sessions st" "context_of st' = context_of st"
    and "topic_map_ok (map_topic_sessions st')"
    and "subs (map_topic_sessions st') = subs (map_topic_sessions st)"
  shows "broker_ok st'" "abs_broker st' = abs_broker st"
proof -
  show "broker_ok st'"
    using assms by (simp add: broker_ok_def subs_agree_def links_ok_def session_topics_def)
  show "abs_broker st' = abs_broker st"
    unfolding abs_broker_def io_of_def [abs_def] assms(2,3,5) ..
qed

text \<open>Replacing a session object at its address, keeping its connection.\<close>

lemma session_replace:
  assumes "sessions st p = Some s" "sessions st' = (sessions st)(p \<mapsto> s')" "s_io s' = s_io s"
    and "context_of st' = context_of st"
  shows "io_of st' = io_of st" "links_ok st' = links_ok st"
    "dom (sessions st') = dom (sessions st)"
proof -
  show "io_of st' = io_of st" using assms by (auto simp: io_of_def fun_eq_iff)
  show dom: "dom (sessions st') = dom (sessions st)" using assms by auto
  have "map_option s_io (sessions st' q) = map_option s_io (sessions st q)"
    "sessions st' q = None \<longleftrightarrow> sessions st q = None" for q
    using assms by auto
  then show "links_ok st' = links_ok st"
    unfolding links_ok_def dom assms(4) by simp
qed

lemma map_append_new:
  "inj_on f (insert x (set xs)) \<Longrightarrow> map f (append_new x xs) = append_new (f x) (map f xs)"
  by (auto simp: append_new_def inj_on_def)

lemma map_removeAll:
  "inj_on f (insert x (set xs)) \<Longrightarrow> map f (removeAll x xs) = removeAll (f x) (map f xs)"
  by (induction xs) (auto simp: inj_on_def)

lemma sub_topic_eq:
  "HMSG_TOPICEX 0 (ucast (HMSG_FLAGS 0x10 (HMSG_FLAGS_DATA (m_flags msg)))) (ucast (m_topic msg)) =
    sub_topic msg"
  by (simp add: sub_topic_def topicex_def)

section \<open>Each handler refines its abstract counterpart\<close>

text \<open>The outcome of a handler: it returns, with the invariant, the given abstract state and the
  given writes.\<close>

definition outcome :: "broker \<Rightarrow> broker option \<Rightarrow> abroker \<Rightarrow> (hio \<times> bytes) list \<Rightarrow> bool" where
  "outcome st r a ws \<longleftrightarrow>
     (\<exists>st'. r = Some st' \<and> broker_ok st' \<and> abs_broker st' = a \<and> outbox st' = outbox st @ ws)"

lemma outcomeI:
  "r = Some st' \<Longrightarrow> broker_ok st' \<Longrightarrow> abs_broker st' = a \<Longrightarrow> outbox st' = outbox st @ ws \<Longrightarrow>
    outcome st r a ws"
  by (auto simp: outcome_def)

lemma recipients_abs:
  assumes "broker_ok st"
  shows "recipients st msg (subs (map_topic_sessions st) (HMSG_TOPICEX_INMSG msg)) =
    a_recipients msg (abs_broker st)"
proof -
  have "map s_io (filter (addressed msg) (map (\<lambda>p. the (sessions st p)) ps)) =
      filter (\<lambda>io. a_node (abs_broker st) io = Some (m_to msg) \<or> m_to msg = 0xFFFF) (map (io_of st) ps)"
    if "\<forall>p \<in> set ps. \<exists>s. sessions st p = Some s" for ps
    using that
  proof (induction ps)
    case (Cons p ps)
    then obtain s where "sessions st p = Some s" by auto
    moreover then have "context_of st (s_io s) = Some p" using broker_okD(5) [OF assms] by blast
    ultimately show ?case using Cons by (auto simp: addressed_def io_of_def abs_broker_def)
  qed simp
  moreover have "\<forall>p \<in> set (subs (map_topic_sessions st) t). \<exists>s. sessions st p = Some s" for t
    using subscriber_live [OF assms] by blast
  ultimately show ?thesis
    by (simp add: recipients_def a_recipients_def abs_broker_def)
qed

lemma route_spec:
  assumes ok: "broker_ok st"
  shows "outcome st (route msg buf st) (abs_broker st)
    (map (\<lambda>io. (io, buf)) (a_recipients msg (abs_broker st)))"
proof (cases "map_of (hi_entries (map_topic_sessions st)) (HMSG_TOPICEX_INMSG msg)")
  case None
  obtain h where h: "HIHASH_FIND (map_topic_sessions st) (HMSG_TOPICEX_INMSG msg) = Some (h, -1)"
    "hi_ok h" "hi_entries h = hi_entries (map_topic_sessions st)" "\<not> HIHASH_ITERATE_VALID h (-1)"
    using hi.find_absent [OF topic_map_okD(1) [OF broker_okD(1) [OF ok]] None] by blast
  have "a_recipients msg (abs_broker st) = []"
    using None by (simp add: a_recipients_def abs_broker_def subs_def)
  moreover have "route msg buf st = Some (st\<lparr>map_topic_sessions := h\<rparr>)" using h by (simp add: route_def)
  ultimately show ?thesis
    using broker_ok_same_subs [OF ok, of "st\<lparr>map_topic_sessions := h\<rparr>"] subs_same_entries [OF h(3)]
      topic_map_ok_same_entries [OF h(3,2) broker_okD(1) [OF ok]]
    by (simp add: outcome_def)
next
  case (Some b)
  obtain h i where h: "HIHASH_FIND (map_topic_sessions st) (HMSG_TOPICEX_INMSG msg) = Some (h, int i)"
    "hi_ok h" "hi_entries h = hi_entries (map_topic_sessions st)" "HIHASH_ITERATE_VALID h (int i)"
    "HIHASH_GETV h (int i) = Some b"
    using hi.find_present [OF topic_map_okD(1) [OF broker_okD(1) [OF ok]] Some] by auto
  let ?st = "st\<lparr>map_topic_sessions := h\<rparr>"
  have b: "holds_items 8 b" "subs (map_topic_sessions st) (HMSG_TOPICEX_INMSG msg) = ptrs b"
    using topic_map_okD(2) [OF broker_okD(1) [OF ok] Some] Some by (simp_all add: subs_def)
  have "\<forall>p \<in> set (ptrs b). sessions ?st p \<noteq> None"
    using subscriber_live [OF ok] b(2) by (fastforce simp flip: b(2))
  then have "route msg buf st = Some (?st\<lparr>outbox := outbox st @
      map (\<lambda>io. (io, buf)) (a_recipients msg (abs_broker st))\<rparr>)"
    using h forward_spec [OF b(1), of ?st 0 msg buf] recipients_abs [OF ok, of msg] b(2)
    by (simp add: route_def HBUF_PTR_COUNT_items)
  moreover have "broker_ok (?st\<lparr>outbox := ws\<rparr>)" "abs_broker (?st\<lparr>outbox := ws\<rparr>) = abs_broker st" for ws
    using broker_ok_same_subs [OF ok, of "?st\<lparr>outbox := ws\<rparr>"] subs_same_entries [OF h(3)]
      topic_map_ok_same_entries [OF h(3,2) broker_okD(1) [OF ok]]
    by simp_all
  ultimately show ?thesis by (simp add: outcome_def)
qed

end
