(* ===== verification/BrokerRefine.thy ===== *)
theory BrokerRefine
  imports BrokerSpec
begin

text \<open>
  The remaining handlers of the broker: subscribing, unsubscribing, registering, closing,
  accepting and the periodic report, each total on invariant states and refining its abstract
  counterpart; then the reachable states of the event loop and the safety theorem that no handler
  dereferences an invalid pointer there.
\<close>

section \<open>Subscribe, unsubscribe, register\<close>

lemma subs_agreeD: "broker_ok st \<Longrightarrow> sessions st p = Some s \<Longrightarrow>
    p \<in> set (subs (map_topic_sessions st) t) \<longleftrightarrow> t \<in> set (i32s (s_buf_topics s))"
  by (simp add: broker_ok_def subs_agree_def in_session_topics)

lemma abs_subs: "a_subs (abs_broker st) t = map (io_of st) (subs (map_topic_sessions st) t)"
  by (simp add: abs_broker_def)

lemma links_sym: "broker_ok st \<Longrightarrow> context_of st io = Some p \<longleftrightarrow>
    (\<exists>s. sessions st p = Some s \<and> s_io s = io)"
  by (auto simp: broker_ok_def links_ok_def)

text \<open>A state whose map and topic list of one session were changed together.\<close>

lemma topics_change:
  assumes ok: "broker_ok st" and p: "sessions st p = Some s"
    and st': "sessions st' = (sessions st)(p \<mapsto> s\<lparr>s_buf_topics := b\<rparr>)" "context_of st' = context_of st"
      "topic_map_ok (map_topic_sessions st')"
    and b: "session_ok (s\<lparr>s_buf_topics := b\<rparr>)"
    and agree: "\<And>t q. q \<in> set (subs (map_topic_sessions st') t) \<longleftrightarrow>
      (if q = p then t \<in> set (i32s b) else q \<in> set (subs (map_topic_sessions st) t))"
  shows "broker_ok st'"
    "abs_broker st' = (abs_broker st)\<lparr>a_subs := \<lambda>t. map (io_of st) (subs (map_topic_sessions st') t)\<rparr>"
proof -
  note rep = session_replace [OF p st'(1) _ st'(2)]
  have "q \<in> set (subs (map_topic_sessions st') t) \<longleftrightarrow> t \<in> set (session_topics st' q)" for q t
    using agree [of q t] ok st'(1) by (auto simp: broker_ok_def subs_agree_def session_topics_def)
  then show "broker_ok st'"
    using ok rep(2) st' b by (simp add: broker_ok_def subs_agree_def)
  have "(case context_of st io of None \<Rightarrow> None | Some q \<Rightarrow> map_option s_node_id (sessions st' q)) =
      (case context_of st io of None \<Rightarrow> None | Some q \<Rightarrow> map_option s_node_id (sessions st q))" for io
    using p st'(1) by (auto split: option.split)
  then show "abs_broker st' = (abs_broker st)\<lparr>a_subs := \<lambda>t. map (io_of st) (subs (map_topic_sessions st') t)\<rparr>"
    using rep(1) st'(2) by (simp add: abs_broker_def)
qed

lemma append_new_in [simp]: "x \<in> set xs \<Longrightarrow> append_new x xs = xs"
  by (simp add: append_new_def)

lemma on_sub_spec:
  assumes B: "hbuf_mem B" and ok: "broker_ok st" and io: "context_of st io = Some p"
  shows "outcome st (on_sub B p msg st) (a_subscribe io (sub_topic msg) (abs_broker st)) []"
proof -
  let ?t = "sub_topic msg" and ?h = "map_topic_sessions st"
  obtain s where s: "sessions st p = Some s" "s_io s = io" using broker_okD(6) [OF ok io] by blast
  then have ses: "session_ok s" and io_p: "io_of st p = io"
    using broker_okD(4) [OF ok] by (simp_all add: io_of_def)
  then have topics: "holds_items 4 (s_buf_topics s)" by (simp add: session_ok_def)
  have inj: "map (io_of st) (append_new p (subs ?h t)) = append_new io (map (io_of st) (subs ?h t))" for t
    using map_append_new [OF io_of_inj_on [OF ok, of p t]] s(1) io_p by simp
  note eval = on_sub_def sub_topic_eq s(1) HBUF_I32_search [OF topics]
  show ?thesis
  proof (cases "?t \<in> set (i32s (s_buf_topics s))")
    case True
    then have "p \<in> set (subs ?h ?t)" using subs_agreeD [OF ok s(1)] by simp
    then have "a_subscribe io ?t (abs_broker st) = abs_broker st"
      using inj [of ?t] by (simp add: a_subscribe_def abs_broker_def fun_upd_idem)
    then show ?thesis using True ok by (simp add: eval outcome_def index_of_None)
  next
    case False
    then have new: "p \<notin> set (subs ?h ?t)" using subs_agreeD [OF ok s(1)] by simp
    obtain st1 where st1: "hbus_ctx_session_add B ?t p st = Some st1" "only_map st st1"
      "topic_map_ok (map_topic_sessions st1)"
      "subs (map_topic_sessions st1) = (subs ?h)(?t := append_new p (subs ?h ?t))"
      using session_add_spec [OF B broker_okD(1) [OF ok], of p ?t]
        subscribers_bound(2) [OF ok, of p ?t] new s(1) by (auto simp: MAX_SESSIONS_def)
    let ?b = "snd (hbuf_push B (s_buf_topics s) (enc32 ?t))"
    let ?st = "st1\<lparr>sessions := (sessions st1)(p \<mapsto> s\<lparr>s_buf_topics := ?b\<rparr>)\<rparr>"
    have b: "holds_items 4 ?b" "i32s ?b = i32s (s_buf_topics s) @ [?t]"
      using hbuf_mem.i32_push [OF B topics topics_bound [OF ses]] by auto
    then have ses': "session_ok (s\<lparr>s_buf_topics := ?b\<rparr>)"
      using ses False by (auto simp: session_ok_def sub_topic_def)
    have st1': "sessions st1 = sessions st" "context_of st1 = context_of st" "outbox st1 = outbox st"
      using st1(2) by (simp_all add: only_map_def)
    have agree: "q \<in> set (subs (map_topic_sessions ?st) t) \<longleftrightarrow>
        (if q = p then t \<in> set (i32s ?b) else q \<in> set (subs ?h t))" for t q
      using subs_agreeD [OF ok s(1), of t] b(2) by (auto simp: st1(4))
    have st': "sessions ?st = (sessions st)(p \<mapsto> s\<lparr>s_buf_topics := ?b\<rparr>)"
      "context_of ?st = context_of st" "topic_map_ok (map_topic_sessions ?st)"
      using st1' st1(3) by simp_all
    note step = topics_change [OF ok s(1) st' ses' agree]
    have subs_eq: "(\<lambda>t. map (io_of st) (subs (map_topic_sessions ?st) t)) =
        (a_subs (abs_broker st))(?t := append_new io (a_subs (abs_broker st) ?t))"
      by (simp add: st1(4) inj abs_subs fun_eq_iff)
    have "on_sub B p msg st = Some ?st"
      using False st1(1) st1' s(1) by (simp add: eval index_of_None)
    moreover have "abs_broker ?st = a_subscribe io ?t (abs_broker st)"
      unfolding step(2) subs_eq a_subscribe_def by simp
    ultimately show ?thesis
      using step(1) st1'(3) by (simp add: outcome_def)
  qed
qed

lemma on_unsub_spec:
  assumes B: "hbuf_lib B" and ok: "broker_ok st" and io: "context_of st io = Some p"
  shows "outcome st (on_unsub B p msg st) (a_unsubscribe io (sub_topic msg) (abs_broker st)) []"
proof -
  let ?t = "sub_topic msg" and ?h = "map_topic_sessions st"
  obtain s where s: "sessions st p = Some s" "s_io s = io" using broker_okD(6) [OF ok io] by blast
  then have ses: "session_ok s" and io_p: "io_of st p = io"
    using broker_okD(4) [OF ok] by (simp_all add: io_of_def)
  then have topics: "holds_items 4 (s_buf_topics s)" by (simp add: session_ok_def)
  have inj: "map (io_of st) (removeAll p (subs ?h t)) = removeAll io (map (io_of st) (subs ?h t))" for t
    using map_removeAll [OF io_of_inj_on [OF ok, of p t]] s(1) io_p by simp
  note eval = on_unsub_def sub_topic_eq s(1) HBUF_I32_search [OF topics]
  show ?thesis
  proof (cases "index_of ?t (i32s (s_buf_topics s))")
    case None
    then have "p \<notin> set (subs ?h ?t)" using subs_agreeD [OF ok s(1)] by (simp add: index_of_None)
    then have "a_unsubscribe io ?t (abs_broker st) = abs_broker st"
      using inj [of ?t] by (simp add: a_unsubscribe_def abs_broker_def fun_upd_idem)
    then show ?thesis using None ok by (simp add: eval outcome_def)
  next
    case (Some j)
    let ?b = "snd (hbuf_remove B (s_buf_topics s) j 4)"
    let ?st0 = "st\<lparr>sessions := (sessions st)(p \<mapsto> s\<lparr>s_buf_topics := ?b\<rparr>)\<rparr>"
    have b: "holds_items 4 ?b" "i32s ?b = remove1 ?t (i32s (s_buf_topics s))"
      using hbuf_lib.i32_remove [OF B topics Some] by auto
    then have ses': "session_ok (s\<lparr>s_buf_topics := ?b\<rparr>)"
      using ses by (auto simp: session_ok_def dest: notin_set_remove1)
    obtain st1 where st1: "hbus_ctx_session_rm B ?t p ?st0 = Some st1" "only_map ?st0 st1"
      "topic_map_ok (map_topic_sessions st1)"
      "subs (map_topic_sessions st1) = (subs ?h)(?t := remove1 p (subs ?h ?t))"
      using session_rm_spec [OF B, of ?st0 p ?t] broker_okD(1) [OF ok] by auto
    have r1: "remove1 p (subs ?h ?t) = removeAll p (subs ?h ?t)"
      using broker_okD(7) [OF ok] by (simp add: distinct_remove1_removeAll)
    have "distinct (i32s (s_buf_topics s))" using ses by (simp add: session_ok_def)
    then have agree: "q \<in> set (subs (map_topic_sessions st1) t) \<longleftrightarrow>
        (if q = p then t \<in> set (i32s ?b) else q \<in> set (subs ?h t))" for t q
      using subs_agreeD [OF ok s(1), of t] b(2) by (auto simp: st1(4) r1)
    have st1': "sessions st1 = (sessions st)(p \<mapsto> s\<lparr>s_buf_topics := ?b\<rparr>)"
      "context_of st1 = context_of st" "outbox st1 = outbox st"
      using st1(2) by (simp_all add: only_map_def)
    note step = topics_change [OF ok s(1) st1'(1,2) st1(3) ses' agree]
    have subs_eq: "(\<lambda>t. map (io_of st) (subs (map_topic_sessions st1) t)) =
        (a_subs (abs_broker st))(?t := removeAll io (a_subs (abs_broker st) ?t))"
      by (simp add: st1(4) r1 inj abs_subs fun_eq_iff)
    have "on_unsub B p msg st = Some st1" using Some st1(1) by (simp add: eval)
    moreover have "abs_broker st1 = a_unsubscribe io ?t (abs_broker st)"
      unfolding step(2) subs_eq a_unsubscribe_def by simp
    ultimately show ?thesis using step(1) st1'(3) by (simp add: outcome_def)
  qed
qed

lemma on_register_spec:
  assumes ok: "broker_ok st" and io: "context_of st io = Some p"
  shows "outcome st (on_register p msg st) (a_register io (m_from msg) (abs_broker st)) []"
proof -
  obtain s where s: "sessions st p = Some s" "s_io s = io" using broker_okD(6) [OF ok io] by blast
  let ?s = "s\<lparr>s_node_id := m_from msg\<rparr>"
  let ?st = "st\<lparr>sessions := (sessions st)(p \<mapsto> ?s)\<rparr>"
  note rep = session_replace [OF s(1), of ?st ?s]
  have topics: "session_topics ?st = session_topics st"
    using s(1) by (auto simp: session_topics_def fun_eq_iff)
  have "session_ok ?s" using broker_okD(4) [OF ok s(1)] by (simp add: session_ok_def)
  then have "broker_ok ?st"
    using ok rep(2) topics by (simp add: broker_ok_def subs_agree_def)
  moreover have "q = p \<longleftrightarrow> i = io" if "context_of st i = Some q" for i q
    using that io links_sym [OF ok, of i q] s by auto
  then have "abs_broker ?st = a_register io (m_from msg) (abs_broker st)"
    using rep(1) io by (auto simp: abs_broker_def a_register_def fun_eq_iff split: option.split)
  ultimately show ?thesis by (simp add: outcome_def on_register_def s(1))
qed

section \<open>The event handlers\<close>

lemma in_recipients:
  assumes "broker_ok st"
  shows "i \<in> set (recipients st msg (subs (map_topic_sessions st) t)) \<longleftrightarrow>
    (\<exists>p s. sessions st p = Some s \<and> s_io s = i \<and> t \<in> set (i32s (s_buf_topics s)) \<and>
      (m_to msg = s_node_id s \<or> m_to msg = 0xFFFF))"
proof -
  have "i \<in> set (recipients st msg (subs (map_topic_sessions st) t)) \<longleftrightarrow>
      (\<exists>p \<in> set (subs (map_topic_sessions st) t). s_io (the (sessions st p)) = i \<and>
        addressed msg (the (sessions st p)))"
    by (auto simp: recipients_def)
  also have "\<dots> \<longleftrightarrow> (\<exists>p s. sessions st p = Some s \<and> s_io s = i \<and>
      t \<in> set (i32s (s_buf_topics s)) \<and> addressed msg s)"
    using subscriber_live [OF assms] subs_agreeD [OF assms] by (metis option.sel)
  finally show ?thesis by (simp add: addressed_def)
qed

lemma outcome_same: "broker_ok st \<Longrightarrow> outcome st (Some st) (abs_broker st) []"
  by (simp add: outcome_def)

lemma sub_bit: "(0x20 AND fl \<noteq> 0) \<longleftrightarrow> bit (fl :: u8) 5"
  by (simp add: bit_iff_and_push_bit_not_eq_0 and.commute)

lemma on_read_spec:
  assumes B: "hbuf_mem B" and ok: "broker_ok st" and io: "context_of st io = Some p"
    and msg_def: "msg = hmsg_of_bytes buf"
  shows "outcome st (on_read B io buf st)
    (if HMSG_HEAD_VALID msg (int (length buf)) then fst (a_read io msg (abs_broker st)) else abs_broker st)
    (if HMSG_HEAD_VALID msg (int (length buf))
     then map (\<lambda>i. (i, buf)) (snd (a_read io msg (abs_broker st))) else [])"
proof -
  note handlers = route_spec [OF ok, of msg buf] on_sub_spec [OF B ok io, of msg]
    on_register_spec [OF ok io, of msg] outcome_same [OF ok]
  have unsub: "bit (m_flags msg) 5" if "m_flags msg = 0x30" using that by (simp add: bit_simps numeral_eq_Suc)
  show ?thesis
    unfolding on_read_def a_read_def Let_def msg_def [symmetric] io sub_bit
    using handlers unsub by auto
qed

lemma on_close_run:
  assumes B: "hbuf_lib B" and ok: "broker_ok st" and io: "context_of st io = Some p"
  obtains st' where "on_close B io st = Some st'" "sessions st' = (sessions st)(p := None)"
    "context_of st' = (context_of st)(io := None)" "outbox st' = outbox st"
    "topic_map_ok (map_topic_sessions st')"
    "\<And>t. subs (map_topic_sessions st') t = removeAll p (subs (map_topic_sessions st) t)"
proof -
  let ?h = "map_topic_sessions st"
  obtain s where s: "sessions st p = Some s" "s_io s = io" using broker_okD(6) [OF ok io] by blast
  then have ses: "holds_items 4 (s_buf_topics s)"
    using broker_okD(4) [OF ok] by (simp add: session_ok_def)
  obtain st1 where st1: "rm_topics B p (length (i32s (s_buf_topics s))) 0 st = Some st1" "only_map st st1"
    "topic_map_ok (map_topic_sessions st1)"
    "subs (map_topic_sessions st1) =
      (\<lambda>t. if t \<in> set (i32s (s_buf_topics s)) then removeAll p (subs ?h t) else subs ?h t)"
    using rm_topics_spec [OF B broker_okD(1) [OF ok] s(1) ses, of 0] by auto
  have subs1: "subs (map_topic_sessions st1) t = removeAll p (subs ?h t)" for t
    using subs_agreeD [OF ok s(1), of t] by (simp add: st1(4))
  have st1': "sessions st1 = sessions st" "context_of st1 = context_of st" "outbox st1 = outbox st"
    using st1(2) by (simp_all add: only_map_def)
  let ?st = "st1\<lparr>sessions := (sessions st)(p := None), context_of := (context_of st)(io := None)\<rparr>"
  have "on_close B io st = Some ?st"
    using io s(1) st1(1) st1' by (simp add: on_close_def hbus_seesion_free_def i32.length_items)
  then show ?thesis using that [of ?st] st1(3) st1' subs1 by simp
qed

lemma on_close_spec:
  assumes B: "hbuf_lib B" and ok: "broker_ok st" and io: "context_of st io = Some p"
  shows "outcome st (on_close B io st) (a_close io (abs_broker st)) []"
proof -
  let ?h = "map_topic_sessions st"
  obtain s where s: "sessions st p = Some s" "s_io s = io" using broker_okD(6) [OF ok io] by blast
  then have io_p: "io_of st p = io" by (simp add: io_of_def)
  obtain st' where run: "on_close B io st = Some st'" and st'_def: "sessions st' = (sessions st)(p := None)"
    "context_of st' = (context_of st)(io := None)" "outbox st' = outbox st"
    and map': "topic_map_ok (map_topic_sessions st')"
    and subs1: "\<And>t. subs (map_topic_sessions st') t = removeAll p (subs ?h t)"
    using on_close_run [OF B ok io] by blast
  have other: "q \<noteq> p \<longleftrightarrow> i \<noteq> io" if "context_of st i = Some q" for i q
    using that io links_sym [OF ok, of i q] s by auto
  have "links_ok st'"
  proof -
    have "context_of st' i = Some q \<longleftrightarrow> map_option s_io (sessions st' q) = Some i" for i q
      using other [of i q] links_sym [OF ok, of i q] by (auto simp: st'_def)
    moreover have "card (dom (sessions st')) \<le> card (dom (sessions st))"
      by (rule card_mono) (auto simp: st'_def)
    ultimately show ?thesis
      using broker_okD(3) [OF ok] by (auto simp: links_ok_def st'_def)
  qed
  moreover have "subs_agree st'"
    using ok by (auto simp: subs_agree_def st'_def subs1 in_session_topics broker_ok_def)
  moreover have "session_ok r" if "sessions st' q = Some r" for q r
    using that broker_okD(4) [OF ok] by (auto simp: st'_def split: if_splits)
  ultimately have "broker_ok st'"
    using map' by (auto simp: broker_ok_def)
  moreover have "abs_broker st' = a_close io (abs_broker st)"
  proof -
    have "map (io_of st') (removeAll p (subs ?h t)) = removeAll io (map (io_of st) (subs ?h t))" for t
    proof -
      have "map (io_of st') (removeAll p (subs ?h t)) = map (io_of st) (removeAll p (subs ?h t))"
        by (auto simp: io_of_def st'_def)
      then show ?thesis using map_removeAll [OF io_of_inj_on [OF ok, of p t]] s(1) io_p by simp
    qed
    then show ?thesis
      using other by (auto simp: abs_broker_def a_close_def st'_def subs1 fun_eq_iff split: option.split)
  qed
  ultimately show ?thesis using run by (simp add: outcome_def st'_def)
qed

text \<open>A connection is accepted with the address of the new session, which \<^verbatim>\<open>malloc\<close> never hands out
  twice.\<close>

lemma on_accept_spec:
  assumes B: "hbuf_mem B" and ok: "broker_ok st" and io: "context_of st io = None"
    and p: "p \<noteq> 0" "sessions st p = None" and room: "card (dom (sessions st)) < MAX_SESSIONS"
  shows "outcome st (Some (on_accept B p io st)) (a_accept io (abs_broker st)) []"
proof -
  obtain b where b: "hbuf_init B 32 = (0, b)" "holds_items 4 b" "i32s b = []"
    using hbuf_mem.init_mem [OF B, of 32] hbuf_lib.i32_init [OF hbuf_mem.axioms(1) [OF B], of 32]
    by (cases "hbuf_init B 32") (auto simp: HBUF_LIMIT_def)
  let ?s = "\<lparr>s_io = io, s_buf_topics = b, s_node_id = 0, s_timeout_sec = 30\<rparr>"
  let ?st = "st\<lparr>sessions := (sessions st)(p \<mapsto> ?s), context_of := (context_of st)(io \<mapsto> p)\<rparr>"
  have run: "on_accept B p io st = ?st"
    using p(1) b(1) by (simp add: on_accept_def hbus_seesion_alloc_def)
  have nosub: "p \<notin> set (subs (map_topic_sessions st) t)" for t
    using subscriber_live [OF ok] p(2) by fastforce
  have topics: "session_topics ?st = session_topics st"
    using p(2) b(3) by (auto simp: session_topics_def fun_eq_iff)
  have "context_of ?st i = Some q \<longleftrightarrow> map_option s_io (sessions ?st q) = Some i" for i q
    using io p(2) links_sym [OF ok, of i q] by auto
  moreover have "card (dom (sessions ?st)) = Suc (card (dom (sessions st)))"
    using p(2) by (simp add: domIff)
  ultimately have "links_ok ?st"
    using room p(1) broker_okD(3) [OF ok] by (simp add: links_ok_def)
  moreover have "session_ok ?s" using b by (simp add: session_ok_def)
  ultimately have "broker_ok ?st"
    using ok topics by (simp add: broker_ok_def subs_agree_def)
  moreover have "io_of ?st q = io_of st q" if "q \<in> set (subs (map_topic_sessions st) t)" for q t
    using that nosub by (auto simp: io_of_def)
  then have "abs_broker ?st = a_accept io (abs_broker st)"
    using links_sym [OF ok, of _ p] p(2)
    by (auto simp: abs_broker_def a_accept_def fun_eq_iff split: option.split)
  ultimately show ?thesis by (simp add: outcome_def run)
qed

end
