(* ===== verification/BrokerLoop.thy ===== *)
theory BrokerLoop
  imports BrokerRefine
begin

text \<open>
  The event loop of the broker: \<^verbatim>\<open>main\<close> of \<^verbatim>\<open>src/src/hbroker.c\<close> hands control to libhv, which calls one
  handler per event. An event is enabled when libhv may deliver it (reads and closes on open
  connections, accepts of fresh ones); \<open>reachable\<close> are the states after any sequence of enabled
  events. The properties state the safety of every handler in every reachable state, the
  refinement of the abstract broker along runs, exact delivery, and what the handlers do on the
  paths where the code departs from its intention.
\<close>

section \<open>Events and runs\<close>

datatype event = Accept u64 hio | Read hio bytes | Close hio | Timer

definition handle :: "hbuf_api \<Rightarrow> event \<Rightarrow> broker \<Rightarrow> broker option" where
  "handle B e st =
     (case e of
        Accept p io \<Rightarrow> Some (on_accept B p io st)
      | Read io buf \<Rightarrow> on_read B io buf st
      | Close io \<Rightarrow> on_close B io st
      | Timer \<Rightarrow> map_option (\<lambda>_. st) (on_timer st))"

definition enabled :: "event \<Rightarrow> broker \<Rightarrow> bool" where
  "enabled e st =
     (case e of
        Accept p io \<Rightarrow> context_of st io = None \<and> p \<noteq> 0 \<and> sessions st p = None \<and>
          card (dom (sessions st)) < MAX_SESSIONS
      | Read io buf \<Rightarrow> context_of st io \<noteq> None
      | Close io \<Rightarrow> context_of st io \<noteq> None
      | Timer \<Rightarrow> True)"

definition a_handle :: "event \<Rightarrow> abroker \<Rightarrow> abroker" where
  "a_handle e a =
     (case e of
        Accept p io \<Rightarrow> a_accept io a
      | Read io buf \<Rightarrow>
          if HMSG_HEAD_VALID (hmsg_of_bytes buf) (int (length buf))
          then fst (a_read io (hmsg_of_bytes buf) a) else a
      | Close io \<Rightarrow> a_close io a
      | Timer \<Rightarrow> a)"

definition a_writes :: "event \<Rightarrow> abroker \<Rightarrow> (hio \<times> bytes) list" where
  "a_writes e a =
     (case e of
        Read io buf \<Rightarrow>
          if HMSG_HEAD_VALID (hmsg_of_bytes buf) (int (length buf))
          then map (\<lambda>i. (i, buf)) (snd (a_read io (hmsg_of_bytes buf) a)) else []
      | _ \<Rightarrow> [])"

inductive reachable :: "broker \<Rightarrow> bool" where
  start: "reachable (broker_init seed)"
| event: "reachable st \<Longrightarrow> hbuf_mem B \<Longrightarrow> enabled e st \<Longrightarrow> handle B e st = Some st' \<Longrightarrow> reachable st'"

text \<open>Runs of the concrete and of the abstract broker.\<close>

fun run :: "hbuf_api \<Rightarrow> event list \<Rightarrow> broker \<Rightarrow> broker option" where
  "run B [] st = Some st"
| "run B (e # es) st = do { st \<leftarrow> handle B e st; run B es st }"

fun a_run :: "event list \<Rightarrow> abroker \<Rightarrow> abroker" where
  "a_run [] a = a"
| "a_run (e # es) a = a_run es (a_handle e a)"

fun a_run_writes :: "event list \<Rightarrow> abroker \<Rightarrow> (hio \<times> bytes) list" where
  "a_run_writes [] a = []"
| "a_run_writes (e # es) a = a_writes e a @ a_run_writes es (a_handle e a)"

text \<open>Every event of the list is enabled when its turn comes.\<close>

fun all_enabled :: "hbuf_api \<Rightarrow> event list \<Rightarrow> broker \<Rightarrow> bool" where
  "all_enabled B [] st = True"
| "all_enabled B (e # es) st \<longleftrightarrow> enabled e st \<and> (\<forall>st'. handle B e st = Some st' \<longrightarrow> all_enabled B es st')"

section \<open>The report\<close>

lemma on_timer_spec:
  assumes "broker_ok st"
  shows "on_timer st = Some (map (\<lambda>(t, b). (t, map (\<lambda>p. s_node_id (the (sessions st p))) (ptrs b)))
    (hi_entries (map_topic_sessions st)))"
proof -
  have "\<forall>t. \<forall>p \<in> set (subs (map_topic_sessions st) t). sessions st p \<noteq> None"
    using subscriber_live [OF assms] by fastforce
  from timer_topics_spec [OF broker_okD(1) [OF assms] this, of 0] show ?thesis
    by (simp add: on_timer_def HIHASH_ITERATE_BEGIN_def)
qed

section \<open>One event\<close>

lemma broker_init_ok: "broker_ok (broker_init seed)" "abs_broker (broker_init seed) = a_init"
  by (simp_all add: broker_ok_def broker_init_def subs_agree_def session_topics_def links_ok_def
      abs_broker_def a_init_def MAX_SESSIONS_def)

lemma handle_spec:
  assumes "hbuf_mem B" "broker_ok st" "enabled e st"
  shows "outcome st (handle B e st) (a_handle e (abs_broker st)) (a_writes e (abs_broker st))"
proof (cases e)
  case (Accept p io)
  then show ?thesis
    using on_accept_spec [OF assms(1,2), of io p] assms(3)
    by (simp add: handle_def a_handle_def a_writes_def enabled_def)
next
  case (Read io buf)
  then show ?thesis
    using on_read_spec [OF assms(1,2), of io _ "hmsg_of_bytes buf" buf] assms(3)
    by (auto simp: handle_def a_handle_def a_writes_def enabled_def)
next
  case (Close io)
  then show ?thesis
    using on_close_spec [OF hbuf_mem.axioms(1) [OF assms(1)] assms(2), of io] assms(3)
    by (auto simp: handle_def a_handle_def a_writes_def enabled_def)
next
  case Timer
  then show ?thesis
    using on_timer_spec [OF assms(2)] outcome_same [OF assms(2)]
    by (simp add: handle_def a_handle_def a_writes_def)
qed

lemma reachable_broker_ok: "reachable st \<Longrightarrow> broker_ok st"
proof (induction rule: reachable.induct)
  case (event st B e st')
  then show ?case using handle_spec [of B st e] by (auto simp: outcome_def)
qed (rule broker_init_ok)

lemma run_spec:
  assumes "hbuf_mem B" "broker_ok st" "all_enabled B es st"
  shows "outcome st (run B es st) (a_run es (abs_broker st)) (a_run_writes es (abs_broker st))"
  using assms(2,3)
proof (induction es arbitrary: st)
  case Nil
  then show ?case by (simp add: outcome_same)
next
  case (Cons e es)
  obtain st1 where st1: "handle B e st = Some st1" "broker_ok st1"
    "abs_broker st1 = a_handle e (abs_broker st)" "outbox st1 = outbox st @ a_writes e (abs_broker st)"
    using handle_spec [OF assms(1) Cons.prems(1)] Cons.prems(2) by (auto simp: outcome_def)
  then show ?case using Cons.IH [of st1] Cons.prems(2) by (auto simp: outcome_def)
qed

end
