(* ===== verification/BrokerProps.thy ===== *)
theory BrokerProps
  imports BrokerLoop
begin

text \<open>
  The properties of the broker, each an application of the lemmas of BrokerRefine and BrokerLoop,
  with the concrete runs that witness their hypotheses. Two connections and three messages are
  used throughout: connection 3 subscribes, connection 4 publishes.
\<close>

section \<open>The messages and states of the witnesses\<close>

definition ex_sub :: hmsg_t where
  "ex_sub = hmsg_zero\<lparr>m_magic := 0x55AA, m_flags := 0x20, m_topic := 7, m_from := 1, m_to := 0xFFFE\<rparr>"

definition ex_pub :: hmsg_t where
  "ex_pub = hmsg_zero\<lparr>m_magic := 0x55AA, m_flags := 0x10, m_topic := 7, m_from := 2, m_to := 0xFFFF\<rparr>"

definition ex_unsub :: hmsg_t where
  "ex_unsub = ex_sub\<lparr>m_flags := 0x30\<rparr>"

definition ex_state :: broker where
  "ex_state = on_accept hbuf_1g 0x2000 4 (on_accept hbuf_1g 0x1000 3 (broker_init 0))"

lemma ex_valid:
  "HMSG_HEAD_VALID ex_sub 32" "HMSG_HEAD_VALID ex_pub 32" "HMSG_HEAD_VALID ex_unsub 32"
  by (simp_all add: HMSG_HEAD_VALID_def ex_sub_def ex_pub_def ex_unsub_def hmsg_zero_def)

lemma ex_length:
  "length (hmsg_bytes ex_sub) = 32" "length (hmsg_bytes ex_pub) = 32" "length (hmsg_bytes ex_unsub) = 32"
  by (simp_all add: length_hmsg_bytes ex_sub_def ex_pub_def ex_unsub_def hmsg_zero_def)

lemma ex_init: "hbuf_init hbuf_1g 32 = (0, \<lparr>b_len = 0, b_size = 32, b_data = replicate 32 0\<rparr>)"
  by (simp add: hbuf_bounded_def HBUF_LIMIT_def)

lemma ex_accept:
  "p \<noteq> 0 \<Longrightarrow> on_accept hbuf_1g p io st =
    st\<lparr>sessions := (sessions st)(p \<mapsto> \<lparr>s_io = io,
         s_buf_topics = \<lparr>b_len = 0, b_size = 32, b_data = replicate 32 0\<rparr>, s_node_id = 0, s_timeout_sec = 30\<rparr>),
       context_of := (context_of st)(io \<mapsto> p)\<rparr>"
  by (simp add: on_accept_def hbus_seesion_alloc_def ex_init)

lemma ex_state_eq:
  "sessions ex_state = (\<lambda>_. None)
     (0x1000 \<mapsto> \<lparr>s_io = 3, s_buf_topics = \<lparr>b_len = 0, b_size = 32, b_data = replicate 32 0\<rparr>,
                  s_node_id = 0, s_timeout_sec = 30\<rparr>,
      0x2000 \<mapsto> \<lparr>s_io = 4, s_buf_topics = \<lparr>b_len = 0, b_size = 32, b_data = replicate 32 0\<rparr>,
                  s_node_id = 0, s_timeout_sec = 30\<rparr>)"
  "context_of ex_state = (\<lambda>_. None)(3 \<mapsto> 0x1000, 4 \<mapsto> 0x2000)"
  "map_topic_sessions ex_state = None" "outbox ex_state = []"
  by (simp_all add: ex_state_def ex_accept broker_init_def fun_eq_iff)

lemma ex_enabled:
  "enabled (Accept 0x1000 3) (broker_init 0)"
  "enabled (Accept 0x2000 4) (on_accept hbuf_1g 0x1000 3 (broker_init 0))"
  by (simp_all add: enabled_def ex_accept broker_init_def MAX_SESSIONS_def)

lemma ex_reachable: "reachable ex_state"
proof -
  have "reachable (on_accept hbuf_1g 0x1000 3 (broker_init 0))"
    by (rule event [OF start one_gib.hbuf_mem_axioms ex_enabled(1)]) (simp add: handle_def)
  then show ?thesis
    by (rule event [OF _ one_gib.hbuf_mem_axioms ex_enabled(2)]) (simp add: handle_def ex_state_def)
qed

lemma open_abs: "broker_ok st \<Longrightarrow> context_of st io \<noteq> None \<longleftrightarrow> a_node (abs_broker st) io \<noteq> None"
  using broker_okD(6) [of st io] by (cases "context_of st io") (auto simp: abs_broker_def)

lemma all_enabled_read:
  assumes "hbuf_mem B" "broker_ok st" "a_node (abs_broker st) io \<noteq> None"
    and "\<And>st'. broker_ok st' \<Longrightarrow> abs_broker st' = a_handle (Read io buf) (abs_broker st) \<Longrightarrow> all_enabled B es st'"
  shows "all_enabled B (Read io buf # es) st"
proof -
  have "enabled (Read io buf) st" using assms(2,3) open_abs by (simp add: enabled_def)
  then show ?thesis
    using handle_spec [OF assms(1,2), of "Read io buf"] assms(4) by (auto simp: outcome_def)
qed

definition ex_events :: "event list" where
  "ex_events = [Accept 0x1000 3, Accept 0x2000 4, Read 3 (hmsg_bytes ex_sub), Read 4 (hmsg_bytes ex_pub)]"

lemma ex_all_enabled: "all_enabled hbuf_1g ex_events (broker_init 0)"
proof -
  have ok: "broker_ok ex_state" using reachable_broker_ok [OF ex_reachable] .
  have nodes: "a_node (abs_broker ex_state) 3 = Some 0" "a_node (abs_broker ex_state) 4 = Some 0"
    by (simp_all add: abs_broker_def ex_state_eq)
  have "a_node (a_handle (Read 3 (hmsg_bytes ex_sub)) (abs_broker ex_state)) 4 = Some 0"
    using nodes by (simp add: a_handle_def a_read_def a_subscribe_def hmsg_roundtrip ex_valid ex_length
        ex_sub_def bit_simps)
  then have "all_enabled hbuf_1g [Read 3 (hmsg_bytes ex_sub), Read 4 (hmsg_bytes ex_pub)] ex_state"
    using nodes by (intro all_enabled_read [OF one_gib.hbuf_mem_axioms ok] all_enabled_read
        [OF one_gib.hbuf_mem_axioms]) auto
  then show ?thesis
    using ex_enabled by (simp add: ex_events_def handle_def ex_state_def)
qed

text \<open>Connection 3 has subscribed.\<close>

definition ex_subscribed :: broker where
  "ex_subscribed = the (on_read hbuf_1g 3 (hmsg_bytes ex_sub) ex_state)"

lemma ex_subscribed:
  "handle hbuf_1g (Read 3 (hmsg_bytes ex_sub)) ex_state = Some ex_subscribed"
  "broker_ok ex_subscribed" "reachable ex_subscribed"
  "abs_broker ex_subscribed = a_subscribe 3 (sub_topic ex_sub) (abs_broker ex_state)"
  "outbox ex_subscribed = []"
proof -
  have en: "enabled (Read 3 (hmsg_bytes ex_sub)) ex_state" by (simp add: enabled_def ex_state_eq)
  have a: "a_handle (Read 3 (hmsg_bytes ex_sub)) (abs_broker ex_state) =
      a_subscribe 3 (sub_topic ex_sub) (abs_broker ex_state)"
    "a_writes (Read 3 (hmsg_bytes ex_sub)) (abs_broker ex_state) = []"
    by (simp_all add: a_handle_def a_writes_def a_read_def hmsg_roundtrip ex_valid ex_length)
      (simp_all add: ex_sub_def bit_simps)
  note spec = handle_spec [OF one_gib.hbuf_mem_axioms reachable_broker_ok [OF ex_reachable] en]
  show h: "handle hbuf_1g (Read 3 (hmsg_bytes ex_sub)) ex_state = Some ex_subscribed"
    using spec by (auto simp: outcome_def ex_subscribed_def handle_def)
  show "broker_ok ex_subscribed" "abs_broker ex_subscribed = a_subscribe 3 (sub_topic ex_sub) (abs_broker ex_state)"
    "outbox ex_subscribed = []"
    using spec by (simp_all add: outcome_def h a ex_state_eq)
  show "reachable ex_subscribed" by (rule event [OF ex_reachable one_gib.hbuf_mem_axioms en h])
qed

lemma ex_subscribed_open: "context_of ex_subscribed 3 \<noteq> None" "context_of ex_subscribed 4 \<noteq> None"
  unfolding open_abs [OF ex_subscribed(2)] ex_subscribed(4)
  by (simp_all add: a_subscribe_def abs_broker_def ex_state_eq)

lemma ex_sub_topic: "sub_topic ex_sub = HMSG_TOPICEX_INMSG ex_pub"
  by (simp add: sub_topic_def topicex_inmsg topicex_inject HMSG_FLAGS_def HMSG_FLAGS_DATA_def
      ex_sub_def ex_pub_def hmsg_zero_def)

lemma ex_abs_run:
  "a_run_writes ex_events a_init = [(3, hmsg_bytes ex_pub)]"
proof -
  have to: "m_to ex_sub = 0xFFFE" "m_to ex_pub = 0xFFFF" "bit (m_flags ex_sub) 5"
    by (simp_all add: ex_sub_def ex_pub_def hmsg_zero_def bit_simps)
  show ?thesis
    by (simp add: ex_events_def a_writes_def a_handle_def hmsg_roundtrip ex_valid ex_length a_read_def to
        a_recipients_def a_subscribe_def ex_sub_topic a_accept_def a_init_def append_new_def)
qed

section \<open>Refinement along runs\<close>

text \<open>C1: Every run of enabled events from the initial state, with a buffer library that serves
  allocations below its limit, ends without undefined behaviour in a state that satisfies the
  invariant, represents exactly the abstract publish/subscribe state and has sent exactly the
  writes of the abstract broker, in order.\<close>

theorem broker_run_refines:
  assumes "hbuf_mem B" and "all_enabled B es (broker_init seed)"
  shows "\<exists>st. run B es (broker_init seed) = Some st \<and> broker_ok st \<and>
    abs_broker st = a_run es a_init \<and> outbox st = a_run_writes es a_init"
  using run_spec [OF assms(1) broker_init_ok(1) assms(2)]
  by (simp add: outcome_def broker_init_ok(2)) (simp add: broker_init_def)

theorem broker_run_refines_witness:
  "\<exists>st. run hbuf_1g ex_events (broker_init 0) = Some st \<and> broker_ok st \<and>
    outbox st = [(3, hmsg_bytes ex_pub)]"
  using broker_run_refines [OF one_gib.hbuf_mem_axioms ex_all_enabled] ex_abs_run by auto

section \<open>Memory safety\<close>

text \<open>C2: In every reachable state every enabled event is handled without dereferencing an invalid
  session pointer, without an unbounded loop, and into a reachable state again.\<close>

theorem broker_never_crashes:
  assumes "reachable st" and "hbuf_mem B" and "enabled e st"
  shows "\<exists>st'. handle B e st = Some st' \<and> reachable st'"
  using handle_spec [OF assms(2) reachable_broker_ok [OF assms(1)] assms(3)] event [OF assms]
  by (auto simp: outcome_def)

theorem broker_never_crashes_witness:
  "\<exists>st'. handle hbuf_1g (Close 3) ex_state = Some st' \<and> reachable st'"
  by (rule broker_never_crashes [OF ex_reachable one_gib.hbuf_mem_axioms])
    (simp add: enabled_def ex_state_eq)

section \<open>Exact delivery\<close>

text \<open>C3: A valid message that is not addressed to the broker is written, unchanged, exactly once to
  every open connection whose session has subscribed the message's extended topic and is
  addressed (by node id or by the everyone id), and to no other connection.\<close>

theorem on_read_delivers_exactly:
  assumes "reachable st" and "hbuf_mem B" and "context_of st io \<noteq> None"
    and "HMSG_HEAD_VALID (hmsg_of_bytes buf) (int (length buf))" and "m_to (hmsg_of_bytes buf) \<noteq> 0xFFFE"
  shows "\<exists>st' ios. on_read B io buf st = Some st' \<and> outbox st' = outbox st @ map (\<lambda>i. (i, buf)) ios \<and>
    distinct ios \<and>
    (\<forall>i. i \<in> set ios \<longleftrightarrow> (\<exists>p s. sessions st p = Some s \<and> s_io s = i \<and>
       HMSG_TOPICEX_INMSG (hmsg_of_bytes buf) \<in> set (i32s (s_buf_topics s)) \<and>
       (m_to (hmsg_of_bytes buf) = s_node_id s \<or> m_to (hmsg_of_bytes buf) = 0xFFFF)))"
proof -
  let ?m = "hmsg_of_bytes buf" and ?ios = "a_recipients (hmsg_of_bytes buf) (abs_broker st)"
  have ok: "broker_ok st" by (rule reachable_broker_ok [OF assms(1)])
  obtain p where p: "context_of st io = Some p" using assms(3) by blast
  obtain st' where st': "on_read B io buf st = Some st'" "outbox st' = outbox st @ map (\<lambda>i. (i, buf)) ?ios"
    using on_read_spec [OF assms(2) ok p refl, of buf] assms(4,5) by (auto simp: outcome_def a_read_def)
  have "distinct ?ios" using a_subs_distinct [OF ok] by (simp add: a_recipients_def)
  moreover have "i \<in> set ?ios \<longleftrightarrow> (\<exists>p s. sessions st p = Some s \<and> s_io s = i \<and>
       HMSG_TOPICEX_INMSG ?m \<in> set (i32s (s_buf_topics s)) \<and> (m_to ?m = s_node_id s \<or> m_to ?m = 0xFFFF))" for i
    unfolding recipients_abs [OF ok, symmetric] by (rule in_recipients [OF ok])
  ultimately show ?thesis using st' by blast
qed

theorem on_read_delivers_exactly_witness:
  "\<exists>st' ios. on_read hbuf_1g 4 (hmsg_bytes ex_pub) ex_subscribed = Some st' \<and>
    outbox st' = map (\<lambda>i. (i, hmsg_bytes ex_pub)) ios \<and> distinct ios \<and>
    (\<forall>i. i \<in> set ios \<longleftrightarrow> (\<exists>p s. sessions ex_subscribed p = Some s \<and> s_io s = i \<and>
       HMSG_TOPICEX_INMSG ex_pub \<in> set (i32s (s_buf_topics s))))"
proof -
  have to: "m_to ex_pub = 0xFFFF" by (simp add: ex_pub_def)
  show ?thesis
    using on_read_delivers_exactly [OF ex_subscribed(3) one_gib.hbuf_mem_axioms ex_subscribed_open(2),
        of "hmsg_bytes ex_pub"]
    by (simp add: hmsg_roundtrip ex_valid ex_length to ex_subscribed(5))
qed

section \<open>Subscribing\<close>

text \<open>A valid subscription message files the sending connection at the end of the subscriber list
  of the data topic it names, unless it is there already; no other topic, no node id and no other
  connection is affected and nothing is written.\<close>

theorem on_read_subscribes:
  assumes "reachable st" and "hbuf_mem B" and "context_of st io \<noteq> None"
    and "HMSG_HEAD_VALID (hmsg_of_bytes buf) (int (length buf))" and "m_to (hmsg_of_bytes buf) = 0xFFFE"
    and "HMSG_FLAGS_CMD (m_flags (hmsg_of_bytes buf)) = 0x20"
  shows "\<exists>st'. on_read B io buf st = Some st' \<and>
    a_node (abs_broker st') = a_node (abs_broker st) \<and>
    a_subs (abs_broker st') = (a_subs (abs_broker st))
      (topicex 0 (0x10 OR (m_flags (hmsg_of_bytes buf) AND 0x0F)) (m_topic (hmsg_of_bytes buf)) :=
        append_new io (a_subs (abs_broker st)
          (topicex 0 (0x10 OR (m_flags (hmsg_of_bytes buf) AND 0x0F)) (m_topic (hmsg_of_bytes buf))))) \<and>
    outbox st' = outbox st"
proof -
  let ?m = "hmsg_of_bytes buf"
  obtain p where p: "context_of st io = Some p" using assms(3) by blast
  have "bit (m_flags ?m AND 0xF0) 5" using assms(6) by (simp add: HMSG_FLAGS_CMD_def bit_simps)
  then have "bit (m_flags ?m) 5" by (simp add: bit_simps)
  then have "fst (a_read io ?m (abs_broker st)) = a_subscribe io (sub_topic ?m) (abs_broker st)"
    "snd (a_read io ?m (abs_broker st)) = []"
    using assms(5) by (simp_all add: a_read_def)
  then show ?thesis
    using on_read_spec [OF assms(2) reachable_broker_ok [OF assms(1)] p refl, of buf] assms(4)
    by (auto simp: outcome_def a_subscribe_def sub_topic_def HMSG_FLAGS_def HMSG_FLAGS_DATA_def)
qed

theorem on_read_subscribes_witness:
  "\<exists>st'. on_read hbuf_1g 4 (hmsg_bytes ex_sub) ex_subscribed = Some st' \<and>
    a_subs (abs_broker st') (topicex 0 0x10 7) = [3, 4]"
proof -
  have f: "HMSG_FLAGS_CMD (m_flags ex_sub) = 0x20" "m_to ex_sub = 0xFFFE" "m_topic ex_sub = 7"
    "(0x10 :: u8) OR (m_flags ex_sub AND 0x0F) = 0x10"
    by (simp_all add: HMSG_FLAGS_CMD_def ex_sub_def hmsg_zero_def)
  have "a_subs (abs_broker ex_subscribed) (topicex 0 0x10 7) = [3]"
    unfolding ex_subscribed(4) using f
    by (simp add: a_subscribe_def sub_topic_def HMSG_FLAGS_def HMSG_FLAGS_DATA_def abs_subs
        ex_state_eq append_new_def)
  then show ?thesis
    using on_read_subscribes [OF ex_subscribed(3) one_gib.hbuf_mem_axioms ex_subscribed_open(2),
        of "hmsg_bytes ex_sub"]
    by (auto simp: hmsg_roundtrip ex_valid ex_length f append_new_def)
qed

section \<open>Closing\<close>

text \<open>C11: Closing a connection frees its session and leaves no pointer to it in any subscriber list;
  the other sessions and their places in the lists are untouched.\<close>

theorem on_close_leaves_no_trace:
  assumes "reachable st" and "hbuf_lib B" and "context_of st io = Some p"
  shows "\<exists>st'. on_close B io st = Some st' \<and> sessions st' = (sessions st)(p := None) \<and>
    context_of st' io = None \<and> outbox st' = outbox st \<and>
    (\<forall>t. subs (map_topic_sessions st') t = removeAll p (subs (map_topic_sessions st) t))"
proof -
  obtain st' where "on_close B io st = Some st'" "sessions st' = (sessions st)(p := None)"
    "context_of st' = (context_of st)(io := None)" "outbox st' = outbox st"
    "\<And>t. subs (map_topic_sessions st') t = removeAll p (subs (map_topic_sessions st) t)"
    using on_close_run [OF assms(2) reachable_broker_ok [OF assms(1)] assms(3)] by metis
  then show ?thesis by auto
qed

theorem on_close_leaves_no_trace_witness:
  "\<exists>st'. on_close hbuf_1g 3 ex_state = Some st' \<and> sessions st' 0x1000 = None \<and>
    (\<forall>t. 0x1000 \<notin> set (subs (map_topic_sessions st') t))"
  using on_close_leaves_no_trace [OF ex_reachable bounded.hbuf_lib_axioms, of 3 "0x1000" HBUF_LIMIT]
  by (auto simp: ex_state_eq)

section \<open>Unsubscribing\<close>

text \<open>C12: The command test of the broker reads a single bit that subscribe (0x20) and unsubscribe
  (0x30) share: an unsubscribe message subscribes its sender, it does not remove a
  subscription.\<close>

theorem unsub_message_subscribes:
  assumes "reachable st" and "hbuf_mem B" and "context_of st io \<noteq> None"
    and "HMSG_HEAD_VALID (hmsg_of_bytes buf) (int (length buf))" and "m_to (hmsg_of_bytes buf) = 0xFFFE"
    and "m_flags (hmsg_of_bytes buf) = 0x30"
  shows "\<exists>st'. on_read B io buf st = Some st' \<and>
    io \<in> set (a_subs (abs_broker st') (topicex 0 0x10 (m_topic (hmsg_of_bytes buf))))"
proof -
  let ?m = "hmsg_of_bytes buf"
  obtain p where p: "context_of st io = Some p" using assms(3) by blast
  have "bit (m_flags ?m) 5" by (simp add: assms(6) bit_simps)
  then have "fst (a_read io ?m (abs_broker st)) = a_subscribe io (sub_topic ?m) (abs_broker st)"
    using assms(5) by (simp add: a_read_def)
  moreover have "sub_topic ?m = topicex 0 0x10 (m_topic ?m)"
    by (simp add: sub_topic_def HMSG_FLAGS_def HMSG_FLAGS_DATA_def assms(6))
  ultimately show ?thesis
    using on_read_spec [OF assms(2) reachable_broker_ok [OF assms(1)] p refl, of buf] assms(4)
    by (auto simp: outcome_def a_subscribe_def)
qed

theorem unsub_message_subscribes_witness:
  "\<exists>st'. on_read hbuf_1g 3 (hmsg_bytes ex_unsub) ex_subscribed = Some st' \<and>
    3 \<in> set (a_subs (abs_broker st') (topicex 0 0x10 7))"
  using unsub_message_subscribes [OF ex_subscribed(3) one_gib.hbuf_mem_axioms ex_subscribed_open(1),
      of "hmsg_bytes ex_unsub"]
  by (simp add: hmsg_roundtrip ex_valid ex_length) (simp add: ex_unsub_def ex_sub_def)

section \<open>The report\<close>

text \<open>The periodic report runs to its end in every reachable state and lists every subscribed topic
  exactly once, with the node ids of its subscribers in subscription order.\<close>

theorem on_timer_reports:
  assumes "reachable st"
  shows "\<exists>r. on_timer st = Some r \<and> distinct (map fst r) \<and>
    (\<forall>t ids. (t, ids) \<in> set r \<longleftrightarrow> subs (map_topic_sessions st) t \<noteq> [] \<and>
      ids = map (\<lambda>p. s_node_id (the (sessions st p))) (subs (map_topic_sessions st) t))"
proof -
  have ok: "broker_ok st" by (rule reachable_broker_ok [OF assms])
  let ?es = "hi_entries (map_topic_sessions st)"
  have m: "(t, b) \<in> set ?es \<longleftrightarrow> map_of ?es t = Some b" for t b
    using hi.keys_distinct [OF topic_map_okD(1) [OF broker_okD(1) [OF ok]]] by simp
  have ne: "ptrs b \<noteq> []" if "map_of ?es t = Some b" for t b
    using topic_map_okD(3) [OF broker_okD(1) [OF ok] that] .
  let ?r = "map (\<lambda>(t, b). (t, map (\<lambda>p. s_node_id (the (sessions st p))) (ptrs b))) ?es"
  have "map fst ?r = map fst ?es" by (auto simp: case_prod_beta)
  then have "distinct (map fst ?r)"
    using hi.keys_distinct [OF topic_map_okD(1) [OF broker_okD(1) [OF ok]]] by (simp only:)
  moreover have "(t, ids) \<in> set ?r \<longleftrightarrow> subs (map_topic_sessions st) t \<noteq> [] \<and>
      ids = map (\<lambda>p. s_node_id (the (sessions st p))) (subs (map_topic_sessions st) t)" for t ids
    using m [of t] ne [of t] by (cases "map_of ?es t") (auto simp: subs_def image_iff Bex_def)
  ultimately show ?thesis using on_timer_spec [OF ok] by blast
qed

theorem on_timer_reports_witness:
  "\<exists>r. on_timer ex_subscribed = Some r \<and> distinct (map fst r)"
  using on_timer_reports [OF ex_subscribed(3)] by auto

section \<open>Out of memory\<close>

text \<open>C13: When \<^verbatim>\<open>malloc\<close> fails in \<^verbatim>\<open>on_accept\<close> the connection is served with a null session: closing it and
  every subscribe or register message on it dereference the null pointer.\<close>

theorem accept_out_of_memory:
  assumes "reachable st"
  shows "on_close B io (on_accept B 0 io st) = None \<and>
    (\<forall>buf. HMSG_HEAD_VALID (hmsg_of_bytes buf) (int (length buf)) \<and> m_to (hmsg_of_bytes buf) = 0xFFFE \<and>
       (bit (m_flags (hmsg_of_bytes buf)) 5 \<or> m_flags (hmsg_of_bytes buf) = 0) \<longrightarrow>
       on_read B io buf (on_accept B 0 io st) = None)"
proof -
  have "sessions st 0 = None"
    using reachable_broker_ok [OF assms] by (simp add: broker_ok_def links_ok_def)
  then show ?thesis
    by (auto simp: on_close_def on_accept_def hbus_seesion_alloc_def hbus_seesion_free_def on_read_def
        Let_def sub_bit on_sub_def on_register_def)
qed

theorem accept_out_of_memory_witness:
  "on_read hbuf_1g 5 (hmsg_bytes ex_sub) (on_accept hbuf_1g 0 5 (broker_init 0)) = None"
proof -
  have "bit (m_flags ex_sub) 5 \<and> m_to ex_sub = 0xFFFE" by (simp add: ex_sub_def bit_simps)
  then show ?thesis
    using accept_out_of_memory [OF start, of hbuf_1g 5 0]
    by (auto simp: hmsg_roundtrip ex_valid ex_length)
qed

text \<open>A buffer library whose allocator fails to grow a topic list but serves everything else.\<close>

definition no_topic_memory :: "hbuf_api \<Rightarrow> hbuf_api" where
  "no_topic_memory B =
     B\<lparr>hbuf_push := (\<lambda>b d. if length d = 4 then (0x15, b) else hbuf_push B b d)\<rparr>"

lemma no_topic_memory_lib: "hbuf_lib B \<Longrightarrow> hbuf_lib (no_topic_memory B)"
  by (auto simp: hbuf_lib_def no_topic_memory_def)

lemma no_topic_memory_add:
  "hbus_ctx_session_add (no_topic_memory B) t p st = hbus_ctx_session_add B t p st"
proof -
  have same: "HBUF_PTR_PUSH (no_topic_memory B) = HBUF_PTR_PUSH B" "hbuf_init (no_topic_memory B) = hbuf_init B"
    by (simp_all add: HBUF_PTR_PUSH_def no_topic_memory_def fun_eq_iff)
  show ?thesis unfolding hbus_ctx_session_add_def same ..
qed

text \<open>C14: The result of the push that records a topic in the session is ignored. If it fails the
  session is filed in the topic map but not under its own topics, and closing the connection
  leaves a pointer to the freed session in the topic map.\<close>

theorem sub_out_of_memory_dangles:
  assumes "reachable st" and "hbuf_mem B" and "context_of st io = Some p"
    and "sub_topic msg \<notin> set (session_topics st p)"
  shows "\<exists>st1 st2. on_sub (no_topic_memory B) p msg st = Some st1 \<and>
    on_close B io st1 = Some st2 \<and> sessions st2 p = None \<and>
    p \<in> set (subs (map_topic_sessions st2) (sub_topic msg))"
proof -
  let ?t = "sub_topic msg" and ?h = "map_topic_sessions st"
  have ok: "broker_ok st" by (rule reachable_broker_ok [OF assms(1)])
  obtain s where s: "sessions st p = Some s" "s_io s = io" using broker_okD(6) [OF ok assms(3)] by blast
  have topics: "holds_items 4 (s_buf_topics s)" and new: "?t \<notin> set (i32s (s_buf_topics s))"
    using broker_okD(4) [OF ok s(1)] assms(4) s(1) by (simp_all add: session_ok_def in_session_topics)
  then have "p \<notin> set (subs ?h ?t)" using subs_agreeD [OF ok s(1)] by simp
  then obtain st1 where st1: "hbus_ctx_session_add B ?t p st = Some st1" "only_map st st1"
    "topic_map_ok (map_topic_sessions st1)"
    "subs (map_topic_sessions st1) = (subs ?h)(?t := append_new p (subs ?h ?t))"
    using session_add_spec [OF assms(2) broker_okD(1) [OF ok], of p ?t]
      subscribers_bound(2) [OF ok, of p ?t] s(1) by (auto simp: MAX_SESSIONS_def)
  have st1': "sessions st1 = sessions st" "context_of st1 = context_of st"
    using st1(2) by (simp_all add: only_map_def)
  have "snd (hbuf_push (no_topic_memory B) (s_buf_topics s) (enc32 ?t)) = s_buf_topics s"
    by (simp add: no_topic_memory_def)
  then have run1: "on_sub (no_topic_memory B) p msg st = Some st1"
    using new st1(1) st1' s(1)
    by (simp add: on_sub_def sub_topic_eq HBUF_I32_search [OF topics] index_of_None no_topic_memory_add
        fun_upd_idem)
  obtain st2 where st2: "rm_topics B p (length (i32s (s_buf_topics s))) 0 st1 = Some st2"
    "subs (map_topic_sessions st2) ?t = subs (map_topic_sessions st1) ?t"
    using rm_topics_spec [OF hbuf_mem.axioms(1) [OF assms(2)] st1(3) _ topics, of p 0] st1'(1) s(1) new
    by auto
  have "on_close B io st1 = Some (st2\<lparr>sessions := (sessions st2)(p := None),
      context_of := (context_of st2)(io := None)\<rparr>)"
    using assms(3) s(1) st1' st2(1) by (simp add: on_close_def hbus_seesion_free_def i32.length_items)
  then show ?thesis using run1 st2(2) st1(4) by auto
qed

theorem sub_out_of_memory_dangles_witness:
  "\<exists>st1 st2. on_sub (no_topic_memory hbuf_1g) 0x1000 ex_sub ex_state = Some st1 \<and>
    on_close hbuf_1g 3 st1 = Some st2 \<and> sessions st2 0x1000 = None \<and>
    0x1000 \<in> set (subs (map_topic_sessions st2) (sub_topic ex_sub))"
  by (rule sub_out_of_memory_dangles [OF ex_reachable one_gib.hbuf_mem_axioms])
    (simp_all add: ex_state_eq session_topics_def items_def)

end
