(* ===== verification/MapProps.thy ===== *)
theory MapProps
  imports Hhash Hmsg
begin

text \<open>
  Properties of the hash map and of the wire format that the broker and the node share: histories of
  map operations against a finite map, the probe loop, the hash functions, and the message codec.
\<close>

section \<open>Histories of map operations\<close>

datatype 'v hm_op = Put bytes 'v | Del bytes

fun hm_run :: "u64 \<Rightarrow> hm_mode \<Rightarrow> 'v hm_op list \<Rightarrow> 'v hmap \<Rightarrow> (u64 \<times> 'v hmap) option" where
  "hm_run g mode [] t = Some (g, t)"
| "hm_run g mode (Put k v # ops) t = do { (g, t) \<leftarrow> hmput g mode t k v; hm_run g mode ops t }"
| "hm_run g mode (Del k # ops) t = do { (g, t, r) \<leftarrow> hmdel g mode t k; hm_run g mode ops t }"

text \<open>The same history on a list of entries and on a finite map.\<close>

fun alist_run :: "'v hm_op list \<Rightarrow> 'v hm_elem list \<Rightarrow> 'v hm_elem list" where
  "alist_run [] es = es"
| "alist_run (Put k v # ops) es = alist_run ops (alist_put k (Some v) es)"
| "alist_run (Del k # ops) es = alist_run ops (alist_del k es)"

fun map_run :: "'v hm_op list \<Rightarrow> (bytes \<Rightarrow> 'v option) \<Rightarrow> bytes \<Rightarrow> 'v option" where
  "map_run [] m = m"
| "map_run (Put k v # ops) m = map_run ops (m(k \<mapsto> v))"
| "map_run (Del k # ops) m = map_run ops (m(k := None))"

lemma hm_run_refines:
  "hm_ok mode t \<Longrightarrow> \<exists>g' t'. hm_run g mode ops t = Some (g', t') \<and> hm_ok mode t' \<and>
    hm_entries t' = alist_run ops (hm_entries t)"
proof (induction ops arbitrary: g t)
  case (Cons op ops)
  show ?case
  proof (cases op)
    case (Put k v)
    obtain g1 t1 where "hmput g mode t k v = Some (g1, t1)" "hm_ok mode t1"
      "hm_entries t1 = alist_put k (Some v) (hm_entries t)"
      using hmput_refines [OF Cons.prems] by blast
    then show ?thesis using Cons.IH [of t1 g1] Put by simp
  next
    case (Del k)
    obtain t1 where "hmdel g mode t k = Some (g, t1, if k \<in> set (map fst (hm_entries t)) then 1 else 0)"
      "hm_ok mode t1" "hm_entries t1 = alist_del k (hm_entries t)"
      using hmdel_refines [OF Cons.prems] by blast
    then show ?thesis using Cons.IH [of t1 g] Del by simp
  qed
qed simp

lemma map_run_entries:
  assumes "distinct (map fst es)" "map_of es = map_option Some \<circ> m"
  shows "distinct (map fst (alist_run ops es))" "map_of (alist_run ops es) = map_option Some \<circ> map_run ops m"
proof -
  have "distinct (map fst (alist_run ops es)) \<and> map_of (alist_run ops es) = map_option Some \<circ> map_run ops m"
    using assms
  proof (induction ops arbitrary: es m)
    case (Cons op ops)
    show ?case
    proof (cases op)
      case (Put k v)
      have new: "map_of (alist_put k (Some v) es) = map_option Some \<circ> m(k \<mapsto> v)"
        using map_of_alist_put [OF Cons.prems(1), of k "Some v"] Cons.prems(2) by (auto simp: fun_eq_iff)
      show ?thesis
        using Cons.IH [OF distinct_alist_put [OF Cons.prems(1)] new] Put by (simp only: alist_run.simps map_run.simps)
    next
      case (Del k)
      have new: "map_of (alist_del k es) = map_option Some \<circ> m(k := None)"
        using map_of_alist_del [OF Cons.prems(1), of k] Cons.prems(2) by (auto simp: fun_eq_iff)
      show ?thesis
        using Cons.IH [OF alist_del_keys(1) [OF Cons.prems(1)] new] Del by (simp only: alist_run.simps map_run.simps)
    qed
  qed simp
  then show "distinct (map fst (alist_run ops es))"
    "map_of (alist_run ops es) = map_option Some \<circ> map_run ops m" by simp_all
qed

text \<open>C4: Every sequence of insertions and deletions on an empty map runs to its end, whatever the hash
  seed, keeps the representation invariant, and leaves exactly the entries of the abstract
  list under in-place update, append and swap-removal: no probe loop diverges, no entry is lost
  and the iteration order does not depend on hashes.\<close>

theorem hm_history_refines:
  "\<exists>g' t. hm_run g mode ops None = Some (g', t) \<and> hm_ok mode t \<and> hm_entries t = alist_run ops []"
  using hm_run_refines [of mode None g ops] by (simp add: hm_ok_def hm_entries_def)

text \<open>C5: After any history a lookup stops and returns \<open>-1\<close> when the key is not live, and otherwise the
  position of the entry that holds the key and the value last put under it.\<close>

theorem hm_lookup_last_write:
  "\<exists>g' t t' i. hm_run g mode ops None = Some (g', t) \<and> hmgeti mode t key = Some (t', i) \<and>
    (case map_run ops (\<lambda>_. None) key of
       None \<Rightarrow> i = -1
     | Some v \<Rightarrow> 0 \<le> i \<and> i < hmlen t \<and> hm_entries t' ! nat i = (key, Some v))"
proof -
  obtain g' t where t: "hm_run g mode ops None = Some (g', t)" "hm_ok mode t" "hm_entries t = alist_run ops []"
    using hm_run_refines [of mode None g ops] by (auto simp: hm_ok_def hm_entries_def)
  obtain t' where t': "hmgeti mode t key = Some (t', alist_find key (hm_entries t))" "hm_entries t' = hm_entries t"
    using hmgeti_refines [OF t(2)] by blast
  let ?i = "alist_find key (hm_entries t)"
  have m: "distinct (map fst (hm_entries t))"
    "map_of (hm_entries t) key = map_option Some (map_run ops (\<lambda>_. None) key)"
    using map_run_entries [of "[]" "\<lambda>_. None" ops] t(3) by (simp_all add: fun_eq_iff)
  have "case map_run ops (\<lambda>_. None) key of None \<Rightarrow> ?i = -1
      | Some v \<Rightarrow> 0 \<le> ?i \<and> ?i < hmlen t \<and> hm_entries t' ! nat ?i = (key, Some v)"
  proof (cases "map_run ops (\<lambda>_. None) key")
    case None
    then show ?thesis using m(2) by (simp add: alist_find_iff)
  next
    case (Some v)
    then have "0 \<le> ?i" using m(2) by (simp add: alist_find_iff(3))
    then obtain n where n: "?i = int n" using nonneg_int_cases by blast
    have e: "n < length (hm_entries t)" "fst (hm_entries t ! n) = key"
      using alist_find_iff(2) [OF n] by simp_all
    then have "snd (hm_entries t ! n) = Some v"
      using map_of_is_SomeI [OF m(1), of key "snd (hm_entries t ! n)"] m(2) Some
      by (metis nth_mem option.inject option.simps(9) prod.collapse)
    then show ?thesis
      using Some n e t'(2) hmlen_entries [OF t(2)] by (simp add: prod_eq_iff)
  qed
  then show ?thesis using t(1) t'(1) by blast
qed

section \<open>Probing and hashing\<close>

text \<open>C15: On a table of \<open>8 * 2 ^ k\<close> slots the quadratic probe loop visits every slot: it finds an empty
  slot from every start position whenever the table has one.\<close>

theorem probe_finds_empty_slot:
  assumes "slot_count t = 8 * 2 ^ k" and "s < slot_count t" and "slot_hash t s = 0"
  shows "\<exists>s' < slot_count t. free_slot_loop t (stbds_probe_position hash (slot_count t) l) 8 = Some s' \<and>
    slot_hash t s' = 0"
proof -
  have v: "slots_valid (slot_count t)" using assms(1) by (auto simp: slots_valid_def power_add)
  let ?q = "probe_seq (slot_count t) (probe_start (slot_count t) hash)"
  have q: "set ?q = {..<slot_count t}" by (rule set_probe_seq [OF v])
  then have "\<exists>x \<in> set ?q. slot_hash t x = 0" using assms(2,3) by auto
  then obtain s' ps qs where "free_scan t ?q = Some s'" "?q = ps @ s' # qs" "slot_hash t s' = 0"
    using free_scan_some by blast
  then show ?thesis using free_slot_loop_eq [OF v] q by (metis in_set_conv_decomp lessThan_iff)
qed

theorem probe_finds_empty_slot_witness:
  "\<exists>s' < 16. free_slot_loop (blank_index 16 0 0) (stbds_probe_position 13 16 4) 8 = Some s'"
  using probe_finds_empty_slot [of "blank_index 16 0 0" 1 3 13 4]
  by (auto simp: blank_index_def slot_hash_def drop_bit_eq_div)

text \<open>C16: For 8-byte keys the hash loses the upper half of the key whenever bit 31 of the key is set,
  because the lower half is assembled in a signed \<^verbatim>\<open>int\<close> and sign-extended over the upper half.\<close>

theorem hash_of_8_byte_keys_collides:
  assumes "length p = 8" and "length q = 8" and "take 4 p = take 4 q" and "bit (p ! 3) 7"
  shows "stbds_hash_bytes p seed = stbds_hash_bytes q seed"
  using load_size_t_sign_extends [of p q] assms by (simp add: stbds_hash_bytes_def)

theorem hash_of_8_byte_keys_collides_witness:
  "stbds_hash_bytes [0, 0, 0, 0x80, 1, 2, 3, 4] 9 = stbds_hash_bytes [0, 0, 0, 0x80, 5, 6, 7, 8] 9"
  by (rule hash_of_8_byte_keys_collides) (simp_all add: bit_simps)

section \<open>The wire format\<close>

text \<open>For every \<^verbatim>\<open>int\<close> length, the header check, with its conversions between signed and unsigned,
  holds exactly when the magic is right and the block is a header followed by \<^verbatim>\<open>payload_size\<close> bytes, at
  most 64 MiB in all; negative lengths never pass.\<close>

theorem head_valid_exact:
  assumes "- (2 ^ 31) \<le> len" and "len < 2 ^ 31"
  shows "HMSG_HEAD_VALID msg len \<longleftrightarrow>
    m_magic msg = 0x55AA \<and> len = 32 + int (unat (m_payload_size msg)) \<and> len \<le> 67108864"
  by (rule head_valid_iff [OF assms])

theorem head_valid_exact_witness: "\<not> HMSG_HEAD_VALID (hmsg_zero\<lparr>m_magic := 0x55AA, m_payload_size := - 33\<rparr>) (-1)"
  using head_valid_exact [of "-1" "hmsg_zero\<lparr>m_magic := 0x55AA, m_payload_size := - 33\<rparr>"] by simp

end
