(* ===== verification/Node.thy ===== *)
theory Node
  imports Hhash Hmsg Hbuf
begin

text \<open>
  The client library, \<^verbatim>\<open>src/src/hnode.c\<close> with \<^verbatim>\<open>src/include/hnode.h\<close>: the node object, the handlers of
  its I/O thread (connect, read, close, reconnect timer) and the calls of its users (subscribe,
  unsubscribe, respond, publish). Requests, which wait on the slots \<^verbatim>\<open>req_ctx\<close>, are in the theory
  Request.

  The seed of the hash maps, a global variable of \<^verbatim>\<open>stb_ds.h\<close>, is kept with the node that uses it, and the
  allocation of the node and its slots in \<^verbatim>\<open>hnode_init\<close>, which the code does not check, is taken to succeed.
  Every function is a function on the node; what libhv returns (the result of \<^verbatim>\<open>hio_write\<close>, the error
  of \<^verbatim>\<open>hio_error\<close>, the connection of \<^verbatim>\<open>hloop_create_tcp_client\<close>) is an argument. \<open>n_out\<close> lists the
  \<^verbatim>\<open>hio_write\<close> calls and \<open>n_calls\<close> the calls of user handlers, in order. Operations on \<^verbatim>\<open>map_subpool\<close> are
  made under its mutex, so each is one step.
\<close>

section \<open>Constants\<close>

abbreviation (input) HNODE_STATUS_INIT :: u8 where "HNODE_STATUS_INIT \<equiv> 0"
abbreviation (input) HNODE_STATUS_DISCONNECT :: u8 where "HNODE_STATUS_DISCONNECT \<equiv> 1"
abbreviation (input) HNODE_STATUS_CONNECTING :: u8 where "HNODE_STATUS_CONNECTING \<equiv> 2"
abbreviation (input) HNODE_STATUS_CONNECTED :: u8 where "HNODE_STATUS_CONNECTED \<equiv> 3"

abbreviation (input) HNODE_RET_OK :: nat where "HNODE_RET_OK \<equiv> 0"
abbreviation (input) HNODE_RET_EPARAM :: nat where "HNODE_RET_EPARAM \<equiv> 1"
abbreviation (input) HNODE_RET_EDISCONNECT :: nat where "HNODE_RET_EDISCONNECT \<equiv> 2"
abbreviation (input) HNODE_RET_ETIMEOUT :: nat where "HNODE_RET_ETIMEOUT \<equiv> 3"
abbreviation (input) HNODE_RET_ESEND :: nat where "HNODE_RET_ESEND \<equiv> 4"
abbreviation (input) HNODE_RET_EBUSY :: nat where "HNODE_RET_EBUSY \<equiv> 5"

abbreviation (input) HREQUEST_CTX_STATUS_IDLE :: nat where "HREQUEST_CTX_STATUS_IDLE \<equiv> 0"
abbreviation (input) HREQUEST_CTX_STATUS_BUSY :: nat where "HREQUEST_CTX_STATUS_BUSY \<equiv> 1"
abbreviation (input) HREQUEST_CTX_STATUS_DONE :: nat where "HREQUEST_CTX_STATUS_DONE \<equiv> 2"

abbreviation (input) HNODE_REQUEST_TIMEOUT_MAX :: nat where "HNODE_REQUEST_TIMEOUT_MAX \<equiv> 10000"
abbreviation (input) HNODE_REQUEST_COUNT_INIT :: u32 where "HNODE_REQUEST_COUNT_INIT \<equiv> 16"
abbreviation (input) HNODE_RECONN_INTERVAL :: u8 where "HNODE_RECONN_INTERVAL \<equiv> 2"

section \<open>State\<close>

text \<open>A handler function: the two built-in ones or a function of the user.\<close>

datatype handler_func = hnode_on_status_fn | hnode_on_respond_fn | user_fn nat

record hnode_subscrib_handler_t =
  handle_func :: "handler_func option"
  handle_param :: u64

text \<open>A request slot: the thread that holds its mutex, the address of the reply buffer, sequence
  number and status.\<close>

record hrequest_ctx_t =
  c_mtx :: "nat option"
  c_rep :: nat
  c_seq :: u32
  c_status :: nat

record hnode_t =
  n_id :: u16
  n_server_port :: u16
  n_status :: u8
  n_reconn_cnt :: u8
  n_reconn_interval :: u8
  n_reconn_max_retry_cnt :: u8
  n_server_ip :: bytes
  map_subpool :: "hnode_subscrib_handler_t hihash"
  n_hash_seed :: u64
  n_io :: "nat option"
  n_ato_req_seq :: u32
  n_req_ctx_count :: u32
  n_req_ctx :: "hrequest_ctx_t list"
  n_bufs :: "nat \<Rightarrow> hbuf_t"
  n_out :: "(nat \<times> bytes) list"
  n_calls :: "(hnode_subscrib_handler_t \<times> hmsg_t) list"

section \<open>Creation\<close>

text \<open>\<^verbatim>\<open>while (INITV < V) INITV <<= 1\<close> on 32-bit signed integers.\<close>

partial_function (option) HC_GETMINPOW :: "u32 \<Rightarrow> u32 \<Rightarrow> u32 option" where
  "HC_GETMINPOW v initv =
     (if sint initv < sint v then HC_GETMINPOW v (push_bit 1 initv) else Some initv)"

text \<open>\<^verbatim>\<open>strncpy(dst, src, n)\<close> into zeroed memory of \<open>n + 1\<close> bytes; \<open>src\<close> is the string up to its NUL.\<close>

definition strncpy :: "bytes \<Rightarrow> nat \<Rightarrow> bytes" where
  "strncpy src n =
     (let s = take n (takeWhile (\<lambda>c. c \<noteq> 0) src) in s @ replicate (n + 1 - length s) 0)"

definition ctx_zero :: hrequest_ctx_t where
  "ctx_zero = \<lparr>c_mtx = None, c_rep = 0, c_seq = 0, c_status = HREQUEST_CTX_STATUS_IDLE\<rparr>"

definition hnode_init :: "u16 \<Rightarrow> bytes \<Rightarrow> u16 \<Rightarrow> u32 \<Rightarrow> hnode_t option" where
  "hnode_init nid svr_ip svr_port request_count =
     do { n \<leftarrow> HC_GETMINPOW request_count HNODE_REQUEST_COUNT_INIT;
          Some \<lparr>n_id = nid, n_server_port = svr_port, n_status = HNODE_STATUS_INIT, n_reconn_cnt = 0,
                n_reconn_interval = HNODE_RECONN_INTERVAL, n_reconn_max_retry_cnt = 10,
                n_server_ip = strncpy svr_ip 15, map_subpool = None, n_hash_seed = 0x31415926,
                n_io = None, n_ato_req_seq = 0, n_req_ctx_count = n, n_req_ctx = replicate (unat n) ctx_zero,
                n_bufs = (\<lambda>_. \<lparr>b_len = 0, b_size = 0, b_data = []\<rparr>), n_out = [], n_calls = []\<rparr> }"

section \<open>Small helpers\<close>

definition hio_write :: "bytes \<Rightarrow> hnode_t \<Rightarrow> hnode_t option" where
  "hio_write buf node = do { io \<leftarrow> n_io node; Some (node\<lparr>n_out := n_out node @ [(io, buf)]\<rparr>) }"

definition hnode_topic_had_sub :: "hnode_t \<Rightarrow> u32 \<Rightarrow> (hnode_t \<times> nat) option" where
  "hnode_topic_had_sub node topic_ex =
     do { (h, r) \<leftarrow> HIHASH_EXIST (map_subpool node) topic_ex;
          Some (node\<lparr>map_subpool := h\<rparr>, r) }"

text \<open>The header that the library puts on its messages; unnamed fields are zero.\<close>

definition hnode_msg :: "u8 \<Rightarrow> u16 \<Rightarrow> u16 \<Rightarrow> u16 \<Rightarrow> u32 \<Rightarrow> bytes \<Rightarrow> hmsg_t" where
  "hnode_msg flags topic from to seq payload =
     hmsg_zero\<lparr>m_magic := HMSG_MAGIC, m_version := 0, m_flags := flags, m_topic := topic, m_from := from,
       m_to := to, m_seq := seq, m_payload_size := of_nat (length payload), m_payload := payload\<rparr>"

definition hnode_status :: "hnode_t \<Rightarrow> u8" where "hnode_status node = n_status node"

definition hnode_id :: "hnode_t \<Rightarrow> u16" where "hnode_id node = n_id node"

section \<open>Publishing and subscribing\<close>

definition hnode_publish :: "hnode_t \<Rightarrow> u16 \<Rightarrow> u16 \<Rightarrow> bytes \<Rightarrow> (hnode_t \<times> nat) option" where
  "hnode_publish node topic to_node_id payload =
     (if n_status node \<noteq> HNODE_STATUS_CONNECTED then Some (node, HNODE_RET_EDISCONNECT)
      else do {
        node \<leftarrow> hio_write (hmsg_bytes (hnode_msg (HMSG_FLAGS HMSG_FCMD_DATA HMSG_FDATA_PUBSUB) topic
                  (n_id node) to_node_id 0 payload)) node;
        Some (node, HNODE_RET_OK) })"

text \<open>\<open>r\<close> is the result of \<^verbatim>\<open>hio_write\<close>.\<close>

definition hnode_subscribe_i ::
  "int \<Rightarrow> hnode_t \<Rightarrow> u8 \<Rightarrow> u16 \<Rightarrow> handler_func \<Rightarrow> u64 \<Rightarrow> (hnode_t \<times> nat) option" where
  "hnode_subscribe_i r node flag_data topic func param =
     (if n_status node \<noteq> HNODE_STATUS_CONNECTED then Some (node, HNODE_RET_EDISCONNECT)
      else do {
        flags \<leftarrow> Some (HMSG_FLAGS HMSG_FCMD_DATA flag_data);
        topic_ex \<leftarrow> Some (HMSG_TOPICEX 0 (ucast flags) (ucast topic));
        (node, had) \<leftarrow> hnode_topic_had_sub node topic_ex;
        if HNODE_RET_OK = had then Some (node, HNODE_RET_OK)
        else do {
          node \<leftarrow> hio_write (hmsg_bytes (hnode_msg (HMSG_FLAGS HMSG_FCMD_SUB flag_data) topic (n_id node)
                    HMSG_APPID_BROKER 0 [])) node;
          if r \<noteq> 0 then do {
            (g, h) \<leftarrow> HIHASH_SET (n_hash_seed node) (map_subpool node) topic_ex
                        \<lparr>handle_func = Some func, handle_param = param\<rparr>;
            Some (node\<lparr>map_subpool := h, n_hash_seed := g\<rparr>, HNODE_RET_OK) }
          else Some (node, HNODE_RET_ESEND) } })"

text \<open>\<open>flags\<close> is a 16-bit parameter that is stored in the 8-bit field of the header.\<close>

definition hnode_unsubscribe_i :: "int \<Rightarrow> hnode_t \<Rightarrow> u16 \<Rightarrow> u16 \<Rightarrow> (hnode_t \<times> nat) option" where
  "hnode_unsubscribe_i r node flags topic =
     (if n_status node \<noteq> HNODE_STATUS_CONNECTED then Some (node, HNODE_RET_EDISCONNECT)
      else do {
        topic_ex \<leftarrow> Some (HMSG_TOPICEX 0 (ucast flags) (ucast topic));
        (node, had) \<leftarrow> hnode_topic_had_sub node topic_ex;
        if HNODE_RET_OK \<noteq> had then Some (node, HNODE_RET_OK)
        else do {
          node \<leftarrow> hio_write (hmsg_bytes (hnode_msg (ucast flags) topic (n_id node) HMSG_APPID_BROKER 0 [])) node;
          if r \<noteq> 0 then do {
            (g, h) \<leftarrow> HIHASH_DEL (n_hash_seed node) (map_subpool node) topic_ex;
            Some (node\<lparr>map_subpool := h, n_hash_seed := g\<rparr>, HNODE_RET_OK) }
          else Some (node, HNODE_RET_ESEND) } })"

definition hnode_subscribe :: "int \<Rightarrow> hnode_t \<Rightarrow> u16 \<Rightarrow> handler_func \<Rightarrow> u64 \<Rightarrow> (hnode_t \<times> nat) option" where
  "hnode_subscribe r node topic func param = hnode_subscribe_i r node HMSG_FDATA_PUBSUB topic func param"

definition hnode_respond :: "int \<Rightarrow> hnode_t \<Rightarrow> u16 \<Rightarrow> handler_func \<Rightarrow> u64 \<Rightarrow> (hnode_t \<times> nat) option" where
  "hnode_respond r node topic func param = hnode_subscribe_i r node HMSG_FDATA_REQUEST topic func param"

definition hnode_unsubscribe :: "int \<Rightarrow> hnode_t \<Rightarrow> u16 \<Rightarrow> (hnode_t \<times> nat) option" where
  "hnode_unsubscribe r node topic =
     hnode_unsubscribe_i r node (ucast (HMSG_FLAGS HMSG_FCMD_UNSUB HMSG_FDATA_PUBSUB)) topic"

section \<open>Built-in handlers\<close>

definition hnode_register :: "hnode_t \<Rightarrow> hnode_t option" where
  "hnode_register node =
     hio_write (hmsg_bytes (hnode_msg HMSG_FCMD_REGISTER 0 (n_id node) HMSG_APPID_BROKER 0 [])) node"

text \<open>The loop that appends the subscribed topics, truncated to 16 bits, to the reply.\<close>

function status_topics :: "hbuf_api \<Rightarrow> hnode_t \<Rightarrow> iterate \<Rightarrow> hbuf_t \<Rightarrow> u32 \<Rightarrow> (hbuf_t \<times> u32) option" where
  "status_topics B node it buf payload_size =
     (if HIHASH_ITERATE_VALID (map_subpool node) it then
        do { k \<leftarrow> HIHASH_GETK (map_subpool node) it;
             status_topics B node (HIHASH_ITERATE_NEXT it)
               (snd (hbuf_push B buf (enc16 (ucast k)))) (payload_size + 2) }
      else Some (buf, payload_size))"
  by pat_completeness auto
termination
  by (relation "measure (\<lambda>(B, node, it, buf, n). nat (hmlen (map_subpool node) - it))")
    (auto simp: HIHASH_ITERATE_VALID_def HIHASH_ITERATE_NEXT_def)

declare status_topics.simps [simp del]

text \<open>A store to \<^verbatim>\<open>((hmsg_t*)buf.data)->payload_size\<close>.\<close>

definition store_payload_size :: "hbuf_t \<Rightarrow> u32 \<Rightarrow> hbuf_t option" where
  "store_payload_size buf n =
     (if HMSG_SIZEOF \<le> length (b_data buf)
      then Some (buf\<lparr>b_data := take 28 (b_data buf) @ enc32 n @ drop 32 (b_data buf)\<rparr>) else None)"

definition hnode_on_status :: "hbuf_api \<Rightarrow> hnode_t \<Rightarrow> hmsg_t \<Rightarrow> hnode_t option" where
  "hnode_on_status B node msg =
     do { msg_ret \<leftarrow> Some (hnode_msg (HMSG_FLAGS HMSG_FCMD_DATA HMSG_FDATA_REPOND) (m_topic msg)
                      (n_id node) (m_from msg) (m_seq msg) []);
          buf \<leftarrow> Some (snd (hbuf_init B (HMSG_SIZEOF * 2)));
          buf \<leftarrow> Some (snd (hbuf_push B buf (hmsg_bytes msg_ret)));
          (buf, payload_size) \<leftarrow> status_topics B node HIHASH_ITERATE_BEGIN buf 0;
          buf \<leftarrow> store_payload_size buf payload_size;
          hio_write (content buf) node }"

text \<open>The slot that a sequence number selects.\<close>

definition ctx_index :: "u32 \<Rightarrow> u32 \<Rightarrow> nat" where
  "ctx_index count seq = unat (seq AND (count - 1))"

text \<open>\<^verbatim>\<open>hnode_on_respond\<close> runs on the I/O thread, thread 0, and holds the mutex of the slot from its
  \<^verbatim>\<open>pthread_mutex_lock\<close> to its \<^verbatim>\<open>pthread_mutex_unlock\<close>. The lock, the work under it and the unlock are
  separate functions, so that the system of the theory Request can stop between them; that the lock blocks
  while another thread holds the mutex is the guard of the step there.\<close>

abbreviation (input) IO_THREAD :: nat where "IO_THREAD \<equiv> 0"

definition set_mtx :: "nat \<Rightarrow> nat option \<Rightarrow> hnode_t \<Rightarrow> hnode_t" where
  "set_mtx i m node = node\<lparr>n_req_ctx := (n_req_ctx node)[i := (n_req_ctx node ! i)\<lparr>c_mtx := m\<rparr>]\<rparr>"

definition respond_lock :: "hnode_t \<Rightarrow> hmsg_t \<Rightarrow> hnode_t option" where
  "respond_lock node msg =
     (let i = ctx_index (n_req_ctx_count node) (m_seq msg) in
      if i < length (n_req_ctx node) then Some (set_mtx i (Some IO_THREAD) node) else None)"

definition respond_body :: "hbuf_api \<Rightarrow> hnode_t \<Rightarrow> hmsg_t \<Rightarrow> hnode_t option" where
  "respond_body B node msg =
     (let i = ctx_index (n_req_ctx_count node) (m_seq msg) in
      if i < length (n_req_ctx node) then
        let ctx = n_req_ctx node ! i in
        if HREQUEST_CTX_STATUS_BUSY = c_status ctx \<and> m_seq msg = c_seq ctx
        then Some (node\<lparr>
          n_bufs := (n_bufs node)(c_rep ctx :=
            snd (hbuf_push B (n_bufs node (c_rep ctx)) (take (unat (m_payload_size msg)) (m_payload msg)))),
          n_req_ctx := (n_req_ctx node)[i := ctx\<lparr>c_status := HREQUEST_CTX_STATUS_DONE\<rparr>]\<rparr>)
        else Some node
      else None)"

definition respond_unlock :: "hnode_t \<Rightarrow> hmsg_t \<Rightarrow> hnode_t" where
  "respond_unlock node msg = set_mtx (ctx_index (n_req_ctx_count node) (m_seq msg)) None node"

definition hnode_on_respond :: "hbuf_api \<Rightarrow> hnode_t \<Rightarrow> hmsg_t \<Rightarrow> hnode_t option" where
  "hnode_on_respond B node msg =
     do { node \<leftarrow> respond_lock node msg;
          node \<leftarrow> respond_body B node msg;
          Some (respond_unlock node msg) }"

section \<open>The I/O thread\<close>

definition dispatch :: "hbuf_api \<Rightarrow> hnode_subscrib_handler_t \<Rightarrow> hmsg_t \<Rightarrow> hnode_t \<Rightarrow> hnode_t option" where
  "dispatch B handler msg node =
     (case handle_func handler of
        None \<Rightarrow> Some node
      | Some hnode_on_status_fn \<Rightarrow> hnode_on_status B node msg
      | Some hnode_on_respond_fn \<Rightarrow> hnode_on_respond B node msg
      | Some (user_fn f) \<Rightarrow> Some (node\<lparr>n_calls := n_calls node @ [(handler, msg)]\<rparr>))"

definition hnode_on_read :: "hbuf_api \<Rightarrow> bytes \<Rightarrow> hnode_t \<Rightarrow> hnode_t option" where
  "hnode_on_read B buf node =
     (let msg = hmsg_of_bytes buf; topic_ex = HMSG_TOPICEX_INMSG msg in
      if \<not> HMSG_HEAD_VALID msg (int (length buf)) then Some node
      else if HMSG_FCMD_DATA AND m_flags msg = 0 then Some node
      else do {
        (h, it) \<leftarrow> HIHASH_FIND (map_subpool node) topic_ex;
        node \<leftarrow> Some (node\<lparr>map_subpool := h\<rparr>);
        handler \<leftarrow> (if HIHASH_ITERATE_VALID h it then HIHASH_GETV h it
                    else Some \<lparr>handle_func = None, handle_param = 0\<rparr>);
        dispatch B handler msg node })"

definition hnode_on_close :: "hnode_t \<Rightarrow> hnode_t" where
  "hnode_on_close node = node\<lparr>n_status := HNODE_STATUS_DISCONNECT\<rparr>"

text \<open>\<open>new_io\<close> is the connection that \<^verbatim>\<open>hloop_create_tcp_client\<close> returns, \<open>None\<close> if it returns \<^verbatim>\<open>NULL\<close>; \<open>cb\<close>
  tells whether \<^verbatim>\<open>hio_close\<close> on the previous connection calls its close callback. The result goes unchecked
  to \<^verbatim>\<open>hio_set_context\<close>, whose first argument has to be a connection: with \<^verbatim>\<open>NULL\<close> the call is undefined,
  and the model has no next state.\<close>

definition hnode_reconnect :: "bool \<Rightarrow> nat option \<Rightarrow> hnode_t \<Rightarrow> hnode_t option" where
  "hnode_reconnect cb new_io node =
     (if HNODE_STATUS_DISCONNECT = n_status node
      then let node = node\<lparr>n_status := HNODE_STATUS_CONNECTING, n_reconn_cnt := n_reconn_cnt node + 1\<rparr>;
               node = (if n_io node \<noteq> None \<and> cb then hnode_on_close node else node)
           in (case new_io of None \<Rightarrow> None | Some io \<Rightarrow> Some (node\<lparr>n_io := Some io\<rparr>))
      else Some node)"

text \<open>\<open>err\<close> is the result of \<^verbatim>\<open>hio_error\<close>, \<open>r\<close> that of the \<^verbatim>\<open>hio_write\<close> of the status subscription; \<open>self\<close> is
  the address of the node.\<close>

definition hnode_on_connect :: "int \<Rightarrow> int \<Rightarrow> u64 \<Rightarrow> hnode_t \<Rightarrow> hnode_t option" where
  "hnode_on_connect err r self node =
     (if err \<noteq> 0 then Some (node\<lparr>n_status := HNODE_STATUS_DISCONNECT\<rparr>)
      else do {
        node \<leftarrow> hnode_register (node\<lparr>n_reconn_cnt := 0\<rparr>);
        (node, ret) \<leftarrow> hnode_subscribe_i r (node\<lparr>n_status := HNODE_STATUS_CONNECTED\<rparr>) HMSG_FDATA_REQUEST
                        HMSG_MSGID_STATUS hnode_on_status_fn self;
        Some node })"

text \<open>The start of the I/O thread, up to \<^verbatim>\<open>hloop_run\<close>.\<close>

definition hnode_thread_start :: "nat option \<Rightarrow> hnode_t \<Rightarrow> hnode_t option" where
  "hnode_thread_start new_io node =
     hnode_reconnect False new_io (node\<lparr>map_subpool := HIHASH_INIT, n_status := HNODE_STATUS_DISCONNECT\<rparr>)"

definition hnode_thread_stop :: "hnode_t \<Rightarrow> hnode_t" where
  "hnode_thread_stop node = node\<lparr>map_subpool := HIHASH_FINI (map_subpool node)\<rparr>"

text \<open>\<open>in_io_thread\<close>: the caller is the I/O thread itself. The node is gone afterwards.\<close>

definition hnode_destroy :: "bool \<Rightarrow> hnode_t option \<Rightarrow> hnode_t option \<times> nat" where
  "hnode_destroy in_io_thread node =
     (if node \<noteq> None then (if in_io_thread then (node, 1) else (None, HNODE_RET_OK))
      else (None, HNODE_RET_OK))"

section \<open>Timeouts\<close>

record timespec =
  tv_sec :: int
  tv_nsec :: int

definition hnode_time_offset :: "timespec \<Rightarrow> int \<Rightarrow> timespec" where
  "hnode_time_offset ts mill =
     (let ts = ts\<lparr>tv_nsec := tv_nsec ts + mill * 1000000\<rparr> in
      if 1000000000 \<le> tv_nsec ts
      then ts\<lparr>tv_sec := tv_sec ts + 1, tv_nsec := tv_nsec ts - 1000000000\<rparr> else ts)"

end
