(* ===== verification/NodeSpec.thy ===== *)
theory NodeSpec
  imports Node
begin

text \<open>
  The node's invariant and what each of its functions does on every branch: registration and
  lookup of handlers, the messages written, the status reply, and the size of the request table.
\<close>

section \<open>The size of the request table\<close>

lemma HC_GETMINPOW_done: "\<not> sint initv < sint v \<Longrightarrow> HC_GETMINPOW v initv = Some initv"
  by (simp add: HC_GETMINPOW.simps)

lemma unat_pow2: "k < 32 \<Longrightarrow> unat ((2 :: u32) ^ k) = 2 ^ k"
proof -
  assume "k < 32"
  then have "(2 :: nat) ^ k < 2 ^ 32" by (intro power_strict_increasing) auto
  then have "unat (of_nat (2 ^ k) :: u32) = 2 ^ k" by (simp add: unat_of_nat del: of_nat_power)
  then show ?thesis by simp
qed

lemma sint_pow2: "k < 31 \<Longrightarrow> sint ((2 :: u32) ^ k) = 2 ^ k"
proof -
  assume k: "k < 31"
  have "unat ((2 :: u32) ^ k) = 2 ^ k" using k by (intro unat_pow2) simp
  then have "uint ((2 :: u32) ^ k) = 2 ^ k" by (metis of_nat_numeral of_nat_power uint_nat)
  moreover have "(2 :: int) ^ k < 2 ^ 31" using k by (intro power_strict_increasing) auto
  ultimately show ?thesis
    using order_trans [of "- 2147483648" 0 "(2 :: int) ^ k"]
    by (simp add: sint_uint signed_take_bit_int_eq_self_iff)
qed

lemma HC_GETMINPOW_pow2:
  assumes "sint v \<le> 2 ^ 30" "k \<le> 30"
  shows "\<exists>j. k \<le> j \<and> j \<le> 30 \<and> HC_GETMINPOW v (2 ^ k) = Some (2 ^ j) \<and> sint v \<le> 2 ^ j \<and>
    (k < j \<longrightarrow> 2 ^ (j - 1) < sint v)"
  using assms(2)
proof (induction "30 - k" arbitrary: k)
  case 0
  then have "k = 30" by simp
  then have "HC_GETMINPOW v (2 ^ k) = Some (2 ^ k)"
    using assms(1) sint_pow2 [of 30] by (intro HC_GETMINPOW_done) simp
  then show ?case using assms(1) \<open>k = 30\<close> by (intro exI [of _ 30]) simp
next
  case (Suc n)
  show ?case
  proof (cases "2 ^ k < sint v")
    case True
    have "n = 30 - Suc k" "Suc k \<le> 30" using Suc(2) by simp_all
    then obtain j where j: "Suc k \<le> j" "j \<le> 30" "HC_GETMINPOW v (2 ^ Suc k) = Some (2 ^ j)" "sint v \<le> 2 ^ j"
      "Suc k < j \<longrightarrow> 2 ^ (j - 1) < sint v"
      using Suc(1) [of "Suc k"] by blast
    have "HC_GETMINPOW v (2 ^ k) = HC_GETMINPOW v (2 ^ Suc k)"
      using True Suc(2) sint_pow2 [of k] by (subst HC_GETMINPOW.simps) (simp add: push_bit_eq_mult mult.commute)
    moreover have "2 ^ (j - 1) < sint v"
      using j True by (cases "Suc k = j") auto
    ultimately show ?thesis using j by (intro exI [of _ j]) auto
  next
    case False
    then have "HC_GETMINPOW v (2 ^ k) = Some (2 ^ k)"
      using Suc(2) sint_pow2 [of k] by (intro HC_GETMINPOW_done) simp
    then show ?thesis using False Suc(3) by (intro exI [of _ k]) auto
  qed
qed

lemma HC_GETMINPOW_zero: "0 < sint v \<Longrightarrow> HC_GETMINPOW v 0 = None"
proof (rule ccontr)
  assume v: "0 < sint v" and "HC_GETMINPOW v 0 \<noteq> None"
  then obtain y where "HC_GETMINPOW v 0 = Some y" by blast
  then have "0 < sint v \<longrightarrow> (0 :: u32) \<noteq> 0"
  proof (rule HC_GETMINPOW.raw_induct [of "\<lambda>v i y. 0 < sint v \<longrightarrow> i \<noteq> (0 :: u32)", rotated], goal_cases)
    case (1 f v i y)
    show ?case
    proof (rule ccontr)
      assume "\<not> (0 < sint v \<longrightarrow> i \<noteq> 0)"
      then have "f v 0 = Some y" "0 < sint v" using 1(2) by auto
      then show False using 1(1) [of v 0 y] by simp
    qed
  qed
  then show False using v by simp
qed

lemma HC_GETMINPOW_diverges:
  assumes "2 ^ 30 < sint v" "k \<le> 30"
  shows "HC_GETMINPOW v (2 ^ k) = None"
  using assms(2)
proof (induction "30 - k" arbitrary: k)
  case 0
  then have k: "k = 30" by simp
  have a: "sint ((2 :: u32) ^ 30) < sint v" using assms(1) sint_pow2 [of 30] by simp
  have b: "sint ((2 :: u32) ^ 31) < sint v" using assms(1) by simp
  have "HC_GETMINPOW v (2 ^ 30) = HC_GETMINPOW v (push_bit 1 (2 ^ 30))"
    using a by (subst HC_GETMINPOW.simps) simp
  also have "push_bit 1 (2 ^ 30) = (2 :: u32) ^ 31" by simp
  also have "HC_GETMINPOW v (2 ^ 31) = HC_GETMINPOW v (push_bit 1 (2 ^ 31))"
    using b by (subst HC_GETMINPOW.simps) simp
  also have "push_bit 1 ((2 :: u32) ^ 31) = 0" by simp
  finally show ?case using k HC_GETMINPOW_zero [of v] assms(1) by simp
next
  case (Suc n)
  have "n = 30 - Suc k" "Suc k \<le> 30" using Suc(2) by simp_all
  then have "HC_GETMINPOW v (2 ^ Suc k) = None" by (rule Suc(1))
  moreover have "(2 :: int) ^ k \<le> 2 ^ 30" using Suc(3) by (intro power_increasing) auto
  then have "sint ((2 :: u32) ^ k) < sint v" using assms(1) sint_pow2 [of k] Suc(2) by simp
  then have "HC_GETMINPOW v (2 ^ k) = HC_GETMINPOW v (2 ^ Suc k)"
    by (subst HC_GETMINPOW.simps) (simp add: push_bit_eq_mult mult.commute)
  ultimately show ?case by simp
qed

lemma ctx_index_less:
  assumes "count = 2 ^ k" "k \<le> 30"
  shows "ctx_index count seq < unat count" "ctx_index count seq = unat seq mod 2 ^ k"
proof -
  have u: "unat count = 2 ^ k" using assms unat_pow2 [of k] by simp
  have "count - 1 = mask k" using assms(1) by (simp add: mask_eq_exp_minus_1)
  then have "ctx_index count seq = unat (take_bit k seq)"
    by (simp only: ctx_index_def take_bit_eq_mask)
  also have "\<dots> = take_bit k (unat seq)" by (rule unsigned_take_bit_eq)
  finally show eq: "ctx_index count seq = unat seq mod 2 ^ k" by (simp only: take_bit_eq_mod)
  show "ctx_index count seq < unat count" by (simp add: eq u)
qed

section \<open>The invariant\<close>

text \<open>The keys under which the callers file subscriptions: version 0, command DATA and one of the three
  kinds of data.\<close>

definition data_topics :: "u32 set" where
  "data_topics = (\<lambda>(f, t). topicex 0 f t) ` ({0x10, 0x11, 0x12} \<times> UNIV)"

definition sub_keys :: "hnode_t \<Rightarrow> u32 list" where
  "sub_keys node = map fst (hi_entries (map_subpool node))"

definition node_ok :: "hnode_t \<Rightarrow> bool" where
  "node_ok node \<longleftrightarrow> hi_ok (map_subpool node) \<and>
     dom (map_of (hi_entries (map_subpool node))) \<subseteq> data_topics \<and>
     n_status node \<in> {0, 1, 2, 3} \<and> (n_status node \<in> {2, 3} \<longrightarrow> n_io node \<noteq> None) \<and>
     (\<exists>k \<le> 30. n_req_ctx_count node = 2 ^ k) \<and> length (n_req_ctx node) = unat (n_req_ctx_count node)"

lemma node_okD:
  assumes "node_ok node"
  shows "hi_ok (map_subpool node)" "n_status node = 3 \<Longrightarrow> n_io node \<noteq> None"
    "ctx_index (n_req_ctx_count node) seq < length (n_req_ctx node)"
  using assms ctx_index_less(1) by (auto simp: node_ok_def)

text \<open>The handler that a message is dispatched to.\<close>

definition handler_for :: "hnode_t \<Rightarrow> u32 \<Rightarrow> hnode_subscrib_handler_t option" where
  "handler_for node t = map_of (hi_entries (map_subpool node)) t"

lemma node_ok_map:
  assumes "node_ok node" "hi_ok h" "dom (map_of (hi_entries h)) \<subseteq> data_topics"
  shows "node_ok (node\<lparr>map_subpool := h, n_hash_seed := g\<rparr>)" "node_ok (node\<lparr>map_subpool := h\<rparr>)"
  using assms by (simp_all add: node_ok_def)

lemma topicex_data: "topicex 0 f t \<in> data_topics \<longleftrightarrow> f \<in> {0x10, 0x11, 0x12}"
  by (auto simp: data_topics_def topicex_inject image_iff)

lemma keys_bound:
  assumes "node_ok node"
  shows "length (hi_entries (map_subpool node)) \<le> 2 ^ 24"
proof -
  let ?es = "hi_entries (map_subpool node)"
  have "length ?es = card (dom (map_of ?es))"
    using distinct_card [OF hi.keys_distinct [OF node_okD(1) [OF assms]]]
    by (simp add: dom_map_of_conv_image_fst)
  also have "\<dots> \<le> card data_topics" using assms by (intro card_mono) (auto simp: node_ok_def)
  also have "\<dots> \<le> card ({0x10, 0x11, 0x12} \<times> (UNIV :: u16 set) :: (u8 \<times> u16) set)"
    unfolding data_topics_def by (rule card_image_le) simp
  also have "\<dots> \<le> card (UNIV :: (u8 \<times> u16) set)" by (intro card_mono) auto
  also have "\<dots> = 2 ^ 24" by (simp add: card_word card_prod)
  finally show ?thesis .
qed

lemma hio_write_some: "n_io node = Some io \<Longrightarrow> hio_write buf node = Some (node\<lparr>n_out := n_out node @ [(io, buf)]\<rparr>)"
  by (simp add: hio_write_def)

lemma had_sub_spec:
  assumes "hi_ok (map_subpool node)"
  obtains h where "hnode_topic_had_sub node t =
      Some (node\<lparr>map_subpool := h\<rparr>, if handler_for node t = None then 3 else 0)"
    "hi_ok h" "hi_entries h = hi_entries (map_subpool node)"
proof -
  obtain h where h: "HIHASH_FIND (map_subpool node) t = Some (h, alist_find t (hi_entries (map_subpool node)))"
    "hi_ok h" "hi_entries h = hi_entries (map_subpool node)"
    using hi.find_spec [OF assms] by blast
  have "0 \<le> alist_find t (hi_entries (map_subpool node)) \<longleftrightarrow> handler_for node t \<noteq> None"
    by (simp add: alist_find_iff(3) handler_for_def)
  then show ?thesis
    using that [of h] h by (auto simp: hnode_topic_had_sub_def HIHASH_EXIST_def HC_RET_OK_def HC_RET_NOTFOUND_def)
qed

section \<open>Subscribing\<close>

definition sub_key :: "u8 \<Rightarrow> u16 \<Rightarrow> u32" where
  "sub_key flag_data topic = topicex 0 (HMSG_FLAGS 0x10 flag_data) topic"

definition sub_msg :: "hnode_t \<Rightarrow> u8 \<Rightarrow> u16 \<Rightarrow> hmsg_t" where
  "sub_msg node flag_data topic = hnode_msg (HMSG_FLAGS 0x20 flag_data) topic (n_id node) 0xFFFE 0 []"

lemma sub_key_eq: "HMSG_TOPICEX 0 (ucast (HMSG_FLAGS 0x10 fd)) (ucast t) = sub_key fd t"
  by (simp add: sub_key_def topicex_def)

lemma subscribe_known:
  assumes ok: "node_ok node" and st: "n_status node = 3" and k: "handler_for node (sub_key fd t) \<noteq> None"
  obtains h where "hnode_subscribe_i r node fd t f p = Some (node\<lparr>map_subpool := h\<rparr>, 0)" "hi_ok h"
    "hi_entries h = hi_entries (map_subpool node)"
proof -
  obtain h where h: "hnode_topic_had_sub node (sub_key fd t) = Some (node\<lparr>map_subpool := h\<rparr>, 0)" "hi_ok h"
    "hi_entries h = hi_entries (map_subpool node)"
    using had_sub_spec [OF node_okD(1) [OF ok], of "sub_key fd t"] k by auto
  then show ?thesis using that [of h] st by (simp add: hnode_subscribe_i_def sub_key_eq)
qed

lemma subscribe_new:
  assumes ok: "node_ok node" and st: "n_status node = 3" and k: "handler_for node (sub_key fd t) = None"
    and io: "n_io node = Some io"
  obtains h g where "hnode_subscribe_i r node fd t f p =
      Some (node\<lparr>map_subpool := h, n_hash_seed := g,
        n_out := n_out node @ [(io, hmsg_bytes (sub_msg node fd t))]\<rparr>, if r \<noteq> 0 then 0 else 4)" "hi_ok h"
    "map_of (hi_entries h) = (if r \<noteq> 0
       then (map_of (hi_entries (map_subpool node)))(sub_key fd t \<mapsto> \<lparr>handle_func = Some f, handle_param = p\<rparr>)
       else map_of (hi_entries (map_subpool node)))"
proof -
  obtain h where h: "hnode_topic_had_sub node (sub_key fd t) = Some (node\<lparr>map_subpool := h\<rparr>, 3)" "hi_ok h"
    "hi_entries h = hi_entries (map_subpool node)"
    using had_sub_spec [OF node_okD(1) [OF ok], of "sub_key fd t"] k by auto
  let ?hd = "\<lparr>handle_func = Some f, handle_param = p\<rparr>"
  obtain g' h' where h': "HIHASH_SET (n_hash_seed node) h (sub_key fd t) ?hd = Some (g', h')" "hi_ok h'"
    "map_of (hi_entries h') = (map_of (hi_entries h))(sub_key fd t \<mapsto> ?hd)"
    using hi.put_map [OF h(2)] by blast
  show ?thesis
  proof (cases "r = 0")
    case True
    then show ?thesis
      using that [where h = h and g = "n_hash_seed node"] h st io
      by (simp add: hnode_subscribe_i_def sub_key_eq hio_write_some sub_msg_def)
  next
    case False
    then show ?thesis
      using that [where h = h' and g = g'] h h' st io
      by (simp add: hnode_subscribe_i_def sub_key_eq hio_write_some sub_msg_def)
  qed
qed

section \<open>Unsubscribing\<close>

text \<open>The key that \<^verbatim>\<open>hnode_unsubscribe\<close> looks up carries the command 0x30; subscriptions are filed under
  the command 0x10.\<close>

lemma unsub_key: "HMSG_TOPICEX 0 (ucast (ucast (HMSG_FLAGS 0x30 0 :: u8) :: u16)) (ucast t) = topicex 0 0x30 t"
  by (simp add: topicex_def HMSG_FLAGS_def)

lemma unsubscribe_spec:
  assumes ok: "node_ok node" and st: "n_status node = 3" and k: "handler_for node (topicex 0 0x30 t) = None"
  obtains h where "hnode_unsubscribe r node t = Some (node\<lparr>map_subpool := h\<rparr>, 0)" "hi_ok h"
    "hi_entries h = hi_entries (map_subpool node)"
proof -
  obtain h where h: "hnode_topic_had_sub node (topicex 0 0x30 t) = Some (node\<lparr>map_subpool := h\<rparr>, 3)" "hi_ok h"
    "hi_entries h = hi_entries (map_subpool node)"
    using had_sub_spec [OF node_okD(1) [OF ok], of "topicex 0 0x30 t"] k by auto
  then show ?thesis
    using that [of h] st by (simp add: hnode_unsubscribe_def hnode_unsubscribe_i_def unsub_key)
qed

text \<open>Were the key filed, unsubscribing would write the message and drop the handler.\<close>

lemma unsubscribe_i_known:
  assumes ok: "node_ok node" and st: "n_status node = 3" and io: "n_io node = Some io" and r: "r \<noteq> 0"
    and k: "handler_for node (HMSG_TOPICEX 0 (ucast fl) (ucast t)) \<noteq> None"
  obtains h g where "hnode_unsubscribe_i r node fl t = Some (node\<lparr>map_subpool := h, n_hash_seed := g,
      n_out := n_out node @ [(io, hmsg_bytes (hnode_msg (ucast fl) t (n_id node) 0xFFFE 0 []))]\<rparr>, 0)" "hi_ok h"
    "map_of (hi_entries h) =
      (map_of (hi_entries (map_subpool node)))(HMSG_TOPICEX 0 (ucast fl) (ucast t) := None)"
proof -
  let ?k = "HMSG_TOPICEX 0 (ucast fl) (ucast t)"
  obtain h where h: "hnode_topic_had_sub node ?k = Some (node\<lparr>map_subpool := h\<rparr>, 0)" "hi_ok h"
    "hi_entries h = hi_entries (map_subpool node)"
    using had_sub_spec [OF node_okD(1) [OF ok], of ?k] k by auto
  obtain g' h' where h': "HIHASH_DEL (n_hash_seed node) h ?k = Some (g', h')" "hi_ok h'"
    "map_of (hi_entries h') = (map_of (hi_entries h))(?k := None)"
    using hi.del_map [OF h(2)] by blast
  then show ?thesis
    using that [where h = h' and g = g'] h st io r by (simp add: hnode_unsubscribe_i_def hio_write_some)
qed

section \<open>Reading\<close>

lemma on_read_known:
  assumes ok: "node_ok node" and v: "HMSG_HEAD_VALID (hmsg_of_bytes buf) (int (length buf))"
    and d: "bit (m_flags (hmsg_of_bytes buf)) 4"
    and k: "handler_for node (HMSG_TOPICEX_INMSG (hmsg_of_bytes buf)) = Some hnd"
  obtains h where "hnode_on_read B buf node = dispatch B hnd (hmsg_of_bytes buf) (node\<lparr>map_subpool := h\<rparr>)"
    "hi_ok h" "hi_entries h = hi_entries (map_subpool node)"
proof -
  obtain h i where h: "HIHASH_FIND (map_subpool node) (HMSG_TOPICEX_INMSG (hmsg_of_bytes buf)) = Some (h, int i)"
    "hi_ok h" "hi_entries h = hi_entries (map_subpool node)" "HIHASH_ITERATE_VALID h (int i)"
    "HIHASH_GETV h (int i) = Some hnd"
    using hi.find_present [OF node_okD(1) [OF ok] k [unfolded handler_for_def]] by metis
  have "0x10 AND m_flags (hmsg_of_bytes buf) \<noteq> 0"
    using d by (simp add: bit_iff_and_push_bit_not_eq_0 and.commute)
  then show ?thesis using that [of h] h v by (simp add: hnode_on_read_def Let_def)
qed

lemma on_read_other:
  assumes ok: "node_ok node"
    and "\<not> HMSG_HEAD_VALID (hmsg_of_bytes buf) (int (length buf)) \<or> \<not> bit (m_flags (hmsg_of_bytes buf)) 4 \<or>
      handler_for node (HMSG_TOPICEX_INMSG (hmsg_of_bytes buf)) = None"
  obtains h where "hnode_on_read B buf node = Some (node\<lparr>map_subpool := h\<rparr>)" "hi_ok h"
    "hi_entries h = hi_entries (map_subpool node)"
proof (cases "HMSG_HEAD_VALID (hmsg_of_bytes buf) (int (length buf)) \<and> 0x10 AND m_flags (hmsg_of_bytes buf) \<noteq> 0")
  case True
  then have "handler_for node (HMSG_TOPICEX_INMSG (hmsg_of_bytes buf)) = None"
    using assms(2) by (simp add: bit_iff_and_push_bit_not_eq_0 and.commute)
  then obtain h where h: "HIHASH_FIND (map_subpool node) (HMSG_TOPICEX_INMSG (hmsg_of_bytes buf)) = Some (h, -1)"
    "hi_ok h" "hi_entries h = hi_entries (map_subpool node)" "\<not> HIHASH_ITERATE_VALID h (-1)"
    using hi.find_absent [OF node_okD(1) [OF ok]] unfolding handler_for_def by blast
  then show ?thesis
    using that [of h] True by (simp add: hnode_on_read_def Let_def dispatch_def)
next
  case False
  then show ?thesis
    using that [of "map_subpool node"] node_okD(1) [OF ok] by (auto simp: hnode_on_read_def Let_def)
qed

section \<open>The status reply\<close>

definition msg_head :: "hmsg_t \<Rightarrow> bytes" where
  "msg_head m = take 28 (hmsg_bytes m)"

lemma hmsg_bytes_split:
  "hmsg_bytes m = msg_head m @ enc32 (m_payload_size m) @ m_payload m" "length (msg_head m) = 28"
  by (simp_all add: msg_head_def hmsg_bytes_def)

lemma msg_head_payload: "msg_head (m\<lparr>m_payload_size := n, m_payload := p\<rparr>) = msg_head m"
  by (simp add: msg_head_def hmsg_bytes_def)

text \<open>The topics that a status reply reports.\<close>

definition status_payload :: "hnode_t \<Rightarrow> bytes" where
  "status_payload node = concat (map (\<lambda>k. enc16 (ucast k)) (sub_keys node))"

lemma length_concat_enc16: "length (concat (map (\<lambda>k. enc16 (ucast (k :: u32))) ks)) = 2 * length ks"
  by (induction ks) simp_all

lemma status_topics_spec:
  assumes B: "hbuf_mem B" and ok: "node_ok node"
  shows "i \<le> length (sub_keys node) \<Longrightarrow> hbuf_wf buf \<Longrightarrow>
    b_len buf + 2 * (length (sub_keys node) - i) \<le> HBUF_LIMIT \<Longrightarrow>
    \<exists>buf'. status_topics B node (int i) buf n =
        Some (buf', n + of_nat (2 * (length (sub_keys node) - i))) \<and> hbuf_wf buf' \<and>
      content buf' = content buf @ concat (map (\<lambda>k. enc16 (ucast k)) (drop i (sub_keys node)))"
proof (induction "length (sub_keys node) - i" arbitrary: i buf n)
  case 0
  then have "\<not> HIHASH_ITERATE_VALID (map_subpool node) (int i)"
    by (simp add: hi.valid_spec [OF node_okD(1) [OF ok]] sub_keys_def)
  then show ?case using 0 by (subst status_topics.simps) simp
next
  case (Suc m)
  let ?ks = "sub_keys node"
  have i: "i < length ?ks" using Suc(2) by simp
  let ?d = "enc16 (ucast (?ks ! i))"
  have len: "length ?d = 2" by simp
  then have d: "?d \<noteq> []" by (metis list.size(3) zero_neq_numeral)
  have lim: "b_len buf + length ?d \<le> HBUF_LIMIT" using Suc(5) i by simp
  have pushed: "fst (hbuf_push B buf ?d) = 0" by (rule hbuf_mem.push_mem [OF B Suc(4) d lim])
  let ?b = "snd (hbuf_push B buf ?d)"
  have b: "hbuf_wf ?b" "content ?b = content buf @ ?d"
    using hbuf_lib.push_law [OF hbuf_mem.axioms(1) [OF B] Suc(4) d pushed] by simp_all
  have blen: "b_len ?b = b_len buf + 2"
    using b length_content [of ?b] length_content [OF Suc(4)] by simp
  obtain buf' where buf': "status_topics B node (int (Suc i)) ?b (n + 2) =
      Some (buf', n + 2 + of_nat (2 * (length ?ks - Suc i)))" "hbuf_wf buf'"
    "content buf' = content ?b @ concat (map (\<lambda>k. enc16 (ucast k)) (drop (Suc i) ?ks))"
  proof -
    have "m = length ?ks - Suc i" "Suc i \<le> length ?ks"
      "b_len ?b + 2 * (length ?ks - Suc i) \<le> HBUF_LIMIT"
      using Suc(2,5) i blen by simp_all
    then show thesis using Suc(1) [of "Suc i" ?b "n + 2"] b(1) that by blast
  qed
  have it: "HIHASH_ITERATE_VALID (map_subpool node) (int i)" "HIHASH_GETK (map_subpool node) (int i) = Some (?ks ! i)"
    using i hi.valid_spec [OF node_okD(1) [OF ok]] hi.getk_spec [OF node_okD(1) [OF ok], of i]
    by (simp_all add: sub_keys_def)
  have n: "n + 2 + of_nat (2 * (length ?ks - Suc i)) = n + of_nat (2 * (length ?ks - i))"
  proof -
    have "2 * (length ?ks - i) = 2 + 2 * (length ?ks - Suc i)" using i by simp
    then show ?thesis by simp
  qed
  have "status_topics B node (int i) buf n = Some (buf', n + of_nat (2 * (length ?ks - i)))"
    using it buf'(1) unfolding n
    by (subst status_topics.simps) (simp add: HIHASH_ITERATE_NEXT_def add.commute)
  moreover have "drop i ?ks = ?ks ! i # drop (Suc i) ?ks" using i by (simp add: Cons_nth_drop_Suc)
  ultimately show ?case using buf' b by simp
qed

lemma content_store:
  assumes "hbuf_wf buf" "content buf = h @ x @ p" "length h = 28" "length x = 4"
  obtains buf' where "store_payload_size buf n = Some buf'" "content buf' = h @ enc32 n @ p"
proof -
  have len: "32 \<le> b_len buf" "b_len buf \<le> length (b_data buf)"
    using assms length_content [OF assms(1)] by (simp_all add: hbuf_wf_def)
  have data: "b_data buf = (h @ x @ p) @ drop (b_len buf) (b_data buf)"
    using assms(2) by (metis append_take_drop_id content_def)
  have n: "b_len buf = 32 + length p" using assms length_content [OF assms(1)] by simp
  have "take 28 (b_data buf) = h" "drop 32 (b_data buf) = p @ drop (b_len buf) (b_data buf)"
    using assms(3,4) by (subst data, simp)+
  then show ?thesis
    using that [of "buf\<lparr>b_data := h @ enc32 n @ p @ drop (b_len buf) (b_data buf)\<rparr>"] len n assms(3)
    by (simp add: store_payload_size_def content_def)
qed

lemma on_status_spec:
  assumes B: "hbuf_mem B" and ok: "node_ok node" and io: "n_io node = Some io"
  shows "hnode_on_status B node msg = Some (node\<lparr>n_out := n_out node @
    [(io, hmsg_bytes (hnode_msg 0x12 (m_topic msg) (n_id node) (m_from msg) (m_seq msg) (status_payload node)))]\<rparr>)"
proof -
  let ?m = "hnode_msg 0x12 (m_topic msg) (n_id node) (m_from msg) (m_seq msg) []"
  let ?b0 = "snd (hbuf_init B 64)" and ?ks = "sub_keys node"
  let ?b1 = "snd (hbuf_push B ?b0 (hmsg_bytes ?m))"
  have n: "length ?ks \<le> 2 ^ 24" using keys_bound [OF ok] by (simp add: sub_keys_def)
  have b0: "hbuf_wf ?b0" "content ?b0 = []"
    using hbuf_lib.init_law [OF hbuf_mem.axioms(1) [OF B], of 64] hbuf_mem.init_mem [OF B, of 64]
    by (simp_all add: HBUF_LIMIT_def)
  have len0: "b_len ?b0 = 0" using length_content [OF b0(1)] b0(2) by simp
  have lm: "length (hmsg_bytes ?m) = 32" by (simp add: length_hmsg_bytes hnode_msg_def)
  then have ne: "hmsg_bytes ?m \<noteq> []" by auto
  have b1: "hbuf_wf ?b1" "content ?b1 = hmsg_bytes ?m"
    using hbuf_lib.push_law [OF hbuf_mem.axioms(1) [OF B] b0(1) ne]
      hbuf_mem.push_mem [OF B b0(1) ne] len0 lm b0(2) by (simp_all add: HBUF_LIMIT_def)
  have len1: "b_len ?b1 = 32" using length_content [OF b1(1)] b1(2) lm by simp
  obtain b2 where b2: "status_topics B node 0 ?b1 0 = Some (b2, of_nat (2 * length ?ks))" "hbuf_wf b2"
    "content b2 = hmsg_bytes ?m @ status_payload node"
    using status_topics_spec [OF B ok, of 0 ?b1 0] n b1 len1
    by (auto simp: HBUF_LIMIT_def status_payload_def)
  have "content b2 = msg_head ?m @ enc32 (m_payload_size ?m) @ status_payload node"
    using b2(3) hmsg_bytes_split(1) [of ?m] by (simp add: hnode_msg_def)
  then obtain b3 where b3: "store_payload_size b2 (of_nat (2 * length ?ks)) = Some b3"
    "content b3 = msg_head ?m @ enc32 (of_nat (2 * length ?ks)) @ status_payload node"
    using content_store [OF b2(2)] hmsg_bytes_split(2) by (metis length_enc(2))
  have "hmsg_bytes (hnode_msg 0x12 (m_topic msg) (n_id node) (m_from msg) (m_seq msg) (status_payload node)) = content b3"
    using hmsg_bytes_split(1) [of "hnode_msg 0x12 (m_topic msg) (n_id node) (m_from msg) (m_seq msg) (status_payload node)"]
      length_concat_enc16 [of ?ks] b3(2)
    by (simp add: hnode_msg_def status_payload_def msg_head_def hmsg_bytes_def)
  then show ?thesis
    using b2(1) b3(1) io
    by (simp add: hnode_on_status_def HIHASH_ITERATE_BEGIN_def hio_write_some HMSG_FLAGS_def)
qed

section \<open>The mutex of a slot\<close>

lemma set_mtx_fields:
  "n_req_ctx_count (set_mtx i m node) = n_req_ctx_count node" "n_bufs (set_mtx i m node) = n_bufs node"
  "length (n_req_ctx (set_mtx i m node)) = length (n_req_ctx node)" "n_io (set_mtx i m node) = n_io node"
  "n_status (set_mtx i m node) = n_status node" "map_subpool (set_mtx i m node) = map_subpool node"
  "n_out (set_mtx i m node) = n_out node" "node_ok (set_mtx i m node) = node_ok node"
  by (simp_all add: set_mtx_def node_ok_def)

lemma set_mtx_nth:
  "j < length (n_req_ctx node) \<Longrightarrow> n_req_ctx (set_mtx i m node) ! j =
    (if j = i then (n_req_ctx node ! j)\<lparr>c_mtx := m\<rparr> else n_req_ctx node ! j)"
  by (simp add: set_mtx_def nth_list_update)

lemma set_mtx_ctx:
  "c_status (n_req_ctx (set_mtx i m node) ! j) = c_status (n_req_ctx node ! j)"
  "c_seq (n_req_ctx (set_mtx i m node) ! j) = c_seq (n_req_ctx node ! j)"
  "c_rep (n_req_ctx (set_mtx i m node) ! j) = c_rep (n_req_ctx node ! j)"
proof -
  let ?c = "(n_req_ctx node)[i := (n_req_ctx node ! i)\<lparr>c_mtx := m\<rparr>] ! j"
  have "?c = n_req_ctx node ! j \<or> ?c = (n_req_ctx node ! j)\<lparr>c_mtx := m\<rparr>"
    by (cases "i < length (n_req_ctx node)"; cases "i = j") (simp_all add: list_update_beyond)
  then show "c_status (n_req_ctx (set_mtx i m node) ! j) = c_status (n_req_ctx node ! j)"
    "c_seq (n_req_ctx (set_mtx i m node) ! j) = c_seq (n_req_ctx node ! j)"
    "c_rep (n_req_ctx (set_mtx i m node) ! j) = c_rep (n_req_ctx node ! j)"
    by (auto simp: set_mtx_def)
qed

end
