(* ===== verification/NodeLoop.thy ===== *)
theory NodeLoop
  imports NodeSpec
begin

text \<open>
  The life of a node: the start of its I/O thread, the events of the loop and the calls of its users
  as one step function, the states they reach from \<^verbatim>\<open>hnode_init\<close>, and the invariant along the way.
\<close>

section \<open>Events\<close>

datatype node_event =
  NStart "nat option"
| NTimer bool "nat option"
| NConnect int int u64
| NClosed
| NRead bytes
| NSubscribe int u8 u16 handler_func u64
| NUnsubscribe int u16
| NPublish u16 u16 bytes

definition nhandle :: "hbuf_api \<Rightarrow> node_event \<Rightarrow> hnode_t \<Rightarrow> hnode_t option" where
  "nhandle B e node =
     (case e of
        NStart io \<Rightarrow> hnode_thread_start io node
      | NTimer cb io \<Rightarrow> hnode_reconnect cb io node
      | NConnect err r self \<Rightarrow> hnode_on_connect err r self node
      | NClosed \<Rightarrow> Some (hnode_on_close node)
      | NRead buf \<Rightarrow> hnode_on_read B buf node
      | NSubscribe r fd t f p \<Rightarrow> map_option fst (hnode_subscribe_i r node fd t f p)
      | NUnsubscribe r t \<Rightarrow> map_option fst (hnode_unsubscribe r node t)
      | NPublish t to payload \<Rightarrow> map_option fst (hnode_publish node t to payload))"

text \<open>The event asks libhv for a connection and gets none.\<close>

definition create_fails :: "node_event \<Rightarrow> hnode_t \<Rightarrow> bool" where
  "create_fails e node =
     (case e of
        NStart io \<Rightarrow> io = None
      | NTimer cb io \<Rightarrow> n_status node = HNODE_STATUS_DISCONNECT \<and> io = None
      | _ \<Rightarrow> False)"

text \<open>The thread starts once, callbacks come on an existing connection, and the callers of
  \<^verbatim>\<open>hnode_subscribe_i\<close> pass one of the three kinds of data.\<close>

definition nenabled :: "node_event \<Rightarrow> hnode_t \<Rightarrow> bool" where
  "nenabled e node =
     (case e of
        NStart io \<Rightarrow> n_status node = 0
      | NTimer cb io \<Rightarrow> n_status node \<noteq> 0
      | NConnect err r self \<Rightarrow> n_io node \<noteq> None
      | NClosed \<Rightarrow> n_io node \<noteq> None
      | NRead buf \<Rightarrow> n_io node \<noteq> None
      | NSubscribe r fd t f p \<Rightarrow> fd \<in> {0, 1, 2}
      | _ \<Rightarrow> True)"

inductive node_reachable :: "hnode_t \<Rightarrow> bool" where
  ninit: "hnode_init nid ip port n = Some node \<Longrightarrow> node_reachable node"
| nevent: "node_reachable node \<Longrightarrow> hbuf_mem B \<Longrightarrow> nenabled e node \<Longrightarrow> nhandle B e node = Some node' \<Longrightarrow>
    node_reachable node'"

fun nrun :: "hbuf_api \<Rightarrow> node_event list \<Rightarrow> hnode_t \<Rightarrow> hnode_t option" where
  "nrun B [] node = Some node"
| "nrun B (e # es) node = do { node \<leftarrow> nhandle B e node; nrun B es node }"

section \<open>The invariant\<close>

lemma strncpy_spec:
  "length (strncpy s n) = n + 1" "strncpy s n ! n = 0"
  "takeWhile (\<lambda>c. c \<noteq> 0) (strncpy s n) = take n (takeWhile (\<lambda>c. c \<noteq> 0) s)"
proof -
  let ?s = "take n (takeWhile (\<lambda>c. c \<noteq> 0) s)"
  have le: "length ?s \<le> n" by simp
  have def: "strncpy s n = ?s @ replicate (n + 1 - length ?s) 0" by (simp add: strncpy_def Let_def)
  show "length (strncpy s n) = n + 1" "strncpy s n ! n = 0"
    unfolding def using le by (simp_all add: nth_append del: length_take)
  have "\<forall>c \<in> set ?s. c \<noteq> 0" by (auto dest: in_set_takeD set_takeWhileD)
  then have "takeWhile (\<lambda>c. c \<noteq> 0) (?s @ replicate (n + 1 - length ?s) 0) =
      ?s @ takeWhile (\<lambda>c. c \<noteq> 0) (replicate (n + 1 - length ?s) 0)"
    by (rule takeWhile_append2 [OF bspec])
  moreover have "takeWhile (\<lambda>c. c \<noteq> 0) (replicate m (0 :: u8)) = []" for m by (cases m) simp_all
  ultimately show "takeWhile (\<lambda>c. c \<noteq> 0) (strncpy s n) = ?s" unfolding def by simp
qed

lemma hnode_init_spec:
  assumes "hnode_init nid ip port n = Some node"
  obtains k where "4 \<le> k" "k \<le> 30" "n_req_ctx_count node = 2 ^ k" "sint n \<le> 2 ^ k"
    "4 < k \<longrightarrow> 2 ^ (k - 1) < sint n" "n_req_ctx node = replicate (2 ^ k) ctx_zero"
    "map_subpool node = None" "n_status node = 0" "n_io node = None" "n_id node = nid"
    "n_server_ip node = strncpy ip 15"
proof -
  obtain c where c: "HC_GETMINPOW n 16 = Some c"
    using assms by (auto simp: hnode_init_def split: Option.bind_splits)
  have "sint n \<le> 2 ^ 30"
    using c HC_GETMINPOW_diverges [of n 4] by (cases "sint n \<le> 2 ^ 30") auto
  then obtain k where k: "4 \<le> k" "k \<le> 30" "HC_GETMINPOW n 16 = Some (2 ^ k)" "sint n \<le> 2 ^ k"
    "4 < k \<longrightarrow> 2 ^ (k - 1) < sint n"
    using HC_GETMINPOW_pow2 [of n 4] by auto
  then show ?thesis
    using that [of k] assms unat_pow2 [of k] by (auto simp: hnode_init_def)
qed

lemma hnode_init_ok: "hnode_init nid ip port n = Some node \<Longrightarrow> node_ok node"
  by (erule hnode_init_spec)
    (auto simp: node_ok_def hi.init_inv [unfolded HIHASH_INIT_def] hi.init_entries [unfolded HIHASH_INIT_def]
      unat_pow2)

lemma node_ok_fields:
  "node_ok (node\<lparr>n_out := a\<rparr>) = node_ok node" "node_ok (node\<lparr>n_calls := b\<rparr>) = node_ok node"
  "node_ok (node\<lparr>n_bufs := c\<rparr>) = node_ok node" "node_ok (node\<lparr>n_hash_seed := d\<rparr>) = node_ok node"
  "node_ok (node\<lparr>n_reconn_cnt := e\<rparr>) = node_ok node"
  by (simp_all add: node_ok_def)

lemma node_ok_same_entries:
  "node_ok node \<Longrightarrow> hi_ok h \<Longrightarrow> hi_entries h = hi_entries (map_subpool node) \<Longrightarrow>
    node_ok (node\<lparr>map_subpool := h\<rparr>)"
  by (simp add: node_ok_def)

lemma sub_key_data: "fd \<in> {0, 1, 2} \<Longrightarrow> sub_key fd t \<in> data_topics"
  by (auto simp: sub_key_def topicex_data HMSG_FLAGS_def)

lemma subscribe_ok:
  assumes ok: "node_ok node" and fd: "fd \<in> {0, 1, 2}"
  obtains node' ret where "hnode_subscribe_i r node fd t f p = Some (node', ret)" "node_ok node'"
    "n_status node' = n_status node" "n_io node' = n_io node"
proof (cases "n_status node = 3")
  case False
  then show ?thesis using that [of node 2] ok by (simp add: hnode_subscribe_i_def)
next
  case True
  show ?thesis
  proof (cases "handler_for node (sub_key fd t)")
    case (Some hnd)
    then obtain h where "hnode_subscribe_i r node fd t f p = Some (node\<lparr>map_subpool := h\<rparr>, 0)" "hi_ok h"
      "hi_entries h = hi_entries (map_subpool node)"
      using subscribe_known [OF ok True, of fd t r f p] by blast
    then show ?thesis using that node_ok_same_entries [OF ok] by simp
  next
    case None
    obtain io where io: "n_io node = Some io" using node_okD(2) [OF ok True] by blast
    obtain h g where h: "hnode_subscribe_i r node fd t f p =
        Some (node\<lparr>map_subpool := h, n_hash_seed := g,
          n_out := n_out node @ [(io, hmsg_bytes (sub_msg node fd t))]\<rparr>, if r \<noteq> 0 then 0 else 4)" "hi_ok h"
      "map_of (hi_entries h) = (if r \<noteq> 0
         then (map_of (hi_entries (map_subpool node)))(sub_key fd t \<mapsto> \<lparr>handle_func = Some f, handle_param = p\<rparr>)
         else map_of (hi_entries (map_subpool node)))"
      using subscribe_new [OF ok True None io] by blast
    have "dom (map_of (hi_entries h)) \<subseteq> data_topics"
      using ok sub_key_data [OF fd, of t] by (auto simp: h(3) node_ok_def split: if_splits)
    then have "node_ok (node\<lparr>map_subpool := h, n_hash_seed := g\<rparr>)" by (rule node_ok_map(1) [OF ok h(2)])
    then show ?thesis using that [OF h(1)] by (simp add: node_ok_fields)
  qed
qed

lemma unsub_key_absent: "node_ok node \<Longrightarrow> handler_for node (topicex 0 0x30 t) = None"
  using topicex_data [of "0x30" t] by (auto simp: node_ok_def handler_for_def)

lemma unsubscribe_ok:
  assumes ok: "node_ok node"
  obtains node' ret where "hnode_unsubscribe r node t = Some (node', ret)" "node_ok node'"
proof (cases "n_status node = 3")
  case False
  then show ?thesis
    using that [of node 2] ok by (simp add: hnode_unsubscribe_def hnode_unsubscribe_i_def)
next
  case True
  obtain h where "hnode_unsubscribe r node t = Some (node\<lparr>map_subpool := h\<rparr>, 0)" "hi_ok h"
    "hi_entries h = hi_entries (map_subpool node)"
    using unsubscribe_spec [OF ok True unsub_key_absent [OF ok]] by blast
  then show ?thesis using that node_ok_same_entries [OF ok] by simp
qed

lemma respond_body_ok:
  assumes "node_ok node"
  obtains node' where "respond_body B node msg = Some node'" "node_ok node'" "n_io node' = n_io node"
proof -
  let ?i = "ctx_index (n_req_ctx_count node) (m_seq msg)"
  let ?c = "n_req_ctx node ! ?i"
  have i: "?i < length (n_req_ctx node)" by (rule node_okD(3) [OF assms])
  show ?thesis
  proof (cases "c_status ?c = 1 \<and> m_seq msg = c_seq ?c")
    case True
    then show ?thesis using that i assms by (simp add: respond_body_def Let_def node_ok_def)
  next
    case False
    then have "respond_body B node msg = Some node" using i by (auto simp: respond_body_def Let_def)
    then show ?thesis using that assms by simp
  qed
qed

lemma on_respond_ok:
  assumes "node_ok node"
  obtains node' where "hnode_on_respond B node msg = Some node'" "node_ok node'" "n_io node' = n_io node"
proof -
  let ?n = "set_mtx (ctx_index (n_req_ctx_count node) (m_seq msg)) (Some 0) node"
  have "respond_lock node msg = Some ?n" using node_okD(3) [OF assms] by (simp add: respond_lock_def Let_def)
  moreover obtain n1 where n1: "respond_body B ?n msg = Some n1" "node_ok n1" "n_io n1 = n_io ?n"
    using respond_body_ok [of ?n B msg] assms by (auto simp: set_mtx_fields)
  ultimately have "hnode_on_respond B node msg = Some (respond_unlock n1 msg)" by (simp add: hnode_on_respond_def)
  then show ?thesis using that n1 by (simp add: respond_unlock_def set_mtx_fields)
qed

lemma on_read_ok:
  assumes B: "hbuf_mem B" and ok: "node_ok node" and io: "n_io node \<noteq> None"
  obtains node' where "hnode_on_read B buf node = Some node'" "node_ok node'"
proof -
  let ?m = "hmsg_of_bytes buf"
  consider (known) hnd where "HMSG_HEAD_VALID ?m (int (length buf))" "bit (m_flags ?m) 4"
      "handler_for node (HMSG_TOPICEX_INMSG ?m) = Some hnd"
    | (other) "\<not> HMSG_HEAD_VALID ?m (int (length buf)) \<or> \<not> bit (m_flags ?m) 4 \<or>
        handler_for node (HMSG_TOPICEX_INMSG ?m) = None"
    by fastforce
  then show ?thesis
  proof cases
    case (known hnd)
    obtain h where h: "hnode_on_read B buf node = dispatch B hnd ?m (node\<lparr>map_subpool := h\<rparr>)" "hi_ok h"
      "hi_entries h = hi_entries (map_subpool node)"
      using on_read_known [OF ok known] by blast
    let ?n = "node\<lparr>map_subpool := h\<rparr>"
    have n: "node_ok ?n" using node_ok_same_entries [OF ok h(2,3)] .
    obtain i where i: "n_io ?n = Some i" using io by auto
    show ?thesis
    proof (cases "handle_func hnd")
      case None
      then show ?thesis using that h(1) n by (simp add: dispatch_def)
    next
      case (Some fn)
      show ?thesis
      proof (cases fn)
        case hnode_on_status_fn
        then show ?thesis
          using that h(1) n Some on_status_spec [OF B n i, of ?m] by (simp add: dispatch_def node_ok_fields)
      next
        case hnode_on_respond_fn
        then show ?thesis using that h(1) Some on_respond_ok [OF n, of B ?m] by (auto simp: dispatch_def)
      next
        case (user_fn u)
        then show ?thesis using that h(1) n Some by (simp add: dispatch_def node_ok_fields)
      qed
    qed
  next
    case other
    then show ?thesis using that on_read_other [OF ok other] node_ok_same_entries [OF ok] by metis
  qed
qed

text \<open>The node as \<^verbatim>\<open>hnode_on_connect\<close> hands it to the subscription of the status topic.\<close>

definition connected :: "nat \<Rightarrow> hnode_t \<Rightarrow> hnode_t" where
  "connected io node = node\<lparr>n_reconn_cnt := 0, n_status := 3,
     n_out := n_out node @ [(io, hmsg_bytes (hnode_msg 0 0 (n_id node) 0xFFFE 0 []))]\<rparr>"

lemma on_connect_eq:
  "n_io node = Some io \<Longrightarrow> hnode_on_connect 0 r self node =
    map_option fst (hnode_subscribe_i r (connected io node) 1 0 hnode_on_status_fn self)"
proof -
  assume io: "n_io node = Some io"
  let ?n = "node\<lparr>n_reconn_cnt := 0, n_out := n_out node @ [(io, hmsg_bytes (hnode_msg 0 0 (n_id node) 0xFFFE 0 []))]\<rparr>"
  have "hnode_register (node\<lparr>n_reconn_cnt := 0\<rparr>) = Some ?n" by (simp add: hnode_register_def hio_write_some io)
  then have "hnode_on_connect 0 r self node =
      hnode_subscribe_i r (?n\<lparr>n_status := 3\<rparr>) 1 0 hnode_on_status_fn self \<bind> (\<lambda>(n, ret). Some n)"
    by (simp add: hnode_on_connect_def)
  also have "?n\<lparr>n_status := 3\<rparr> = connected io node" by (simp add: connected_def)
  finally show ?thesis by (auto split: Option.bind_splits)
qed

lemma connected_fields:
  "n_status (connected io node) = 3" "map_subpool (connected io node) = map_subpool node"
  "n_io (connected io node) = n_io node" "n_id (connected io node) = n_id node"
  "n_out (connected io node) = n_out node @ [(io, hmsg_bytes (hnode_msg 0 0 (n_id node) 0xFFFE 0 []))]"
  "handler_for (connected io node) = handler_for node"
  "node_ok node \<Longrightarrow> n_io node = Some io \<Longrightarrow> node_ok (connected io node)"
  by (simp_all add: connected_def handler_for_def [abs_def] node_ok_def)

lemma on_connect_ok:
  assumes ok: "node_ok node" and io: "n_io node = Some io"
  obtains node' where "hnode_on_connect err r self node = Some node'" "node_ok node'"
    "n_status node' = (if err = 0 then 3 else 1)"
proof (cases "err = 0")
  case False
  then show ?thesis using that [of "node\<lparr>n_status := 1\<rparr>"] ok by (simp add: hnode_on_connect_def node_ok_def)
next
  case True
  let ?n = "connected io node"
  obtain node' ret where "hnode_subscribe_i r ?n 1 0 hnode_on_status_fn self = Some (node', ret)" "node_ok node'"
    "n_status node' = 3"
    by (rule subscribe_ok [OF connected_fields(7) [OF ok io], of 1 r 0 hnode_on_status_fn self])
      (simp_all add: connected_fields)
  then show ?thesis using that [of node'] True on_connect_eq [OF io] by simp
qed

text \<open>A connection, once made, is replaced but never given up.\<close>

lemma hio_write_keeps_io: "hio_write buf node = Some node' \<Longrightarrow> n_io node' = n_io node"
  by (auto simp: hio_write_def split: Option.bind_splits)

lemma subscribe_keeps_io: "hnode_subscribe_i r node fd t f p = Some (node', ret) \<Longrightarrow> n_io node' = n_io node"
  by (auto simp: hnode_subscribe_i_def hnode_topic_had_sub_def split: Option.bind_splits if_splits
      dest!: hio_write_keeps_io)

lemma unsubscribe_keeps_io: "hnode_unsubscribe_i r node fl t = Some (node', ret) \<Longrightarrow> n_io node' = n_io node"
  by (auto simp: hnode_unsubscribe_i_def hnode_topic_had_sub_def split: Option.bind_splits if_splits
      dest!: hio_write_keeps_io)

lemma respond_keeps_io: "hnode_on_respond B node msg = Some node' \<Longrightarrow> n_io node' = n_io node"
  by (auto simp: hnode_on_respond_def respond_lock_def respond_body_def respond_unlock_def Let_def set_mtx_fields
      split: Option.bind_splits if_splits)

lemma status_keeps_io: "hnode_on_status B node msg = Some node' \<Longrightarrow> n_io node' = n_io node"
  by (auto simp: hnode_on_status_def split: Option.bind_splits dest!: hio_write_keeps_io)

lemma on_read_keeps_io: "hnode_on_read B buf node = Some node' \<Longrightarrow> n_io node' = n_io node"
  by (auto simp: hnode_on_read_def dispatch_def Let_def dest!: respond_keeps_io status_keeps_io
      split: Option.bind_splits if_splits option.splits handler_func.splits)

lemma on_connect_keeps_io: "hnode_on_connect err r self node = Some node' \<Longrightarrow> n_io node' = n_io node"
  by (auto simp: hnode_on_connect_def hnode_register_def dest!: hio_write_keeps_io subscribe_keeps_io
      split: Option.bind_splits if_splits)

lemma reconnect_keeps_io: "hnode_reconnect cb io node = Some node' \<Longrightarrow> n_io node \<noteq> None \<Longrightarrow> n_io node' \<noteq> None"
  by (auto simp: hnode_reconnect_def Let_def split: if_splits option.splits)

lemma nhandle_keeps_io:
  assumes "nhandle B e node = Some node'" and "n_io node \<noteq> None"
  shows "n_io node' \<noteq> None"
  using assms
  by (cases e)
    (auto simp: nhandle_def hnode_thread_start_def hnode_unsubscribe_def hnode_publish_def hnode_on_close_def
      split: Option.bind_splits if_splits
      dest!: reconnect_keeps_io on_connect_keeps_io on_read_keeps_io subscribe_keeps_io unsubscribe_keeps_io
        hio_write_keeps_io)

lemma nrun_keeps_io: "nrun B es node = Some node' \<Longrightarrow> n_io node \<noteq> None \<Longrightarrow> n_io node' \<noteq> None"
  by (induction es arbitrary: node) (auto split: Option.bind_splits dest: nhandle_keeps_io)

lemma reconnect_some:
  "n_status node = 1 \<Longrightarrow> hnode_reconnect cb (Some io) node =
    Some (node\<lparr>n_status := (if n_io node \<noteq> None \<and> cb then 1 else 2), n_reconn_cnt := n_reconn_cnt node + 1,
      n_io := Some io\<rparr>)"
  by (simp add: hnode_reconnect_def hnode_on_close_def Let_def)

lemma reconnect_ok:
  assumes "node_ok node" "n_status node = 1 \<longrightarrow> io \<noteq> None"
  obtains node' where "hnode_reconnect cb io node = Some node'" "node_ok node'"
proof (cases "n_status node = 1")
  case True
  then obtain i where "io = Some i" using assms(2) by blast
  then show ?thesis using that reconnect_some [OF True, of cb i] assms(1) by (auto simp: node_ok_def)
next
  case False
  then show ?thesis using that assms(1) by (simp add: hnode_reconnect_def)
qed

lemma nhandle_ok:
  assumes B: "hbuf_mem B" and ok: "node_ok node" and en: "nenabled e node"
    and created: "\<not> create_fails e node"
  shows "\<exists>node'. nhandle B e node = Some node' \<and> node_ok node'"
proof (cases e)
  case (NStart io)
  have "node_ok (node\<lparr>map_subpool := HIHASH_INIT, n_status := 1\<rparr>)"
    using ok by (simp add: node_ok_def hi.init_inv hi.init_entries)
  then show ?thesis
    using reconnect_ok [of "node\<lparr>map_subpool := HIHASH_INIT, n_status := 1\<rparr>" io False] NStart created
    by (auto simp: nhandle_def hnode_thread_start_def create_fails_def)
next
  case (NTimer cb io)
  then show ?thesis
    using reconnect_ok [OF ok, of io cb] created by (auto simp: nhandle_def create_fails_def)
next
  case (NConnect err r self)
  then obtain io where "n_io node = Some io" using en by (auto simp: nenabled_def)
  then show ?thesis
    using on_connect_ok [OF ok, of io err r self] NConnect by (auto simp: nhandle_def)
next
  case NClosed
  then show ?thesis using ok by (simp add: nhandle_def hnode_on_close_def node_ok_def)
next
  case (NRead buf)
  then show ?thesis
    using on_read_ok [OF B ok, of buf] en by (fastforce simp: nhandle_def nenabled_def)
next
  case (NSubscribe r fd t f p)
  then have "fd \<in> {0, 1, 2}" using en by (simp add: nenabled_def)
  from subscribe_ok [OF ok this, of r t f p] show ?thesis
    using NSubscribe by (fastforce simp: nhandle_def)
next
  case (NUnsubscribe r t)
  then show ?thesis using unsubscribe_ok [OF ok, of r t] by (fastforce simp: nhandle_def)
next
  case (NPublish t to payload)
  then show ?thesis
    using ok node_okD(2) [OF ok]
    by (auto simp: nhandle_def hnode_publish_def hio_write_def node_ok_fields split: Option.bind_splits)
qed

text \<open>A failed creation is the only event without a next state.\<close>

lemma create_fails_none: "create_fails e node \<Longrightarrow> nhandle B e node = None"
  by (auto simp: create_fails_def nhandle_def hnode_thread_start_def hnode_reconnect_def Let_def
      split: node_event.splits)

lemma node_reachable_ok: "node_reachable node \<Longrightarrow> node_ok node"
proof (induction rule: node_reachable.induct)
  case (ninit nid ip port n node)
  then show ?case by (rule hnode_init_ok)
next
  case (nevent node B e node')
  then show ?case using nhandle_ok [of B node e] create_fails_none [of e node B] by auto
qed

end
