(* ===== verification/NodeProps.thy ===== *)
theory NodeProps
  imports NodeLoop
begin

text \<open>
  The properties of the client library: safety of its life cycle, dispatch of subscribed messages,
  the messages it writes, and the paths on which the code departs from its intention
  (unsubscribing, subscriptions after a reconnect, retry limits, timeouts, request counts).
\<close>

section \<open>Nodes for the witnesses\<close>

text \<open>\<open>ex_fresh\<close> is a node after \<^verbatim>\<open>hnode_init\<close>, \<open>ex_started\<close> the node as its thread enters the loop, over
  connection 9, \<open>ex_node\<close> the same node connected.\<close>

definition ex_fresh :: hnode_t where
  "ex_fresh = the (hnode_init 5 [49, 0] 55000 4)"

definition ex_started :: hnode_t where
  "ex_started = the (hnode_thread_start (Some 9) ex_fresh)"

definition ex_node :: hnode_t where
  "ex_node = the (hnode_on_connect 0 1 77 ex_started)"

lemma ex_fresh: "hnode_init 5 [49, 0] 55000 4 = Some ex_fresh"
  by (simp add: ex_fresh_def hnode_init_def HC_GETMINPOW_done)

lemma ex_fresh_fields: "n_io ex_fresh = None" "n_status ex_fresh = 0" "map_subpool ex_fresh = None" "n_id ex_fresh = 5"
  "n_out ex_fresh = []"
  by (simp_all add: ex_fresh_def hnode_init_def HC_GETMINPOW_done)

lemma ex_started_eq:
  "ex_started = ex_fresh\<lparr>map_subpool := HIHASH_INIT, n_status := 2, n_reconn_cnt := n_reconn_cnt ex_fresh + 1, n_io := Some 9\<rparr>"
  "hnode_thread_start (Some 9) ex_fresh = Some ex_started"
  by (simp_all add: ex_started_def hnode_thread_start_def reconnect_some)

lemma ex_start: "node_reachable ex_started" "n_io ex_started = Some 9"
proof -
  have "node_reachable ex_fresh" by (rule ninit [OF ex_fresh])
  then show "node_reachable ex_started"
    by (rule nevent [OF _ one_gib.hbuf_mem_axioms, of _ "NStart (Some 9)"])
      (simp_all add: nenabled_def nhandle_def ex_fresh_fields ex_started_eq(2))
  show "n_io ex_started = Some 9" by (simp add: ex_started_eq(1))
qed

lemma ex_node: "node_reachable ex_node" "n_status ex_node = 3"
proof -
  obtain node' where n: "hnode_on_connect 0 1 77 ex_started = Some node'" "n_status node' = 3"
    using on_connect_ok [OF node_reachable_ok [OF ex_start(1)] ex_start(2), of 0 1 77] by auto
  then show "n_status ex_node = 3" by (simp add: ex_node_def)
  show "node_reachable ex_node"
    by (rule nevent [OF ex_start(1) one_gib.hbuf_mem_axioms, of "NConnect 0 1 77"])
      (simp_all add: nenabled_def nhandle_def ex_start(2) ex_node_def n)
qed

section \<open>Safety of the life cycle\<close>



section \<open>Subscribing and dispatch\<close>

lemma subscribe_dispatch:
  assumes "node_reachable node" and "n_status node = 3" and "fd \<in> {0, 1, 2}" and "r \<noteq> 0"
    and "handler_for node (sub_key fd t) = None"
    and "HMSG_HEAD_VALID (hmsg_of_bytes buf) (int (length buf))"
    and "m_version (hmsg_of_bytes buf) = 0" and "m_flags (hmsg_of_bytes buf) = 0x10 OR fd"
    and "m_topic (hmsg_of_bytes buf) = t"
  shows "\<exists>node1 node2 io. hnode_subscribe_i r node fd t (user_fn f) p = Some (node1, 0) \<and>
    n_io node = Some io \<and> n_out node1 = n_out node @ [(io, hmsg_bytes (sub_msg node fd t))] \<and>
    hnode_on_read B buf node1 = Some node2 \<and>
    n_calls node2 = n_calls node @ [(\<lparr>handle_func = Some (user_fn f), handle_param = p\<rparr>, hmsg_of_bytes buf)]"
proof -
  let ?m = "hmsg_of_bytes buf"
  have ok: "node_ok node" by (rule node_reachable_ok [OF assms(1)])
  obtain io where io: "n_io node = Some io" using node_okD(2) [OF ok assms(2)] by blast
  obtain h g where h: "hnode_subscribe_i r node fd t (user_fn f) p = Some (node\<lparr>map_subpool := h, n_hash_seed := g,
        n_out := n_out node @ [(io, hmsg_bytes (sub_msg node fd t))]\<rparr>, 0)" "hi_ok h"
    "map_of (hi_entries h) = (map_of (hi_entries (map_subpool node)))
       (sub_key fd t \<mapsto> \<lparr>handle_func = Some (user_fn f), handle_param = p\<rparr>)"
    using subscribe_new [OF ok assms(2,5) io, of r "user_fn f" p] assms(4) by (simp split: if_splits) blast
  let ?n = "node\<lparr>map_subpool := h, n_hash_seed := g, n_out := n_out node @ [(io, hmsg_bytes (sub_msg node fd t))]\<rparr>"
  have "node_ok ?n"
    using subscribe_ok [OF ok assms(3), of r t "user_fn f" p] h(1) by auto
  moreover have "HMSG_TOPICEX_INMSG ?m = sub_key fd t"
    using assms(7-9) by (simp add: topicex_inmsg sub_key_def HMSG_FLAGS_def)
  then have "handler_for ?n (HMSG_TOPICEX_INMSG ?m) = Some \<lparr>handle_func = Some (user_fn f), handle_param = p\<rparr>"
    by (simp add: handler_for_def h(3))
  moreover have "bit (m_flags ?m) 4" using assms(8) by (simp add: bit_simps)
  ultimately obtain h' where "hnode_on_read B buf ?n =
      dispatch B \<lparr>handle_func = Some (user_fn f), handle_param = p\<rparr> ?m (?n\<lparr>map_subpool := h'\<rparr>)"
    using on_read_known [of ?n buf] assms(6) by metis
  then show ?thesis using h(1) io by (simp add: dispatch_def)
qed

text \<open>When a connected node subscribes a topic it has no handler for and the write succeeds, the call
  returns OK, exactly one subscribe message goes to the broker, and from then on every valid data
  message of that topic and kind calls the handler exactly once, with the message as received.\<close>

theorem subscribe_then_dispatch:
  assumes "node_reachable node" and "n_status node = 3" and "fd \<in> {0, 1, 2}" and "r \<noteq> 0"
    and "handler_for node (sub_key fd t) = None"
    and "HMSG_HEAD_VALID (hmsg_of_bytes buf) (int (length buf))"
    and "m_version (hmsg_of_bytes buf) = 0" and "m_flags (hmsg_of_bytes buf) = 0x10 OR fd"
    and "m_topic (hmsg_of_bytes buf) = t"
  shows "\<exists>node1 node2 io. hnode_subscribe_i r node fd t (user_fn f) p = Some (node1, 0) \<and>
    n_io node = Some io \<and> n_out node1 = n_out node @ [(io, hmsg_bytes (sub_msg node fd t))] \<and>
    hnode_on_read B buf node1 = Some node2 \<and>
    n_calls node2 = n_calls node @ [(\<lparr>handle_func = Some (user_fn f), handle_param = p\<rparr>, hmsg_of_bytes buf)]"
  by (rule subscribe_dispatch [OF assms])

definition ex_data :: hmsg_t where
  "ex_data = hnode_msg 0x10 12 2 5 0 [1, 2, 3]"

lemma ex_data: "hmsg_of_bytes (hmsg_bytes ex_data) = ex_data" "length (hmsg_bytes ex_data) = 35"
  "HMSG_HEAD_VALID ex_data 35" "m_version ex_data = 0" "m_flags ex_data = 0x10" "m_topic ex_data = 12"
  by (simp_all add: hmsg_roundtrip length_hmsg_bytes HMSG_HEAD_VALID_def ex_data_def hnode_msg_def hmsg_zero_def)

lemma ex_node_handlers: "handler_for ex_node k = None \<longleftrightarrow> k \<noteq> sub_key 1 0"
  and ex_node_status: "handler_for ex_node (sub_key 1 0) = Some \<lparr>handle_func = Some hnode_on_status_fn, handle_param = 77\<rparr>"
  and ex_node_io: "n_io ex_node = Some 9"
proof -
  let ?n = "connected 9 ex_started"
  have "map_subpool ex_started = HIHASH_INIT" by (simp add: ex_started_eq(1))
  then have none: "handler_for ?n j = None" for j
    by (simp add: handler_for_def connected_fields hi.init_entries)
  obtain h g where h: "hnode_subscribe_i 1 ?n 1 0 hnode_on_status_fn 77 = Some (?n\<lparr>map_subpool := h, n_hash_seed := g,
      n_out := n_out ?n @ [(9, hmsg_bytes (sub_msg ?n 1 0))]\<rparr>, 0)"
    "map_of (hi_entries h) = (map_of (hi_entries (map_subpool ?n)))
      (sub_key 1 0 \<mapsto> \<lparr>handle_func = Some hnode_on_status_fn, handle_param = 77\<rparr>)"
    by (rule subscribe_new [where fd = 1 and t = 0 and r = 1 and f = hnode_on_status_fn and p = 77,
          OF connected_fields(7) [OF node_reachable_ok [OF ex_start(1)] ex_start(2)] connected_fields(1) none])
      (simp_all add: connected_fields ex_start)
  have n: "ex_node = ?n\<lparr>map_subpool := h, n_hash_seed := g, n_out := n_out ?n @ [(9, hmsg_bytes (sub_msg ?n 1 0))]\<rparr>"
    using h(1) by (simp add: ex_node_def on_connect_eq [OF ex_start(2)])
  have "map_subpool ex_node = h" unfolding n by simp
  then have "handler_for ex_node j = ((map_of (hi_entries (map_subpool ?n)))
      (sub_key 1 0 \<mapsto> \<lparr>handle_func = Some hnode_on_status_fn, handle_param = 77\<rparr>)) j" for j
    using h(2) by (simp add: handler_for_def)
  then show "handler_for ex_node k = None \<longleftrightarrow> k \<noteq> sub_key 1 0"
    "handler_for ex_node (sub_key 1 0) = Some \<lparr>handle_func = Some hnode_on_status_fn, handle_param = 77\<rparr>"
    using none [of k] by (auto simp: handler_for_def)
  show "n_io ex_node = Some 9" by (simp add: n connected_fields ex_start(2))
qed

lemma ex_key: "sub_key 0 t \<noteq> sub_key 1 t'"
  by (simp add: sub_key_def topicex_inject HMSG_FLAGS_def)

theorem subscribe_then_dispatch_witness:
  "\<exists>node1 node2. hnode_subscribe_i 1 ex_node 0 12 (user_fn 3) 8 = Some (node1, 0) \<and>
    hnode_on_read hbuf_1g (hmsg_bytes ex_data) node1 = Some node2 \<and>
    n_calls node2 = n_calls ex_node @ [(\<lparr>handle_func = Some (user_fn 3), handle_param = 8\<rparr>, ex_data)]"
  using subscribe_then_dispatch [OF ex_node, of 0 1 12 "hmsg_bytes ex_data" 3 8 hbuf_1g]
  by (auto simp: ex_data ex_node_handlers ex_key)

section \<open>Messages written\<close>

lemma hnode_msg_valid:
  assumes "length payload < 2 ^ 31 - 32"
  shows "HMSG_HEAD_VALID (hnode_msg fl t from to sq payload)
      (int (length (hmsg_bytes (hnode_msg fl t from to sq payload)))) \<longleftrightarrow> length payload \<le> 67108832"
proof -
  have "unat (of_nat (length payload) :: u32) = length payload"
    using assms by (simp add: unat_of_nat)
  then show ?thesis
    using assms head_valid_iff [of "int (32 + length payload)" "hnode_msg fl t from to sq payload"]
    by (simp add: length_hmsg_bytes hnode_msg_def)
qed

text \<open>Publishing on a connected node writes one message to its connection, with the payload, the topic
  and the node's id, and returns OK; a receiver's header check accepts it exactly when header and
  payload together do not exceed 64 MiB, a limit that the call does not check. A node that is not
  connected refuses and writes nothing.\<close>

theorem publish_writes:
  assumes "node_reachable node" and "length payload < 2 ^ 31 - 32"
  shows "(n_status node \<noteq> 3 \<longrightarrow> hnode_publish node t to payload = Some (node, 2)) \<and>
    (n_status node = 3 \<longrightarrow> (\<exists>node' io msg. hnode_publish node t to payload = Some (node', 0) \<and>
       n_io node = Some io \<and> n_out node' = n_out node @ [(io, hmsg_bytes msg)] \<and>
       m_payload msg = payload \<and> m_topic msg = t \<and> m_from msg = n_id node \<and> m_to msg = to \<and> m_flags msg = 0x10 \<and>
       (HMSG_HEAD_VALID msg (int (length (hmsg_bytes msg))) \<longleftrightarrow> length payload \<le> 67108832)))"
proof (intro conjI impI)
  show "hnode_publish node t to payload = Some (node, 2)" if "n_status node \<noteq> 3"
    using that by (simp add: hnode_publish_def)
  let ?m = "hnode_msg 0x10 t (n_id node) to 0 payload"
  assume st: "n_status node = 3"
  then obtain io where io: "n_io node = Some io" using node_okD(2) [OF node_reachable_ok [OF assms(1)]] by blast
  have "hnode_publish node t to payload = Some (node\<lparr>n_out := n_out node @ [(io, hmsg_bytes ?m)]\<rparr>, 0)"
    using st io by (simp add: hnode_publish_def hio_write_some HMSG_FLAGS_def)
  then show "\<exists>node' io msg. hnode_publish node t to payload = Some (node', 0) \<and>
       n_io node = Some io \<and> n_out node' = n_out node @ [(io, hmsg_bytes msg)] \<and>
       m_payload msg = payload \<and> m_topic msg = t \<and> m_from msg = n_id node \<and> m_to msg = to \<and> m_flags msg = 0x10 \<and>
       (HMSG_HEAD_VALID msg (int (length (hmsg_bytes msg))) \<longleftrightarrow> length payload \<le> 67108832)"
    using io hnode_msg_valid [OF assms(2), of "0x10" t "n_id node" to 0]
    by (intro exI [of _ "node\<lparr>n_out := n_out node @ [(io, hmsg_bytes ?m)]\<rparr>"] exI [of _ io] exI [of _ ?m])
      (simp add: hnode_msg_def)
qed

theorem publish_writes_witness:
  "\<exists>node' io msg. hnode_publish ex_node 12 0 [1, 2] = Some (node', 0) \<and> n_io ex_node = Some io \<and>
     n_out node' = n_out ex_node @ [(io, hmsg_bytes msg)] \<and> m_payload msg = [1, 2]"
proof -
  have "length [1 :: u8, 2] < 2 ^ 31 - 32" by simp
  from publish_writes [OF ex_node(1) this, of 12 0] ex_node(2) show ?thesis by fast
qed

text \<open>C17: A status request that reaches a node with the built-in handler is answered by exactly one message
  to its sender, with its sequence number and, as payload, the 16-bit topic of every subscription in
  the order of the table; the answer passes the header check.\<close>

theorem status_request_answered:
  assumes "hbuf_mem B" and "node_reachable node" and "n_io node = Some io"
    and "HMSG_HEAD_VALID (hmsg_of_bytes buf) (int (length buf))" and "bit (m_flags (hmsg_of_bytes buf)) 4"
    and "handler_for node (HMSG_TOPICEX_INMSG (hmsg_of_bytes buf)) = Some hnd"
    and "handle_func hnd = Some hnode_on_status_fn"
  shows "\<exists>node' rep. hnode_on_read B buf node = Some node' \<and> n_out node' = n_out node @ [(io, hmsg_bytes rep)] \<and>
    m_to rep = m_from (hmsg_of_bytes buf) \<and> m_seq rep = m_seq (hmsg_of_bytes buf) \<and> m_flags rep = 0x12 \<and>
    m_payload rep = concat (map (\<lambda>k. enc16 (ucast k)) (sub_keys node)) \<and>
    HMSG_HEAD_VALID rep (int (length (hmsg_bytes rep)))"
proof -
  let ?m = "hmsg_of_bytes buf"
  have ok: "node_ok node" by (rule node_reachable_ok [OF assms(2)])
  obtain h where h: "hnode_on_read B buf node = dispatch B hnd ?m (node\<lparr>map_subpool := h\<rparr>)" "hi_ok h"
    "hi_entries h = hi_entries (map_subpool node)"
    using on_read_known [OF ok assms(4-6)] by blast
  let ?n = "node\<lparr>map_subpool := h\<rparr>"
  let ?r = "hnode_msg 0x12 (m_topic ?m) (n_id node) (m_from ?m) (m_seq ?m) (status_payload node)"
  have n: "node_ok ?n" "n_io ?n = Some io" using node_ok_same_entries [OF ok h(2,3)] assms(3) by simp_all
  have "status_payload ?n = status_payload node" by (simp add: status_payload_def sub_keys_def h(3))
  then have r: "hnode_on_read B buf node = Some (?n\<lparr>n_out := n_out node @ [(io, hmsg_bytes ?r)]\<rparr>)"
    using on_status_spec [OF assms(1) n, of ?m] h(1) assms(7) by (simp add: dispatch_def)
  have "length (status_payload node) \<le> 2 ^ 25"
    using keys_bound [OF ok] unfolding status_payload_def length_concat_enc16 by (simp add: sub_keys_def)
  then have "HMSG_HEAD_VALID ?r (int (length (hmsg_bytes ?r)))" by (subst hnode_msg_valid) simp_all
  with r show ?thesis
    by (intro exI [of _ "?n\<lparr>n_out := n_out node @ [(io, hmsg_bytes ?r)]\<rparr>"] exI [of _ ?r])
      (simp add: hnode_msg_def status_payload_def)
qed

definition ex_ask :: hmsg_t where
  "ex_ask = hnode_msg 0x11 0 2 5 7 []"

lemma ex_ask: "hmsg_of_bytes (hmsg_bytes ex_ask) = ex_ask" "HMSG_HEAD_VALID ex_ask (int (length (hmsg_bytes ex_ask)))"
  "HMSG_TOPICEX_INMSG ex_ask = sub_key 1 0" "bit (m_flags ex_ask) 4" "m_from ex_ask = 2" "m_seq ex_ask = 7"
  by (simp_all add: hmsg_roundtrip length_hmsg_bytes HMSG_HEAD_VALID_def ex_ask_def hnode_msg_def hmsg_zero_def
      topicex_inmsg sub_key_def HMSG_FLAGS_def bit_simps)

theorem status_request_answered_witness:
  "\<exists>node' rep. hnode_on_read hbuf_1g (hmsg_bytes ex_ask) ex_node = Some node' \<and>
     n_out node' = n_out ex_node @ [(9, hmsg_bytes rep)] \<and> m_to rep = 2 \<and> m_seq rep = 7"
  using status_request_answered [OF one_gib.hbuf_mem_axioms ex_node(1) ex_node_io, of "hmsg_bytes ex_ask"]
    ex_node_status by (fastforce simp: ex_ask)

section \<open>Unsubscribing and reconnecting\<close>

text \<open>C18: On a connected node \<^verbatim>\<open>hnode_unsubscribe\<close> returns OK without writing anything and without removing
  any handler: it looks the topic up under the command of the unsubscribe message, and subscriptions
  are filed under the command of data messages. The handler of the topic keeps being called.\<close>

theorem unsubscribe_has_no_effect:
  assumes "node_reachable node" and "n_status node = 3"
  shows "\<exists>node'. hnode_unsubscribe r node t = Some (node', 0) \<and> n_out node' = n_out node \<and>
    handler_for node' = handler_for node"
proof -
  have ok: "node_ok node" by (rule node_reachable_ok [OF assms(1)])
  show ?thesis
    by (rule unsubscribe_spec [OF ok assms(2) unsub_key_absent [OF ok], of r t]) (simp add: handler_for_def [abs_def])
qed

theorem unsubscribe_has_no_effect_witness:
  "\<exists>node'. hnode_unsubscribe 1 ex_node 12 = Some (node', 0) \<and> n_out node' = n_out ex_node \<and>
    handler_for node' = handler_for ex_node"
  by (rule unsubscribe_has_no_effect [OF ex_node])

text \<open>C19: After a connection is lost and made again the node registers itself but announces none of its
  subscriptions on the new connection, and a repeated subscribe of a topic it already had returns OK
  without writing: the broker, which forgot the old connection, is never told.\<close>

theorem reconnect_loses_subscriptions:
  assumes "node_reachable node" and "n_status node = 3" and "handler_for node (sub_key 1 0) \<noteq> None"
    and "handler_for node (sub_key fd t) \<noteq> None"
  shows "\<exists>node1 node2. nrun B [NClosed, NTimer cb (Some io2), NConnect 0 r self] node = Some node1 \<and>
    n_status node1 = 3 \<and> n_io node1 = Some io2 \<and>
    n_out node1 = n_out node @ [(io2, hmsg_bytes (hnode_msg 0 0 (n_id node) 0xFFFE 0 []))] \<and>
    hnode_subscribe_i r' node1 fd t f p = Some (node2, 0) \<and> n_out node2 = n_out node1"
proof -
  have ok: "node_ok node" by (rule node_reachable_ok [OF assms(1)])
  obtain nn where n0: "hnode_reconnect cb (Some io2) (hnode_on_close node) = Some nn"
    and n: "node_ok nn" "n_io nn = Some io2" "handler_for nn = handler_for node" "n_out nn = n_out node" "n_id nn = n_id node"
    using ok by (simp add: hnode_on_close_def reconnect_some node_ok_def handler_for_def [abs_def])
  have c: "node_ok (connected io2 nn)" by (rule connected_fields(7) [OF n(1,2)])
  obtain h where h: "hnode_subscribe_i r (connected io2 nn) 1 0 hnode_on_status_fn self =
      Some ((connected io2 nn)\<lparr>map_subpool := h\<rparr>, 0)" "hi_ok h" "hi_entries h = hi_entries (map_subpool (connected io2 nn))"
  proof (rule subscribe_known [OF c connected_fields(1), of 1 0 r hnode_on_status_fn self])
    show "handler_for (connected io2 nn) (sub_key 1 0) \<noteq> None" using assms(3) by (simp add: connected_fields n(3))
  qed (rule that)
  let ?n1 = "(connected io2 nn)\<lparr>map_subpool := h\<rparr>"
  have n1: "node_ok ?n1" "n_status ?n1 = 3" by (simp_all add: node_ok_same_entries [OF c h(2,3)] connected_fields)
  have hf: "handler_for ?n1 = handler_for node"
    using n(3) connected_fields(6) [of io2 nn] by (simp add: handler_for_def [abs_def] h(3))
  then obtain h' where h': "hnode_subscribe_i r' ?n1 fd t f p = Some (?n1\<lparr>map_subpool := h'\<rparr>, 0)"
    using subscribe_known [OF n1, of fd t r' f p] assms(4) by metis
  have "nrun B [NClosed, NTimer cb (Some io2), NConnect 0 r self] node = Some ?n1"
    using h(1) n0 on_connect_eq [OF n(2)] by (simp add: nhandle_def)
  then show ?thesis using h' n(2,4,5) by (intro exI [of _ ?n1] exI [of _ "?n1\<lparr>map_subpool := h'\<rparr>"]) (simp add: connected_fields)
qed

theorem reconnect_loses_subscriptions_witness:
  "\<exists>node1. nrun hbuf_1g [NClosed, NTimer True (Some 10), NConnect 0 1 77] ex_node = Some node1 \<and>
    n_out node1 = n_out ex_node @ [(10, hmsg_bytes (hnode_msg 0 0 (n_id ex_node) 0xFFFE 0 []))]"
  using reconnect_loses_subscriptions [OF ex_node, of 1 0 hbuf_1g True 10 1 77 1 "user_fn 3" 8] ex_node_status by auto

text \<open>C20: A disconnected node tries to connect again at every timer tick, however often it failed: after
  \<open>n\<close> failures its counter has advanced by \<open>n\<close> modulo 256 and it is ready for the next attempt. The
  limit \<^verbatim>\<open>reconn_max_retry_cnt\<close> never stops it.\<close>

theorem reconnect_never_gives_up:
  assumes "n_status node = 1" and "err \<noteq> 0"
  shows "\<exists>node'. nrun B (concat (replicate n [NTimer cb (Some io), NConnect err r self])) node = Some node' \<and>
    n_status node' = 1 \<and> n_reconn_cnt node' = n_reconn_cnt node + of_nat n \<and>
    n_reconn_max_retry_cnt node' = n_reconn_max_retry_cnt node \<and> n_out node' = n_out node"
  using assms(1)
proof (induction n arbitrary: node)
  case (Suc n)
  let ?m = "node\<lparr>n_status := (if n_io node \<noteq> None \<and> cb then 1 else 2), n_reconn_cnt := n_reconn_cnt node + 1, n_io := Some io\<rparr>"
  let ?n = "?m\<lparr>n_status := 1\<rparr>"
  have f: "n_reconn_cnt ?n = n_reconn_cnt node + 1" "n_reconn_max_retry_cnt ?n = n_reconn_max_retry_cnt node"
    "n_out ?n = n_out node"
    by simp_all
  have "hnode_on_connect err r self ?m = Some ?n" using assms(2) by (simp add: hnode_on_connect_def)
  then show ?case
    using Suc.IH [of ?n] reconnect_some [OF Suc.prems, of cb io]
    by (simp add: nhandle_def f add.commute add.left_commute)
qed simp

theorem reconnect_never_gives_up_witness:
  "\<exists>node'. nrun hbuf_1g (concat (replicate 256 [NTimer True (Some 9), NConnect 111 0 77])) (hnode_on_close ex_fresh) = Some node' \<and>
    n_status node' = 1 \<and> n_reconn_cnt node' = n_reconn_cnt ex_fresh"
  using reconnect_never_gives_up [of "hnode_on_close ex_fresh" 111 hbuf_1g 256 True 9 0 77]
  by (auto simp: hnode_on_close_def)

section \<open>Creation and timeouts\<close>

text \<open>C21: \<^verbatim>\<open>hnode_init\<close> makes the least power of two that is at least 16 and at least the requested number of
  request slots, all idle, and keeps a NUL-terminated prefix of the address. For more than \<open>2^30\<close>
  requests its loop never ends.\<close>

theorem hnode_init_slots:
  "if sint n \<le> 2 ^ 30
   then \<exists>node k. hnode_init nid ip port n = Some node \<and> n_req_ctx node = replicate (2 ^ k) ctx_zero \<and>
     n_req_ctx_count node = 2 ^ k \<and> 4 \<le> k \<and> k \<le> 30 \<and> sint n \<le> 2 ^ k \<and> (k = 4 \<or> 2 ^ (k - 1) < sint n) \<and>
     length (n_server_ip node) = 16 \<and>
     takeWhile (\<lambda>c. c \<noteq> 0) (n_server_ip node) = take 15 (takeWhile (\<lambda>c. c \<noteq> 0) ip)
   else hnode_init nid ip port n = None"
proof (cases "sint n \<le> 2 ^ 30")
  case True
  then obtain j where "HC_GETMINPOW n 16 = Some (2 ^ j)" using HC_GETMINPOW_pow2 [of n 4] by auto
  then obtain node where node: "hnode_init nid ip port n = Some node" by (simp add: hnode_init_def)
  then show ?thesis
    by (rule hnode_init_spec) (use True node in \<open>auto simp: strncpy_spec\<close>)
next
  case False
  then show ?thesis using HC_GETMINPOW_diverges [of n 4] by (simp add: hnode_init_def)
qed

text \<open>Adding a timeout to a normalised time gives the exact sum, and a normalised result exactly when
  the nanoseconds with the timeout stay below two seconds; with a timeout of 2000 ms or more, which
  \<^verbatim>\<open>hnode_request\<close> allows, the result is never a valid time.\<close>

theorem time_offset_exact:
  assumes "0 \<le> tv_nsec ts" and "tv_nsec ts < 1000000000" and "0 \<le> mill"
  shows "tv_sec (hnode_time_offset ts mill) * 1000000000 + tv_nsec (hnode_time_offset ts mill) =
      tv_sec ts * 1000000000 + tv_nsec ts + mill * 1000000 \<and>
    (tv_nsec (hnode_time_offset ts mill) < 1000000000 \<longleftrightarrow> tv_nsec ts + mill * 1000000 < 2000000000) \<and>
    (2000 \<le> mill \<longrightarrow> 1000000000 \<le> tv_nsec (hnode_time_offset ts mill))"
  using assms by (auto simp: hnode_time_offset_def Let_def)

theorem time_offset_exact_witness:
  "1000000000 \<le> tv_nsec (hnode_time_offset \<lparr>tv_sec = 5, tv_nsec = 999999999\<rparr> 2000)"
  using time_offset_exact [of "\<lparr>tv_sec = 5, tv_nsec = 999999999\<rparr>" 2000] by simp

end
