(* ===== verification/Request.thy ===== *)
theory Request
  imports NodeSpec
begin

text \<open>
  Requests, \<^verbatim>\<open>hnode_request\<close> of \<^verbatim>\<open>src/src/hnode.c\<close>, as a concurrent system: any number of threads issue requests
  while the I/O thread hands responses to \<^verbatim>\<open>hnode_on_respond\<close>. A request is cut at the points where another
  thread can intervene: the atomic increment, \<^verbatim>\<open>pthread_mutex_trylock\<close>, the critical section up to the
  wait, every return from \<^verbatim>\<open>pthread_cond_timedwait\<close> (which releases the slot's mutex while it waits)
  and the exit. The I/O thread, thread 0, is cut in the same way inside \<^verbatim>\<open>hnode_on_respond\<close>: it takes the
  slot's mutex in one step, and does its work and releases the mutex in another, so that a request can
  find the mutex held by it. What the wait returns is chosen by the environment: 0 (signalled or spurious), \<^verbatim>\<open>ETIMEDOUT\<close> or another error.
\<close>

section \<open>The beginning of a request\<close>

text \<open>Parameter and status checks, the clamped timeout and the subscription of the reply topic; \<open>Inl\<close>
  is an early return. \<open>null\<close>: one of the pointers is \<^verbatim>\<open>NULL\<close>; \<open>r\<close> is the result of \<^verbatim>\<open>hio_write\<close>.\<close>

definition hnode_request_begin ::
  "int \<Rightarrow> bool \<Rightarrow> u64 \<Rightarrow> hnode_t \<Rightarrow> u16 \<Rightarrow> nat \<Rightarrow> (hnode_t \<times> (nat + nat)) option" where
  "hnode_request_begin r null self node topic timeout =
     (if null then Some (node, Inl HNODE_RET_EPARAM)
      else if HNODE_STATUS_CONNECTED \<noteq> n_status node then Some (node, Inl HNODE_RET_EDISCONNECT)
      else do {
        timeout \<leftarrow> Some (if HNODE_REQUEST_TIMEOUT_MAX < timeout then HNODE_REQUEST_TIMEOUT_MAX else timeout);
        (node, ret) \<leftarrow> hnode_subscribe_i r node HMSG_FDATA_REPOND topic hnode_on_respond_fn self;
        Some (node, if ret \<noteq> 0 then Inl ret else Inr timeout) })"

section \<open>The steps of a request\<close>

datatype phase = Q_fetch | Q_trylock | Q_cas | Q_check | Q_waiting | Q_exit | Q_return nat

record req =
  q_phase :: phase
  q_topic :: u16
  q_to :: u16
  q_req :: bytes
  q_rep :: nat
  q_seq :: u32
  q_ret :: int

abbreviation (input) ETIMEDOUT :: int where "ETIMEDOUT \<equiv> 110"
abbreviation (input) EINVAL :: int where "EINVAL \<equiv> 22"

definition q_slot :: "hnode_t \<Rightarrow> req \<Rightarrow> nat" where
  "q_slot node q = ctx_index (n_req_ctx_count node) (q_seq q)"

definition q_ctx :: "hnode_t \<Rightarrow> req \<Rightarrow> hrequest_ctx_t" where
  "q_ctx node q = n_req_ctx node ! q_slot node q"

definition set_ctx :: "hnode_t \<Rightarrow> req \<Rightarrow> hrequest_ctx_t \<Rightarrow> hnode_t" where
  "set_ctx node q c = node\<lparr>n_req_ctx := (n_req_ctx node)[q_slot node q := c]\<rparr>"

definition request_fetch :: "hnode_t \<Rightarrow> req \<Rightarrow> hnode_t \<times> req" where
  "request_fetch node q =
     (node\<lparr>n_ato_req_seq := n_ato_req_seq node + 1\<rparr>, q\<lparr>q_seq := n_ato_req_seq node, q_phase := Q_trylock\<rparr>)"

definition request_trylock :: "nat \<Rightarrow> hnode_t \<Rightarrow> req \<Rightarrow> hnode_t \<times> req" where
  "request_trylock t node q =
     (if c_mtx (q_ctx node q) \<noteq> None then (node, q\<lparr>q_phase := Q_return HNODE_RET_EBUSY\<rparr>)
      else (set_ctx node q ((q_ctx node q)\<lparr>c_mtx := Some t\<rparr>), q\<lparr>q_phase := Q_cas\<rparr>))"

text \<open>The compare-and-exchange, and on success the preparation and sending of the request; \<open>io\<close> is the
  node's connection.\<close>

definition request_cas :: "hbuf_api \<Rightarrow> hnode_t \<Rightarrow> req \<Rightarrow> (hnode_t \<times> req) option" where
  "request_cas B node q =
     (let ctx = q_ctx node q in
      if c_status ctx \<noteq> HREQUEST_CTX_STATUS_IDLE
      then Some (set_ctx node q (ctx\<lparr>c_mtx := None\<rparr>), q\<lparr>q_phase := Q_return HNODE_RET_EBUSY\<rparr>)
      else do {
        node \<leftarrow> Some (set_ctx node q
          (ctx\<lparr>c_status := HREQUEST_CTX_STATUS_BUSY, c_seq := q_seq q, c_rep := q_rep q\<rparr>));
        node \<leftarrow> Some (node\<lparr>n_bufs := (n_bufs node)(q_rep q := snd (hbuf_clear B (n_bufs node (q_rep q))))\<rparr>);
        node \<leftarrow> hio_write (hmsg_bytes (hnode_msg (HMSG_FLAGS HMSG_FCMD_DATA HMSG_FDATA_REQUEST) (q_topic q)
                  (n_id node) (q_to q) (q_seq q) (q_req q))) node;
        Some (node, q\<lparr>q_phase := Q_check\<rparr>) })"

text \<open>The test of the loop; entering the wait releases the mutex.\<close>

definition request_check :: "hnode_t \<Rightarrow> req \<Rightarrow> hnode_t \<times> req" where
  "request_check node q =
     (if HREQUEST_CTX_STATUS_BUSY = c_status (q_ctx node q)
      then (set_ctx node q ((q_ctx node q)\<lparr>c_mtx := None\<rparr>), q\<lparr>q_phase := Q_waiting\<rparr>)
      else (node, q\<lparr>q_phase := Q_exit\<rparr>))"

text \<open>The return of the wait with the mutex held again; it blocks while another thread holds it.\<close>

definition request_wake :: "nat \<Rightarrow> int \<Rightarrow> hnode_t \<Rightarrow> req \<Rightarrow> (hnode_t \<times> req) option" where
  "request_wake t ret node q =
     (if c_mtx (q_ctx node q) \<noteq> None then None
      else Some (set_ctx node q ((q_ctx node q)\<lparr>c_mtx := Some t\<rparr>),
                 q\<lparr>q_ret := ret, q_phase := (if ret \<noteq> 0 then Q_exit else Q_check)\<rparr>))"

definition request_exit :: "hnode_t \<Rightarrow> req \<Rightarrow> hnode_t \<times> req" where
  "request_exit node q =
     (set_ctx node q ((q_ctx node q)\<lparr>c_status := HREQUEST_CTX_STATUS_IDLE, c_mtx := None\<rparr>),
      q\<lparr>q_phase := Q_return (if ETIMEDOUT = q_ret q then HNODE_RET_ETIMEOUT else HNODE_RET_OK)\<rparr>)"

text \<open>One step of thread \<open>t\<close>; \<open>w\<close> is what the wait returns if the step is a wake-up. \<open>None\<close>: no step.\<close>

definition request_step :: "hbuf_api \<Rightarrow> nat \<Rightarrow> int \<Rightarrow> hnode_t \<Rightarrow> req \<Rightarrow> (hnode_t \<times> req) option" where
  "request_step B t w node q =
     (case q_phase q of
        Q_fetch \<Rightarrow> Some (request_fetch node q)
      | Q_trylock \<Rightarrow> Some (request_trylock t node q)
      | Q_cas \<Rightarrow> request_cas B node q
      | Q_check \<Rightarrow> Some (request_check node q)
      | Q_waiting \<Rightarrow> request_wake t w node q
      | Q_exit \<Rightarrow> Some (request_exit node q)
      | Q_return r \<Rightarrow> None)"

section \<open>The system\<close>

text \<open>The node, the request of each thread, the response for which the I/O thread is inside
  \<^verbatim>\<open>hnode_on_respond\<close> with the mutex held, and the responses it has handled.\<close>

record rsys =
  rs_node :: hnode_t
  rs_reqs :: "nat \<Rightarrow> req option"
  rs_io :: "hmsg_t option"
  rs_seen :: "hmsg_t list"

definition new_req :: "u16 \<Rightarrow> u16 \<Rightarrow> bytes \<Rightarrow> nat \<Rightarrow> req" where
  "new_req topic to data rep =
     \<lparr>q_phase = Q_fetch, q_topic = topic, q_to = to, q_req = data, q_rep = rep, q_seq = 0, q_ret = 0\<rparr>"

text \<open>What the node's other activities (publishing, subscribing, the connection's callbacks) leave alone.\<close>

definition same_slots :: "hnode_t \<Rightarrow> hnode_t \<Rightarrow> bool" where
  "same_slots node node' \<longleftrightarrow> n_req_ctx node' = n_req_ctx node \<and> n_req_ctx_count node' = n_req_ctx_count node \<and>
     n_bufs node' = n_bufs node \<and> n_ato_req_seq node' = n_ato_req_seq node \<and> n_io node' \<noteq> None"

text \<open>A message that passed the header check carries its whole payload, at most 64 MiB.\<close>

definition whole_payload :: "hmsg_t \<Rightarrow> bool" where
  "whole_payload msg \<longleftrightarrow> length (m_payload msg) = unat (m_payload_size msg) \<and> length (m_payload msg) \<le> 67108864"

text \<open>A caller passes a reply buffer of its own; it gets it back when its call returns. The I/O thread does
  one thing at a time: a handler of the user may issue a request on it, and then it takes no response.\<close>

inductive rstep :: "hbuf_api \<Rightarrow> rsys \<Rightarrow> rsys \<Rightarrow> bool" for B :: hbuf_api where
  call: "rs_reqs s t = None \<Longrightarrow> t = IO_THREAD \<longrightarrow> rs_io s = None \<Longrightarrow> hbuf_wf (n_bufs (rs_node s) rep) \<Longrightarrow>
    \<forall>t' q. rs_reqs s t' = Some q \<longrightarrow> q_rep q \<noteq> rep \<Longrightarrow>
    rstep B s (s\<lparr>rs_reqs := (rs_reqs s)(t \<mapsto> new_req topic to data rep)\<rparr>)"
| step: "rs_reqs s t = Some q \<Longrightarrow> request_step B t w (rs_node s) q = Some (node', q') \<Longrightarrow>
    rstep B s (s\<lparr>rs_node := node', rs_reqs := (rs_reqs s)(t \<mapsto> q')\<rparr>)"
| lock: "rs_io s = None \<Longrightarrow> rs_reqs s IO_THREAD = None \<Longrightarrow>
    c_mtx (n_req_ctx (rs_node s) ! ctx_index (n_req_ctx_count (rs_node s)) (m_seq msg)) = None \<Longrightarrow>
    whole_payload msg \<Longrightarrow> respond_lock (rs_node s) msg = Some node' \<Longrightarrow>
    rstep B s (s\<lparr>rs_node := node', rs_io := Some msg\<rparr>)"
| respond: "rs_io s = Some msg \<Longrightarrow> respond_body B (rs_node s) msg = Some node' \<Longrightarrow>
    rstep B s (s\<lparr>rs_node := respond_unlock node' msg, rs_io := None, rs_seen := rs_seen s @ [msg]\<rparr>)"
| other: "same_slots (rs_node s) node' \<Longrightarrow> rstep B s (s\<lparr>rs_node := node'\<rparr>)"
| collect: "rs_reqs s t = Some q \<Longrightarrow> q_phase q = Q_return r \<Longrightarrow>
    rstep B s (s\<lparr>rs_reqs := (rs_reqs s)(t := None)\<rparr>)"

inductive rreach :: "hbuf_api \<Rightarrow> rsys \<Rightarrow> bool" for B :: hbuf_api where
  rstart: "node_ok node \<Longrightarrow> n_io node \<noteq> None \<Longrightarrow> \<forall>c \<in> set (n_req_ctx node). c = ctx_zero \<Longrightarrow>
    rreach B \<lparr>rs_node = node, rs_reqs = (\<lambda>_. None), rs_io = None, rs_seen = []\<rparr>"
| rnext: "rreach B s \<Longrightarrow> rstep B s s' \<Longrightarrow> rreach B s'"

inductive_cases rstepE: "rstep B s s'"

section \<open>The invariant\<close>

definition holding :: "phase \<Rightarrow> bool" where
  "holding ph \<longleftrightarrow> ph = Q_cas \<or> ph = Q_check \<or> ph = Q_exit"

definition owning :: "phase \<Rightarrow> bool" where
  "owning ph \<longleftrightarrow> ph = Q_check \<or> ph = Q_waiting \<or> ph = Q_exit"

text \<open>The reply buffer of a request holds the payload of a response with its sequence number.\<close>

definition answered :: "hmsg_t list \<Rightarrow> hbuf_t \<Rightarrow> req \<Rightarrow> bool" where
  "answered seen buf q \<longleftrightarrow> (\<exists>m \<in> set seen. m_seq m = q_seq q \<and> content buf = m_payload m)"

text \<open>What a request knows of its reply buffer: empty while its slot is busy, a reply once it is done.\<close>

definition req_reply_ok :: "hmsg_t list \<Rightarrow> hbuf_t \<Rightarrow> hrequest_ctx_t \<Rightarrow> req \<Rightarrow> bool" where
  "req_reply_ok seen buf c q \<longleftrightarrow> hbuf_wf buf \<and>
     (owning (q_phase q) \<longrightarrow> (c_status c = 1 \<longrightarrow> content buf = []) \<and> (c_status c = 2 \<longrightarrow> answered seen buf q)) \<and>
     (q_phase q \<in> {Q_fetch, Q_trylock, Q_cas, Q_check, Q_waiting} \<longrightarrow> q_ret q = 0) \<and>
     (q_phase q = Q_exit \<and> q_ret q = 0 \<longrightarrow> c_status c = 2) \<and>
     (q_phase q = Q_return 0 \<longrightarrow> answered seen buf q \<or>
        q_ret q \<noteq> 0 \<and> q_ret q \<noteq> ETIMEDOUT \<and> content buf = []) \<and>
     (q_phase q = Q_return 3 \<longrightarrow> answered seen buf q \<or> content buf = [])"

definition slots_in_range :: "hnode_t \<Rightarrow> bool" where
  "slots_in_range node \<longleftrightarrow> (\<forall>seq. ctx_index (n_req_ctx_count node) seq < length (n_req_ctx node))"

text \<open>The slot that the I/O thread holds while it handles a response.\<close>

definition io_holds :: "rsys \<Rightarrow> nat \<Rightarrow> bool" where
  "io_holds s i \<longleftrightarrow> (\<exists>msg. rs_io s = Some msg \<and> ctx_index (n_req_ctx_count (rs_node s)) (m_seq msg) = i)"

definition mutex_inv :: "rsys \<Rightarrow> bool" where
  "mutex_inv s \<longleftrightarrow> (\<forall>i < length (n_req_ctx (rs_node s)). \<forall>t.
     c_mtx (n_req_ctx (rs_node s) ! i) = Some t \<longleftrightarrow>
     (\<exists>q. rs_reqs s t = Some q \<and> holding (q_phase q) \<and> q_slot (rs_node s) q = i) \<or> t = IO_THREAD \<and> io_holds s i)"

definition io_inv :: "rsys \<Rightarrow> bool" where
  "io_inv s \<longleftrightarrow> (\<forall>msg. rs_io s = Some msg \<longrightarrow> rs_reqs s IO_THREAD = None \<and> whole_payload msg)"

definition owns :: "rsys \<Rightarrow> nat \<Rightarrow> nat \<Rightarrow> bool" where
  "owns s i t \<longleftrightarrow> (\<exists>q. rs_reqs s t = Some q \<and> owning (q_phase q) \<and> q_slot (rs_node s) q = i)"

definition owner_inv :: "rsys \<Rightarrow> bool" where
  "owner_inv s \<longleftrightarrow>
     (\<forall>i < length (n_req_ctx (rs_node s)). c_status (n_req_ctx (rs_node s) ! i) \<le> 2 \<and>
        (c_status (n_req_ctx (rs_node s) ! i) \<noteq> 0 \<longrightarrow> (\<exists>t. owns s i t))) \<and>
     (\<forall>t q. rs_reqs s t = Some q \<longrightarrow> owning (q_phase q) \<longrightarrow>
        c_status (q_ctx (rs_node s) q) \<noteq> 0 \<and> c_seq (q_ctx (rs_node s) q) = q_seq q \<and>
        c_rep (q_ctx (rs_node s) q) = q_rep q)"

definition reply_inv :: "rsys \<Rightarrow> bool" where
  "reply_inv s \<longleftrightarrow> (\<forall>t q. rs_reqs s t = Some q \<longrightarrow>
     req_reply_ok (rs_seen s) (n_bufs (rs_node s) (q_rep q)) (q_ctx (rs_node s) q) q)"

definition reps_inv :: "rsys \<Rightarrow> bool" where
  "reps_inv s \<longleftrightarrow> (\<forall>t t' q q'. rs_reqs s t = Some q \<and> rs_reqs s t' = Some q' \<and> q_rep q = q_rep q' \<longrightarrow> t = t')"

definition rinv :: "rsys \<Rightarrow> bool" where
  "rinv s \<longleftrightarrow> slots_in_range (rs_node s) \<and> n_io (rs_node s) \<noteq> None \<and> mutex_inv s \<and> owner_inv s \<and>
     reply_inv s \<and> reps_inv s \<and> io_inv s"

lemma rinvD:
  assumes "rinv s"
  shows "slots_in_range (rs_node s)" "n_io (rs_node s) \<noteq> None" "q_slot (rs_node s) q < length (n_req_ctx (rs_node s))"
    "i < length (n_req_ctx (rs_node s)) \<Longrightarrow> c_mtx (n_req_ctx (rs_node s) ! i) = Some t \<longleftrightarrow>
      (\<exists>q. rs_reqs s t = Some q \<and> holding (q_phase q) \<and> q_slot (rs_node s) q = i) \<or> t = 0 \<and> io_holds s i"
    "rs_reqs s t = Some q \<Longrightarrow> owning (q_phase q) \<Longrightarrow> c_status (q_ctx (rs_node s) q) \<noteq> 0 \<and>
      c_seq (q_ctx (rs_node s) q) = q_seq q \<and> c_rep (q_ctx (rs_node s) q) = q_rep q"
    "i < length (n_req_ctx (rs_node s)) \<Longrightarrow> c_status (n_req_ctx (rs_node s) ! i) \<le> 2"
    "i < length (n_req_ctx (rs_node s)) \<Longrightarrow> c_status (n_req_ctx (rs_node s) ! i) \<noteq> 0 \<Longrightarrow> \<exists>t. owns s i t"
    "rs_reqs s t = Some q \<Longrightarrow> req_reply_ok (rs_seen s) (n_bufs (rs_node s) (q_rep q)) (q_ctx (rs_node s) q) q"
    "rs_reqs s t = Some q \<Longrightarrow> rs_reqs s t' = Some q' \<Longrightarrow> q_rep q = q_rep q' \<Longrightarrow> t = t'"
    "rs_io s = Some msg \<Longrightarrow> rs_reqs s 0 = None \<and> whole_payload msg"
    "rs_reqs s 0 = Some q \<Longrightarrow> \<not> io_holds s i"
proof -
  show "\<not> io_holds s i" if "rs_reqs s 0 = Some q"
    using assms that by (auto simp: rinv_def io_inv_def io_holds_def)
qed (use assms in \<open>unfold rinv_def slots_in_range_def mutex_inv_def owner_inv_def reply_inv_def reps_inv_def
      io_inv_def q_slot_def, blast+\<close>)

lemma owner_unique:
  assumes inv: "rinv s" and q: "rs_reqs s t = Some q" "owning (q_phase q)"
    and q': "rs_reqs s t' = Some q'" "owning (q_phase q')" "q_slot (rs_node s) q = q_slot (rs_node s) q'"
  shows "t = t'"
proof -
  have "q_ctx (rs_node s) q = q_ctx (rs_node s) q'" using q'(3) by (simp add: q_ctx_def)
  then have "q_rep q = q_rep q'" using rinvD(5) [OF inv q] rinvD(5) [OF inv q'(1,2)] by simp
  then show ?thesis by (rule rinvD(9) [OF inv q(1) q'(1)])
qed

section \<open>Steps of a request keep the invariant\<close>

text \<open>A step of thread \<open>t\<close> that changes its own record, its slot and its reply buffer.\<close>

lemma rinv_thread:
  fixes s t q q' node' i c'
  defines "node \<equiv> rs_node s"
  defines "c \<equiv> n_req_ctx node ! i"
  assumes inv: "rinv s" and t: "rs_reqs s t = Some q"
    and q': "q_rep q' = q_rep q" "i = ctx_index (n_req_ctx_count node) (q_seq q')"
    and node': "n_req_ctx_count node' = n_req_ctx_count node" "n_io node' = n_io node"
      "n_req_ctx node' = (n_req_ctx node)[i := c']" "\<forall>r. r \<noteq> q_rep q \<longrightarrow> n_bufs node' r = n_bufs node r"
    and old: "q_seq q' = q_seq q \<or> \<not> holding (q_phase q) \<and> \<not> owning (q_phase q)"
    and M: "\<forall>u. c_mtx c' = Some u \<longleftrightarrow> (if u = t then holding (q_phase q') else c_mtx c = Some u)"
    and O1: "c_status c' \<le> 2"
    and O2: "owning (q_phase q') \<longrightarrow> c_status c' \<noteq> 0 \<and> c_seq c' = q_seq q' \<and> c_rep c' = q_rep q'"
    and O3: "c_status c' \<noteq> 0 \<longrightarrow> owning (q_phase q') \<or> \<not> owning (q_phase q) \<and> c_status c \<noteq> 0"
    and O4: "c_status c' = c_status c \<and> c_seq c' = c_seq c \<and> c_rep c' = c_rep c \<or> c_status c = 0 \<or>
      owning (q_phase q)"
    and R: "req_reply_ok (rs_seen s) (n_bufs node' (q_rep q)) c' q'"
  shows "rinv (s\<lparr>rs_node := node', rs_reqs := (rs_reqs s)(t \<mapsto> q')\<rparr>)"
proof -
  let ?s = "s\<lparr>rs_node := node', rs_reqs := (rs_reqs s)(t \<mapsto> q')\<rparr>"
  have i: "i < length (n_req_ctx node)" using rinvD(1) [OF inv] q'(2) by (simp add: slots_in_range_def node_def)
  have slot: "q_slot node' p = q_slot node p" for p by (simp add: q_slot_def node'(1))
  have slot_q': "q_slot node q' = i" by (simp add: q_slot_def q'(2))
  have slot_q: "q_slot node q = i" if "holding (q_phase q) \<or> owning (q_phase q)"
    using that old q'(2) by (auto simp: q_slot_def)
  have ctx: "n_req_ctx node' ! j = (if j = i then c' else n_req_ctx node ! j)" if "j < length (n_req_ctx node)" for j
    using that i by (simp add: node'(3))
  have len: "length (n_req_ctx node') = length (n_req_ctx node)" by (simp add: node'(3))
  have less: "q_slot node p < length (n_req_ctx node)" for p using rinvD(3) [OF inv] by (simp add: node_def)
  have other: "c_status c' = c_status c \<and> c_seq c' = c_seq c \<and> c_rep c' = c_rep c"
    if p: "rs_reqs s u = Some p" "owning (q_phase p)" "q_slot node p = i" "u \<noteq> t" for u p
  proof -
    have "c_status c \<noteq> 0" using rinvD(5) [OF inv p(1,2)] p(3) by (simp add: q_ctx_def c_def node_def)
    moreover have "\<not> owning (q_phase q)"
      using owner_unique [OF inv t _ p(1,2)] slot_q p(3,4) by (auto simp: node_def)
    ultimately show ?thesis using O4 by simp
  qed
  have "slots_in_range node'"
    using rinvD(1) [OF inv] by (simp add: slots_in_range_def node'(1) len node_def)
  moreover have "mutex_inv ?s"
    unfolding mutex_inv_def
  proof (intro allI impI)
    fix j u
    assume "j < length (n_req_ctx (rs_node ?s))"
    then have j: "j < length (n_req_ctx node)" by (simp add: len)
    have old_mtx: "c_mtx (n_req_ctx node ! j) = Some u \<longleftrightarrow>
        (\<exists>p. rs_reqs s u = Some p \<and> holding (q_phase p) \<and> q_slot node p = j) \<or> u = 0 \<and> io_holds s j"
      using rinvD(4) [OF inv, of j u] j by (simp add: node_def)
    have io: "io_holds ?s j = io_holds s j" by (simp add: io_holds_def node'(1) node_def)
    show "c_mtx (n_req_ctx (rs_node ?s) ! j) = Some u \<longleftrightarrow>
        (\<exists>p. rs_reqs ?s u = Some p \<and> holding (q_phase p) \<and> q_slot (rs_node ?s) p = j) \<or> u = 0 \<and> io_holds ?s j"
    proof (cases "u = t")
      case True
      have noio: "\<not> (u = 0 \<and> io_holds s j)" using rinvD(11) [OF inv] t True by auto
      have "c_mtx (n_req_ctx node ! j) \<noteq> Some t" if "j \<noteq> i"
        using old_mtx noio True t slot_q that by auto
      then show ?thesis using M True j noio unfolding io by (auto simp: ctx slot slot_q')
    next
      case False
      then show ?thesis using M old_mtx j unfolding io by (auto simp: ctx slot c_def)
    qed
  qed
  moreover have "owner_inv ?s"
    unfolding owner_inv_def
  proof (intro conjI allI impI)
    fix j
    assume "j < length (n_req_ctx (rs_node ?s))"
    then have j: "j < length (n_req_ctx node)" by (simp add: len)
    show "c_status (n_req_ctx (rs_node ?s) ! j) \<le> 2"
      using O1 rinvD(6) [OF inv, of j] j by (auto simp: ctx node_def)
    assume nz: "c_status (n_req_ctx (rs_node ?s) ! j) \<noteq> 0"
    show "\<exists>u. owns ?s j u"
    proof (cases "j = i \<and> owning (q_phase q')")
      case True
      then have "owns ?s j t" by (simp add: owns_def slot slot_q')
      then show ?thesis ..
    next
      case False
      then have "c_status (n_req_ctx node ! j) \<noteq> 0"
        using nz j O3 by (auto simp: ctx c_def split: if_splits)
      then obtain u p where p: "rs_reqs s u = Some p" "owning (q_phase p)" "q_slot node p = j"
        using rinvD(7) [OF inv, of j] j by (auto simp: owns_def node_def)
      have "u \<noteq> t"
      proof
        assume "u = t"
        then have "owning (q_phase q)" "q_slot node q = j" using p t by auto
        moreover then have "j = i" using slot_q by simp
        ultimately show False using False O3 nz j by (auto simp: ctx)
      qed
      then have "owns ?s j u" using p by (auto simp: owns_def slot)
      then show ?thesis ..
    qed
  next
    fix u p
    assume u: "rs_reqs ?s u = Some p" "owning (q_phase p)"
    have "c_status (q_ctx node' p) \<noteq> 0 \<and> c_seq (q_ctx node' p) = q_seq p \<and> c_rep (q_ctx node' p) = q_rep p"
    proof (cases "u = t")
      case True
      then have "p = q'" using u(1) by simp
      then show ?thesis using u(2) O2 by (simp add: q_ctx_def slot slot_q' ctx i)
    next
      case False
      then have p: "rs_reqs s u = Some p" using u(1) by simp
      show ?thesis
        using rinvD(5) [OF inv p u(2)] other [OF p u(2) _ False] less
        by (auto simp: q_ctx_def slot ctx c_def node_def)
    qed
    then show "c_status (q_ctx (rs_node ?s) p) \<noteq> 0" "c_seq (q_ctx (rs_node ?s) p) = q_seq p"
      "c_rep (q_ctx (rs_node ?s) p) = q_rep p" by simp_all
  qed
  moreover have "reply_inv ?s"
    unfolding reply_inv_def
  proof (intro allI impI)
    fix u p
    assume u: "rs_reqs ?s u = Some p"
    show "req_reply_ok (rs_seen ?s) (n_bufs (rs_node ?s) (q_rep p)) (q_ctx (rs_node ?s) p) p"
    proof (cases "u = t")
      case True
      then have "p = q'" using u by simp
      then show ?thesis using R q'(1) by (simp add: q_ctx_def slot slot_q' ctx i)
    next
      case False
      then have p: "rs_reqs s u = Some p" using u by simp
      then have "q_rep p \<noteq> q_rep q" using rinvD(9) [OF inv p t] False by blast
      then have buf: "n_bufs node' (q_rep p) = n_bufs node (q_rep p)" using node'(4) by blast
      have st: "c_status (q_ctx node' p) = c_status (q_ctx node p)" if "owning (q_phase p)"
        using other [OF p that _ False] less by (auto simp: q_ctx_def slot ctx c_def)
      have old: "req_reply_ok (rs_seen s) (n_bufs node (q_rep p)) (q_ctx node p) p"
        using rinvD(8) [OF inv p] by (simp add: node_def)
      show ?thesis
      proof (cases "owning (q_phase p)")
        case True
        then show ?thesis using old buf st by (simp add: req_reply_ok_def)
      next
        case False
        then show ?thesis using old buf by (auto simp: req_reply_ok_def owning_def)
      qed
    qed
  qed
  moreover have "reps_inv ?s"
    using rinvD(9) [OF inv] t q'(1) unfolding reps_inv_def by (auto split: if_splits)
  moreover have "io_inv ?s"
  proof -
    have "rs_io s = None \<or> t \<noteq> 0" using rinvD(10) [OF inv] t by (cases "rs_io s"; cases "t = 0") auto
    then show ?thesis using inv by (auto simp: rinv_def io_inv_def)
  qed
  ultimately show ?thesis using rinvD(2) [OF inv] node'(2) by (simp add: rinv_def node_def)
qed

lemma not_holding_mtx:
  assumes "rinv s" "rs_reqs s t = Some q" "\<not> holding (q_phase q)" "i < length (n_req_ctx (rs_node s))"
  shows "c_mtx (n_req_ctx (rs_node s) ! i) \<noteq> Some t"
  using rinvD(4) [OF assms(1,4), of t] rinvD(11) [OF assms(1)] assms(2,3) by auto

lemma holding_mtx:
  assumes "rinv s" "rs_reqs s t = Some q" "holding (q_phase q)"
  shows "c_mtx (q_ctx (rs_node s) q) = Some t"
  using rinvD(4) [OF assms(1) rinvD(3) [OF assms(1)], of q t] assms(2,3) by (auto simp: q_ctx_def)

lemma set_ctx_simps:
  "n_req_ctx_count (set_ctx node q c) = n_req_ctx_count node" "n_io (set_ctx node q c) = n_io node"
  "n_bufs (set_ctx node q c) = n_bufs node" "n_req_ctx (set_ctx node q c) = (n_req_ctx node)[q_slot node q := c]"
  by (simp_all add: set_ctx_def)

text \<open>The steps that stay on the slot of the request.\<close>

lemma rinv_slot_step:
  assumes inv: "rinv s" and t: "rs_reqs s t = Some q"
    and q': "q_rep q' = q_rep q" "q_seq q' = q_seq q"
    and node': "n_req_ctx_count node' = n_req_ctx_count (rs_node s)" "n_io node' = n_io (rs_node s)"
      "n_req_ctx node' = (n_req_ctx (rs_node s))[q_slot (rs_node s) q := c']"
      "\<forall>r. r \<noteq> q_rep q \<longrightarrow> n_bufs node' r = n_bufs (rs_node s) r"
    and M: "c_mtx c' = (if holding (q_phase q') then Some t else None)"
      "c_mtx (q_ctx (rs_node s) q) = None \<or> c_mtx (q_ctx (rs_node s) q) = Some t"
    and O1: "c_status c' \<le> 2"
    and O2: "owning (q_phase q') \<longrightarrow> c_status c' \<noteq> 0 \<and> c_seq c' = q_seq q \<and> c_rep c' = q_rep q"
    and O3: "c_status c' \<noteq> 0 \<longrightarrow> owning (q_phase q') \<or> \<not> owning (q_phase q) \<and> c_status (q_ctx (rs_node s) q) \<noteq> 0"
    and O4: "c_status c' = c_status (q_ctx (rs_node s) q) \<and> c_seq c' = c_seq (q_ctx (rs_node s) q) \<and>
      c_rep c' = c_rep (q_ctx (rs_node s) q) \<or> c_status (q_ctx (rs_node s) q) = 0 \<or> owning (q_phase q)"
    and R: "req_reply_ok (rs_seen s) (n_bufs node' (q_rep q)) c' q'"
  shows "rinv (s\<lparr>rs_node := node', rs_reqs := (rs_reqs s)(t \<mapsto> q')\<rparr>)"
proof (rule rinv_thread [OF inv t q'(1) _ node'(1,2) _ node'(4) _ _ O1 _ _ _ R])
  show "q_slot (rs_node s) q = ctx_index (n_req_ctx_count (rs_node s)) (q_seq q')" by (simp add: q_slot_def q'(2))
  show "n_req_ctx node' = (n_req_ctx (rs_node s))[q_slot (rs_node s) q := c']" by (rule node'(3))
  show "q_seq q' = q_seq q \<or> \<not> holding (q_phase q) \<and> \<not> owning (q_phase q)" using q'(2) by simp
  show "\<forall>u. c_mtx c' = Some u \<longleftrightarrow> (if u = t then holding (q_phase q')
      else c_mtx (n_req_ctx (rs_node s) ! q_slot (rs_node s) q) = Some u)"
    using M by (auto simp: q_ctx_def)
  show "owning (q_phase q') \<longrightarrow> c_status c' \<noteq> 0 \<and> c_seq c' = q_seq q' \<and> c_rep c' = q_rep q'"
    using O2 q' by simp
  show "c_status c' \<noteq> 0 \<longrightarrow> owning (q_phase q') \<or>
      \<not> owning (q_phase q) \<and> c_status (n_req_ctx (rs_node s) ! q_slot (rs_node s) q) \<noteq> 0"
    using O3 by (simp add: q_ctx_def)
  show "c_status c' = c_status (n_req_ctx (rs_node s) ! q_slot (rs_node s) q) \<and>
      c_seq c' = c_seq (n_req_ctx (rs_node s) ! q_slot (rs_node s) q) \<and>
      c_rep c' = c_rep (n_req_ctx (rs_node s) ! q_slot (rs_node s) q) \<or>
      c_status (n_req_ctx (rs_node s) ! q_slot (rs_node s) q) = 0 \<or> owning (q_phase q)"
    using O4 by (simp add: q_ctx_def)
qed

lemma phase_simps [simp]:
  "holding Q_cas" "holding Q_check" "holding Q_exit" "\<not> holding Q_fetch" "\<not> holding Q_trylock"
  "\<not> holding Q_waiting" "\<not> holding (Q_return r)"
  "owning Q_check" "owning Q_waiting" "owning Q_exit" "\<not> owning Q_fetch" "\<not> owning Q_trylock"
  "\<not> owning Q_cas" "\<not> owning (Q_return r)"
  by (simp_all add: holding_def owning_def)

lemma rinv_fetch:
  assumes inv: "rinv s" and t: "rs_reqs s t = Some q" and ph: "q_phase q = Q_fetch"
    and step: "request_fetch (rs_node s) q = (node', q')"
  shows "rinv (s\<lparr>rs_node := node', rs_reqs := (rs_reqs s)(t \<mapsto> q')\<rparr>)"
proof -
  let ?n = "rs_node s" and ?i = "ctx_index (n_req_ctx_count (rs_node s)) (n_ato_req_seq (rs_node s))"
  have st: "node' = ?n\<lparr>n_ato_req_seq := n_ato_req_seq ?n + 1\<rparr>"
    "q' = q\<lparr>q_seq := n_ato_req_seq ?n, q_phase := Q_trylock\<rparr>"
    using step by (simp_all add: request_fetch_def)
  have i: "?i < length (n_req_ctx ?n)" using rinvD(1) [OF inv] by (simp add: slots_in_range_def)
  have "c_mtx (n_req_ctx ?n ! ?i) \<noteq> Some t" using not_holding_mtx [OF inv t _ i] ph by simp
  moreover have "req_reply_ok (rs_seen s) (n_bufs ?n (q_rep q)) (n_req_ctx ?n ! ?i) q'"
    using rinvD(8) [OF inv t] ph by (simp add: req_reply_ok_def st)
  ultimately show ?thesis
    using rinvD(6) [OF inv i] ph by (intro rinv_thread [OF inv t]) (auto simp: st)
qed

lemma rinv_trylock:
  assumes inv: "rinv s" and t: "rs_reqs s t = Some q" and ph: "q_phase q = Q_trylock"
    and step: "request_trylock t (rs_node s) q = (node', q')"
  shows "rinv (s\<lparr>rs_node := node', rs_reqs := (rs_reqs s)(t \<mapsto> q')\<rparr>)"
proof (cases "c_mtx (q_ctx (rs_node s) q) = None")
  case True
  then have st: "node' = set_ctx (rs_node s) q ((q_ctx (rs_node s) q)\<lparr>c_mtx := Some t\<rparr>)" "q' = q\<lparr>q_phase := Q_cas\<rparr>"
    using step by (auto simp: request_trylock_def)
  show ?thesis
    using True ph rinvD(6) [OF inv rinvD(3) [OF inv], of q] rinvD(8) [OF inv t]
    by (intro rinv_slot_step [OF inv t, where c' = "(q_ctx (rs_node s) q)\<lparr>c_mtx := Some t\<rparr>"])
      (auto simp: st set_ctx_simps req_reply_ok_def q_ctx_def)
next
  case False
  then have st: "node' = rs_node s" "q' = q\<lparr>q_phase := Q_return 5\<rparr>"
    using step by (auto simp: request_trylock_def)
  let ?i = "q_slot (rs_node s) q"
  have i: "?i < length (n_req_ctx (rs_node s))" by (rule rinvD(3) [OF inv])
  have "c_mtx (n_req_ctx (rs_node s) ! ?i) \<noteq> Some t" using not_holding_mtx [OF inv t _ i] ph by simp
  moreover have "req_reply_ok (rs_seen s) (n_bufs (rs_node s) (q_rep q)) (n_req_ctx (rs_node s) ! ?i) q'"
    using rinvD(8) [OF inv t] ph by (simp add: req_reply_ok_def st)
  ultimately show ?thesis
    using rinvD(6) [OF inv i] ph by (intro rinv_thread [OF inv t, where i = ?i]) (auto simp: st q_slot_def)
qed

lemma rinv_cas:
  assumes B: "hbuf_lib B" and inv: "rinv s" and t: "rs_reqs s t = Some q" and ph: "q_phase q = Q_cas"
    and step: "request_cas B (rs_node s) q = Some (node', q')"
  shows "rinv (s\<lparr>rs_node := node', rs_reqs := (rs_reqs s)(t \<mapsto> q')\<rparr>)"
proof (cases "c_status (q_ctx (rs_node s) q) = 0")
  case False
  then have st: "node' = set_ctx (rs_node s) q ((q_ctx (rs_node s) q)\<lparr>c_mtx := None\<rparr>)" "q' = q\<lparr>q_phase := Q_return 5\<rparr>"
    using step by (auto simp: request_cas_def Let_def)
  have "c_mtx (q_ctx (rs_node s) q) = Some t" using holding_mtx [OF inv t] ph by simp
  then show ?thesis
    using ph rinvD(6) [OF inv rinvD(3) [OF inv], of q] rinvD(8) [OF inv t] False
    by (intro rinv_slot_step [OF inv t, where c' = "(q_ctx (rs_node s) q)\<lparr>c_mtx := None\<rparr>"])
      (auto simp: st set_ctx_simps req_reply_ok_def q_ctx_def)
next
  case True
  obtain io where io: "n_io (rs_node s) = Some io" using rinvD(2) [OF inv] by blast
  let ?c = "(q_ctx (rs_node s) q)\<lparr>c_status := 1, c_seq := q_seq q, c_rep := q_rep q\<rparr>"
  let ?b = "snd (hbuf_clear B (n_bufs (rs_node s) (q_rep q)))"
  have st: "q' = q\<lparr>q_phase := Q_check\<rparr>" "n_req_ctx_count node' = n_req_ctx_count (rs_node s)"
    "n_io node' = n_io (rs_node s)" "n_req_ctx node' = (n_req_ctx (rs_node s))[q_slot (rs_node s) q := ?c]"
    "n_bufs node' = (n_bufs (rs_node s))(q_rep q := ?b)"
    using step True io by (auto simp: request_cas_def Let_def hio_write_def set_ctx_simps)
  have "c_mtx (q_ctx (rs_node s) q) = Some t" using holding_mtx [OF inv t] ph by simp
  moreover have "hbuf_wf ?b" "content ?b = []"
    using hbuf_lib.clear_law [OF B] rinvD(8) [OF inv t] by (simp_all add: req_reply_ok_def)
  ultimately show ?thesis
    using ph rinvD(8) [OF inv t] True
    by (intro rinv_slot_step [OF inv t, where c' = ?c]) (auto simp: st req_reply_ok_def)
qed

lemma rinv_check:
  assumes inv: "rinv s" and t: "rs_reqs s t = Some q" and ph: "q_phase q = Q_check"
    and step: "request_check (rs_node s) q = (node', q')"
  shows "rinv (s\<lparr>rs_node := node', rs_reqs := (rs_reqs s)(t \<mapsto> q')\<rparr>)"
proof -
  let ?c = "q_ctx (rs_node s) q"
  have mtx: "c_mtx ?c = Some t" using holding_mtx [OF inv t] ph by simp
  have own: "c_status ?c \<noteq> 0" "c_seq ?c = q_seq q" "c_rep ?c = q_rep q" using rinvD(5) [OF inv t] ph by simp_all
  have le: "c_status ?c \<le> 2" using rinvD(6) [OF inv rinvD(3) [OF inv], of q] by (simp add: q_ctx_def)
  show ?thesis
  proof (cases "c_status ?c = 1")
    case True
    then have st: "node' = set_ctx (rs_node s) q (?c\<lparr>c_mtx := None\<rparr>)" "q' = q\<lparr>q_phase := Q_waiting\<rparr>"
      using step by (auto simp: request_check_def)
    then show ?thesis
      using ph mtx own le rinvD(8) [OF inv t]
      by (intro rinv_slot_step [OF inv t, where c' = "?c\<lparr>c_mtx := None\<rparr>"])
        (auto simp: st set_ctx_simps req_reply_ok_def answered_def)
  next
    case False
    then have st: "node' = rs_node s" "q' = q\<lparr>q_phase := Q_exit\<rparr>"
      using step by (auto simp: request_check_def)
    have "c_status ?c = 2" using False own le by linarith
    then show ?thesis
      using ph mtx own rinvD(8) [OF inv t]
      by (intro rinv_slot_step [OF inv t, where c' = ?c])
        (auto simp: st req_reply_ok_def answered_def q_ctx_def)
  qed
qed

lemma rinv_wake:
  assumes inv: "rinv s" and t: "rs_reqs s t = Some q" and ph: "q_phase q = Q_waiting"
    and step: "request_wake t w (rs_node s) q = Some (node', q')"
  shows "rinv (s\<lparr>rs_node := node', rs_reqs := (rs_reqs s)(t \<mapsto> q')\<rparr>)"
proof -
  let ?c = "q_ctx (rs_node s) q"
  have mtx: "c_mtx ?c = None" and st: "node' = set_ctx (rs_node s) q (?c\<lparr>c_mtx := Some t\<rparr>)"
    "q' = q\<lparr>q_ret := w, q_phase := (if w \<noteq> 0 then Q_exit else Q_check)\<rparr>"
    using step by (auto simp: request_wake_def split: if_splits)
  have own: "c_status ?c \<noteq> 0" "c_seq ?c = q_seq q" "c_rep ?c = q_rep q" using rinvD(5) [OF inv t] ph by simp_all
  have le: "c_status ?c \<le> 2" using rinvD(6) [OF inv rinvD(3) [OF inv], of q] by (simp add: q_ctx_def)
  show ?thesis
    using ph mtx own le rinvD(8) [OF inv t]
    by (intro rinv_slot_step [OF inv t, where c' = "?c\<lparr>c_mtx := Some t\<rparr>"])
      (auto simp: st set_ctx_simps req_reply_ok_def answered_def)
qed

lemma rinv_exit:
  assumes inv: "rinv s" and t: "rs_reqs s t = Some q" and ph: "q_phase q = Q_exit"
    and step: "request_exit (rs_node s) q = (node', q')"
  shows "rinv (s\<lparr>rs_node := node', rs_reqs := (rs_reqs s)(t \<mapsto> q')\<rparr>)"
proof -
  let ?c = "q_ctx (rs_node s) q"
  have st: "node' = set_ctx (rs_node s) q (?c\<lparr>c_status := 0, c_mtx := None\<rparr>)"
    "q' = q\<lparr>q_phase := Q_return (if 110 = q_ret q then 3 else 0)\<rparr>"
    using step by (auto simp: request_exit_def)
  have mtx: "c_mtx ?c = Some t" using holding_mtx [OF inv t] ph by simp
  have own: "c_status ?c \<noteq> 0" using rinvD(5) [OF inv t] ph by simp
  have le: "c_status ?c \<le> 2" using rinvD(6) [OF inv rinvD(3) [OF inv], of q] by (simp add: q_ctx_def)
  have "c_status ?c = 1 \<or> c_status ?c = 2" using own le by linarith
  then show ?thesis
    using ph mtx rinvD(8) [OF inv t]
    by (intro rinv_slot_step [OF inv t, where c' = "?c\<lparr>c_status := 0, c_mtx := None\<rparr>"])
      (auto simp: st set_ctx_simps req_reply_ok_def answered_def)
qed

lemma rinv_request_step:
  assumes B: "hbuf_lib B" and inv: "rinv s" and t: "rs_reqs s t = Some q"
    and step: "request_step B t w (rs_node s) q = Some (node', q')"
  shows "rinv (s\<lparr>rs_node := node', rs_reqs := (rs_reqs s)(t \<mapsto> q')\<rparr>)"
  using rinv_fetch [OF inv t] rinv_trylock [OF inv t] rinv_cas [OF B inv t] rinv_check [OF inv t]
    rinv_wake [OF inv t] rinv_exit [OF inv t] step
  by (cases "q_phase q") (auto simp: request_step_def)

section \<open>Responses, calls and returns keep the invariant\<close>

lemma answered_mono: "answered seen buf q \<Longrightarrow> set seen \<subseteq> set seen' \<Longrightarrow> answered seen' buf q"
  by (auto simp: answered_def)

lemma req_reply_ok_mono:
  "req_reply_ok seen buf c q \<Longrightarrow> set seen \<subseteq> set seen' \<Longrightarrow> req_reply_ok seen' buf c q"
  unfolding req_reply_ok_def using answered_mono [of seen buf q seen'] by blast

text \<open>The response that is accepted: the one for the request that owns the slot.\<close>

lemma push_reply:
  assumes B: "hbuf_mem B" and b: "hbuf_wf b" "content b = []" and d: "length d \<le> 67108864"
  shows "hbuf_wf (snd (hbuf_push B b d))" "content (snd (hbuf_push B b d)) = d"
proof -
  have len: "b_len b = 0" using length_content [OF b(1)] b(2) by simp
  have "hbuf_wf (snd (hbuf_push B b d)) \<and> content (snd (hbuf_push B b d)) = d"
  proof (cases "d = []")
    case True
    then have "snd (hbuf_push B b d) = b"
      using hbuf_lib.push_nil_law [OF hbuf_mem.axioms(1) [OF B], of b] by simp
    then show ?thesis using b True by simp
  next
    case False
    then have "fst (hbuf_push B b d) = 0"
      using hbuf_mem.push_mem [OF B b(1) False] len d by (simp add: HBUF_LIMIT_def)
    then show ?thesis using hbuf_lib.push_law [OF hbuf_mem.axioms(1) [OF B] b(1) False] b(2) by simp
  qed
  then show "hbuf_wf (snd (hbuf_push B b d))" "content (snd (hbuf_push B b d)) = d" by simp_all
qed

lemma rinv_seen: "rinv s \<Longrightarrow> rinv (s\<lparr>rs_seen := rs_seen s @ [m]\<rparr>)"
proof -
  assume inv: "rinv s"
  then have "reply_inv (s\<lparr>rs_seen := rs_seen s @ [m]\<rparr>)"
    by (simp add: reply_inv_def req_reply_ok_mono [OF rinvD(8) [OF inv]] subset_insertI)
  moreover have "mutex_inv (s\<lparr>rs_seen := rs_seen s @ [m]\<rparr>) = mutex_inv s"
    "owner_inv (s\<lparr>rs_seen := rs_seen s @ [m]\<rparr>) = owner_inv s" "reps_inv (s\<lparr>rs_seen := rs_seen s @ [m]\<rparr>) = reps_inv s"
    "io_inv (s\<lparr>rs_seen := rs_seen s @ [m]\<rparr>) = io_inv s"
    by (simp_all add: mutex_inv_def owner_inv_def owns_def reps_inv_def io_inv_def io_holds_def)
  ultimately show ?thesis using inv by (simp add: rinv_def)
qed

text \<open>The I/O thread takes or releases the mutex of a slot.\<close>

lemma rinv_set_mtx:
  fixes s i m io
  defines "s' \<equiv> s\<lparr>rs_node := set_mtx i m (rs_node s), rs_io := io\<rparr>"
  assumes inv: "rinv s" and m: "mutex_inv s'" and io: "io_inv s'"
  shows "rinv s'"
proof -
  have slot: "q_slot (set_mtx i m (rs_node s)) q = q_slot (rs_node s) q" for q by (simp add: q_slot_def set_mtx_fields)
  have "owner_inv s'"
    using inv by (simp add: rinv_def owner_inv_def owns_def s'_def q_ctx_def slot set_mtx_fields set_mtx_ctx)
  moreover have "reply_inv s'"
    using inv by (simp add: rinv_def reply_inv_def req_reply_ok_def s'_def q_ctx_def slot set_mtx_fields set_mtx_ctx)
  ultimately show ?thesis
    using inv m io by (simp add: rinv_def slots_in_range_def reps_inv_def s'_def set_mtx_fields)
qed

lemma rinv_lock:
  assumes inv: "rinv s" and idle: "rs_io s = None" "rs_reqs s 0 = None"
    and free: "c_mtx (n_req_ctx (rs_node s) ! ctx_index (n_req_ctx_count (rs_node s)) (m_seq msg)) = None"
    and msg: "whole_payload msg" and step: "respond_lock (rs_node s) msg = Some node'"
  shows "rinv (s\<lparr>rs_node := node', rs_io := Some msg\<rparr>)"
proof -
  let ?n = "rs_node s" and ?i = "ctx_index (n_req_ctx_count (rs_node s)) (m_seq msg)"
  have node': "node' = set_mtx ?i (Some 0) ?n" using step by (auto simp: respond_lock_def Let_def split: if_splits)
  have slot: "q_slot (set_mtx i m ?n) q = q_slot ?n q" for i m q by (simp add: q_slot_def set_mtx_def)
  have "c_mtx (n_req_ctx (set_mtx ?i (Some 0) ?n) ! j) = Some t \<longleftrightarrow>
      (\<exists>q. rs_reqs s t = Some q \<and> holding (q_phase q) \<and> q_slot ?n q = j) \<or> t = 0 \<and> ?i = j"
    if j: "j < length (n_req_ctx ?n)" for j t
    using rinvD(4) [OF inv j, of t] free idle j by (auto simp: set_mtx_nth io_holds_def)
  then have "mutex_inv (s\<lparr>rs_node := set_mtx ?i (Some 0) ?n, rs_io := Some msg\<rparr>)"
    unfolding mutex_inv_def by (simp add: slot io_holds_def) (simp add: set_mtx_def)
  then show ?thesis
    unfolding node' using idle(2) msg by (intro rinv_set_mtx [OF inv]) (simp_all add: io_inv_def)
qed

lemma rinv_body:
  assumes B: "hbuf_mem B" and inv: "rinv s" and io: "rs_io s = Some msg"
    and step: "respond_body B (rs_node s) msg = Some node'"
  shows "rinv (s\<lparr>rs_node := node', rs_seen := rs_seen s @ [msg]\<rparr>)"
proof -
  let ?n = "rs_node s" and ?i = "ctx_index (n_req_ctx_count (rs_node s)) (m_seq msg)"
  let ?c = "n_req_ctx ?n ! ?i" and ?s = "s\<lparr>rs_seen := rs_seen s @ [msg]\<rparr>"
  have msg: "length (m_payload msg) = unat (m_payload_size msg)" "length (m_payload msg) \<le> 67108864"
    using rinvD(10) [OF inv io] by (simp_all add: whole_payload_def)
  have i: "?i < length (n_req_ctx ?n)" using rinvD(1) [OF inv] by (simp add: slots_in_range_def)
  have inv': "rinv ?s" by (rule rinv_seen [OF inv])
  show ?thesis
  proof (cases "c_status ?c = 1 \<and> m_seq msg = c_seq ?c")
    case False
    then have "node' = ?n" using step i by (auto simp: respond_body_def Let_def)
    then show ?thesis using inv' by simp
  next
    case True
    let ?b = "snd (hbuf_push B (n_bufs ?n (c_rep ?c)) (m_payload msg))"
    have node': "node' = ?n\<lparr>n_bufs := (n_bufs ?n)(c_rep ?c := ?b), n_req_ctx := (n_req_ctx ?n)[?i := ?c\<lparr>c_status := 2\<rparr>]\<rparr>"
      using step True i msg(1) by (simp add: respond_body_def Let_def)
    obtain t q where q: "rs_reqs s t = Some q" "owning (q_phase q)" "q_slot ?n q = ?i"
      using rinvD(7) [OF inv i] True by (auto simp: owns_def)
    have c: "q_ctx ?n q = ?c" using q(3) by (simp add: q_ctx_def)
    have own: "c_seq ?c = q_seq q" "c_rep ?c = q_rep q" using rinvD(5) [OF inv q(1,2)] c by simp_all
    have old: "hbuf_wf (n_bufs ?n (q_rep q))" "content (n_bufs ?n (q_rep q)) = []"
      using rinvD(8) [OF inv q(1)] c True q(2) by (simp_all add: req_reply_ok_def)
    have b: "hbuf_wf ?b" "content ?b = m_payload msg" using push_reply [OF B old msg(2)] own(2) by simp_all
    have "req_reply_ok (rs_seen s) (n_bufs ?n (q_rep q)) ?c q" using rinvD(8) [OF inv q(1)] c by simp
    then have R: "req_reply_ok (rs_seen ?s) (n_bufs node' (q_rep q)) (?c\<lparr>c_status := 2\<rparr>) q"
      using b own True q(2) by (auto simp: req_reply_ok_def answered_def node' owning_def)
    have "t \<noteq> 0" using rinvD(10) [OF inv io] q(1) by (cases "t = 0") auto
    have "rinv (?s\<lparr>rs_node := node', rs_reqs := (rs_reqs ?s)(t \<mapsto> q)\<rparr>)"
    proof (rule rinv_thread [OF inv', where i = ?i and c' = "?c\<lparr>c_status := 2\<rparr>"])
      show "req_reply_ok (rs_seen ?s) (n_bufs node' (q_rep q)) (?c\<lparr>c_status := 2\<rparr>) q" by (rule R)
      show "\<forall>u. c_mtx (?c\<lparr>c_status := 2\<rparr>) = Some u \<longleftrightarrow>
          (if u = t then holding (q_phase q) else c_mtx (n_req_ctx (rs_node ?s) ! ?i) = Some u)"
        using rinvD(4) [OF inv i, of t] q \<open>t \<noteq> 0\<close> by auto
    qed (use q own i in \<open>auto simp: node' q_slot_def\<close>)
    moreover have "?s\<lparr>rs_node := node', rs_reqs := (rs_reqs ?s)(t \<mapsto> q)\<rparr> =
        s\<lparr>rs_node := node', rs_seen := rs_seen s @ [msg]\<rparr>"
      using q(1) by (cases s) auto
    ultimately show ?thesis by simp
  qed
qed

lemma rinv_unlock:
  assumes inv: "rinv s" and io: "rs_io s = Some msg"
  shows "rinv (s\<lparr>rs_node := respond_unlock (rs_node s) msg, rs_io := None\<rparr>)"
proof -
  let ?n = "rs_node s" and ?i = "ctx_index (n_req_ctx_count (rs_node s)) (m_seq msg)"
  have idle: "rs_reqs s 0 = None" using rinvD(10) [OF inv io] by simp
  have i: "?i < length (n_req_ctx ?n)" using rinvD(1) [OF inv] by (simp add: slots_in_range_def)
  have held: "c_mtx (n_req_ctx ?n ! ?i) = Some 0" using rinvD(4) [OF inv i, of 0] io by (simp add: io_holds_def)
  have slot: "q_slot (set_mtx i m ?n) q = q_slot ?n q" for i m q by (simp add: q_slot_def set_mtx_def)
  have "c_mtx (n_req_ctx (set_mtx ?i None ?n) ! j) = Some t \<longleftrightarrow>
      (\<exists>q. rs_reqs s t = Some q \<and> holding (q_phase q) \<and> q_slot ?n q = j)"
    if j: "j < length (n_req_ctx ?n)" for j t
    using rinvD(4) [OF inv j, of t] held io idle j by (auto simp: set_mtx_nth io_holds_def)
  then have "mutex_inv (s\<lparr>rs_node := set_mtx ?i None ?n, rs_io := None\<rparr>)"
    unfolding mutex_inv_def by (simp add: slot io_holds_def) (simp add: set_mtx_def)
  then show ?thesis
    unfolding respond_unlock_def by (intro rinv_set_mtx [OF inv]) (simp_all add: io_inv_def)
qed

lemma rinv_respond:
  assumes B: "hbuf_mem B" and inv: "rinv s" and io: "rs_io s = Some msg"
    and step: "respond_body B (rs_node s) msg = Some node'"
  shows "rinv (s\<lparr>rs_node := respond_unlock node' msg, rs_io := None, rs_seen := rs_seen s @ [msg]\<rparr>)"
  using rinv_unlock [OF rinv_body [OF assms], of msg] io by (cases s) simp

lemma rinv_call:
  assumes inv: "rinv s" and t: "rs_reqs s t = None" and free: "t = 0 \<longrightarrow> rs_io s = None" and b: "hbuf_wf (n_bufs (rs_node s) rep)"
    and fresh: "\<forall>t' q. rs_reqs s t' = Some q \<longrightarrow> q_rep q \<noteq> rep"
  shows "rinv (s\<lparr>rs_reqs := (rs_reqs s)(t \<mapsto> new_req topic to data rep)\<rparr>)"
proof -
  let ?q = "new_req topic to data rep" and ?s = "s\<lparr>rs_reqs := (rs_reqs s)(t \<mapsto> new_req topic to data rep)\<rparr>"
  have ph: "q_phase ?q = Q_fetch" "q_rep ?q = rep" "q_ret ?q = 0" by (simp_all add: new_req_def)
  have owns: "owns ?s i u = owns s i u" for i u using t ph(1) by (auto simp: owns_def)
  have "mutex_inv ?s"
    unfolding mutex_inv_def using rinvD(4) [OF inv] t ph(1) by (auto simp: io_holds_def)
  moreover have "owner_inv ?s"
    unfolding owner_inv_def owns using rinvD(5,6,7) [OF inv] ph(1) by auto
  moreover have "reply_inv ?s"
    unfolding reply_inv_def using rinvD(8) [OF inv] ph b by (auto simp: req_reply_ok_def)
  moreover have "reps_inv ?s"
    unfolding reps_inv_def using rinvD(9) [OF inv] fresh ph(2) by auto
  moreover have "io_inv ?s" using inv free by (auto simp: rinv_def io_inv_def)
  ultimately show ?thesis using rinvD(1,2) [OF inv] by (simp add: rinv_def)
qed

lemma rinv_collect:
  assumes inv: "rinv s" and q: "rs_reqs s t = Some q" "q_phase q = Q_return r"
  shows "rinv (s\<lparr>rs_reqs := (rs_reqs s)(t := None)\<rparr>)"
proof -
  let ?s = "s\<lparr>rs_reqs := (rs_reqs s)(t := None)\<rparr>"
  have owns: "owns ?s i u = owns s i u" for i u using q by (auto simp: owns_def)
  have "mutex_inv ?s" unfolding mutex_inv_def using rinvD(4) [OF inv] q by (auto simp: io_holds_def)
  moreover have "owner_inv ?s" unfolding owner_inv_def owns using rinvD(5,6,7) [OF inv] by auto
  moreover have "reply_inv ?s" unfolding reply_inv_def using rinvD(8) [OF inv] by auto
  moreover have "reps_inv ?s" unfolding reps_inv_def using rinvD(9) [OF inv] by auto
  moreover have "io_inv ?s" using inv by (auto simp: rinv_def io_inv_def)
  ultimately show ?thesis using rinvD(1,2) [OF inv] by (simp add: rinv_def)
qed

lemma rinv_other:
  assumes inv: "rinv s" and same: "same_slots (rs_node s) node'"
  shows "rinv (s\<lparr>rs_node := node'\<rparr>)"
proof -
  have eq: "n_req_ctx node' = n_req_ctx (rs_node s)" "n_req_ctx_count node' = n_req_ctx_count (rs_node s)"
    "n_bufs node' = n_bufs (rs_node s)" "n_io node' \<noteq> None"
    using same by (simp_all add: same_slots_def)
  have "q_slot node' q = q_slot (rs_node s) q" "q_ctx node' q = q_ctx (rs_node s) q" for q
    by (simp_all add: q_slot_def q_ctx_def eq)
  then show ?thesis
    using inv eq by (simp add: rinv_def slots_in_range_def mutex_inv_def owner_inv_def owns_def reply_inv_def reps_inv_def
        io_inv_def io_holds_def)
qed

lemma rinv_start:
  assumes "node_ok node" "n_io node \<noteq> None" "\<forall>c \<in> set (n_req_ctx node). c = ctx_zero"
  shows "rinv \<lparr>rs_node = node, rs_reqs = (\<lambda>_. None), rs_io = None, rs_seen = []\<rparr>"
proof -
  have "n_req_ctx node ! i = ctx_zero" if "i < length (n_req_ctx node)" for i
    using assms(3) that nth_mem by blast
  then show ?thesis
    using assms(2) node_okD(3) [OF assms(1)]
    by (auto simp: rinv_def slots_in_range_def mutex_inv_def owner_inv_def reply_inv_def reps_inv_def owns_def ctx_zero_def
        io_inv_def io_holds_def)
qed

lemma rreach_rinv: "rreach B s \<Longrightarrow> hbuf_mem B \<Longrightarrow> rinv s"
proof (induction rule: rreach.induct)
  case (rstart node)
  then show ?case by (intro rinv_start)
next
  case (rnext s s')
  from rnext(2) rnext(3) [OF rnext(4)] show ?case
  proof cases
    case (call t rep topic to data)
    then show ?thesis using rinv_call [OF rnext(3) [OF rnext(4)]] by simp
  next
    case (step t q w node' q')
    then show ?thesis
      using rinv_request_step [OF hbuf_mem.axioms(1) [OF rnext(4)] rnext(3) [OF rnext(4)]] by simp
  next
    case (lock msg node')
    then show ?thesis using rinv_lock [OF rnext(3) [OF rnext(4)]] by simp
  next
    case (respond msg node')
    then show ?thesis using rinv_respond [OF rnext(4) rnext(3) [OF rnext(4)]] by simp
  next
    case (other node')
    then show ?thesis using rinv_other [OF rnext(3) [OF rnext(4)]] by simp
  next
    case (collect t q r)
    then show ?thesis using rinv_collect [OF rnext(3) [OF rnext(4)]] by simp
  qed
qed

end
