(* ===== verification/RequestProps.thy ===== *)
theory RequestProps
  imports Request NodeProps
begin

text \<open>
  The properties of requests: what a returned request says about its reply, exclusive use of the
  slots, refusals, progress, late responses and timeouts of two seconds and more.
\<close>

section \<open>What a step does\<close>

text \<open>The steps a request has left when no wait returns 0.\<close>

primrec rank :: "phase \<Rightarrow> nat" where
  "rank Q_fetch = 6"
| "rank Q_trylock = 5"
| "rank Q_cas = 4"
| "rank Q_check = 3"
| "rank Q_waiting = 2"
| "rank Q_exit = 1"
| "rank (Q_return r) = 0"

lemma cas_some:
  assumes "n_io node \<noteq> None"
  obtains node' q' where "request_cas B node q = Some (node', q')" "rank (q_phase q') < 4"
  using assms
  by (cases "c_status (q_ctx node q) = 0")
    (fastforce simp: request_cas_def Let_def hio_write_def set_ctx_def)+

lemma step_some:
  assumes io: "n_io node \<noteq> None" and ph: "\<forall>r. q_phase q \<noteq> Q_return r" and w: "w \<noteq> 0"
    and mtx: "q_phase q = Q_waiting \<longrightarrow> c_mtx (q_ctx node q) = None"
  shows "\<exists>node' q'. request_step B t w node q = Some (node', q') \<and> rank (q_phase q') < rank (q_phase q)"
proof (cases "q_phase q = Q_cas")
  case True
  obtain node' q' where "request_cas B node q = Some (node', q')" "rank (q_phase q') < 4" by (rule cas_some [OF io])
  then show ?thesis using True by (simp add: request_step_def)
next
  case False
  then show ?thesis
    using ph w mtx
    by (cases "q_phase q")
      (simp_all add: request_step_def request_fetch_def request_trylock_def request_check_def request_wake_def
        request_exit_def)
qed

text \<open>The step of the I/O thread inside \<^verbatim>\<open>hnode_on_respond\<close> always succeeds and frees its slot.\<close>

lemma respond_body_frame:
  assumes "slots_in_range node"
  obtains node' where "respond_body B node msg = Some node'" "n_req_ctx_count node' = n_req_ctx_count node"
    "length (n_req_ctx node') = length (n_req_ctx node)"
  using assms that
  by (cases "c_status (n_req_ctx node ! ctx_index (n_req_ctx_count node) (m_seq msg)) = 1 \<and>
      m_seq msg = c_seq (n_req_ctx node ! ctx_index (n_req_ctx_count node) (m_seq msg))")
    (auto simp: respond_body_def Let_def slots_in_range_def)

lemma respond_frees:
  assumes "slots_in_range node" and "ctx_index (n_req_ctx_count node) (m_seq msg) = q_slot node q"
  shows "\<exists>node'. respond_body B node msg = Some node' \<and> c_mtx (q_ctx (respond_unlock node' msg) q) = None"
proof -
  obtain node' where n: "respond_body B node msg = Some node'" "n_req_ctx_count node' = n_req_ctx_count node"
    "length (n_req_ctx node') = length (n_req_ctx node)"
    by (rule respond_body_frame [OF assms(1)])
  have "q_slot node q < length (n_req_ctx node)" using assms(1) by (simp add: slots_in_range_def q_slot_def)
  moreover have "q_slot (respond_unlock node' msg) q = q_slot node q"
    by (simp add: q_slot_def respond_unlock_def set_mtx_fields n(2))
  ultimately have "c_mtx (q_ctx (respond_unlock node' msg) q) = None"
    using assms(2) n(2,3) by (simp add: q_ctx_def respond_unlock_def set_mtx_nth)
  then show ?thesis using n(1) by blast
qed

section \<open>A run for the witnesses\<close>

text \<open>One request by thread 1 with reply buffer 0 on a started node, in slot 0.\<close>

definition ex_buf :: hbuf_t where
  "ex_buf = \<lparr>b_len = 0, b_size = 32, b_data = replicate 32 0\<rparr>"

definition exn :: "u32 \<Rightarrow> hrequest_ctx_t \<Rightarrow> hbuf_t \<Rightarrow> (nat \<times> bytes) list \<Rightarrow> hnode_t" where
  "exn a c b out = ex_started\<lparr>n_ato_req_seq := a, n_req_ctx := c # replicate 15 ctx_zero,
     n_bufs := (\<lambda>_. ex_buf)(0 := b), n_out := out\<rparr>"

definition exq :: "phase \<Rightarrow> int \<Rightarrow> req" where
  "exq ph ret = \<lparr>q_phase = ph, q_topic = 12, q_to = 2, q_req = [7], q_rep = 0, q_seq = 0, q_ret = ret\<rparr>"

definition exs :: "hnode_t \<Rightarrow> req \<Rightarrow> hmsg_t list \<Rightarrow> rsys" where
  "exs node q seen = \<lparr>rs_node = node, rs_reqs = [1 \<mapsto> q], rs_io = None, rs_seen = seen\<rparr>"

definition ex_ctx :: "nat option \<Rightarrow> nat \<Rightarrow> hrequest_ctx_t" where
  "ex_ctx m st = \<lparr>c_mtx = m, c_rep = 0, c_seq = 0, c_status = st\<rparr>"

definition ex_reply :: hmsg_t where
  "ex_reply = hnode_msg 0x12 12 2 5 0 [1, 2]"

definition ex_rep :: hbuf_t where
  "ex_rep = snd (hbuf_push hbuf_1g ex_buf [1, 2])"

definition ex_out :: "(nat \<times> bytes) list" where
  "ex_out = [(9, hmsg_bytes (hnode_msg 0x11 12 5 2 0 [7]))]"

lemma exq_fields:
  "q_phase (exq ph r) = ph" "q_topic (exq ph r) = 12" "q_to (exq ph r) = 2" "q_req (exq ph r) = [7]" "q_rep (exq ph r) = 0"
  "q_seq (exq ph r) = 0" "q_ret (exq ph r) = r" "(exq ph r)\<lparr>q_phase := ph'\<rparr> = exq ph' r"
  "(exq ph r)\<lparr>q_phase := ph', q_seq := 0\<rparr> = exq ph' r" "(exq ph r)\<lparr>q_phase := ph', q_ret := r'\<rparr> = exq ph' r'"
  by (simp_all add: exq_def)

lemma exn_fields:
  "n_req_ctx_count (exn a c b out) = 16" "n_id (exn a c b out) = 5" "n_io (exn a c b out) = Some 9"
  "n_req_ctx (exn a c b out) = c # replicate 15 ctx_zero" "n_bufs (exn a c b out) 0 = b" "n_ato_req_seq (exn a c b out) = a"
  "n_out (exn a c b out) = out" "q_slot (exn a c b out) (exq ph ret) = 0" "q_ctx (exn a c b out) (exq ph ret) = c"
  "set_ctx (exn a c b out) (exq ph ret) c' = exn a c' b out"
  "(exn a c b out)\<lparr>n_ato_req_seq := a'\<rparr> = exn a' c b out"
  "(exn a c b out)\<lparr>n_out := out'\<rparr> = exn a c b out'"
  "(exn a c b out)\<lparr>n_bufs := (n_bufs (exn a c b out))(0 := b')\<rparr> = exn a c b' out"
  by (simp_all add: exn_def ex_started_eq(1) ex_fresh_def hnode_init_def
      HC_GETMINPOW_done q_slot_def q_ctx_def set_ctx_def ctx_index_def exq_def)

lemma ex_begin: "rreach hbuf_1g (exs (exn 0 ctx_zero ex_buf []) (exq Q_fetch 0) [])"
proof -
  let ?n = "exn 0 ctx_zero ex_buf []"
  let ?s = "\<lparr>rs_node = ?n, rs_reqs = \<lambda>_. None, rs_io = None, rs_seen = []\<rparr>"
  have "node_ok ex_started" by (rule node_reachable_ok [OF ex_start(1)])
  then have "node_ok ?n"
    by (simp add: node_ok_def exn_def ex_started_eq(1) ex_fresh_def hnode_init_def
        HC_GETMINPOW_done)
  then have "rreach hbuf_1g ?s" by (rule rstart) (auto simp: exn_fields)
  then have "rreach hbuf_1g (?s\<lparr>rs_reqs := (rs_reqs ?s)(1 \<mapsto> new_req 12 2 [7] 0)\<rparr>)"
    by (rule rnext) (rule call, simp_all add: exn_fields ex_buf_def hbuf_wf_def)
  then show ?thesis by (simp add: exs_def exq_def new_req_def)
qed

lemma ex_step:
  assumes "rreach B (exs node q seen)" "request_step B 1 w node q = Some (node', q')"
  shows "rreach B (exs node' q' seen)"
  using rnext [OF assms(1) step [of "exs node q seen" 1 q B w node' q']] assms(2) by (simp add: exs_def)

lemma ex_clear: "snd (hbuf_clear hbuf_1g ex_buf) = ex_buf"
  by (simp add: hbuf_bounded_def ex_buf_def)

lemma ex_waits:
  "rreach hbuf_1g (exs (exn 1 (ex_ctx (Some 1) 1) ex_buf ex_out) (exq Q_check 0) [])"
  "rreach hbuf_1g (exs (exn 1 (ex_ctx None 1) ex_buf ex_out) (exq Q_waiting 0) [])"
proof -
  have "request_step hbuf_1g 1 0 (exn 0 ctx_zero ex_buf []) (exq Q_fetch 0) =
      Some (exn 1 ctx_zero ex_buf [], exq Q_trylock 0)"
    by (simp add: request_step_def request_fetch_def exn_fields exq_fields)
  note s1 = ex_step [OF ex_begin this]
  have "request_step hbuf_1g 1 0 (exn 1 ctx_zero ex_buf []) (exq Q_trylock 0) =
      Some (exn 1 (ex_ctx (Some 1) 0) ex_buf [], exq Q_cas 0)"
    by (simp add: request_step_def request_trylock_def exn_fields exq_fields) (simp add: ctx_zero_def ex_ctx_def)
  note s2 = ex_step [OF s1 this]
  have "request_step hbuf_1g 1 0 (exn 1 (ex_ctx (Some 1) 0) ex_buf []) (exq Q_cas 0) =
      Some (exn 1 (ex_ctx (Some 1) 1) ex_buf ex_out, exq Q_check 0)"
    by (simp add: request_step_def request_cas_def exn_fields exq_fields ex_clear hio_write_some ex_out_def
        HMSG_FLAGS_def ex_ctx_def)
  note s3 = ex_step [OF s2 this]
  then show "rreach hbuf_1g (exs (exn 1 (ex_ctx (Some 1) 1) ex_buf ex_out) (exq Q_check 0) [])" .
  have "request_step hbuf_1g 1 0 (exn 1 (ex_ctx (Some 1) 1) ex_buf ex_out) (exq Q_check 0) =
      Some (exn 1 (ex_ctx None 1) ex_buf ex_out, exq Q_waiting 0)"
    by (simp add: request_step_def request_check_def exn_fields exq_fields ex_ctx_def)
  then show "rreach hbuf_1g (exs (exn 1 (ex_ctx None 1) ex_buf ex_out) (exq Q_waiting 0) [])" by (rule ex_step [OF s3])
qed

lemma ex_reply_bytes: "length (m_payload ex_reply) = unat (m_payload_size ex_reply)" "m_seq ex_reply = 0"
  "m_payload ex_reply = [1, 2]" "m_payload_size ex_reply = 2"
  by (simp_all add: ex_reply_def hnode_msg_def)

lemma ex_unlock: "set_mtx 0 m (exn a (ex_ctx m' st) b out) = exn a (ex_ctx m st) b out"
  by (simp add: set_mtx_def exn_def ex_ctx_def)

lemma ex_body:
  "respond_body hbuf_1g (exn 1 (ex_ctx (Some 0) 1) ex_buf ex_out) ex_reply = Some (exn 1 (ex_ctx (Some 0) 2) ex_rep ex_out)"
proof -
  have "take (unat (m_payload_size ex_reply)) (m_payload ex_reply) = [1, 2]" by (simp add: ex_reply_def hnode_msg_def)
  moreover have "(exn a c b o')\<lparr>n_bufs := (n_bufs (exn a c b o'))(0 := b'), n_req_ctx := c' # replicate 15 ctx_zero\<rparr> = exn a c' b' o'"
    for a c b o' b' c' by (simp add: exn_def)
  ultimately show ?thesis
    by (simp add: respond_body_def Let_def exn_fields ex_reply_bytes(2) ctx_index_def ex_ctx_def ex_rep_def)
qed

lemma ex_respond:
  "hnode_on_respond hbuf_1g (exn 1 (ex_ctx None 1) ex_buf ex_out) ex_reply = Some (exn 1 (ex_ctx None 2) ex_rep ex_out)"
  using ex_body
  by (simp add: hnode_on_respond_def respond_lock_def respond_unlock_def Let_def exn_fields ex_reply_bytes(2) ctx_index_def
      ex_unlock)

text \<open>The I/O thread has taken the mutex for a response; then it has handled it.\<close>

lemma ex_locked: "rreach hbuf_1g ((exs (exn 1 (ex_ctx (Some 0) 1) ex_buf ex_out) (exq Q_waiting 0) [])\<lparr>rs_io := Some ex_reply\<rparr>)"
proof -
  let ?n = "exn 1 (ex_ctx None 1) ex_buf ex_out" and ?n' = "exn 1 (ex_ctx (Some 0) 1) ex_buf ex_out"
  let ?s = "exs ?n (exq Q_waiting 0) []"
  have "respond_lock ?n ex_reply = Some ?n'"
    by (simp add: respond_lock_def Let_def exn_fields ex_reply_bytes(2) ctx_index_def ex_unlock)
  then have "rstep hbuf_1g ?s (?s\<lparr>rs_node := ?n', rs_io := Some ex_reply\<rparr>)"
    by (intro lock) (simp_all add: exs_def exn_fields ex_reply_bytes whole_payload_def ctx_index_def ex_ctx_def)
  from rnext [OF ex_waits(2) this] show ?thesis by (simp add: exs_def)
qed

lemma ex_returned: "rreach hbuf_1g (exs (exn 1 (ex_ctx None 0) ex_rep ex_out) (exq (Q_return 0) 0) [ex_reply])"
proof -
  let ?n' = "exn 1 (ex_ctx None 2) ex_rep ex_out"
  let ?s = "(exs (exn 1 (ex_ctx (Some 0) 1) ex_buf ex_out) (exq Q_waiting 0) [])\<lparr>rs_io := Some ex_reply\<rparr>"
  have "respond_unlock (exn 1 (ex_ctx (Some 0) 2) ex_rep ex_out) ex_reply = ?n'"
    by (simp add: respond_unlock_def exn_fields ex_reply_bytes(2) ctx_index_def ex_unlock)
  then have "rstep hbuf_1g ?s (?s\<lparr>rs_node := ?n', rs_io := None, rs_seen := rs_seen ?s @ [ex_reply]\<rparr>)"
    using respond [of ?s ex_reply hbuf_1g "exn 1 (ex_ctx (Some 0) 2) ex_rep ex_out"] ex_body by (simp add: exs_def)
  from rnext [OF ex_locked this] have s1: "rreach hbuf_1g (exs ?n' (exq Q_waiting 0) [ex_reply])" by (simp add: exs_def)
  have "request_step hbuf_1g 1 0 ?n' (exq Q_waiting 0) = Some (exn 1 (ex_ctx (Some 1) 2) ex_rep ex_out, exq Q_check 0)"
    by (simp add: request_step_def request_wake_def exn_fields exq_fields ex_ctx_def)
  note s2 = ex_step [OF s1 this]
  have "request_step hbuf_1g 1 0 (exn 1 (ex_ctx (Some 1) 2) ex_rep ex_out) (exq Q_check 0) =
      Some (exn 1 (ex_ctx (Some 1) 2) ex_rep ex_out, exq Q_exit 0)"
    by (simp add: request_step_def request_check_def exn_fields exq_fields ex_ctx_def)
  note s3 = ex_step [OF s2 this]
  have "request_step hbuf_1g 1 0 (exn 1 (ex_ctx (Some 1) 2) ex_rep ex_out) (exq Q_exit 0) =
      Some (exn 1 (ex_ctx None 0) ex_rep ex_out, exq (Q_return 0) 0)"
    by (simp add: request_step_def request_exit_def exn_fields exq_fields ex_ctx_def)
  then show ?thesis by (rule ex_step [OF s3])
qed

text \<open>While thread 1 holds slot 0, sixteen more threads draw sequence numbers; the last one gets slot 0.\<close>

lemma ex_crowd:
  "\<exists>s. rreach hbuf_1g s \<and> rs_node s = exn (1 + of_nat k) (ex_ctx (Some 1) 1) ex_buf ex_out \<and>
    rs_reqs s 1 = Some (exq Q_check 0) \<and> (\<forall>t > k + 1. rs_reqs s t = None) \<and>
    (\<forall>t q. rs_reqs s t = Some q \<longrightarrow> q_rep q < k + 2) \<and>
    (0 < k \<longrightarrow> (\<exists>q. rs_reqs s (k + 1) = Some q \<and> q_phase q = Q_trylock \<and> q_seq q = of_nat k))"
proof (induction k)
  case 0
  show ?case
    by (rule exI [of _ "exs (exn 1 (ex_ctx (Some 1) 1) ex_buf ex_out) (exq Q_check 0) []"])
      (use ex_waits(1) in \<open>simp add: exs_def exq_fields\<close>)
next
  case (Suc k)
  then obtain s where s: "rreach hbuf_1g s" "rs_node s = exn (1 + of_nat k) (ex_ctx (Some 1) 1) ex_buf ex_out"
    "rs_reqs s 1 = Some (exq Q_check 0)" "\<forall>t > k + 1. rs_reqs s t = None" "\<forall>t q. rs_reqs s t = Some q \<longrightarrow> q_rep q < k + 2"
    by blast
  let ?q = "new_req 12 2 [7] (k + 2)"
  let ?s1 = "s\<lparr>rs_reqs := (rs_reqs s)(k + 2 \<mapsto> ?q)\<rparr>"
  have "hbuf_wf (n_bufs (rs_node s) (k + 2))" by (simp add: s(2) exn_def ex_buf_def hbuf_wf_def)
  moreover have "\<forall>t' q. rs_reqs s t' = Some q \<longrightarrow> q_rep q \<noteq> k + 2" using s(5) by fastforce
  ultimately have "rstep hbuf_1g s ?s1" using s(4) by (intro call) auto
  then have r1: "rreach hbuf_1g ?s1" by (rule rnext [OF s(1)])
  let ?q' = "?q\<lparr>q_seq := 1 + of_nat k, q_phase := Q_trylock\<rparr>"
  let ?n' = "exn (1 + of_nat (Suc k)) (ex_ctx (Some 1) 1) ex_buf ex_out"
  let ?s2 = "?s1\<lparr>rs_node := ?n', rs_reqs := (rs_reqs ?s1)(k + 2 \<mapsto> ?q')\<rparr>"
  have "request_step hbuf_1g (k + 2) 0 (rs_node ?s1) ?q = Some (?n', ?q')"
    by (simp add: request_step_def new_req_def request_fetch_def s(2) exn_fields add.commute)
  then have "rstep hbuf_1g ?s1 ?s2" by (intro step) simp_all
  then have "rreach hbuf_1g ?s2" by (rule rnext [OF r1])
  moreover have "q_rep q < Suc k + 2" if "rs_reqs ?s2 t = Some q" for t q
    using that s(5) by (auto simp: new_req_def split: if_splits dest: less_SucI)
  ultimately show ?case using s(3,4) by (intro exI [of _ ?s2]) (auto simp: new_req_def)
qed

section \<open>Returned requests\<close>

text \<open>C8: A request that returned OK has in its buffer exactly the payload of a response that carried its
  sequence number, or its wait failed with an error other than a timeout and the buffer is empty; a
  request that returned a timeout has an empty buffer or such a response. This holds for any number
  of concurrent requests and any order of responses, signals and failures of the wait.\<close>

theorem request_reply_is_own:
  assumes "hbuf_mem B" and "rreach B s" and "rs_reqs s t = Some q"
  shows "(q_phase q = Q_return 0 \<longrightarrow>
      (\<exists>m \<in> set (rs_seen s). m_seq m = q_seq q \<and> content (n_bufs (rs_node s) (q_rep q)) = m_payload m) \<or>
      q_ret q \<noteq> 0 \<and> q_ret q \<noteq> 110 \<and> content (n_bufs (rs_node s) (q_rep q)) = []) \<and>
    (q_phase q = Q_return 3 \<longrightarrow>
      (\<exists>m \<in> set (rs_seen s). m_seq m = q_seq q \<and> content (n_bufs (rs_node s) (q_rep q)) = m_payload m) \<or>
      content (n_bufs (rs_node s) (q_rep q)) = [])"
  using rinvD(8) [OF rreach_rinv [OF assms(2,1)] assms(3)] by (simp add: req_reply_ok_def answered_def)

theorem request_reply_is_own_witness:
  "content (n_bufs (exn 1 (ex_ctx None 0) ex_rep ex_out) 0) = [1, 2]"
  using request_reply_is_own [OF one_gib.hbuf_mem_axioms ex_returned, of 1 "exq (Q_return 0) 0"]
  by (simp add: exs_def exq_fields ex_reply_bytes)

text \<open>C22: At every moment a slot is used by at most one request, from its claim until its return, and the
  slot records that request's sequence number and buffer; a mutex is held by at most one request.\<close>

theorem slot_has_one_owner:
  assumes "hbuf_mem B" and "rreach B s" and "rs_reqs s t = Some q" and "owning (q_phase q)"
  shows "c_seq (q_ctx (rs_node s) q) = q_seq q \<and> c_rep (q_ctx (rs_node s) q) = q_rep q \<and>
    (\<forall>t' q'. rs_reqs s t' = Some q' \<and> q_slot (rs_node s) q' = q_slot (rs_node s) q \<and>
      (owning (q_phase q') \<or> holding (q_phase q) \<and> holding (q_phase q')) \<longrightarrow> t' = t)"
proof -
  have inv: "rinv s" by (rule rreach_rinv [OF assms(2,1)])
  have "t' = t" if c: "rs_reqs s t' = Some q'" "q_slot (rs_node s) q' = q_slot (rs_node s) q"
    "owning (q_phase q') \<or> holding (q_phase q) \<and> holding (q_phase q')" for t' q'
    using c(3)
  proof
    assume "owning (q_phase q')"
    then show ?thesis by (rule owner_unique [OF inv c(1) _ assms(3,4) c(2)])
  next
    assume h: "holding (q_phase q) \<and> holding (q_phase q')"
    have "c_mtx (q_ctx (rs_node s) q) = Some t" "c_mtx (q_ctx (rs_node s) q') = Some t'"
      using rinvD(3,4) [OF inv] h assms(3) c(1) by (auto simp: q_ctx_def)
    then show ?thesis using c(2) by (simp add: q_ctx_def)
  qed
  then show ?thesis using rinvD(5) [OF inv assms(3,4)] by blast
qed

theorem slot_has_one_owner_witness:
  "c_seq (q_ctx (exn 1 (ex_ctx None 1) ex_buf ex_out) (exq Q_waiting 0)) = q_seq (exq Q_waiting 0)"
  using slot_has_one_owner [OF one_gib.hbuf_mem_axioms ex_waits(2), of 1 "exq Q_waiting 0"]
  by (simp add: exs_def exq_fields)

text \<open>C23: A request is refused as busy only if at that moment another request holds or owns its slot, or
  the I/O thread holds the slot's mutex inside \<^verbatim>\<open>hnode_on_respond\<close>, handling a response whose sequence
  number selects the slot.\<close>

theorem busy_only_if_taken:
  assumes "hbuf_mem B" and "rreach B s" and "rs_reqs s t = Some q"
    and "request_step B t w (rs_node s) q = Some (node', q')" and "q_phase q' = Q_return 5"
  shows "(\<exists>t' p. t' \<noteq> t \<and> rs_reqs s t' = Some p \<and> (holding (q_phase p) \<or> owning (q_phase p)) \<and>
      q_slot (rs_node s) p = q_slot (rs_node s) q) \<or>
    (\<exists>msg. rs_io s = Some msg \<and> ctx_index (n_req_ctx_count (rs_node s)) (m_seq msg) = q_slot (rs_node s) q \<and>
      c_mtx (q_ctx (rs_node s) q) = Some IO_THREAD)"
proof -
  have inv: "rinv s" by (rule rreach_rinv [OF assms(2,1)])
  consider (lock) "q_phase q = Q_trylock" "c_mtx (q_ctx (rs_node s) q) \<noteq> None"
    | (cas) "q_phase q = Q_cas" "c_status (q_ctx (rs_node s) q) \<noteq> 0"
    using assms(4,5)
    by (cases "q_phase q")
      (auto simp: request_step_def request_fetch_def request_trylock_def request_cas_def request_check_def
        request_wake_def request_exit_def Let_def split: if_splits Option.bind_splits)
  then show ?thesis
  proof cases
    case lock
    then obtain t' where "c_mtx (q_ctx (rs_node s) q) = Some t'" by blast
    then consider p where "rs_reqs s t' = Some p" "holding (q_phase p)" "q_slot (rs_node s) p = q_slot (rs_node s) q"
      | msg where "rs_io s = Some msg" "ctx_index (n_req_ctx_count (rs_node s)) (m_seq msg) = q_slot (rs_node s) q"
        "c_mtx (q_ctx (rs_node s) q) = Some 0"
      using rinvD(4) [OF inv rinvD(3) [OF inv], of q t'] by (auto simp: q_ctx_def io_holds_def)
    then show ?thesis
    proof cases
      case (1 p)
      then show ?thesis using lock(1) assms(3) by (intro disjI1 exI [of _ t'] exI [of _ p]) auto
    qed blast
  next
    case cas
    then obtain t' p where "rs_reqs s t' = Some p" "owning (q_phase p)" "q_slot (rs_node s) p = q_slot (rs_node s) q"
      using rinvD(7) [OF inv rinvD(3) [OF inv], of q] by (auto simp: q_ctx_def owns_def)
    then show ?thesis using cas(1) assms(3) by (intro disjI1 exI [of _ t'] exI [of _ p]) auto
  qed
qed

theorem busy_only_if_taken_witness:
  "\<exists>s q msg. rreach hbuf_1g s \<and> rs_reqs s 17 = Some q \<and>
    request_step hbuf_1g 17 0 (rs_node s) q = Some (rs_node s, q\<lparr>q_phase := Q_return 5\<rparr>) \<and>
    ((\<exists>t' p. t' \<noteq> 17 \<and> rs_reqs s t' = Some p \<and> (holding (q_phase p) \<or> owning (q_phase p)) \<and>
      q_slot (rs_node s) p = q_slot (rs_node s) q) \<or>
    (\<exists>msg. rs_io s = Some msg \<and> ctx_index (n_req_ctx_count (rs_node s)) (m_seq msg) = q_slot (rs_node s) q \<and>
      c_mtx (q_ctx (rs_node s) q) = Some 0))"
proof -
  have "(0 :: nat) < 16" "(16 :: nat) + 1 = 17" by simp_all
  then obtain s q where s: "rreach hbuf_1g s" "rs_node s = exn (1 + of_nat 16) (ex_ctx (Some 1) 1) ex_buf ex_out"
    "rs_reqs s 17 = Some q" "q_phase q = Q_trylock" "q_seq q = of_nat 16"
    using ex_crowd [of 16] by metis
  have "c_mtx (q_ctx (rs_node s) q) = Some 1"
    by (simp add: q_ctx_def q_slot_def s exn_fields ctx_index_def ex_ctx_def)
  then have r: "request_step hbuf_1g 17 0 (rs_node s) q = Some (rs_node s, q\<lparr>q_phase := Q_return 5\<rparr>)"
    by (simp add: request_step_def request_trylock_def s(4))
  from busy_only_if_taken [OF one_gib.hbuf_mem_axioms s(1,3) this] show ?thesis using s(1,3) r by auto
qed

text \<open>C9: Requests never block each other for good: an unfinished request, or the one that holds the mutex
  it wakes up on, can take a step, and every step except a wait that returns 0 brings it closer to its
  return, at most six steps away; if instead the I/O thread holds that mutex, the I/O thread can take a
  step, after which the mutex is free.\<close>

theorem request_progress:
  assumes "hbuf_mem B" and "rreach B s" and "rs_reqs s t = Some q" and "\<forall>r. q_phase q \<noteq> Q_return r" and "w \<noteq> 0"
  shows "rank (q_phase q) \<le> 6 \<and> ((\<exists>t' p node' p'. rs_reqs s t' = Some p \<and> (t' = t \<or> q_phase q = Q_waiting \<and>
      holding (q_phase p) \<and> q_slot (rs_node s) p = q_slot (rs_node s) q) \<and>
    request_step B t' w (rs_node s) p = Some (node', p') \<and> rank (q_phase p') < rank (q_phase p)) \<or>
    q_phase q = Q_waiting \<and> (\<exists>msg node'. rs_io s = Some msg \<and> respond_body B (rs_node s) msg = Some node' \<and>
      c_mtx (q_ctx (respond_unlock node' msg) q) = None))"
proof (rule conjI)
  have inv: "rinv s" by (rule rreach_rinv [OF assms(2,1)])
  note io = rinvD(2) [OF inv]
  show "rank (q_phase q) \<le> 6" by (cases "q_phase q") simp_all
  show "(\<exists>t' p node' p'. rs_reqs s t' = Some p \<and> (t' = t \<or> q_phase q = Q_waiting \<and>
      holding (q_phase p) \<and> q_slot (rs_node s) p = q_slot (rs_node s) q) \<and>
    request_step B t' w (rs_node s) p = Some (node', p') \<and> rank (q_phase p') < rank (q_phase p)) \<or>
    q_phase q = Q_waiting \<and> (\<exists>msg node'. rs_io s = Some msg \<and> respond_body B (rs_node s) msg = Some node' \<and>
      c_mtx (q_ctx (respond_unlock node' msg) q) = None)"
  proof (cases "q_phase q = Q_waiting \<and> c_mtx (q_ctx (rs_node s) q) \<noteq> None")
    case True
    then obtain t' where "c_mtx (q_ctx (rs_node s) q) = Some t'" by blast
    then consider p where "rs_reqs s t' = Some p" "holding (q_phase p)" "q_slot (rs_node s) p = q_slot (rs_node s) q"
      | msg where "rs_io s = Some msg" "ctx_index (n_req_ctx_count (rs_node s)) (m_seq msg) = q_slot (rs_node s) q"
      using rinvD(4) [OF inv rinvD(3) [OF inv], of q t'] by (auto simp: q_ctx_def io_holds_def)
    then show ?thesis
    proof cases
      case (1 p)
      then have "\<forall>r. q_phase p \<noteq> Q_return r" "q_phase p = Q_waiting \<longrightarrow> c_mtx (q_ctx (rs_node s) p) = None" by auto
      then obtain node' p' where "request_step B t' w (rs_node s) p = Some (node', p')" "rank (q_phase p') < rank (q_phase p)"
        using step_some [OF io _ assms(5)] by blast
      then show ?thesis using 1 True by blast
    next
      case (2 msg)
      then show ?thesis using respond_frees [OF rinvD(1) [OF inv], of msg q B] True by blast
    qed
  next
    case False
    then have "q_phase q = Q_waiting \<longrightarrow> c_mtx (q_ctx (rs_node s) q) = None" by blast
    then obtain node' q' where "request_step B t w (rs_node s) q = Some (node', q')" "rank (q_phase q') < rank (q_phase q)"
      using step_some [OF io assms(4,5)] by blast
    then show ?thesis using assms(3) by blast
  qed
qed

theorem request_progress_witness:
  "\<exists>node' p'. request_step hbuf_1g 1 110 (exn 1 (ex_ctx None 1) ex_buf ex_out) (exq Q_waiting 0) = Some (node', p') \<and>
    rank (q_phase p') < rank Q_waiting"
  using request_progress [OF one_gib.hbuf_mem_axioms ex_waits(2), of 1 "exq Q_waiting 0" 110]
  by (auto simp: exs_def exq_fields split: if_splits)

text \<open>C24: A response changes no buffer but that of the request that is waiting for exactly its sequence
  number: responses that arrive after a timeout or for a reused slot touch nothing.\<close>

theorem late_response_harmless:
  assumes "hbuf_mem B" and "rreach B s" and "hnode_on_respond B (rs_node s) msg = Some node'"
    and "n_bufs node' rep \<noteq> n_bufs (rs_node s) rep"
  shows "\<exists>t q. rs_reqs s t = Some q \<and> owning (q_phase q) \<and> q_rep q = rep \<and> q_seq q = m_seq msg \<and>
    content (n_bufs (rs_node s) rep) = []"
proof -
  have inv: "rinv s" by (rule rreach_rinv [OF assms(2,1)])
  let ?n = "rs_node s"
  let ?i = "ctx_index (n_req_ctx_count ?n) (m_seq msg)"
  let ?c = "n_req_ctx ?n ! ?i"
  have i: "?i < length (n_req_ctx ?n)" and c: "c_status ?c = 1" "m_seq msg = c_seq ?c" "rep = c_rep ?c"
    using assms(3,4)
    by (auto simp: hnode_on_respond_def respond_lock_def respond_body_def respond_unlock_def Let_def set_mtx_fields
        set_mtx_ctx split: if_splits Option.bind_splits)
  then obtain t q where q: "rs_reqs s t = Some q" "owning (q_phase q)" "q_slot ?n q = ?i"
    using rinvD(7) [OF inv i] by (auto simp: owns_def)
  have ctx: "q_ctx ?n q = ?c" by (simp add: q_ctx_def q(3))
  have "q_seq q = m_seq msg" "q_rep q = rep" using rinvD(5) [OF inv q(1,2)] c unfolding ctx by metis+
  moreover have "content (n_bufs ?n rep) = []"
    using rinvD(8) [OF inv q(1)] q(2) c \<open>q_rep q = rep\<close> by (simp add: req_reply_ok_def ctx)
  ultimately show ?thesis using q by blast
qed

theorem late_response_harmless_witness:
  "\<exists>t q. rs_reqs (exs (exn 1 (ex_ctx None 1) ex_buf ex_out) (exq Q_waiting 0) []) t = Some q \<and> owning (q_phase q) \<and>
    q_rep q = 0 \<and> q_seq q = m_seq ex_reply"
proof -
  let ?s = "exs (exn 1 (ex_ctx None 1) ex_buf ex_out) (exq Q_waiting 0) []"
  obtain node' where n: "hnode_on_respond hbuf_1g (rs_node ?s) ex_reply = Some node'" "n_bufs node' 0 = ex_rep"
    using ex_respond by (simp add: exs_def exn_fields)
  have "ex_rep \<noteq> ex_buf" by (simp add: ex_rep_def ex_buf_def hbuf_bounded_def HBUF_LIMIT_def Let_def)
  then have "n_bufs node' 0 \<noteq> n_bufs (rs_node ?s) 0" by (simp add: n(2) exs_def exn_fields)
  from late_response_harmless [OF one_gib.hbuf_mem_axioms ex_waits(2) n(1) this] show ?thesis by auto
qed

section \<open>Timeouts of two seconds and more\<close>

text \<open>C25: A request with a timeout of 2000 ms or more is not served: the absolute time it computes is not
  normalised, \<^verbatim>\<open>pthread_cond_timedwait\<close> rejects such a time with \<^verbatim>\<open>EINVAL\<close>, and unless the response was
  already there the call returns OK at once with an empty reply. What \<^verbatim>\<open>pthread_cond_timedwait\<close> returns
  for a time is the parameter \<open>timedwait\<close>.\<close>

theorem long_timeout_returns_ok_empty:
  assumes "hbuf_mem B" and "rreach B s" and "rs_reqs s t = Some q" and "q_phase q = Q_check"
    and "c_status (q_ctx (rs_node s) q) = 1"
    and "hnode_request_begin r False self node topic timeout = Some (node', Inr tmo)" and "2000 \<le> timeout"
    and "0 \<le> tv_nsec now" and "tv_nsec now < 1000000000"
    and "\<forall>ts. 1000000000 \<le> tv_nsec ts \<longrightarrow> timedwait ts = 22"
  shows "\<exists>n1 q1 n2 q2 n3 q3. request_step B t (timedwait (hnode_time_offset now (int tmo))) (rs_node s) q = Some (n1, q1) \<and>
    request_step B t (timedwait (hnode_time_offset now (int tmo))) n1 q1 = Some (n2, q2) \<and>
    request_step B t (timedwait (hnode_time_offset now (int tmo))) n2 q2 = Some (n3, q3) \<and>
    q_phase q3 = Q_return 0 \<and> content (n_bufs n3 (q_rep q)) = []"
proof -
  have inv: "rinv s" by (rule rreach_rinv [OF assms(2,1)])
  have "2000 \<le> tmo"
    using assms(6,7) by (auto simp: hnode_request_begin_def split: if_splits Option.bind_splits)
  then have "1000000000 \<le> tv_nsec (hnode_time_offset now (int tmo))"
    using assms(8,9) by (auto simp: hnode_time_offset_def Let_def)
  then have w: "timedwait (hnode_time_offset now (int tmo)) = 22" using assms(10) by blast
  let ?n = "rs_node s" and ?c = "q_ctx (rs_node s) q"
  have slot: "q_slot ?n q < length (n_req_ctx ?n)" by (rule rinvD(3) [OF inv])
  have ctx: "q_ctx (set_ctx ?n q c) (q\<lparr>q_phase := ph\<rparr>) = c" for c ph
    using slot by (simp add: q_ctx_def set_ctx_def q_slot_def)
  have "content (n_bufs ?n (q_rep q)) = []"
    using rinvD(8) [OF inv assms(3)] assms(4,5) by (simp add: req_reply_ok_def)
  moreover have "n_bufs (set_ctx nd p c) = n_bufs nd" for nd p c by (simp add: set_ctx_def)
  ultimately show ?thesis
    unfolding w using assms(4,5)
    by (simp add: request_step_def request_check_def request_wake_def request_exit_def ctx)
qed

theorem long_timeout_returns_ok_empty_witness:
  "\<exists>n1 q1 n2 q2 n3 q3.
    request_step hbuf_1g 1 22 (exn 1 (ex_ctx (Some 1) 1) ex_buf ex_out) (exq Q_check 0) = Some (n1, q1) \<and>
    request_step hbuf_1g 1 22 n1 q1 = Some (n2, q2) \<and> request_step hbuf_1g 1 22 n2 q2 = Some (n3, q3) \<and>
    q_phase q3 = Q_return 0 \<and> content (n_bufs n3 0) = []"
proof -
  have "handler_for ex_node (sub_key 2 12) = None"
    by (simp add: ex_node_handlers) (simp add: sub_key_def topicex_inject)
  then obtain h g where "hnode_subscribe_i 1 ex_node 2 12 hnode_on_respond_fn 77 =
      Some (ex_node\<lparr>map_subpool := h, n_hash_seed := g, n_out := n_out ex_node @ [(9, hmsg_bytes (sub_msg ex_node 2 12))]\<rparr>, 0)"
    by (rule subscribe_new [OF node_reachable_ok [OF ex_node(1)] ex_node(2) _ ex_node_io, of 2 12 1 hnode_on_respond_fn 77]) auto
  then have b: "\<exists>nd. hnode_request_begin 1 False 77 ex_node 12 3000 = Some (nd, Inr 3000)"
    using ex_node(2) by (simp add: hnode_request_begin_def)
  then obtain nd where b: "hnode_request_begin 1 False 77 ex_node 12 3000 = Some (nd, Inr 3000)" ..
  show ?thesis
    using long_timeout_returns_ok_empty [OF one_gib.hbuf_mem_axioms ex_waits(1), of 1 "exq Q_check 0" 1 77 ex_node 12 3000 nd 3000
        "\<lparr>tv_sec = 5, tv_nsec = 0\<rparr>" "\<lambda>_. 22"] b
    by (simp add: exs_def exq_fields exn_fields ex_ctx_def)
qed

end
