(* ===== verification/Unpack.thy ===== *)
theory Unpack
  imports Hmsg
begin

text \<open>
  Framing of the byte streams between node and broker. TCP delivers bytes in pieces of any size;
  libhv cuts them into packages by the settings that \<^verbatim>\<open>hbus_unpack_setting_get\<close> (\<^verbatim>\<open>src/src/hbroker.c\<close>) and
  \<^verbatim>\<open>hnode_unpack_setting_get\<close> (\<^verbatim>\<open>src/src/hnode.c\<close>) install. The cutting itself is library code and a parameter,
  \<open>unpack\<close>: given the settings and the bytes received and not yet delivered, it returns the packages
  and the rest. Its laws are the documentation of \<^verbatim>\<open>unpack_setting_t\<close> in \<^verbatim>\<open>hv/hloop.h\<close>:
  a package is as long as its header says, \<^verbatim>\<open>package_len = head_len + body_len + length_adjustment\<close>,
  and an incomplete package waits for more bytes.
\<close>

section \<open>Settings\<close>

datatype unpack_mode_e = UNPACK_MODE_NONE | UNPACK_BY_FIXED_LENGTH | UNPACK_BY_DELIMITER | UNPACK_BY_LENGTH_FIELD

text \<open>The zero that \<^verbatim>\<open>memset\<close> leaves is none of the three codings.\<close>

datatype unpack_coding_e = CODING_ZERO | ENCODE_BY_VARINT | ENCODE_BY_LITTEL_ENDIAN | ENCODE_BY_BIG_ENDIAN

record unpack_setting_t =
  u_mode :: unpack_mode_e
  package_max_length :: u32
  body_offset :: u16
  length_field_offset :: u16
  length_field_bytes :: u16
  length_adjustment :: u16
  length_field_coding :: unpack_coding_e

definition unpack_zero :: unpack_setting_t where
  "unpack_zero = \<lparr>u_mode = UNPACK_MODE_NONE, package_max_length = 0, body_offset = 0, length_field_offset = 0,
     length_field_bytes = 0, length_adjustment = 0, length_field_coding = CODING_ZERO\<rparr>"

text \<open>The static variables \<^verbatim>\<open>flag_init\<close> and \<^verbatim>\<open>unpack_setting\<close>, updated, and the settings returned.\<close>

definition hbus_unpack_setting_get :: "int \<times> unpack_setting_t \<Rightarrow> (int \<times> unpack_setting_t) \<times> unpack_setting_t" where
  "hbus_unpack_setting_get st =
     (case st of (flag_init, unpack_setting) \<Rightarrow>
        if flag_init = 0 then
          let unpack_setting = unpack_zero\<lparr>package_max_length := 1024 * 1024, u_mode := UNPACK_BY_LENGTH_FIELD,
                length_field_offset := 28, length_field_bytes := 4,
                length_field_coding := ENCODE_BY_LITTEL_ENDIAN, body_offset := 32\<rparr>
          in ((1, unpack_setting), unpack_setting)
        else (st, unpack_setting))"

definition hnode_unpack_setting_get :: "int \<times> unpack_setting_t \<Rightarrow> (int \<times> unpack_setting_t) \<times> unpack_setting_t" where
  "hnode_unpack_setting_get st =
     (case st of (flag_init, unpack_setting) \<Rightarrow>
        if flag_init = 0 then
          let unpack_setting = unpack_zero\<lparr>package_max_length := 1024 * 1024, u_mode := UNPACK_BY_LENGTH_FIELD,
                length_field_offset := 28, length_field_bytes := 4,
                length_field_coding := ENCODE_BY_LITTEL_ENDIAN, body_offset := 32\<rparr>
          in ((1, unpack_setting), unpack_setting)
        else (st, unpack_setting))"

text \<open>The settings of the first call, which every later call returns.\<close>

definition hbus_setting :: unpack_setting_t where
  "hbus_setting = snd (hbus_unpack_setting_get (0, unpack_zero))"

lemma hbus_setting:
  "u_mode hbus_setting = UNPACK_BY_LENGTH_FIELD" "unat (package_max_length hbus_setting) = 1048576"
  "unat (body_offset hbus_setting) = 32" "unat (length_field_offset hbus_setting) = 28"
  "unat (length_field_bytes hbus_setting) = 4" "sint (length_adjustment hbus_setting) = 0"
  "length_field_coding hbus_setting = ENCODE_BY_LITTEL_ENDIAN"
  by (simp_all add: hbus_setting_def hbus_unpack_setting_get_def unpack_zero_def Let_def)

lemma setting_once:
  "hbus_unpack_setting_get (fst (hbus_unpack_setting_get (0, x))) = (fst (hbus_unpack_setting_get (0, x)), hbus_setting)"
  "hnode_unpack_setting_get (fst (hnode_unpack_setting_get (0, x))) = (fst (hnode_unpack_setting_get (0, x)), hbus_setting)"
  "snd (hnode_unpack_setting_get (0, x)) = hbus_setting"
  by (simp_all add: hbus_setting_def hbus_unpack_setting_get_def hnode_unpack_setting_get_def Let_def)

section \<open>The documented length of a package\<close>

definition body_len :: "unpack_setting_t \<Rightarrow> bytes \<Rightarrow> nat" where
  "body_len st s =
     (let f = field (unat (length_field_offset st)) (unat (length_field_bytes st)) s in
      if length_field_coding st = ENCODE_BY_BIG_ENDIAN then le_decode (rev f) else le_decode f)"

definition package_len :: "unpack_setting_t \<Rightarrow> bytes \<Rightarrow> int" where
  "package_len st s = int (unat (body_offset st)) + int (body_len st s) + sint (length_adjustment st)"

text \<open>\<open>unpack\<close> cuts a complete package off, and waits when the head or the body is incomplete.\<close>

locale unpacker =
  fixes unpack :: "unpack_setting_t \<Rightarrow> bytes \<Rightarrow> bytes list \<times> bytes"
  assumes package_law: "u_mode st = UNPACK_BY_LENGTH_FIELD \<Longrightarrow> length_field_coding st \<noteq> ENCODE_BY_VARINT \<Longrightarrow>
      unat (body_offset st) \<le> length s \<Longrightarrow> package_len st s = int n \<Longrightarrow> 0 < n \<Longrightarrow> n \<le> length s \<Longrightarrow>
      n \<le> unat (package_max_length st) \<Longrightarrow>
      unpack st s = (take n s # fst (unpack st (drop n s)), snd (unpack st (drop n s)))"
    and head_law: "u_mode st = UNPACK_BY_LENGTH_FIELD \<Longrightarrow> length s < unat (body_offset st) \<Longrightarrow> unpack st s = ([], s)"
    and wait_law: "u_mode st = UNPACK_BY_LENGTH_FIELD \<Longrightarrow> length_field_coding st \<noteq> ENCODE_BY_VARINT \<Longrightarrow>
      unat (body_offset st) \<le> length s \<Longrightarrow> int (length s) < package_len st s \<Longrightarrow>
      package_len st s \<le> int (unat (package_max_length st)) \<Longrightarrow> unpack st s = ([], s)"

section \<open>Messages as packages\<close>

text \<open>A message whose length field is right and that fits the settings.\<close>

definition framed :: "hmsg_t \<Rightarrow> bool" where
  "framed m \<longleftrightarrow> unat (m_payload_size m) = length (m_payload m) \<and> 32 + length (m_payload m) \<le> 1048576"

lemma body_len_hmsg:
  assumes "32 \<le> length s"
  shows "body_len hbus_setting s = unat (m_payload_size (hmsg_of_bytes s))"
proof -
  have "length (field 28 4 s) = 4" using assms by (simp add: field_def)
  then have "le_decode (field 28 4 s) < 4294967296" using le_decode_less [of "field 28 4 s"] by simp
  then show ?thesis
    by (simp add: body_len_def hbus_setting Let_def hmsg_of_bytes_def dec32_def unat_of_nat)
qed

lemma package_len_hmsg:
  assumes "32 \<le> length s"
  shows "package_len hbus_setting s = 32 + int (unat (m_payload_size (hmsg_of_bytes s)))"
  using body_len_hmsg [OF assms] by (simp add: package_len_def hbus_setting)

lemma package_len_prefix:
  assumes "32 \<le> length s" "s @ u = hmsg_bytes m @ r"
  shows "package_len hbus_setting s = 32 + int (unat (m_payload_size m))"
proof -
  have "field 28 4 (s @ u) = field 28 4 s" using assms(1) by (simp add: field_def)
  then have "field 28 4 s = field 28 4 (hmsg_bytes m @ r)" by (simp add: assms(2))
  moreover have "field 28 4 (hmsg_bytes m @ r) = field 28 4 (hmsg_bytes m)"
    by (simp add: field_def length_hmsg_bytes)
  ultimately have "body_len hbus_setting s = body_len hbus_setting (hmsg_bytes m)"
    by (simp add: body_len_def hbus_setting)
  then show ?thesis
    using body_len_hmsg [of "hmsg_bytes m"]
    by (simp add: package_len_def hbus_setting length_hmsg_bytes hmsg_roundtrip)
qed

lemma framed_uint: "framed m \<Longrightarrow> uint (m_payload_size m) = int (length (m_payload m))"
  by (metis framed_def uint_nat)

section \<open>Streams of messages\<close>

definition stream :: "hmsg_t list \<Rightarrow> bytes" where
  "stream ms = concat (map hmsg_bytes ms)"

text \<open>\<open>s\<close> is the incomplete beginning of the first message of \<open>ms\<close>, or the end of the stream is reached.\<close>

definition partial :: "bytes \<Rightarrow> hmsg_t list \<Rightarrow> bool" where
  "partial s ms \<longleftrightarrow> (case ms of [] \<Rightarrow> s = [] | m # _ \<Rightarrow> length s < length (hmsg_bytes m))"

lemma stream_simps [simp]: "stream [] = []" "stream (m # ms) = hmsg_bytes m @ stream ms"
  by (simp_all add: stream_def)

lemma stream_cut:
  assumes "s @ u = stream ms"
  obtains ms1 ms2 rest where "ms = ms1 @ ms2" "s = stream ms1 @ rest" "rest @ u = stream ms2" "partial rest ms2"
  using assms
proof (induction ms arbitrary: s thesis)
  case Nil
  then show ?case using Nil(1) [of "[]" "[]" "[]"] by (simp add: partial_def)
next
  case (Cons m ms)
  show ?case
  proof (cases "length s < length (hmsg_bytes m)")
    case True
    then show ?thesis using Cons.prems(1) [of "[]" "m # ms" s] Cons.prems(2) by (simp add: partial_def)
  next
    case False
    let ?n = "length (hmsg_bytes m)"
    obtain s' where s: "s = hmsg_bytes m @ s'" "s' @ u = stream ms"
    proof
      have "take ?n (s @ u) = hmsg_bytes m" "drop ?n (s @ u) = stream ms" using Cons.prems(2) by simp_all
      then have "take ?n s = hmsg_bytes m" "drop ?n s @ u = stream ms" using False by simp_all
      then show "s = hmsg_bytes m @ drop ?n s" "drop ?n s @ u = stream ms" by (metis append_take_drop_id, simp)
    qed
    show ?thesis
    proof (rule Cons.IH [OF _ s(2)])
      fix ms1 ms2 rest
      assume "ms = ms1 @ ms2" "s' = stream ms1 @ rest" "rest @ u = stream ms2" "partial rest ms2"
      then show thesis using Cons.prems(1) [of "m # ms1" ms2 rest] s(1) by simp
    qed
  qed
qed

text \<open>Delivery of the stream in pieces: the rest of the previous piece is prepended to the next.\<close>

fun receive :: "(unpack_setting_t \<Rightarrow> bytes \<Rightarrow> bytes list \<times> bytes) \<Rightarrow> unpack_setting_t \<Rightarrow> bytes \<Rightarrow> bytes list \<Rightarrow>
    bytes list \<times> bytes" where
  "receive unpack st buf [] = ([], buf)"
| "receive unpack st buf (c # cs) =
     (let (ps, rest) = unpack st (buf @ c); (qs, rest') = receive unpack st rest cs in (ps @ qs, rest'))"

context unpacker
begin

lemma unpack_partial:
  assumes "partial s ms" "s @ u = stream ms" "\<forall>m \<in> set ms. framed m"
  shows "unpack hbus_setting s = ([], s)"
proof (cases "length s < 32")
  case True
  then show ?thesis by (intro head_law) (simp_all add: hbus_setting)
next
  case False
  then obtain m ms' where ms: "ms = m # ms'" using assms(1) by (cases ms) (auto simp: partial_def)
  have fr: "framed m" using assms(3) ms by simp
  have "package_len hbus_setting s = 32 + int (length (m_payload m))"
    using package_len_prefix [of s u m "stream ms'"] False assms(2) ms framed_uint [OF fr] by simp
  moreover have "length s < 32 + length (m_payload m)" "32 + length (m_payload m) \<le> 1048576"
    using assms(1) ms fr by (simp_all add: partial_def framed_def length_hmsg_bytes)
  ultimately show ?thesis
    using False by (intro wait_law) (simp_all add: hbus_setting)
qed

lemma unpack_stream:
  assumes "\<forall>m \<in> set (ms1 @ ms2). framed m" "partial rest ms2" "rest @ u = stream ms2"
  shows "unpack hbus_setting (stream ms1 @ rest) = (map hmsg_bytes ms1, rest)"
  using assms(1)
proof (induction ms1)
  case Nil
  then show ?case using unpack_partial [OF assms(2,3)] by simp
next
  case (Cons m ms1)
  let ?s = "hmsg_bytes m @ stream ms1 @ rest"
  have len: "length (hmsg_bytes m) = 32 + unat (m_payload_size m)" "32 + unat (m_payload_size m) \<le> 1048576"
    using Cons.prems by (simp_all add: framed_def length_hmsg_bytes)
  have "package_len hbus_setting ?s = 32 + int (unat (m_payload_size m))"
    by (rule package_len_prefix [of _ "[]" _ "stream ms1 @ rest"]) (simp_all add: length_hmsg_bytes)
  then have "unpack hbus_setting ?s = (take (32 + unat (m_payload_size m)) ?s #
      fst (unpack hbus_setting (drop (32 + unat (m_payload_size m)) ?s)),
      snd (unpack hbus_setting (drop (32 + unat (m_payload_size m)) ?s)))"
    using len by (intro package_law) (simp_all add: hbus_setting uint_nat [symmetric])
  then show ?case using Cons len(1) by simp
qed

lemma receive_stream:
  assumes "buf @ concat cs = stream ms" "partial buf ms" "\<forall>m \<in> set ms. framed m"
  shows "receive unpack hbus_setting buf cs = (map hmsg_bytes ms, [])"
  using assms
proof (induction cs arbitrary: buf ms)
  case Nil
  then show ?case by (cases ms) (simp_all add: partial_def)
next
  case (Cons c cs)
  have "(buf @ c) @ concat cs = stream ms" using Cons.prems(1) by simp
  then obtain ms1 ms2 rest where ms: "ms = ms1 @ ms2" "buf @ c = stream ms1 @ rest" "rest @ concat cs = stream ms2"
    "partial rest ms2" by (rule stream_cut)
  have "unpack hbus_setting (buf @ c) = (map hmsg_bytes ms1, rest)"
    unfolding ms(2) using Cons.prems(3) ms by (intro unpack_stream) auto
  moreover have "receive unpack hbus_setting rest cs = (map hmsg_bytes ms2, [])"
    using Cons.IH [OF ms(3,4)] Cons.prems(3) ms(1) by auto
  ultimately show ?case using ms(1) by simp
qed

end

section \<open>An implementation of the documented behaviour\<close>

function cut :: "unpack_setting_t \<Rightarrow> bytes \<Rightarrow> bytes list \<times> bytes" where
  "cut st s =
     (if u_mode st = UNPACK_BY_LENGTH_FIELD \<and> unat (body_offset st) \<le> length s \<and> 0 < package_len st s \<and>
         package_len st s \<le> int (length s) \<and> nat (package_len st s) \<le> unat (package_max_length st)
      then let n = nat (package_len st s) in (take n s # fst (cut st (drop n s)), snd (cut st (drop n s)))
      else ([], s))"
  by pat_completeness auto
termination
  by (relation "measure (length \<circ> snd)") auto

declare cut.simps [simp del]

interpretation cut: unpacker cut
proof (unfold_locales, goal_cases)
  case (1 st s n)
  then show ?case by (subst cut.simps) (simp add: Let_def)
next
  case (2 st s)
  then show ?case by (subst cut.simps) simp
next
  case (3 st s)
  then show ?case by (subst cut.simps) simp
qed

section \<open>Properties\<close>

text \<open>C10: However TCP splits a stream of messages of at most 1 MiB each into pieces, the packages that libhv
  hands to the read callbacks of node and broker under the settings of hbus are exactly the messages,
  in order, with nothing left over; both sides install the same settings, on every call.\<close>

theorem packages_are_messages:
  assumes "unpacker unpack" and "\<forall>m \<in> set ms. framed m" and "concat pieces = stream ms"
  shows "receive unpack (snd (hbus_unpack_setting_get (0, x))) [] pieces = (map hmsg_bytes ms, []) \<and>
    receive unpack (snd (hnode_unpack_setting_get (0, x))) [] pieces = (map hmsg_bytes ms, []) \<and>
    snd (hbus_unpack_setting_get (fst (hbus_unpack_setting_get (0, x)))) = snd (hbus_unpack_setting_get (0, x))"
proof -
  have "partial [] ms" by (cases ms) (simp_all add: partial_def length_hmsg_bytes)
  then have "receive unpack hbus_setting [] pieces = (map hmsg_bytes ms, [])"
    using unpacker.receive_stream [OF assms(1), of "[]" pieces ms] assms(2,3) by simp
  moreover have "snd (hbus_unpack_setting_get (0, x)) = hbus_setting"
    by (simp add: hbus_setting_def hbus_unpack_setting_get_def Let_def)
  ultimately show ?thesis using setting_once [of x] by simp
qed

theorem packages_are_messages_witness:
  "receive cut (snd (hbus_unpack_setting_get (0, unpack_zero))) []
     [take 5 (hmsg_bytes hmsg_zero), drop 5 (hmsg_bytes hmsg_zero)] = ([hmsg_bytes hmsg_zero], [])"
  using packages_are_messages [OF cut.unpacker_axioms, of "[hmsg_zero]"
      "[take 5 (hmsg_bytes hmsg_zero), drop 5 (hmsg_bytes hmsg_zero)]"]
  by (simp add: framed_def hmsg_zero_def)

text \<open>C26: The limits disagree: a message between 1 MiB and 64 MiB passes the header check of both sides and
  is longer than the largest package that the settings let through.\<close>

theorem large_valid_messages_exceed_package:
  assumes "m_magic m = 0x55AA" and "unat (m_payload_size m) = length (m_payload m)"
    and "1048576 < length (hmsg_bytes m)" and "length (hmsg_bytes m) \<le> 67108864"
  shows "HMSG_HEAD_VALID m (int (length (hmsg_bytes m))) \<and>
    int (unat (package_max_length hbus_setting)) < package_len hbus_setting (hmsg_bytes m)"
proof
  show "HMSG_HEAD_VALID m (int (length (hmsg_bytes m)))"
    using assms by (subst head_valid_iff) (auto simp: length_hmsg_bytes)
  show "int (unat (package_max_length hbus_setting)) < package_len hbus_setting (hmsg_bytes m)"
    using assms(2,3) package_len_hmsg [of "hmsg_bytes m"] by (simp add: hbus_setting hmsg_roundtrip length_hmsg_bytes)
qed

theorem large_valid_messages_exceed_package_witness:
  "HMSG_HEAD_VALID (hmsg_zero\<lparr>m_magic := 0x55AA, m_payload_size := 2097152, m_payload := replicate 2097152 0\<rparr>) 2097184"
  using large_valid_messages_exceed_package
    [of "hmsg_zero\<lparr>m_magic := 0x55AA, m_payload_size := 2097152, m_payload := replicate 2097152 0\<rparr>"]
  by (simp add: length_hmsg_bytes)

end
