(* ===== verification/JsonLexer.thy ===== *)
theory JsonLexer
  imports HbusPrelude
begin

text \<open>
  The lexical scanner of the JSON library that ships with libhv, class \<^verbatim>\<open>lexer\<close> of \<^verbatim>\<open>hv/json.hpp\<close>: input
  management (get, unget, positions), string literals with escapes and UTF-8 checks, numbers, literals,
  comments, the byte order mark, and the dispatch on the first character of a token.

  A character is an integer as in the source: a byte, or \<open>-1\<close> at the end of the input. The input
  adapter is the list of bytes not yet read. Floating-point numbers are of an arbitrary type, and the
  conversion \<^verbatim>\<open>strtod\<close> of the C library is the parameter \<open>strtof\<close>.
\<close>

section \<open>State\<close>

datatype token_type =
  uninitialized | literal_true | literal_false | literal_null | value_string | value_unsigned_tok |
  value_integer_tok | value_float_tok | begin_array | begin_object | end_array | end_object |
  name_separator | value_separator | parse_error | end_of_input | literal_or_value

text \<open>The texts of \<^verbatim>\<open>error_message\<close>.\<close>

datatype lex_error =
  no_error | missing_closing_quote | expected_4_hex_digits | high_surrogate_needs_low |
  low_surrogate_needs_high | forbidden_after_backslash | control_character int | ill_formed_utf8 |
  comment_not_closed | comment_unexpected | digit_after_minus | digit_after_point |
  digit_or_sign_after_exponent | digit_after_exponent_sign | invalid_literal | invalid_bom

record 'f lexer =
  ia :: bytes
  ignore_comments :: bool
  current :: int
  next_unget :: bool
  chars_read_total :: nat
  chars_read_current_line :: nat
  lines_read :: nat
  token_string :: bytes
  token_buffer :: bytes
  error_message :: lex_error
  value_integer :: u64
  value_unsigned :: u64
  value_float :: 'f
  decimal_point_char :: int
  decimal_point_position :: "nat option"

abbreviation (input) EOF :: int where "EOF \<equiv> -1"

definition lexer_init :: "bytes \<Rightarrow> bool \<Rightarrow> int \<Rightarrow> 'f \<Rightarrow> 'f lexer" where
  "lexer_init adapter ic point zero =
     \<lparr>ia = adapter, ignore_comments = ic, current = EOF, next_unget = False, chars_read_total = 0,
      chars_read_current_line = 0, lines_read = 0, token_string = [], token_buffer = [], error_message = no_error,
      value_integer = 0, value_unsigned = 0, value_float = zero, decimal_point_char = point,
      decimal_point_position = None\<rparr>"

section \<open>Input management\<close>

text \<open>\<^verbatim>\<open>get_character\<close> of the iterator input adapter.\<close>

definition get_character :: "bytes \<Rightarrow> int \<times> bytes" where
  "get_character s = (case s of [] \<Rightarrow> (EOF, []) | b # bs \<Rightarrow> (uint b, bs))"

text \<open>\<^verbatim>\<open>get\<close> and \<^verbatim>\<open>unget\<close>, one definition per statement.\<close>

definition read_char :: "'f lexer \<Rightarrow> 'f lexer" where
  "read_char L =
     (if next_unget L then L\<lparr>next_unget := False\<rparr>
      else L\<lparr>current := fst (get_character (ia L)), ia := snd (get_character (ia L))\<rparr>)"

definition push_token :: "'f lexer \<Rightarrow> 'f lexer" where
  "push_token L = (if current L \<noteq> EOF then L\<lparr>token_string := token_string L @ [word_of_int (current L)]\<rparr> else L)"

definition count_line :: "'f lexer \<Rightarrow> 'f lexer" where
  "count_line L = (if current L = 0x0A then L\<lparr>lines_read := lines_read L + 1, chars_read_current_line := 0\<rparr> else L)"

definition lex_get :: "'f lexer \<Rightarrow> 'f lexer" where
  "lex_get L = count_line (push_token (read_char
     (L\<lparr>chars_read_total := chars_read_total L + 1, chars_read_current_line := chars_read_current_line L + 1\<rparr>)))"

definition uncount_line :: "'f lexer \<Rightarrow> 'f lexer" where
  "uncount_line L =
     (if chars_read_current_line L = 0 then (if 0 < lines_read L then L\<lparr>lines_read := lines_read L - 1\<rparr> else L)
      else L\<lparr>chars_read_current_line := chars_read_current_line L - 1\<rparr>)"

definition pop_token :: "'f lexer \<Rightarrow> 'f lexer" where
  "pop_token L = (if current L \<noteq> EOF then L\<lparr>token_string := butlast (token_string L)\<rparr> else L)"

definition lex_unget :: "'f lexer \<Rightarrow> 'f lexer" where
  "lex_unget L = pop_token (uncount_line (L\<lparr>next_unget := True, chars_read_total := chars_read_total L - 1\<rparr>))"

definition lex_add :: "int \<Rightarrow> 'f lexer \<Rightarrow> 'f lexer" where
  "lex_add c L = L\<lparr>token_buffer := token_buffer L @ [word_of_int c]\<rparr>"

definition lex_reset :: "'f lexer \<Rightarrow> 'f lexer" where
  "lex_reset L = L\<lparr>token_buffer := [], token_string := [word_of_int (current L)], decimal_point_position := None\<rparr>"

definition lex_fail :: "lex_error \<Rightarrow> 'f lexer \<Rightarrow> 'f lexer" where
  "lex_fail e L = L\<lparr>error_message := e\<rparr>"

text \<open>What is left to read; a character that was put back counts.\<close>

definition lex_left :: "'f lexer \<Rightarrow> nat" where
  "lex_left L = length (ia L) + (if next_unget L \<and> current L \<noteq> EOF then 1 else 0)"

lemma push_token_fields [simp]:
  "ia (push_token L) = ia L"
  "current (push_token L) = current L"
  "next_unget (push_token L) = next_unget L"
  "token_buffer (push_token L) = token_buffer L"
  "chars_read_total (push_token L) = chars_read_total L"
  "ignore_comments (push_token L) = ignore_comments L"
  "decimal_point_char (push_token L) = decimal_point_char L"
  "decimal_point_position (push_token L) = decimal_point_position L"
  "value_integer (push_token L) = value_integer L"
  "value_unsigned (push_token L) = value_unsigned L"
  "value_float (push_token L) = value_float L"
  "error_message (push_token L) = error_message L"
  by (simp_all add: push_token_def)

lemma count_line_fields [simp]:
  "ia (count_line L) = ia L"
  "current (count_line L) = current L"
  "next_unget (count_line L) = next_unget L"
  "token_buffer (count_line L) = token_buffer L"
  "chars_read_total (count_line L) = chars_read_total L"
  "ignore_comments (count_line L) = ignore_comments L"
  "decimal_point_char (count_line L) = decimal_point_char L"
  "decimal_point_position (count_line L) = decimal_point_position L"
  "value_integer (count_line L) = value_integer L"
  "value_unsigned (count_line L) = value_unsigned L"
  "value_float (count_line L) = value_float L"
  "error_message (count_line L) = error_message L"
  by (simp_all add: count_line_def)

lemma uncount_line_fields [simp]:
  "ia (uncount_line L) = ia L"
  "current (uncount_line L) = current L"
  "next_unget (uncount_line L) = next_unget L"
  "token_buffer (uncount_line L) = token_buffer L"
  "chars_read_total (uncount_line L) = chars_read_total L"
  "ignore_comments (uncount_line L) = ignore_comments L"
  "decimal_point_char (uncount_line L) = decimal_point_char L"
  "decimal_point_position (uncount_line L) = decimal_point_position L"
  "value_integer (uncount_line L) = value_integer L"
  "value_unsigned (uncount_line L) = value_unsigned L"
  "value_float (uncount_line L) = value_float L"
  "error_message (uncount_line L) = error_message L"
  by (simp_all add: uncount_line_def)

lemma pop_token_fields [simp]:
  "ia (pop_token L) = ia L"
  "current (pop_token L) = current L"
  "next_unget (pop_token L) = next_unget L"
  "token_buffer (pop_token L) = token_buffer L"
  "chars_read_total (pop_token L) = chars_read_total L"
  "ignore_comments (pop_token L) = ignore_comments L"
  "decimal_point_char (pop_token L) = decimal_point_char L"
  "decimal_point_position (pop_token L) = decimal_point_position L"
  "value_integer (pop_token L) = value_integer L"
  "value_unsigned (pop_token L) = value_unsigned L"
  "value_float (pop_token L) = value_float L"
  "error_message (pop_token L) = error_message L"
  by (simp_all add: pop_token_def)

lemma read_char_fields [simp]:
  "ia (read_char L) = (if next_unget L then ia L else tl (ia L))"
  "current (read_char L) = (if next_unget L then current L else if ia L = [] then EOF else uint (hd (ia L)))"
  "next_unget (read_char L) = False" "token_buffer (read_char L) = token_buffer L"
  "chars_read_total (read_char L) = chars_read_total L" "ignore_comments (read_char L) = ignore_comments L"
  "decimal_point_char (read_char L) = decimal_point_char L" "decimal_point_position (read_char L) = decimal_point_position L"
  "value_integer (read_char L) = value_integer L" "value_unsigned (read_char L) = value_unsigned L"
  "value_float (read_char L) = value_float L" "error_message (read_char L) = error_message L"
  by (simp_all add: read_char_def get_character_def split: list.split)

lemma lex_get_fields [simp]:
  "ia (lex_get L) = (if next_unget L then ia L else tl (ia L))"
  "current (lex_get L) = (if next_unget L then current L else if ia L = [] then EOF else uint (hd (ia L)))"
  "next_unget (lex_get L) = False" "token_buffer (lex_get L) = token_buffer L"
  "chars_read_total (lex_get L) = chars_read_total L + 1" "ignore_comments (lex_get L) = ignore_comments L"
  "decimal_point_char (lex_get L) = decimal_point_char L" "decimal_point_position (lex_get L) = decimal_point_position L"
  "value_integer (lex_get L) = value_integer L" "value_unsigned (lex_get L) = value_unsigned L"
  "value_float (lex_get L) = value_float L" "error_message (lex_get L) = error_message L"
  by (simp_all add: lex_get_def)

lemma lex_unget_fields [simp]:
  "ia (lex_unget L) = ia L" "current (lex_unget L) = current L" "next_unget (lex_unget L) = True"
  "token_buffer (lex_unget L) = token_buffer L" "chars_read_total (lex_unget L) = chars_read_total L - 1"
  "ignore_comments (lex_unget L) = ignore_comments L" "decimal_point_char (lex_unget L) = decimal_point_char L"
  "decimal_point_position (lex_unget L) = decimal_point_position L"
  "value_integer (lex_unget L) = value_integer L" "value_unsigned (lex_unget L) = value_unsigned L"
  "value_float (lex_unget L) = value_float L" "error_message (lex_unget L) = error_message L"
  by (simp_all add: lex_unget_def)

lemma uint_not_eof [simp]: "uint (b :: u8) \<noteq> EOF" "EOF \<noteq> uint (b :: u8)"
  using uint_ge_0 [of b] by linarith+

lemma lex_left_get:
  "lex_left (lex_get L) \<le> lex_left L" "current (lex_get L) \<noteq> EOF \<Longrightarrow> lex_left (lex_get L) < lex_left L"
  by (simp_all add: lex_left_def split: if_splits)

lemma lex_left_simps [simp]:
  "lex_left (lex_add c L) = lex_left L" "lex_left (lex_reset L) = lex_left L" "lex_left (lex_fail e L) = lex_left L"
  "current (lex_add c L) = current L" "current (lex_reset L) = current L" "current (lex_fail e L) = current L"
  by (simp_all add: lex_left_def lex_add_def lex_reset_def lex_fail_def)

lemma lex_left_unget: "lex_left (lex_unget (lex_get L)) \<le> lex_left L"
  by (cases "ia L") (simp_all add: lex_left_def)

section \<open>Strings\<close>

text \<open>The digit that a hexadecimal character stands for.\<close>

definition hex_digit :: "int \<Rightarrow> int option" where
  "hex_digit c =
     (if 0x30 \<le> c \<and> c \<le> 0x39 then Some (c - 0x30)
      else if 0x41 \<le> c \<and> c \<le> 0x46 then Some (c - 0x37)
      else if 0x61 \<le> c \<and> c \<le> 0x66 then Some (c - 0x57)
      else None)"

fun get_codepoint_loop :: "nat list \<Rightarrow> int \<Rightarrow> 'f lexer \<Rightarrow> int \<times> 'f lexer" where
  "get_codepoint_loop [] codepoint L = (codepoint, L)"
| "get_codepoint_loop (factor # factors) codepoint L =
     (let L = lex_get L in
      case hex_digit (current L) of
        Some d \<Rightarrow> get_codepoint_loop factors (codepoint + push_bit factor d) L
      | None \<Rightarrow> (-1, L))"

definition get_codepoint :: "'f lexer \<Rightarrow> int \<times> 'f lexer" where
  "get_codepoint L = get_codepoint_loop [12, 8, 4, 0] 0 L"

fun range_loop :: "(int \<times> int) list \<Rightarrow> 'f lexer \<Rightarrow> bool \<times> 'f lexer" where
  "range_loop [] L = (True, L)"
| "range_loop ((lo, hi) # ranges) L =
     (let L = lex_get L in
      if lo \<le> current L \<and> current L \<le> hi then range_loop ranges (lex_add (current L) L)
      else (False, lex_fail ill_formed_utf8 L))"

definition next_byte_in_range :: "(int \<times> int) list \<Rightarrow> 'f lexer \<Rightarrow> bool \<times> 'f lexer" where
  "next_byte_in_range ranges L = range_loop ranges (lex_add (current L) L)"

text \<open>The bytes of a code point.\<close>

definition add_codepoint :: "int \<Rightarrow> 'f lexer \<Rightarrow> 'f lexer" where
  "add_codepoint codepoint L =
     (if codepoint < 0x80 then lex_add codepoint L
      else if codepoint \<le> 0x7FF then
        lex_add (0x80 OR (codepoint AND 0x3F)) (lex_add (0xC0 OR drop_bit 6 codepoint) L)
      else if codepoint \<le> 0xFFFF then
        lex_add (0x80 OR (codepoint AND 0x3F)) (lex_add (0x80 OR (drop_bit 6 codepoint AND 0x3F))
          (lex_add (0xE0 OR drop_bit 12 codepoint) L))
      else
        lex_add (0x80 OR (codepoint AND 0x3F)) (lex_add (0x80 OR (drop_bit 6 codepoint AND 0x3F))
          (lex_add (0x80 OR (drop_bit 12 codepoint AND 0x3F)) (lex_add (0xF0 OR drop_bit 18 codepoint) L))))"

text \<open>The second half of a surrogate pair; the result is the code point of the pair or an error.\<close>

definition low_surrogate :: "int \<Rightarrow> 'f lexer \<Rightarrow> (lex_error + int) \<times> 'f lexer" where
  "low_surrogate codepoint1 L =
     (let L = lex_get L in
      if current L \<noteq> 0x5C then (Inl high_surrogate_needs_low, L)
      else let L = lex_get L in
      if current L \<noteq> 0x75 then (Inl high_surrogate_needs_low, L)
      else let (codepoint2, L) = get_codepoint L in
      if codepoint2 = -1 then (Inl expected_4_hex_digits, L)
      else if 0xDC00 \<le> codepoint2 \<and> codepoint2 \<le> 0xDFFF
      then (Inr (push_bit 10 codepoint1 + codepoint2 - 0x35FDC00), L)
      else (Inl high_surrogate_needs_low, L))"

text \<open>An escape \<^verbatim>\<open>\uXXXX\<close> after its \<^verbatim>\<open>u\<close>; \<open>False\<close> is a parse error.\<close>

definition scan_unicode :: "'f lexer \<Rightarrow> bool \<times> 'f lexer" where
  "scan_unicode L =
     (let (codepoint1, L) = get_codepoint L in
      if codepoint1 = -1 then (False, lex_fail expected_4_hex_digits L)
      else if 0xD800 \<le> codepoint1 \<and> codepoint1 \<le> 0xDBFF then
        (case low_surrogate codepoint1 L of
           (Inl e, L) \<Rightarrow> (False, lex_fail e L)
         | (Inr codepoint, L) \<Rightarrow> (True, add_codepoint codepoint L))
      else if 0xDC00 \<le> codepoint1 \<and> codepoint1 \<le> 0xDFFF then (False, lex_fail low_surrogate_needs_high L)
      else (True, add_codepoint codepoint1 L))"

definition simple_escape :: "int \<Rightarrow> int option" where
  "simple_escape c =
     (if c = 0x22 then Some 0x22 else if c = 0x5C then Some 0x5C else if c = 0x2F then Some 0x2F
      else if c = 0x62 then Some 0x08 else if c = 0x66 then Some 0x0C else if c = 0x6E then Some 0x0A
      else if c = 0x72 then Some 0x0D else if c = 0x74 then Some 0x09 else None)"

definition scan_escape :: "'f lexer \<Rightarrow> bool \<times> 'f lexer" where
  "scan_escape L =
     (let L = lex_get L in
      case simple_escape (current L) of
        Some c \<Rightarrow> (True, lex_add c L)
      | None \<Rightarrow> if current L = 0x75 then scan_unicode L else (False, lex_fail forbidden_after_backslash L))"

text \<open>The three groups of other bytes: control characters, characters that stand for themselves, and the
  lead bytes of multi-byte sequences with the ranges that must follow.\<close>

definition is_control :: "int \<Rightarrow> bool" where
  "is_control c \<longleftrightarrow> 0x00 \<le> c \<and> c \<le> 0x1F"

definition is_plain :: "int \<Rightarrow> bool" where
  "is_plain c \<longleftrightarrow> 0x20 \<le> c \<and> c \<le> 0x7F \<and> c \<noteq> 0x22 \<and> c \<noteq> 0x5C"

definition lead_ranges :: "int \<Rightarrow> (int \<times> int) list option" where
  "lead_ranges c =
     (if 0xC2 \<le> c \<and> c \<le> 0xDF then Some [(0x80, 0xBF)]
      else if c = 0xE0 then Some [(0xA0, 0xBF), (0x80, 0xBF)]
      else if 0xE1 \<le> c \<and> c \<le> 0xEC \<or> c = 0xEE \<or> c = 0xEF then Some [(0x80, 0xBF), (0x80, 0xBF)]
      else if c = 0xED then Some [(0x80, 0x9F), (0x80, 0xBF)]
      else if c = 0xF0 then Some [(0x90, 0xBF), (0x80, 0xBF), (0x80, 0xBF)]
      else if 0xF1 \<le> c \<and> c \<le> 0xF3 then Some [(0x80, 0xBF), (0x80, 0xBF), (0x80, 0xBF)]
      else if c = 0xF4 then Some [(0x80, 0x8F), (0x80, 0xBF), (0x80, 0xBF)]
      else None)"

definition scan_string_byte :: "'f lexer \<Rightarrow> bool \<times> 'f lexer" where
  "scan_string_byte L =
     (if is_control (current L) then (False, lex_fail (control_character (current L)) L)
      else if is_plain (current L) then (True, lex_add (current L) L)
      else case lead_ranges (current L) of
        Some ranges \<Rightarrow> next_byte_in_range ranges L
      | None \<Rightarrow> (False, lex_fail ill_formed_utf8 L))"

lemma left_codepoint_loop: "lex_left (snd (get_codepoint_loop fs c L)) \<le> lex_left L"
proof (induction fs arbitrary: c L)
  case (Cons f fs)
  then show ?case
    using lex_left_get(1) [of L] by (auto simp: Let_def split: option.split intro: le_trans)
qed simp

lemma left_range_loop: "lex_left (snd (range_loop rs L)) \<le> lex_left L"
proof (induction rs arbitrary: L)
  case (Cons r rs)
  obtain lo hi where r: "r = (lo, hi)" by (cases r)
  have "lex_left (snd (range_loop rs (lex_add (current (lex_get L)) (lex_get L)))) \<le> lex_left L"
    using Cons.IH [of "lex_add (current (lex_get L)) (lex_get L)"] lex_left_get(1) [of L] by simp
  then show ?case using lex_left_get(1) [of L] by (simp add: r Let_def)
qed simp

lemma left_add_codepoint [simp]: "lex_left (add_codepoint c L) = lex_left L"
  by (simp add: add_codepoint_def)

lemma left_low_surrogate: "lex_left (snd (low_surrogate c L)) \<le> lex_left L"
proof -
  let ?L1 = "lex_get L" and ?L2 = "lex_get (lex_get L)"
  have "lex_left ?L1 \<le> lex_left L" "lex_left ?L2 \<le> lex_left L"
    using lex_left_get(1) [of L] lex_left_get(1) [of ?L1] by simp_all
  moreover have "lex_left (snd (get_codepoint ?L2)) \<le> lex_left ?L2"
    by (simp add: get_codepoint_def left_codepoint_loop del: get_codepoint_loop.simps)
  ultimately show ?thesis
    by (auto simp: low_surrogate_def Let_def split: prod.split)
qed

lemma left_scan_unicode: "lex_left (snd (scan_unicode L)) \<le> lex_left L"
proof -
  obtain c L1 where g: "get_codepoint L = (c, L1)" by (cases "get_codepoint L")
  have 1: "lex_left L1 \<le> lex_left L"
    using left_codepoint_loop [of "[12, 8, 4, 0]" 0 L] g by (simp add: get_codepoint_def del: get_codepoint_loop.simps)
  obtain r L2 where s: "low_surrogate c L1 = (r, L2)" by (cases "low_surrogate c L1")
  have "lex_left L2 \<le> lex_left L" using left_low_surrogate [of c L1] s 1 by simp
  then show ?thesis using 1 by (cases r) (simp_all add: scan_unicode_def g s)
qed

lemma left_scan_escape: "lex_left (snd (scan_escape L)) \<le> lex_left L"
proof -
  have "lex_left (snd (scan_unicode (lex_get L))) \<le> lex_left L"
    using left_scan_unicode [of "lex_get L"] lex_left_get(1) [of L] by simp
  then show ?thesis using lex_left_get(1) [of L] by (simp add: scan_escape_def Let_def split: option.split)
qed

lemma left_scan_string_byte: "lex_left (snd (scan_string_byte L)) \<le> lex_left L"
  using left_range_loop [of _ "lex_add (current L) L"]
  by (simp add: scan_string_byte_def next_byte_in_range_def split: option.split)

function scan_string_loop :: "'f lexer \<Rightarrow> token_type \<times> 'f lexer" where
  "scan_string_loop L =
     (let L = lex_get L in
      if current L = EOF then (parse_error, lex_fail missing_closing_quote L)
      else if current L = 0x22 then (value_string, L)
      else let (ok, L) = (if current L = 0x5C then scan_escape L else scan_string_byte L) in
      if ok then scan_string_loop L else (parse_error, L))"
  by pat_completeness auto
termination
proof (relation "measure lex_left", goal_cases)
  case (2 L L1 p ok L2)
  have "lex_left L2 \<le> lex_left L1"
    using 2(4,5) left_scan_escape [of L1] left_scan_string_byte [of L1] by (metis snd_conv)
  moreover have "lex_left L1 < lex_left L" using 2(1,2) lex_left_get(2) [of L] by simp
  ultimately show ?case by simp
qed simp

declare scan_string_loop.simps [simp del]

definition scan_string :: "'f lexer \<Rightarrow> token_type \<times> 'f lexer" where
  "scan_string L = scan_string_loop (lex_reset L)"

end
