(* ===== verification/JsonScan.thy ===== *)
theory JsonScan
  imports JsonLexer
begin

text \<open>
  The rest of the scanner: comments, numbers (one definition per label of the state machine in
  \<^verbatim>\<open>scan_number\<close>), literals, white space, the byte order mark, and \<^verbatim>\<open>scan\<close>, which returns the next token.
\<close>

section \<open>Comments\<close>

function line_comment :: "'f lexer \<Rightarrow> 'f lexer" where
  "line_comment L =
     (let L = lex_get L in
      if current L = 0x0A \<or> current L = 0x0D \<or> current L = EOF \<or> current L = 0 then L else line_comment L)"
  by pat_completeness auto
termination
  by (relation "measure lex_left") (use lex_left_get(2) in \<open>auto simp del: lex_get_fields\<close>)

declare line_comment.simps [simp del]

function block_comment :: "'f lexer \<Rightarrow> bool \<times> 'f lexer" where
  "block_comment L =
     (let L = lex_get L in
      if current L = EOF \<or> current L = 0 then (False, lex_fail comment_not_closed L)
      else if current L = 0x2A then
        (let L' = lex_get L in if current L' = 0x2F then (True, L') else block_comment (lex_unget L'))
      else block_comment L)"
  by pat_completeness auto
termination
proof (relation "measure lex_left", goal_cases)
  case (2 L L1 L2)
  have "lex_left L1 < lex_left L" using 2(1,2) lex_left_get(2) [of L] by simp
  moreover have "lex_left (lex_unget L2) \<le> lex_left L1" using 2(4) lex_left_unget [of L1] by simp
  ultimately show ?case by simp
next
  case (3 L L1)
  then show ?case using lex_left_get(2) [of L] by simp
qed simp

declare block_comment.simps [simp del]

definition scan_comment :: "'f lexer \<Rightarrow> bool \<times> 'f lexer" where
  "scan_comment L =
     (let L = lex_get L in
      if current L = 0x2F then (True, line_comment L)
      else if current L = 0x2A then block_comment L
      else (False, lex_fail comment_unexpected L))"

section \<open>Conversions of the C library\<close>

definition is_digit :: "int \<Rightarrow> bool" where
  "is_digit c \<longleftrightarrow> 0x30 \<le> c \<and> c \<le> 0x39"

text \<open>The value of a string of decimal digits.\<close>

definition dec_value :: "bytes \<Rightarrow> int" where
  "dec_value s = foldl (\<lambda>n b. 10 * n + (uint b - 0x30)) 0 s"

text \<open>\<^verbatim>\<open>strtoull\<close> and \<^verbatim>\<open>strtoll\<close> on digits, the latter with an optional minus sign: the value and whether \<^verbatim>\<open>errno\<close> is
  \<^verbatim>\<open>ERANGE\<close>; out of range they return the nearest limit.\<close>

definition strtoull :: "bytes \<Rightarrow> u64 \<times> bool" where
  "strtoull s = (if dec_value s < 2 ^ 64 then (word_of_int (dec_value s), False) else (- 1, True))"

definition strtoll :: "bytes \<Rightarrow> u64 \<times> bool" where
  "strtoll s =
     (let v = (if s \<noteq> [] \<and> hd s = 0x2D then - dec_value (tl s) else dec_value s) in
      if v < - (2 ^ 63) then (word_of_int (- (2 ^ 63)), True)
      else if 2 ^ 63 \<le> v then (word_of_int (2 ^ 63 - 1), True)
      else (word_of_int v, False))"

section \<open>Numbers\<close>

lemma lex_left_digit: "is_digit (current (lex_get L)) \<Longrightarrow> lex_left (lex_get L) < lex_left L"
  by (rule lex_left_get(2)) (auto simp: is_digit_def simp del: lex_get_fields)

definition scan_number_done :: "(bytes \<Rightarrow> 'f) \<Rightarrow> token_type \<Rightarrow> 'f lexer \<Rightarrow> token_type \<times> 'f lexer" where
  "scan_number_done strtof number_type L =
     (let L = lex_unget L in
      if number_type = value_unsigned_tok \<and> \<not> snd (strtoull (token_buffer L))
      then (value_unsigned_tok, L\<lparr>value_unsigned := fst (strtoull (token_buffer L))\<rparr>)
      else if number_type = value_integer_tok \<and> \<not> snd (strtoll (token_buffer L))
      then (value_integer_tok, L\<lparr>value_integer := fst (strtoll (token_buffer L))\<rparr>)
      else (value_float_tok, L\<lparr>value_float := strtof (token_buffer L)\<rparr>))"

function scan_number_any2 :: "(bytes \<Rightarrow> 'f) \<Rightarrow> token_type \<Rightarrow> 'f lexer \<Rightarrow> token_type \<times> 'f lexer" where
  "scan_number_any2 strtof number_type L =
     (let L = lex_get L in
      if is_digit (current L) then scan_number_any2 strtof number_type (lex_add (current L) L)
      else scan_number_done strtof number_type L)"
  by pat_completeness auto
termination
  by (relation "measure (\<lambda>(f, n, L). lex_left L)")
    (auto simp del: lex_get_fields intro: lex_left_digit)

definition scan_number_sign :: "(bytes \<Rightarrow> 'f) \<Rightarrow> token_type \<Rightarrow> 'f lexer \<Rightarrow> token_type \<times> 'f lexer" where
  "scan_number_sign strtof number_type L =
     (let L = lex_get L in
      if is_digit (current L) then scan_number_any2 strtof number_type (lex_add (current L) L)
      else (parse_error, lex_fail digit_after_exponent_sign L))"

definition scan_number_exponent :: "(bytes \<Rightarrow> 'f) \<Rightarrow> 'f lexer \<Rightarrow> token_type \<times> 'f lexer" where
  "scan_number_exponent strtof L =
     (let L = lex_get L in
      if current L = 0x2B \<or> current L = 0x2D then scan_number_sign strtof value_float_tok (lex_add (current L) L)
      else if is_digit (current L) then scan_number_any2 strtof value_float_tok (lex_add (current L) L)
      else (parse_error, lex_fail digit_or_sign_after_exponent L))"

function scan_number_decimal2 :: "(bytes \<Rightarrow> 'f) \<Rightarrow> token_type \<Rightarrow> 'f lexer \<Rightarrow> token_type \<times> 'f lexer" where
  "scan_number_decimal2 strtof number_type L =
     (let L = lex_get L in
      if is_digit (current L) then scan_number_decimal2 strtof number_type (lex_add (current L) L)
      else if current L = 0x65 \<or> current L = 0x45 then scan_number_exponent strtof (lex_add (current L) L)
      else scan_number_done strtof number_type L)"
  by pat_completeness auto
termination
  by (relation "measure (\<lambda>(f, n, L). lex_left L)")
    (auto simp del: lex_get_fields intro: lex_left_digit)

definition scan_number_decimal1 :: "(bytes \<Rightarrow> 'f) \<Rightarrow> 'f lexer \<Rightarrow> token_type \<times> 'f lexer" where
  "scan_number_decimal1 strtof L =
     (let L = lex_get L in
      if is_digit (current L) then scan_number_decimal2 strtof value_float_tok (lex_add (current L) L)
      else (parse_error, lex_fail digit_after_point L))"

text \<open>The decimal point of the locale goes into the buffer and its place is remembered.\<close>

definition add_point :: "'f lexer \<Rightarrow> 'f lexer" where
  "add_point L =
     (let L = lex_add (decimal_point_char L) L in L\<lparr>decimal_point_position := Some (length (token_buffer L) - 1)\<rparr>)"

function scan_number_any1 :: "(bytes \<Rightarrow> 'f) \<Rightarrow> token_type \<Rightarrow> 'f lexer \<Rightarrow> token_type \<times> 'f lexer" where
  "scan_number_any1 strtof number_type L =
     (let L = lex_get L in
      if is_digit (current L) then scan_number_any1 strtof number_type (lex_add (current L) L)
      else if current L = 0x2E then scan_number_decimal1 strtof (add_point L)
      else if current L = 0x65 \<or> current L = 0x45 then scan_number_exponent strtof (lex_add (current L) L)
      else scan_number_done strtof number_type L)"
  by pat_completeness auto
termination
  by (relation "measure (\<lambda>(f, n, L). lex_left L)")
    (auto simp del: lex_get_fields intro: lex_left_digit)

declare scan_number_any2.simps [simp del] scan_number_decimal2.simps [simp del] scan_number_any1.simps [simp del]

definition scan_number_zero :: "(bytes \<Rightarrow> 'f) \<Rightarrow> token_type \<Rightarrow> 'f lexer \<Rightarrow> token_type \<times> 'f lexer" where
  "scan_number_zero strtof number_type L =
     (let L = lex_get L in
      if current L = 0x2E then scan_number_decimal1 strtof (add_point L)
      else if current L = 0x65 \<or> current L = 0x45 then scan_number_exponent strtof (lex_add (current L) L)
      else scan_number_done strtof number_type L)"

definition scan_number_minus :: "(bytes \<Rightarrow> 'f) \<Rightarrow> 'f lexer \<Rightarrow> token_type \<times> 'f lexer" where
  "scan_number_minus strtof L =
     (let L = lex_get L in
      if current L = 0x30 then scan_number_zero strtof value_integer_tok (lex_add (current L) L)
      else if is_digit (current L) then scan_number_any1 strtof value_integer_tok (lex_add (current L) L)
      else (parse_error, lex_fail digit_after_minus L))"

text \<open>Called on a minus sign or a digit.\<close>

definition scan_number :: "(bytes \<Rightarrow> 'f) \<Rightarrow> 'f lexer \<Rightarrow> token_type \<times> 'f lexer" where
  "scan_number strtof L =
     (let L = lex_reset L; c = current L; L = lex_add c L in
      if c = 0x2D then scan_number_minus strtof L
      else if c = 0x30 then scan_number_zero strtof value_unsigned_tok L
      else scan_number_any1 strtof value_unsigned_tok L)"

section \<open>Literals, white space and the byte order mark\<close>

fun scan_literal_loop :: "int list \<Rightarrow> token_type \<Rightarrow> 'f lexer \<Rightarrow> token_type \<times> 'f lexer" where
  "scan_literal_loop [] return_type L = (return_type, L)"
| "scan_literal_loop (c # cs) return_type L =
     (let L = lex_get L in
      if current L \<noteq> c then (parse_error, lex_fail invalid_literal L) else scan_literal_loop cs return_type L)"

text \<open>The first character of the literal is the current one.\<close>

definition scan_literal :: "int list \<Rightarrow> token_type \<Rightarrow> 'f lexer \<Rightarrow> token_type \<times> 'f lexer" where
  "scan_literal literal_text return_type L = scan_literal_loop (tl literal_text) return_type L"

definition skip_bom :: "'f lexer \<Rightarrow> bool \<times> 'f lexer" where
  "skip_bom L =
     (let L = lex_get L in
      if current L = 0xEF then
        (let L = lex_get L in
         if current L \<noteq> 0xBB then (False, L) else let L = lex_get L in (current L = 0xBF, L))
      else (True, lex_unget L))"

definition is_space :: "int \<Rightarrow> bool" where
  "is_space c \<longleftrightarrow> c = 0x20 \<or> c = 0x09 \<or> c = 0x0A \<or> c = 0x0D"

lemma lex_left_space: "is_space (current (lex_get L)) \<Longrightarrow> lex_left (lex_get L) < lex_left L"
  by (rule lex_left_get(2)) (auto simp: is_space_def simp del: lex_get_fields)

function skip_whitespace :: "'f lexer \<Rightarrow> 'f lexer" where
  "skip_whitespace L = (let L = lex_get L in if is_space (current L) then skip_whitespace L else L)"
  by pat_completeness auto
termination
  by (relation "measure lex_left") (auto simp del: lex_get_fields intro: lex_left_space)

declare skip_whitespace.simps [simp del]

section \<open>The next token\<close>

lemma left_line_comment: "lex_left (line_comment L) \<le> lex_left L"
proof (induction L rule: line_comment.induct)
  case (1 L)
  then show ?case using lex_left_get(1) [of L] by (subst line_comment.simps) (auto simp: Let_def intro: le_trans)
qed

lemma left_block_comment: "lex_left (snd (block_comment L)) \<le> lex_left L"
proof (induction L rule: block_comment.induct)
  case (1 L)
  let ?L1 = "lex_get L" and ?L2 = "lex_get (lex_get L)"
  have "lex_left ?L1 \<le> lex_left L" "lex_left ?L2 \<le> lex_left L" "lex_left (lex_unget ?L2) \<le> lex_left L"
    using lex_left_get(1) [of L] lex_left_get(1) [of ?L1] lex_left_unget [of ?L1] by linarith+
  then show ?case
    using 1 by (subst block_comment.simps) (auto simp: Let_def simp del: lex_get_fields intro: le_trans)
qed

lemma left_scan_comment: "lex_left (snd (scan_comment L)) \<le> lex_left L"
  using lex_left_get(1) [of L] left_line_comment [of "lex_get L"] left_block_comment [of "lex_get L"]
  by (auto simp: scan_comment_def Let_def simp del: lex_get_fields)

lemma left_skip_whitespace:
  "lex_left (skip_whitespace L) \<le> lex_left L"
  "current (skip_whitespace L) \<noteq> EOF \<Longrightarrow> lex_left (skip_whitespace L) < lex_left L"
proof (induction L rule: skip_whitespace.induct)
  case (1 L)
  {
    case 1
    then show ?case
      using lex_left_get(1) [of L] "1.IH"(1) by (subst skip_whitespace.simps) (auto simp: Let_def intro: le_trans)
  next
    case 2
    then show ?case
      using lex_left_get [of L] "1.IH"(1)
      by (subst skip_whitespace.simps, subst (asm) skip_whitespace.simps)
        (auto simp: Let_def is_space_def simp del: lex_get_fields split: if_splits intro: le_less_trans)
  }
qed

text \<open>Comments between tokens, each followed by white space.\<close>

function skip_comments :: "'f lexer \<Rightarrow> bool \<times> 'f lexer" where
  "skip_comments L =
     (if ignore_comments L \<and> current L = 0x2F then
        (let (ok, L) = scan_comment L in if \<not> ok then (False, L) else skip_comments (skip_whitespace L))
      else (True, L))"
  by pat_completeness auto
termination
proof (relation "measure (\<lambda>L. if current L = 0x2F then Suc (lex_left L) else 0)", goal_cases)
  case (2 L p ok L1)
  have "lex_left L1 \<le> lex_left L" using 2(2,3) left_scan_comment [of L] by (metis snd_conv)
  moreover have "lex_left (skip_whitespace L1) < lex_left L1" if "current (skip_whitespace L1) = 0x2F"
    using left_skip_whitespace(2) [of L1] that by simp
  ultimately show ?case using 2(1) by auto
qed simp

declare skip_comments.simps [simp del]

definition scan_token :: "(bytes \<Rightarrow> 'f) \<Rightarrow> 'f lexer \<Rightarrow> token_type \<times> 'f lexer" where
  "scan_token strtof L =
     (let c = current L in
      if c = 0x5B then (begin_array, L)
      else if c = 0x5D then (end_array, L)
      else if c = 0x7B then (begin_object, L)
      else if c = 0x7D then (end_object, L)
      else if c = 0x3A then (name_separator, L)
      else if c = 0x2C then (value_separator, L)
      else if c = 0x74 then scan_literal [0x74, 0x72, 0x75, 0x65] literal_true L
      else if c = 0x66 then scan_literal [0x66, 0x61, 0x6C, 0x73, 0x65] literal_false L
      else if c = 0x6E then scan_literal [0x6E, 0x75, 0x6C, 0x6C] literal_null L
      else if c = 0x22 then scan_string L
      else if c = 0x2D \<or> is_digit c then scan_number strtof L
      else if c = 0 \<or> c = EOF then (end_of_input, L)
      else (parse_error, lex_fail invalid_literal L))"

definition scan :: "(bytes \<Rightarrow> 'f) \<Rightarrow> 'f lexer \<Rightarrow> token_type \<times> 'f lexer" where
  "scan strtof L =
     (let (bom, L) = (if chars_read_total L = 0 then skip_bom L else (True, L)) in
      if \<not> bom then (parse_error, lex_fail invalid_bom L)
      else let (ok, L) = skip_comments (skip_whitespace L) in
      if \<not> ok then (parse_error, L) else scan_token strtof L)"

text \<open>\<^verbatim>\<open>get_string\<close>: the token buffer, with the locale's decimal point replaced.\<close>

definition get_string :: "'f lexer \<Rightarrow> bytes" where
  "get_string L =
     (case decimal_point_position L of
        Some i \<Rightarrow> if decimal_point_char L \<noteq> 0x2E then (token_buffer L)[i := 0x2E] else token_buffer L
      | None \<Rightarrow> token_buffer L)"

text \<open>Every token other than the end of the input and an error consumes input.\<close>

lemma left_scan_string_loop: "lex_left (snd (scan_string_loop L)) \<le> lex_left L"
proof (induction L rule: scan_string_loop.induct)
  case (1 L)
  let ?L1 = "lex_get L"
  let ?r = "if current ?L1 = 0x5C then scan_escape ?L1 else scan_string_byte ?L1"
  have L1: "lex_left ?L1 \<le> lex_left L" by (rule lex_left_get(1))
  obtain ok L2 where r: "?r = (ok, L2)" by (cases ?r)
  have "lex_left (snd ?r) \<le> lex_left ?L1" using left_scan_escape [of ?L1] left_scan_string_byte [of ?L1] by simp
  then have L2: "lex_left L2 \<le> lex_left L" using r L1 by simp
  have "lex_left (snd (scan_string_loop L2)) \<le> lex_left L2"
    if "current ?L1 \<noteq> EOF" "current ?L1 \<noteq> 0x22" ok
    using 1 [OF refl that(1,2) r [symmetric] refl that(3)] .
  then show ?case
    using L1 L2 r by (subst scan_string_loop.simps) (auto simp: Let_def simp del: lex_get_fields intro: le_trans)
qed

lemma left_number_done: "lex_left (snd (scan_number_done f n (lex_get L))) \<le> lex_left L"
proof -
  have "lex_left (L'\<lparr>value_unsigned := a\<rparr>) = lex_left L'" "lex_left (L'\<lparr>value_integer := b\<rparr>) = lex_left L'"
    "lex_left (L'\<lparr>value_float := c\<rparr>) = lex_left L'" for L' :: "'a lexer" and a b c
    by (simp_all add: lex_left_def)
  then show ?thesis using lex_left_unget [of L] by (simp add: scan_number_done_def Let_def)
qed

lemma left_add_point [simp]: "lex_left (add_point L) = lex_left L"
  by (simp add: add_point_def Let_def lex_left_def lex_add_def)

lemma left_any2: "lex_left (snd (scan_number_any2 f n L)) \<le> lex_left L"
proof (induction f n L rule: scan_number_any2.induct)
  case (1 f n L)
  then show ?case
    using lex_left_get(1) [of L] left_number_done [of f n L]
    by (subst scan_number_any2.simps) (auto simp: Let_def simp del: lex_get_fields intro: le_trans)
qed

lemma left_sign: "lex_left (snd (scan_number_sign f n L)) \<le> lex_left L"
  using lex_left_get(1) [of L] left_any2 [of f n "lex_add (current (lex_get L)) (lex_get L)"]
  by (simp add: scan_number_sign_def Let_def del: lex_get_fields)

lemma left_exponent: "lex_left (snd (scan_number_exponent f L)) \<le> lex_left L"
  using lex_left_get(1) [of L] left_any2 [of f value_float_tok "lex_add (current (lex_get L)) (lex_get L)"]
    left_sign [of f value_float_tok "lex_add (current (lex_get L)) (lex_get L)"]
  by (auto simp: scan_number_exponent_def Let_def simp del: lex_get_fields)

lemma left_decimal2: "lex_left (snd (scan_number_decimal2 f n L)) \<le> lex_left L"
proof (induction f n L rule: scan_number_decimal2.induct)
  case (1 f n L)
  then show ?case
    using lex_left_get(1) [of L] left_number_done [of f n L]
      left_exponent [of f "lex_add (current (lex_get L)) (lex_get L)"]
    by (subst scan_number_decimal2.simps) (auto simp: Let_def simp del: lex_get_fields intro: le_trans)
qed

lemma left_decimal1: "lex_left (snd (scan_number_decimal1 f L)) \<le> lex_left L"
  using lex_left_get(1) [of L] left_decimal2 [of f value_float_tok "lex_add (current (lex_get L)) (lex_get L)"]
  by (simp add: scan_number_decimal1_def Let_def del: lex_get_fields)

lemma left_any1: "lex_left (snd (scan_number_any1 f n L)) \<le> lex_left L"
proof (induction f n L rule: scan_number_any1.induct)
  case (1 f n L)
  then show ?case
    using lex_left_get(1) [of L] left_number_done [of f n L] left_decimal1 [of f "add_point (lex_get L)"]
      left_exponent [of f "lex_add (current (lex_get L)) (lex_get L)"]
    by (subst scan_number_any1.simps) (auto simp: Let_def simp del: lex_get_fields intro: le_trans)
qed

lemma left_zero: "lex_left (snd (scan_number_zero f n L)) \<le> lex_left L"
  using lex_left_get(1) [of L] left_number_done [of f n L] left_decimal1 [of f "add_point (lex_get L)"]
    left_exponent [of f "lex_add (current (lex_get L)) (lex_get L)"]
  by (auto simp: scan_number_zero_def Let_def simp del: lex_get_fields)

lemma left_minus: "lex_left (snd (scan_number_minus f L)) \<le> lex_left L"
  using lex_left_get(1) [of L] left_zero [of f value_integer_tok "lex_add (current (lex_get L)) (lex_get L)"]
    left_any1 [of f value_integer_tok "lex_add (current (lex_get L)) (lex_get L)"]
  by (auto simp: scan_number_minus_def Let_def simp del: lex_get_fields)

lemma left_scan_number: "lex_left (snd (scan_number f L)) \<le> lex_left L"
  using left_minus [of f "lex_add (current L) (lex_reset L)"]
    left_zero [of f value_unsigned_tok "lex_add (current L) (lex_reset L)"]
    left_any1 [of f value_unsigned_tok "lex_add (current L) (lex_reset L)"]
  by (auto simp: scan_number_def Let_def)

lemma left_literal_loop: "lex_left (snd (scan_literal_loop cs t L)) \<le> lex_left L"
proof (induction cs arbitrary: L)
  case (Cons c cs)
  then show ?case
    using lex_left_get(1) [of L] by (auto simp: Let_def simp del: lex_get_fields intro: le_trans)
qed simp

lemma left_skip_comments: "lex_left (snd (skip_comments L)) \<le> lex_left L"
proof (induction L rule: skip_comments.induct)
  case (1 L)
  obtain ok L1 where c: "scan_comment L = (ok, L1)" by (cases "scan_comment L")
  have "lex_left L1 \<le> lex_left L" using left_scan_comment [of L] c by simp
  moreover have "lex_left (skip_whitespace L1) \<le> lex_left L1" by (rule left_skip_whitespace(1))
  ultimately show ?case
    using 1 [OF _ c [symmetric] refl] c by (subst skip_comments.simps) (auto intro: le_trans)
qed

text \<open>Skipping comments and white space before a character that is not the end of the input.\<close>

lemma skip_consumes:
  "current (snd (skip_comments (skip_whitespace L))) \<noteq> EOF \<Longrightarrow>
    lex_left (snd (skip_comments (skip_whitespace L))) < lex_left L"
proof -
  let ?L = "skip_whitespace L"
  assume c: "current (snd (skip_comments ?L)) \<noteq> EOF"
  show ?thesis
  proof (cases "current ?L = EOF")
    case True
    then have "skip_comments ?L = (True, ?L)" by (subst skip_comments.simps) simp
    then show ?thesis using c True by simp
  next
    case False
    then show ?thesis using left_skip_comments [of ?L] left_skip_whitespace(2) [of L] by linarith
  qed
qed

lemma left_skip_bom: "lex_left (snd (skip_bom L)) \<le> lex_left L"
proof -
  let ?L1 = "lex_get L" and ?L2 = "lex_get (lex_get L)"
  have "lex_left ?L1 \<le> lex_left L" "lex_left ?L2 \<le> lex_left L" "lex_left (lex_get ?L2) \<le> lex_left L"
    "lex_left (lex_unget ?L1) \<le> lex_left L"
    using lex_left_get(1) [of L] lex_left_get(1) [of ?L1] lex_left_get(1) [of ?L2] lex_left_unget [of L] by linarith+
  then show ?thesis by (simp add: skip_bom_def Let_def del: lex_get_fields)
qed

lemma left_scan_token: "lex_left (snd (scan_token f L)) \<le> lex_left L"
proof -
  have "lex_left (snd (scan_literal w t L)) \<le> lex_left L" for w t
    unfolding scan_literal_def by (rule left_literal_loop)
  moreover have "lex_left (snd (scan_string L)) \<le> lex_left L"
    using left_scan_string_loop [of "lex_reset L"] by (simp add: scan_string_def)
  ultimately show ?thesis using left_scan_number [of f L] by (simp add: scan_token_def Let_def)
qed

lemma scan_consumes:
  "lex_left (snd (scan f L)) \<le> lex_left L"
  "fst (scan f L) \<noteq> end_of_input \<Longrightarrow> fst (scan f L) \<noteq> parse_error \<Longrightarrow> lex_left (snd (scan f L)) < lex_left L"
proof -
  let ?b = "if chars_read_total L = 0 then skip_bom L else (True, L)"
  obtain bom L1 where b: "?b = (bom, L1)" by (cases ?b)
  have L1: "lex_left L1 \<le> lex_left L" using left_skip_bom [of L] b by (auto split: if_splits)
  obtain ok L2 where s: "skip_comments (skip_whitespace L1) = (ok, L2)" by (cases "skip_comments (skip_whitespace L1)")
  have L2: "lex_left L2 \<le> lex_left L"
    using left_skip_comments [of "skip_whitespace L1"] left_skip_whitespace(1) [of L1] s L1 by simp
  have scan: "scan f L = (if \<not> bom then (parse_error, lex_fail invalid_bom L1)
      else if \<not> ok then (parse_error, L2) else scan_token f L2)"
    unfolding scan_def b by (simp add: s)
  show "lex_left (snd (scan f L)) \<le> lex_left L"
    using L1 L2 left_scan_token [of f L2] by (auto simp: scan)
  assume a: "fst (scan f L) \<noteq> end_of_input" "fst (scan f L) \<noteq> parse_error"
  then have "current L2 \<noteq> EOF" by (auto simp: scan scan_token_def Let_def is_digit_def split: if_splits)
  then have "lex_left L2 < lex_left L" using skip_consumes [of L1] s L1 by simp
  then show "lex_left (snd (scan f L)) < lex_left L"
    using left_scan_token [of f L2] a by (auto simp: scan split: if_splits)
qed

end
