(* ===== verification/JsonParser.thy ===== *)
theory JsonParser
  imports JsonScan
begin

text \<open>
  The parser of the JSON library in \<^verbatim>\<open>hv/json.hpp\<close>: the loop \<^verbatim>\<open>sax_parse_internal\<close> with its stack of open arrays and
  objects, which reports events to a SAX consumer, and two consumers: \<^verbatim>\<open>json_sax_acceptor\<close> and
  \<^verbatim>\<open>json_sax_dom_parser\<close>, which builds the value.

  Pointers into the value under construction (\<^verbatim>\<open>ref_stack\<close>, \<^verbatim>\<open>object_element\<close>) are access paths from the root.
  Objects are \<^verbatim>\<open>std::map\<close>s: association lists ordered by key. A failed \<^verbatim>\<open>JSON_ASSERT\<close> is the outcome
  \<open>Aborted\<close>, an exception the outcome \<open>Thrown\<close>.
\<close>

section \<open>Values\<close>

datatype 'f json =
  json_null
| json_object "(bytes \<times> 'f json) list"
| json_array "'f json list"
| json_string bytes
| json_boolean bool
| json_integer u64
| json_unsigned u64
| json_float 'f
| json_binary bytes "u64 option"
| json_discarded

text \<open>The order of \<^verbatim>\<open>std::less<std::string>\<close>, and \<^verbatim>\<open>std::map::operator[]\<close> on a new or existing key.\<close>

fun bytes_less :: "bytes \<Rightarrow> bytes \<Rightarrow> bool" where
  "bytes_less xs [] = False"
| "bytes_less [] (y # ys) = True"
| "bytes_less (x # xs) (y # ys) = (x < y \<or> x = y \<and> bytes_less xs ys)"

fun object_ref :: "bytes \<Rightarrow> (bytes \<times> 'f json) list \<Rightarrow> (bytes \<times> 'f json) list" where
  "object_ref k [] = [(k, json_null)]"
| "object_ref k ((k', v) # es) =
     (if k = k' then (k', v) # es
      else if bytes_less k k' then (k, json_null) # (k', v) # es else (k', v) # object_ref k es)"

section \<open>Pointers into a value\<close>

datatype step = At nat | Key bytes

fun alist_set :: "bytes \<Rightarrow> 'a \<Rightarrow> (bytes \<times> 'a) list \<Rightarrow> (bytes \<times> 'a) list" where
  "alist_set k v [] = []"
| "alist_set k v ((k', w) # es) = (if k = k' then (k, v) # es else (k', w) # alist_set k v es)"

fun json_at :: "step list \<Rightarrow> 'f json \<Rightarrow> 'f json option" where
  "json_at [] j = Some j"
| "json_at (At i # p) (json_array xs) = (if i < length xs then json_at p (xs ! i) else None)"
| "json_at (Key k # p) (json_object es) = (case map_of es k of Some v \<Rightarrow> json_at p v | None \<Rightarrow> None)"
| "json_at _ _ = None"

fun json_set :: "step list \<Rightarrow> 'f json \<Rightarrow> 'f json \<Rightarrow> 'f json" where
  "json_set [] v j = v"
| "json_set (At i # p) v (json_array xs) = (if i < length xs then json_array (xs[i := json_set p v (xs ! i)]) else json_array xs)"
| "json_set (Key k # p) v (json_object es) =
     (case map_of es k of Some w \<Rightarrow> json_object (alist_set k (json_set p v w) es) | None \<Rightarrow> json_object es)"
| "json_set _ v j = j"

section \<open>Messages\<close>

definition asc :: "string \<Rightarrow> bytes" where
  "asc s = map of_char s"

primrec token_type_name :: "token_type \<Rightarrow> string" where
  "token_type_name uninitialized = ''<uninitialized>''"
| "token_type_name literal_true = ''true literal''"
| "token_type_name literal_false = ''false literal''"
| "token_type_name literal_null = ''null literal''"
| "token_type_name value_string = ''string literal''"
| "token_type_name value_unsigned_tok = ''number literal''"
| "token_type_name value_integer_tok = ''number literal''"
| "token_type_name value_float_tok = ''number literal''"
| "token_type_name begin_array = [CHR 0x27] @ ''['' @ [CHR 0x27]"
| "token_type_name begin_object = [CHR 0x27] @ ''{'' @ [CHR 0x27]"
| "token_type_name end_array = [CHR 0x27] @ '']'' @ [CHR 0x27]"
| "token_type_name end_object = [CHR 0x27] @ ''}'' @ [CHR 0x27]"
| "token_type_name name_separator = [CHR 0x27] @ '':'' @ [CHR 0x27]"
| "token_type_name value_separator = [CHR 0x27] @ '','' @ [CHR 0x27]"
| "token_type_name parse_error = ''<parse error>''"
| "token_type_name end_of_input = ''end of input''"
| "token_type_name literal_or_value =
     [CHR 0x27] @ ''['' @ [CHR 0x27] @ '', '' @ [CHR 0x27] @ ''{'' @ [CHR 0x27] @ '', or a literal''"

text \<open>The texts of the control characters: name and, for some, the short escape.\<close>

definition control_names :: "string list" where
  "control_names =
     [''NUL'', ''SOH'', ''STX'', ''ETX'', ''EOT'', ''ENQ'', ''ACK'', ''BEL'', ''BS'', ''HT'', ''LF'', ''VT'', ''FF'', ''CR'', ''SO'', ''SI'',
      ''DLE'', ''DC1'', ''DC2'', ''DC3'', ''DC4'', ''NAK'', ''SYN'', ''ETB'', ''CAN'', ''EM'', ''SUB'', ''ESC'', ''FS'', ''GS'', ''RS'', ''US'']"

definition hex2_upper :: "int \<Rightarrow> string" where
  "hex2_upper c = [''0123456789ABCDEF'' ! nat (c div 16), ''0123456789ABCDEF'' ! nat (c mod 16)]"

definition short_escape :: "int \<Rightarrow> string" where
  "short_escape c =
     (if c = 0x08 then '' or '' @ [CHR 0x5C] @ ''b'' else if c = 0x09 then '' or '' @ [CHR 0x5C] @ ''t''
      else if c = 0x0A then '' or '' @ [CHR 0x5C] @ ''n'' else if c = 0x0C then '' or '' @ [CHR 0x5C] @ ''f''
      else if c = 0x0D then '' or '' @ [CHR 0x5C] @ ''r'' else [])"

definition control_text :: "int \<Rightarrow> string" where
  "control_text c =
     ''invalid string: control character U+00'' @ hex2_upper c @ '' ('' @ control_names ! nat c @
     '') must be escaped to '' @ [CHR 0x5C] @ ''u00'' @ hex2_upper c @ short_escape c"

primrec error_text :: "lex_error \<Rightarrow> string" where
  "error_text no_error = []"
| "error_text missing_closing_quote = ''invalid string: missing closing quote''"
| "error_text expected_4_hex_digits =
     ''invalid string: '' @ [CHR 0x27, CHR 0x5C] @ ''u'' @ [CHR 0x27] @ '' must be followed by 4 hex digits''"
| "error_text high_surrogate_needs_low = ''invalid string: surrogate U+D800..U+DBFF must be followed by U+DC00..U+DFFF''"
| "error_text low_surrogate_needs_high = ''invalid string: surrogate U+DC00..U+DFFF must follow U+D800..U+DBFF''"
| "error_text forbidden_after_backslash = ''invalid string: forbidden character after backslash''"
| "error_text (control_character c) = control_text c"
| "error_text ill_formed_utf8 = ''invalid string: ill-formed UTF-8 byte''"
| "error_text comment_not_closed = ''invalid comment; missing closing '' @ [CHR 0x27] @ ''*/'' @ [CHR 0x27]"
| "error_text comment_unexpected =
     ''invalid comment; expecting '' @ [CHR 0x27] @ ''/'' @ [CHR 0x27] @ '' or '' @ [CHR 0x27] @ ''*'' @ [CHR 0x27] @
     '' after '' @ [CHR 0x27] @ ''/'' @ [CHR 0x27]"
| "error_text digit_after_minus = ''invalid number; expected digit after '' @ [CHR 0x27] @ ''-'' @ [CHR 0x27]"
| "error_text digit_after_point = ''invalid number; expected digit after '' @ [CHR 0x27] @ ''.'' @ [CHR 0x27]"
| "error_text digit_or_sign_after_exponent =
     ''invalid number; expected '' @ [CHR 0x27] @ ''+'' @ [CHR 0x27] @ '', '' @ [CHR 0x27] @ ''-'' @ [CHR 0x27] @
     '', or digit after exponent''"
| "error_text digit_after_exponent_sign = ''invalid number; expected digit after exponent sign''"
| "error_text invalid_literal = ''invalid literal''"
| "error_text invalid_bom = ''invalid BOM; must be 0xEF 0xBB 0xBF if given''"

text \<open>The token as it was read, with control characters spelled out.\<close>

definition get_token_string :: "'f lexer \<Rightarrow> bytes" where
  "get_token_string L =
     concat (map (\<lambda>c. if c \<le> 0x1F then asc (''<U+00'' @ hex2_upper (uint c) @ ''>'') else [c]) (token_string L))"

section \<open>Events\<close>

text \<open>An exception: the class and number, for a parse error the three counters of the position, and the
  explanation.\<close>

datatype json_exn =
  parse_error_101 nat nat nat bytes
| out_of_range_406 bytes

datatype 'f sax_event =
  sax_null | sax_boolean bool | sax_number_integer u64 | sax_number_unsigned u64 | sax_number_float 'f bytes |
  sax_string bytes | sax_start_object | sax_key bytes | sax_end_object | sax_start_array | sax_end_array |
  sax_parse_error nat bytes json_exn

datatype 's sax_result = Go 's | Stop 's | Throw json_exn | Abort

type_synonym ('f, 's) sax = "'s \<Rightarrow> 'f sax_event \<Rightarrow> 's sax_result"

definition json_sax_acceptor :: "('f, unit) sax" where
  "json_sax_acceptor s e = (case e of sax_parse_error _ _ _ \<Rightarrow> Stop () | _ \<Rightarrow> Go ())"

section \<open>The DOM consumer\<close>

record 'f dom =
  root :: "'f json"
  ref_stack :: "step list list"
  object_element :: "step list option"
  errored :: bool

definition dom_init :: "'f dom" where
  "dom_init = \<lparr>root = json_null, ref_stack = [], object_element = None, errored = False\<rparr>"

text \<open>The new state and the pointer to the value; \<open>None\<close> is a failed assertion. The top of the stack is
  its first element.\<close>

definition handle_value :: "'f json \<Rightarrow> 'f dom \<Rightarrow> ('f dom \<times> step list) option" where
  "handle_value v d =
     (case ref_stack d of
        [] \<Rightarrow> Some (d\<lparr>root := v\<rparr>, [])
      | p # _ \<Rightarrow>
          (case json_at p (root d) of
             Some (json_array xs) \<Rightarrow> Some (d\<lparr>root := json_set p (json_array (xs @ [v])) (root d)\<rparr>, p @ [At (length xs)])
           | Some (json_object es) \<Rightarrow>
               (case object_element d of
                  None \<Rightarrow> None
                | Some q \<Rightarrow> Some (d\<lparr>root := json_set q v (root d)\<rparr>, q))
           | _ \<Rightarrow> None))"

definition dom_value :: "'f json \<Rightarrow> 'f dom \<Rightarrow> 'f dom sax_result" where
  "dom_value v d = (case handle_value v d of None \<Rightarrow> Abort | Some (d, p) \<Rightarrow> Go d)"

definition dom_start :: "'f json \<Rightarrow> 'f dom \<Rightarrow> 'f dom sax_result" where
  "dom_start v d = (case handle_value v d of None \<Rightarrow> Abort | Some (d, p) \<Rightarrow> Go (d\<lparr>ref_stack := p # ref_stack d\<rparr>))"

definition dom_key :: "bytes \<Rightarrow> 'f dom \<Rightarrow> 'f dom sax_result" where
  "dom_key k d =
     (case ref_stack d of
        [] \<Rightarrow> Abort
      | p # _ \<Rightarrow>
          (case json_at p (root d) of
             Some (json_object es) \<Rightarrow>
               Go (d\<lparr>root := json_set p (json_object (object_ref k es)) (root d), object_element := Some (p @ [Key k])\<rparr>)
           | _ \<Rightarrow> Abort))"

definition dom_end_object :: "'f dom \<Rightarrow> 'f dom sax_result" where
  "dom_end_object d =
     (case ref_stack d of
        [] \<Rightarrow> Abort
      | p # ps \<Rightarrow> (case json_at p (root d) of Some (json_object _) \<Rightarrow> Go (d\<lparr>ref_stack := ps\<rparr>) | _ \<Rightarrow> Abort))"

definition dom_end_array :: "'f dom \<Rightarrow> 'f dom sax_result" where
  "dom_end_array d =
     (case ref_stack d of
        [] \<Rightarrow> Abort
      | p # ps \<Rightarrow> (case json_at p (root d) of Some (json_array _) \<Rightarrow> Go (d\<lparr>ref_stack := ps\<rparr>) | _ \<Rightarrow> Abort))"

definition dom_parse_error :: "bool \<Rightarrow> json_exn \<Rightarrow> 'f dom \<Rightarrow> 'f dom sax_result" where
  "dom_parse_error allow_exceptions ex d = (if allow_exceptions then Throw ex else Stop (d\<lparr>errored := True\<rparr>))"

definition json_sax_dom_parser :: "bool \<Rightarrow> ('f, 'f dom) sax" where
  "json_sax_dom_parser allow_exceptions d e =
     (case e of
        sax_null \<Rightarrow> dom_value json_null d
      | sax_boolean b \<Rightarrow> dom_value (json_boolean b) d
      | sax_number_integer n \<Rightarrow> dom_value (json_integer n) d
      | sax_number_unsigned n \<Rightarrow> dom_value (json_unsigned n) d
      | sax_number_float x _ \<Rightarrow> dom_value (json_float x) d
      | sax_string s \<Rightarrow> dom_value (json_string s) d
      | sax_start_object \<Rightarrow> dom_start (json_object []) d
      | sax_key k \<Rightarrow> dom_key k d
      | sax_end_object \<Rightarrow> dom_end_object d
      | sax_start_array \<Rightarrow> dom_start (json_array []) d
      | sax_end_array \<Rightarrow> dom_end_array d
      | sax_parse_error _ _ ex \<Rightarrow> dom_parse_error allow_exceptions ex d)"

section \<open>The parser\<close>

text \<open>The library functions on floating-point numbers: \<^verbatim>\<open>strtod\<close> and \<^verbatim>\<open>std::isfinite\<close>.\<close>

record 'f float_lib =
  fl_strtof :: "bytes \<Rightarrow> 'f"
  fl_isfinite :: "'f \<Rightarrow> bool"

record 'f parser =
  last_token :: token_type
  m_lexer :: "'f lexer"

definition get_token :: "'f float_lib \<Rightarrow> 'f parser \<Rightarrow> 'f parser" where
  "get_token F p = (let (t, L) = scan (fl_strtof F) (m_lexer p) in \<lparr>last_token = t, m_lexer = L\<rparr>)"

definition parser_init :: "'f float_lib \<Rightarrow> bytes \<Rightarrow> bool \<Rightarrow> int \<Rightarrow> 'f \<Rightarrow> 'f parser" where
  "parser_init F adapter comments point zero =
     get_token F \<lparr>last_token = uninitialized, m_lexer = lexer_init adapter comments point zero\<rparr>"

text \<open>How an iteration of the loop ends: with another iteration (flag \<^verbatim>\<open>skip_to_state_evaluation\<close>, stack), or for
  good.\<close>

datatype ('f, 's) outcome =
  Next bool "bool list" "'f parser" 's
| Return bool "'f parser" 's
| Thrown json_exn "'f parser"
| Aborted

text \<open>A call of the consumer: \<open>false\<close> makes the parser return.\<close>

definition call :: "('f, 's) sax \<Rightarrow> 'f sax_event \<Rightarrow> 'f parser \<Rightarrow> 's \<Rightarrow> ('s \<Rightarrow> ('f, 's) outcome) \<Rightarrow> ('f, 's) outcome" where
  "call sax e p s k =
     (case sax s e of Go s' \<Rightarrow> k s' | Stop s' \<Rightarrow> Return False p s' | Throw ex \<Rightarrow> Thrown ex p | Abort \<Rightarrow> Aborted)"

definition exception_message :: "token_type \<Rightarrow> string \<Rightarrow> 'f parser \<Rightarrow> bytes" where
  "exception_message expected context p =
     asc ''syntax error '' @ (if context \<noteq> [] then asc (''while parsing '' @ context @ '' '') else []) @ asc ''- '' @
     (if last_token p = parse_error
      then asc (error_text (error_message (m_lexer p))) @ asc (''; last read: '' @ [CHR 0x27]) @
        get_token_string (m_lexer p) @ asc [CHR 0x27]
      else asc (''unexpected '' @ token_type_name (last_token p))) @
     (if expected \<noteq> uninitialized then asc (''; expected '' @ token_type_name expected) else [])"

definition parse_error_create :: "bytes \<Rightarrow> 'f parser \<Rightarrow> json_exn" where
  "parse_error_create what_arg p =
     (let L = m_lexer p in parse_error_101 (lines_read L) (chars_read_current_line L) (chars_read_total L) what_arg)"

definition report :: "('f, 's) sax \<Rightarrow> json_exn \<Rightarrow> 'f parser \<Rightarrow> 's \<Rightarrow> ('f, 's) outcome" where
  "report sax ex p s =
     call sax (sax_parse_error (chars_read_total (m_lexer p)) (get_token_string (m_lexer p)) ex) p s
       (\<lambda>s. Return True p s)"

definition unexpected :: "('f, 's) sax \<Rightarrow> token_type \<Rightarrow> string \<Rightarrow> 'f parser \<Rightarrow> 's \<Rightarrow> ('f, 's) outcome" where
  "unexpected sax expected context p s =
     report sax (parse_error_create (exception_message expected context p) p) p s"

text \<open>A key and its separator, the current token being the key.\<close>

definition parse_key ::
  "('f, 's) sax \<Rightarrow> 'f float_lib \<Rightarrow> bool list \<Rightarrow> 'f parser \<Rightarrow> 's \<Rightarrow> ('f, 's) outcome" where
  "parse_key sax F states p s =
     (if last_token p \<noteq> value_string then unexpected sax value_string ''object key'' p s
      else call sax (sax_key (get_string (m_lexer p))) p s (\<lambda>s.
        let p = get_token F p in
        if last_token p \<noteq> name_separator
        then unexpected sax name_separator ''object separator'' p s
        else Next False states (get_token F p) s))"

text \<open>After a value: \<^verbatim>\<open>states\<close> decides what must follow.\<close>

definition evaluate_array ::
  "('f, 's) sax \<Rightarrow> 'f float_lib \<Rightarrow> bool list \<Rightarrow> 'f parser \<Rightarrow> 's \<Rightarrow> ('f, 's) outcome" where
  "evaluate_array sax F states p s =
     (let p = get_token F p in
      if last_token p = value_separator then Next False states (get_token F p) s
      else if last_token p = end_array then call sax sax_end_array p s (\<lambda>s. Next True (tl states) p s)
      else unexpected sax end_array ''array'' p s)"

definition evaluate_object ::
  "('f, 's) sax \<Rightarrow> 'f float_lib \<Rightarrow> bool list \<Rightarrow> 'f parser \<Rightarrow> 's \<Rightarrow> ('f, 's) outcome" where
  "evaluate_object sax F states p s =
     (let p = get_token F p in
      if last_token p = value_separator then parse_key sax F states (get_token F p) s
      else if last_token p = end_object then call sax sax_end_object p s (\<lambda>s. Next True (tl states) p s)
      else unexpected sax end_object ''object'' p s)"

definition evaluate_state ::
  "('f, 's) sax \<Rightarrow> 'f float_lib \<Rightarrow> bool list \<Rightarrow> 'f parser \<Rightarrow> 's \<Rightarrow> ('f, 's) outcome" where
  "evaluate_state sax F states p s =
     (case states of
        [] \<Rightarrow> Return True p s
      | True # _ \<Rightarrow> evaluate_array sax F states p s
      | False # _ \<Rightarrow> evaluate_object sax F states p s)"

definition parse_object ::
  "('f, 's) sax \<Rightarrow> 'f float_lib \<Rightarrow> bool list \<Rightarrow> 'f parser \<Rightarrow> 's \<Rightarrow> ('f, 's) outcome" where
  "parse_object sax F states p s =
     call sax sax_start_object p s (\<lambda>s.
       let p = get_token F p in
       if last_token p = end_object then call sax sax_end_object p s (\<lambda>s. evaluate_state sax F states p s)
       else parse_key sax F (False # states) p s)"

definition parse_array ::
  "('f, 's) sax \<Rightarrow> 'f float_lib \<Rightarrow> bool list \<Rightarrow> 'f parser \<Rightarrow> 's \<Rightarrow> ('f, 's) outcome" where
  "parse_array sax F states p s =
     call sax sax_start_array p s (\<lambda>s.
       let p = get_token F p in
       if last_token p = end_array then call sax sax_end_array p s (\<lambda>s. evaluate_state sax F states p s)
       else Next False (True # states) p s)"

text \<open>The event of a value that is a single token.\<close>

definition scalar_event :: "'f parser \<Rightarrow> 'f sax_event option" where
  "scalar_event p =
     (case last_token p of
        value_float_tok \<Rightarrow> Some (sax_number_float (value_float (m_lexer p)) (get_string (m_lexer p)))
      | literal_false \<Rightarrow> Some (sax_boolean False)
      | literal_null \<Rightarrow> Some sax_null
      | literal_true \<Rightarrow> Some (sax_boolean True)
      | value_integer_tok \<Rightarrow> Some (sax_number_integer (value_integer (m_lexer p)))
      | value_string \<Rightarrow> Some (sax_string (get_string (m_lexer p)))
      | value_unsigned_tok \<Rightarrow> Some (sax_number_unsigned (value_unsigned (m_lexer p)))
      | _ \<Rightarrow> None)"

definition parse_unexpected :: "('f, 's) sax \<Rightarrow> 'f parser \<Rightarrow> 's \<Rightarrow> ('f, 's) outcome" where
  "parse_unexpected sax p s =
     (if last_token p = parse_error then unexpected sax uninitialized ''value'' p s
      else if last_token p = end_of_input \<and> chars_read_total (m_lexer p) = 1
      then report sax (parse_error_create (asc (''attempting to parse an empty input; check that your input string or stream contains '' @
        ''the expected JSON'')) p) p s
      else unexpected sax literal_or_value ''value'' p s)"

definition parse_value ::
  "('f, 's) sax \<Rightarrow> 'f float_lib \<Rightarrow> bool list \<Rightarrow> 'f parser \<Rightarrow> 's \<Rightarrow> ('f, 's) outcome" where
  "parse_value sax F states p s =
     (if last_token p = begin_object then parse_object sax F states p s
      else if last_token p = begin_array then parse_array sax F states p s
      else if last_token p = value_float_tok \<and> \<not> fl_isfinite F (value_float (m_lexer p))
      then report sax (out_of_range_406 (asc (''number overflow parsing '' @ [CHR 0x27]) @ get_token_string (m_lexer p) @ asc [CHR 0x27])) p s
      else case scalar_event p of
        Some e \<Rightarrow> call sax e p s (\<lambda>s. evaluate_state sax F states p s)
      | None \<Rightarrow> parse_unexpected sax p s)"

definition iteration ::
  "('f, 's) sax \<Rightarrow> 'f float_lib \<Rightarrow> bool \<Rightarrow> bool list \<Rightarrow> 'f parser \<Rightarrow> 's \<Rightarrow> ('f, 's) outcome" where
  "iteration sax F skip_to_state_evaluation states p s =
     (if \<not> skip_to_state_evaluation then parse_value sax F states p s else evaluate_state sax F states p s)"

partial_function (option) sax_loop ::
  "('f, 's) sax \<Rightarrow> 'f float_lib \<Rightarrow> bool \<Rightarrow> bool list \<Rightarrow> 'f parser \<Rightarrow> 's \<Rightarrow> ('f, 's) outcome option" where
  "sax_loop sax F skip states p s =
     (case iteration sax F skip states p s of
        Next skip' states' p' s' \<Rightarrow> sax_loop sax F skip' states' p' s'
      | r \<Rightarrow> Some r)"

definition sax_parse_internal :: "('f, 's) sax \<Rightarrow> 'f float_lib \<Rightarrow> 'f parser \<Rightarrow> 's \<Rightarrow> ('f, 's) outcome option" where
  "sax_parse_internal sax F p s = sax_loop sax F False [] p s"

definition sax_parse :: "('f, 's) sax \<Rightarrow> 'f float_lib \<Rightarrow> bool \<Rightarrow> 'f parser \<Rightarrow> 's \<Rightarrow> ('f, 's) outcome option" where
  "sax_parse sax F strict p s =
     map_option (\<lambda>r. case r of
         Return True p s \<Rightarrow>
           (let p' = get_token F p in
            if strict then (if last_token p' \<noteq> end_of_input
              then unexpected sax end_of_input ''value'' p' s else Return True p' s)
            else Return True p s)
       | _ \<Rightarrow> r)
     (sax_parse_internal sax F p s)"

definition accept :: "'f float_lib \<Rightarrow> bool \<Rightarrow> 'f parser \<Rightarrow> bool option" where
  "accept F strict p =
     map_option (\<lambda>r. case r of Return b _ _ \<Rightarrow> b | _ \<Rightarrow> False) (sax_parse json_sax_acceptor F strict p ())"

text \<open>\<^verbatim>\<open>parse\<close> without a callback: \<open>Inl\<close> is an exception.\<close>

definition finish_parse :: "'f float_lib \<Rightarrow> bool \<Rightarrow> bool \<Rightarrow> 'f parser \<Rightarrow> 'f dom \<Rightarrow> (json_exn + 'f json) option" where
  "finish_parse F allow_exceptions strict p d =
     (let p' = get_token F p in
      if strict \<and> last_token p' \<noteq> end_of_input then
        (if allow_exceptions then Some (Inl (parse_error_create (exception_message end_of_input ''value'' p') p')) else Some (Inr json_discarded))
      else Some (Inr (if errored d then json_discarded else root d)))"

definition parse :: "'f float_lib \<Rightarrow> bool \<Rightarrow> bool \<Rightarrow> 'f parser \<Rightarrow> (json_exn + 'f json) option" where
  "parse F allow_exceptions strict p =
     (case sax_parse_internal (json_sax_dom_parser allow_exceptions) F p dom_init of
        Some (Return b p d) \<Rightarrow> finish_parse F allow_exceptions strict p d
      | Some (Thrown ex p) \<Rightarrow> Some (Inl ex)
      | _ \<Rightarrow> None)"

end
