(* ===== verification/JsonTotal.thy ===== *)
theory JsonTotal
  imports JsonParser
begin

text \<open>
  The JSON parser returns on every input, whatever the SAX consumer does: every iteration of its loop
  that is followed by another one consumes a token.
\<close>

definition live :: "token_type \<Rightarrow> bool" where
  "live t \<longleftrightarrow> t \<noteq> end_of_input \<and> t \<noteq> parse_error"

text \<open>The tokens still to come, counting the one already read unless it was already used.\<close>

definition loop_left :: "bool \<Rightarrow> 'f parser \<Rightarrow> nat" where
  "loop_left skip p = lex_left (m_lexer p) + (if \<not> skip \<and> live (last_token p) then 1 else 0)"

lemma get_token_left:
  "lex_left (m_lexer (get_token F p)) \<le> lex_left (m_lexer p)"
  "live (last_token (get_token F p)) \<Longrightarrow> lex_left (m_lexer (get_token F p)) < lex_left (m_lexer p)"
proof -
  obtain t L where s: "scan (fl_strtof F) (m_lexer p) = (t, L)" by (cases "scan (fl_strtof F) (m_lexer p)")
  show "lex_left (m_lexer (get_token F p)) \<le> lex_left (m_lexer p)"
    using scan_consumes(1) [of "fl_strtof F" "m_lexer p"] s by (simp add: get_token_def)
  show "lex_left (m_lexer (get_token F p)) < lex_left (m_lexer p)" if "live (last_token (get_token F p))"
    using scan_consumes(2) [of "fl_strtof F" "m_lexer p"] s that by (simp add: get_token_def live_def)
qed

lemma get_token_loop_left: "loop_left False (get_token F p) \<le> lex_left (m_lexer p)"
  using get_token_left [of F p] by (auto simp: loop_left_def)

text \<open>\<open>nexts n r\<close>: if the iteration with outcome \<open>r\<close> is followed by another one, less than \<open>n\<close> is left.\<close>

definition nexts :: "nat \<Rightarrow> ('f, 's) outcome \<Rightarrow> bool" where
  "nexts n r \<longleftrightarrow> (\<forall>skip states p s. r = Next skip states p s \<longrightarrow> loop_left skip p < n)"

lemma nexts_call: "(\<And>s'. nexts n (k s')) \<Longrightarrow> nexts n (call sax e p s k)"
  by (simp add: nexts_def call_def split: sax_result.split)

lemma nexts_report: "nexts n (report sax ex p s)"
  unfolding report_def by (rule nexts_call) (simp add: nexts_def)

lemma nexts_unexpected: "nexts n (unexpected sax t c p s)"
  unfolding unexpected_def by (rule nexts_report)

lemma nexts_key:
  assumes "lex_left (m_lexer p) \<le> n"
  shows "nexts n (parse_key sax F states p s)"
proof -
  let ?p1 = "get_token F p"
  have "loop_left False (get_token F ?p1) < n" if "last_token ?p1 = name_separator"
    using get_token_loop_left [of F ?p1] get_token_left(2) [of F p] that assms by (simp add: live_def)
  then show ?thesis
    unfolding parse_key_def Let_def
    by (auto intro!: nexts_report nexts_unexpected nexts_call) (auto simp: nexts_def)
qed

lemma nexts_evaluate:
  "lex_left (m_lexer p) \<le> n \<Longrightarrow> nexts n (evaluate_state sax F states p s)"
proof -
  assume n: "lex_left (m_lexer p) \<le> n"
  let ?p1 = "get_token F p"
  have p1: "lex_left (m_lexer ?p1) < n" if "last_token ?p1 = value_separator \<or> last_token ?p1 = end_array \<or> last_token ?p1 = end_object"
    using get_token_left(2) [of F p] that n by (auto simp: live_def)
  have p2: "lex_left (m_lexer (get_token F ?p1)) \<le> n" using get_token_left(1) [of F ?p1] get_token_left(1) [of F p] n by simp
  have "nexts n (evaluate_array sax F states p s)"
    unfolding evaluate_array_def Let_def
    using p1 get_token_loop_left [of F ?p1]
    by (auto intro!: nexts_report nexts_unexpected nexts_call) (auto simp: nexts_def loop_left_def)
  moreover have "nexts n (evaluate_object sax F states p s)"
    unfolding evaluate_object_def Let_def
    using p1 p2 by (auto intro!: nexts_report nexts_unexpected nexts_call nexts_key) (auto simp: nexts_def loop_left_def)
  ultimately show ?thesis
    unfolding evaluate_state_def by (auto simp: nexts_def split: list.split bool.split)
qed

lemma nexts_iteration: "nexts (loop_left skip p) (iteration sax F skip states p s)"
proof (cases skip)
  case True
  then show ?thesis using nexts_evaluate [of p "loop_left skip p"] by (simp add: iteration_def loop_left_def)
next
  case False
  let ?n = "loop_left False p" and ?p1 = "get_token F p"
  have ev: "nexts ?n (evaluate_state sax F states p s)" for s
    by (rule nexts_evaluate) (simp add: loop_left_def)
  have p1: "lex_left (m_lexer ?p1) \<le> ?n" using get_token_left(1) [of F p] by (simp add: loop_left_def)
  have "nexts ?n (parse_object sax F states p s)"
    unfolding parse_object_def Let_def using p1 by (auto intro!: nexts_call nexts_evaluate nexts_key)
  moreover have "nexts ?n (parse_array sax F states p s)" if "last_token p = begin_array"
  proof -
    have "loop_left False ?p1 < ?n"
      using get_token_loop_left [of F p] that by (simp add: loop_left_def live_def)
    then show ?thesis
      unfolding parse_array_def Let_def
      using p1 by (auto intro!: nexts_call nexts_evaluate) (auto simp: nexts_def)
  qed
  ultimately show ?thesis
    using False ev
    by (auto simp: iteration_def parse_value_def parse_unexpected_def
        intro!: nexts_call nexts_report nexts_unexpected split: option.split)
qed

lemma sax_loop_total: "\<exists>r. sax_loop sax F skip states p s = Some r"
proof (induction "loop_left skip p" arbitrary: skip states p s rule: less_induct)
  case less
  show ?case
  proof (cases "iteration sax F skip states p s")
    case (Next skip' states' p' s')
    then have "loop_left skip' p' < loop_left skip p"
      using nexts_iteration [of skip p sax F states s] by (simp add: nexts_def)
    then show ?thesis using less [of skip' p' states' s'] Next by (subst sax_loop.simps) simp
  qed (subst sax_loop.simps, simp)+
qed

text \<open>C27: The parser returns on every input and with every SAX consumer: the loop over tokens ends with a
  result, an exception or a failed assertion of the consumer, and so does the acceptor.\<close>

theorem json_parser_terminates:
  "(\<exists>r. sax_parse_internal sax F p s = Some r) \<and> (\<exists>b. accept F strict p = Some b)"
proof
  show "\<exists>r. sax_parse_internal sax F p s = Some r"
    unfolding sax_parse_internal_def by (rule sax_loop_total)
  obtain r where "sax_parse_internal json_sax_acceptor F p () = Some r"
    unfolding sax_parse_internal_def using sax_loop_total [of json_sax_acceptor F False "[]" p "()"] by blast
  then show "\<exists>b. accept F strict p = Some b" by (simp add: accept_def sax_parse_def)
qed

end
