(* ===== verification/JsonSax.thy ===== *)
theory JsonSax
  imports JsonTotal
begin

text \<open>
  What the parser relies on in a SAX consumer, as a locale, and what it guarantees in return: the events
  come in a well-nested order, so a consumer that keeps its part is never called out of order, and its
  verdict is that of \<^verbatim>\<open>json_sax_acceptor\<close>.

  \<open>ready bs s\<close>: the consumer in state \<open>s\<close> expects a value, the stack of open arrays (\<open>True\<close>) and objects
  being \<open>bs\<close>; \<open>between bs s\<close>: it has just been told a value, or the start of the innermost container.
\<close>

definition is_value :: "'f sax_event \<Rightarrow> bool" where
  "is_value e = (case e of sax_null \<Rightarrow> True | sax_boolean _ \<Rightarrow> True | sax_number_integer _ \<Rightarrow> True
     | sax_number_unsigned _ \<Rightarrow> True | sax_number_float _ _ \<Rightarrow> True | sax_string _ \<Rightarrow> True | _ \<Rightarrow> False)"

lemma scalar_event_value: "scalar_event p = Some e \<Longrightarrow> is_value e"
  by (auto simp: scalar_event_def is_value_def split: token_type.splits)

text \<open>The strings in an event satisfy \<open>P\<close>.\<close>

definition event_strings :: "(bytes \<Rightarrow> bool) \<Rightarrow> 'f sax_event \<Rightarrow> bool" where
  "event_strings P e = (case e of sax_string s \<Rightarrow> P s | sax_key s \<Rightarrow> P s | _ \<Rightarrow> True)"

definition token_strings :: "(bytes \<Rightarrow> bool) \<Rightarrow> 'f parser \<Rightarrow> bool" where
  "token_strings P p \<longleftrightarrow> (last_token p = value_string \<longrightarrow> P (get_string (m_lexer p)))"

lemma scalar_event_strings: "token_strings P p \<Longrightarrow> scalar_event p = Some e \<Longrightarrow> event_strings P e"
  by (auto simp: scalar_event_def event_strings_def token_strings_def split: token_type.splits)

locale sax_consumer =
  fixes sax :: "('f, 's) sax"
    and throws :: bool
    and strings :: "bytes \<Rightarrow> bool"
    and ready between :: "bool list \<Rightarrow> 's \<Rightarrow> bool"
    and failed :: "'s \<Rightarrow> bool"
  assumes scanned: "token_strings strings (get_token F (p :: 'f parser))"
    and "value": "ready bs s \<Longrightarrow> is_value e \<Longrightarrow> event_strings strings e \<Longrightarrow> \<exists>s'. sax s e = Go s' \<and> between bs s'"
    and start_array: "ready bs s \<Longrightarrow> \<exists>s'. sax s sax_start_array = Go s' \<and> between (True # bs) s'"
    and start_object: "ready bs s \<Longrightarrow> \<exists>s'. sax s sax_start_object = Go s' \<and> between (False # bs) s'"
    and next_element: "between (True # bs) s \<Longrightarrow> ready (True # bs) s"
    and key: "between (False # bs) s \<Longrightarrow> strings k \<Longrightarrow> \<exists>s'. sax s (sax_key k) = Go s' \<and> ready (False # bs) s'"
    and end_array: "between (True # bs) s \<Longrightarrow> \<exists>s'. sax s sax_end_array = Go s' \<and> between bs s'"
    and end_object: "between (False # bs) s \<Longrightarrow> \<exists>s'. sax s sax_end_object = Go s' \<and> between bs s'"
    and fails: "ready bs s \<or> between bs s \<Longrightarrow>
      if throws then sax s (sax_parse_error n t ex) = Throw ex
      else \<exists>s'. sax s (sax_parse_error n t ex) = Stop s' \<and> failed s'"
begin

text \<open>The outcome \<open>r\<close> of the consumer against the outcome \<open>r'\<close> of the acceptor.\<close>

definition agrees :: "('f, 's) outcome \<Rightarrow> ('f, unit) outcome \<Rightarrow> bool" where
  "agrees r r' =
     (case r' of
        Next skip bs p _ \<Rightarrow> token_strings strings p \<and>
          (\<exists>s. r = Next skip bs p s \<and> (if skip then between bs s else ready bs s))
      | Return True p _ \<Rightarrow> \<exists>s. r = Return True p s \<and> between [] s
      | Return False p _ \<Rightarrow> if throws then \<exists>ex. r = Thrown ex p else \<exists>s. r = Return False p s \<and> failed s
      | _ \<Rightarrow> False)"

lemma agrees_next:
  "ready bs s \<Longrightarrow> agrees (Next False bs (get_token F p) s) (Next False bs (get_token F p) u)"
  "between bs s \<Longrightarrow> agrees (Next True bs (get_token F p) s) (Next True bs (get_token F p) u)"
  using scanned by (simp_all add: agrees_def)

lemma agrees_report:
  assumes "ready bs s \<or> between bs s"
  shows "agrees (report sax ex p s) (report json_sax_acceptor ex p ())"
  using fails [OF assms, of "chars_read_total (m_lexer p)" "get_token_string (m_lexer p)" ex]
  by (auto simp: agrees_def report_def call_def json_sax_acceptor_def split: if_splits)

lemma agrees_unexpected:
  "ready bs s \<or> between bs s \<Longrightarrow> agrees (unexpected sax t c p s) (unexpected json_sax_acceptor t c p ())"
  unfolding unexpected_def by (rule agrees_report)

lemma acceptor_call:
  "(case e of sax_parse_error _ _ _ \<Rightarrow> False | _ \<Rightarrow> True) \<Longrightarrow> call json_sax_acceptor e p () k = k ()"
  by (cases e) (simp_all add: call_def json_sax_acceptor_def)

lemma agrees_key:
  assumes s: "between (False # bs) s" and p: "token_strings strings p"
  shows "agrees (parse_key sax F (False # bs) p s) (parse_key json_sax_acceptor F (False # bs) p ())"
proof (cases "last_token p = value_string")
  case True
  then have "strings (get_string (m_lexer p))" using p by (simp add: token_strings_def)
  then obtain s' where s': "sax s (sax_key (get_string (m_lexer p))) = Go s'" "ready (False # bs) s'"
    using key [OF s] by blast
  let ?p = "get_token F p"
  have "agrees (unexpected sax t c ?p s') (unexpected json_sax_acceptor t c ?p ())" for t c
    using s'(2) by (blast intro: agrees_unexpected)
  moreover have "agrees (Next False (False # bs) (get_token F ?p) s') (Next False (False # bs) (get_token F ?p) ())"
    using s'(2) by (rule agrees_next)
  ultimately show ?thesis using True by (simp add: parse_key_def call_def json_sax_acceptor_def s'(1) Let_def)
next
  case False
  then show ?thesis using s by (auto simp: parse_key_def intro: agrees_unexpected)
qed

lemma agrees_evaluate:
  assumes s: "between bs s"
  shows "agrees (evaluate_state sax F bs p s) (evaluate_state json_sax_acceptor F bs p ())"
proof (cases bs)
  case Nil
  then show ?thesis using s by (simp add: evaluate_state_def agrees_def)
next
  case (Cons b bs')
  let ?p = "get_token F p"
  have u: "agrees (unexpected sax t c ?p s) (unexpected json_sax_acceptor t c ?p ())" for t c
    using s by (blast intro: agrees_unexpected)
  show ?thesis
  proof (cases b)
    case True
    obtain s' where "sax s sax_end_array = Go s'" "between bs' s'" using end_array [of bs' s] s Cons True by auto
    then have "agrees (call sax sax_end_array ?p s (\<lambda>s. Next True bs' ?p s)) (Next True bs' ?p ())"
      by (simp add: call_def agrees_next)
    then show ?thesis
      using u s next_element
      by (simp add: evaluate_state_def evaluate_array_def Cons True Let_def acceptor_call agrees_next)
  next
    case False
    obtain s' where "sax s sax_end_object = Go s'" "between bs' s'" using end_object [of bs' s] s Cons False by auto
    then have "agrees (call sax sax_end_object ?p s (\<lambda>s. Next True bs' ?p s)) (Next True bs' ?p ())"
      by (simp add: call_def agrees_next)
    then show ?thesis
      using u s agrees_key scanned
      by (simp add: evaluate_state_def evaluate_object_def Cons False Let_def acceptor_call)
  qed
qed

lemma agrees_value:
  assumes s: "ready bs s" and p: "token_strings strings p"
  shows "agrees (parse_value sax F bs p s) (parse_value json_sax_acceptor F bs p ())"
proof -
  let ?p = "get_token F p"
  obtain s1 where s1: "sax s sax_start_object = Go s1" "between (False # bs) s1" using start_object s by blast
  obtain s2 where s2: "sax s1 sax_end_object = Go s2" "between bs s2" using end_object s1 by blast
  have obj: "agrees (parse_object sax F bs p s) (parse_object json_sax_acceptor F bs p ())"
    using s1 s2 agrees_evaluate [OF s2(2)] agrees_key [OF s1(2) scanned]
    by (simp add: parse_object_def call_def json_sax_acceptor_def Let_def)
  obtain s3 where s3: "sax s sax_start_array = Go s3" "between (True # bs) s3" using start_array s by blast
  obtain s4 where s4: "sax s3 sax_end_array = Go s4" "between bs s4" using end_array s3 by blast
  have arr: "agrees (parse_array sax F bs p s) (parse_array json_sax_acceptor F bs p ())"
    using s3 s4 agrees_evaluate [OF s4(2)] next_element [OF s3(2)]
    by (simp add: parse_array_def call_def json_sax_acceptor_def Let_def agrees_next)
  have sca: "agrees (call sax e p s (\<lambda>s. evaluate_state sax F bs p s))
      (call json_sax_acceptor e p () (\<lambda>s. evaluate_state json_sax_acceptor F bs p s))"
    if "scalar_event p = Some e" for e
  proof -
    note e = scalar_event_value [OF that] scalar_event_strings [OF p that]
    obtain s' where "sax s e = Go s'" "between bs s'" using "value" [OF s e] by blast
    then show ?thesis
      using agrees_evaluate e(1) by (auto simp: call_def json_sax_acceptor_def is_value_def split: sax_event.splits)
  qed
  have err: "agrees (report sax ex p s) (report json_sax_acceptor ex p ())"
    "agrees (unexpected sax t c p s) (unexpected json_sax_acceptor t c p ())" for ex t c
    using s by (blast intro: agrees_report agrees_unexpected)+
  show ?thesis
    using obj arr sca err by (auto simp: parse_value_def parse_unexpected_def split: option.split)
qed

lemma agrees_iteration:
  assumes "if skip then between bs s else ready bs s" and "token_strings strings p"
  shows "agrees (iteration sax F skip bs p s) (iteration json_sax_acceptor F skip bs p ())"
  using assms agrees_value agrees_evaluate by (simp add: iteration_def split: if_splits)

lemma agrees_loop:
  assumes "if skip then between bs s else ready bs s" and "token_strings strings p"
  shows "\<exists>r r'. sax_loop sax F skip bs p s = Some r \<and> sax_loop json_sax_acceptor F skip bs p () = Some r' \<and>
    agrees r r' \<and> (\<forall>sk b q u. r' \<noteq> Next sk b q u)"
  using assms
proof (induction "loop_left skip p" arbitrary: skip bs p s rule: less_induct)
  case less
  let ?r = "iteration sax F skip bs p s" and ?r' = "iteration json_sax_acceptor F skip bs p ()"
  have a: "agrees ?r ?r'" using less.prems by (rule agrees_iteration)
  show ?case
  proof (cases ?r')
    case (Next sk b q u)
    then obtain s' where r: "?r = Next sk b q s'" "if sk then between b s' else ready b s'" "token_strings strings q"
      using a by (auto simp: agrees_def)
    have "loop_left sk q < loop_left skip p"
      using nexts_iteration [of skip p sax F bs s] r(1) by (simp add: nexts_def)
    then show ?thesis
      using less.hyps [of sk q b s'] r Next by (simp add: sax_loop.simps [of _ F skip])
  next
    case (Return v q u)
    moreover have "?r \<noteq> Next sk b q' s'" for sk b q' s' using a Return by (auto simp: agrees_def split: if_splits bool.splits)
    ultimately show ?thesis using a by (cases ?r) (auto simp: sax_loop.simps [of _ F skip] agrees_def split: bool.splits)
  qed (use a in \<open>simp_all add: agrees_def\<close>)
qed

text \<open>The parse from the start, against the acceptor's.\<close>

lemma agrees_parse:
  assumes "ready [] s" and "token_strings strings p"
  obtains r r' where "sax_parse_internal sax F p s = Some r" "sax_parse_internal json_sax_acceptor F p () = Some r'"
    "agrees r r'" "\<And>sk b q u. r' \<noteq> Next sk b q u"
  using agrees_loop [of False "[]" s p F] assms by (auto simp: sax_parse_internal_def)

end

end
