(* ===== verification/JsonUtf8.thy ===== *)
theory JsonUtf8
  imports JsonParser
begin

text \<open>
  Strings and UTF-8: the encoding of code points as RFC 3629 defines it, and the result of the scanner
  on strings: whatever the input and its escapes, the value of a string token is well-formed UTF-8.
\<close>

section \<open>The encoding\<close>

text \<open>A Unicode scalar value is a code point that is not a surrogate.\<close>

definition scalar :: "int \<Rightarrow> bool" where
  "scalar c \<longleftrightarrow> 0 \<le> c \<and> c \<le> 0x10FFFF \<and> \<not> (0xD800 \<le> c \<and> c \<le> 0xDFFF)"

definition utf8_encode :: "int \<Rightarrow> bytes" where
  "utf8_encode c = map word_of_int
     (if c < 0x80 then [c]
      else if c < 0x800 then [0xC0 + c div 64, 0x80 + c mod 64]
      else if c < 0x10000 then [0xE0 + c div 4096, 0x80 + c div 64 mod 64, 0x80 + c mod 64]
      else [0xF0 + c div 262144, 0x80 + c div 4096 mod 64, 0x80 + c div 64 mod 64, 0x80 + c mod 64])"

definition utf8 :: "bytes \<Rightarrow> bool" where
  "utf8 s \<longleftrightarrow> (\<exists>cs. list_all scalar cs \<and> s = concat (map utf8_encode cs))"

lemma utf8_Nil: "utf8 []"
  by (auto simp: utf8_def intro: exI [of _ "[]"])

lemma utf8_append: "utf8 s \<Longrightarrow> scalar c \<Longrightarrow> utf8 (s @ utf8_encode c)"
  unfolding utf8_def
proof (elim exE conjE)
  fix cs
  assume "scalar c" "list_all scalar cs" "s = concat (map utf8_encode cs)"
  then show "\<exists>cs. list_all scalar cs \<and> s @ utf8_encode c = concat (map utf8_encode cs)"
    by (intro exI [of _ "cs @ [c]"]) simp
qed

text \<open>The bit operations of \<^verbatim>\<open>scan_string\<close> as arithmetic.\<close>

lemma low6: "(c :: int) AND 0x3F = c mod 64"
  using take_bit_eq_mask [of 6 c] by (simp add: mask_eq_exp_minus_1 take_bit_eq_mod)

lemma or_below: "0 \<le> b \<Longrightarrow> b < 2 ^ n \<Longrightarrow> push_bit n a OR b = push_bit n a + (b :: int)"
proof -
  assume "0 \<le> b" "b < 2 ^ n"
  then have "b = take_bit n b" by (simp add: take_bit_int_eq_self)
  then have "\<not> bit (push_bit n a) i \<or> \<not> bit b i" for i by (metis bit_push_bit_iff bit_take_bit_iff not_le)
  then show ?thesis by (rule disjunctive_add [symmetric])
qed

lemma or_lead:
  "0 \<le> b \<Longrightarrow> b < 64 \<Longrightarrow> 0x80 OR b = 0x80 + (b :: int)"
  "0 \<le> b \<Longrightarrow> b < 32 \<Longrightarrow> 0xC0 OR b = 0xC0 + (b :: int)"
  "0 \<le> b \<Longrightarrow> b < 16 \<Longrightarrow> 0xE0 OR b = 0xE0 + (b :: int)"
  "0 \<le> b \<Longrightarrow> b < 8 \<Longrightarrow> 0xF0 OR b = 0xF0 + (b :: int)"
  using or_below [of b 6 2] or_below [of b 5 6] or_below [of b 4 14] or_below [of b 3 30] by (simp_all add: push_bit_eq_mult)


lemma add_codepoint_encode:
  assumes "scalar c"
  shows "add_codepoint c L = L\<lparr>token_buffer := token_buffer L @ utf8_encode c\<rparr>"
proof -
  have c: "0 \<le> c" "c \<le> 0x10FFFF" using assms by (simp_all add: scalar_def)
  have m: "0x80 OR (x mod 64) = 0x80 + x mod 64" for x :: int by (rule or_lead) simp_all
  have d: "c < 0x800 \<Longrightarrow> 0xC0 OR (c div 64) = 0xC0 + c div 64"
    "c < 0x10000 \<Longrightarrow> 0xE0 OR (c div 4096) = 0xE0 + c div 4096" "0xF0 OR (c div 262144) = 0xF0 + c div 262144"
    using c by (auto intro: or_lead)
  show ?thesis
    using c d by (simp add: add_codepoint_def utf8_encode_def lex_add_def low6 m drop_bit_eq_div)
qed

text \<open>The multi-byte sequences that the scanner accepts byte by byte.\<close>

definition in_range :: "int \<times> int \<Rightarrow> u8 \<Rightarrow> bool" where
  "in_range r b \<longleftrightarrow> fst r \<le> uint b \<and> uint b \<le> snd r"

lemma word_of_range: "0 \<le> c \<Longrightarrow> c \<le> 0xFF \<Longrightarrow> uint (word_of_int c :: u8) = c"
  by (simp add: uint_word_of_int take_bit_int_eq_self)

lemma sextet: "0 \<le> y \<Longrightarrow> y < 64 \<Longrightarrow> (x * 64 + y) div 64 = (x :: int)" "0 \<le> y \<Longrightarrow> y < 64 \<Longrightarrow> (x * 64 + y) mod 64 = (y :: int)"
  by simp_all

lemma div_sextet: "c div 4096 = c div 64 div 64" "c div 262144 = c div 64 div 64 div (64 :: int)"
  by (simp_all add: zdiv_zmult2_eq [symmetric])

lemma encode_two:
  assumes "2 \<le> x" "x < 32" "0 \<le> y" "y < 64"
  shows "\<exists>c. scalar c \<and> utf8_encode c = map word_of_int [0xC0 + x, 0x80 + y]"
  using assms by (intro exI [of _ "x * 64 + y"]) (simp add: scalar_def utf8_encode_def sextet)

lemma encode_three:
  assumes x: "0 \<le> x" "x < 16" and y: "0 \<le> y" "y < 64" and z: "0 \<le> z" "z < 64"
    and "x = 0 \<longrightarrow> 32 \<le> y" "x = 13 \<longrightarrow> y < 32"
  shows "\<exists>c. scalar c \<and> utf8_encode c = map word_of_int [0xE0 + x, 0x80 + y, 0x80 + z]"
proof (intro exI conjI)
  let ?c = "(x * 64 + y) * 64 + z"
  have "x = 0 \<or> 1 \<le> x \<and> x \<le> 12 \<or> x = 13 \<or> 14 \<le> x" using x by linarith
  then show "scalar ?c" unfolding scalar_def using assms by (elim disjE) auto
  have "\<not> ?c < 0x800" using assms by (cases "x = 0") auto
  moreover from this have "\<not> ?c < 0x80" by linarith
  moreover have "?c < 0x10000" using x y z by simp
  moreover have "?c div 64 = x * 64 + y" "?c mod 64 = z" using z by (rule sextet)+
  moreover have "(x * 64 + y) div 64 = x" "(x * 64 + y) mod 64 = y" using y by (rule sextet)+
  ultimately show "utf8_encode ?c = map word_of_int [0xE0 + x, 0x80 + y, 0x80 + z]"
    unfolding utf8_encode_def div_sextet by (simp only: if_False if_True)
qed

lemma encode_four:
  assumes x: "0 \<le> x" "x < 5" and y: "0 \<le> y" "y < 64" and z: "0 \<le> z" "z < 64" and w: "0 \<le> w" "w < 64"
    and "x = 0 \<longrightarrow> 16 \<le> y" "x = 4 \<longrightarrow> y < 16"
  shows "\<exists>c. scalar c \<and> utf8_encode c = map word_of_int [0xF0 + x, 0x80 + y, 0x80 + z, 0x80 + w]"
proof (intro exI conjI)
  let ?c = "((x * 64 + y) * 64 + z) * 64 + w"
  have "x = 0 \<or> 1 \<le> x \<and> x \<le> 3 \<or> x = 4" using x by linarith
  then show "scalar ?c" unfolding scalar_def using assms by (elim disjE) auto
  have "\<not> ?c < 0x10000" using assms by (cases "x = 0") auto
  moreover have "\<not> ?c < 0x800" "\<not> ?c < 0x80" using calculation by linarith+
  moreover have "?c div 64 = (x * 64 + y) * 64 + z" "?c mod 64 = w" using w by (rule sextet)+
  moreover have "((x * 64 + y) * 64 + z) div 64 = x * 64 + y" "((x * 64 + y) * 64 + z) mod 64 = z" using z by (rule sextet)+
  moreover have "(x * 64 + y) div 64 = x" "(x * 64 + y) mod 64 = y" using y by (rule sextet)+
  ultimately show "utf8_encode ?c = map word_of_int [0xF0 + x, 0x80 + y, 0x80 + z, 0x80 + w]"
    unfolding utf8_encode_def div_sextet by (simp only: if_False if_True)
qed

text \<open>A lead byte and its continuation bytes in the ranges of \<^verbatim>\<open>scan_string\<close>.\<close>

lemma lead_encode:
  assumes "lead_ranges a = Some rs" and "list_all2 in_range rs bs"
  shows "\<exists>c. scalar c \<and> utf8_encode c = word_of_int a # bs"
proof -
  have w: "b = word_of_int (0x80 + (uint b - 0x80))" for b :: u8 by simp
  consider (two) b where "bs = [b]" "0xC2 \<le> a" "a \<le> 0xDF" "in_range (0x80, 0xBF) b"
    | (three) b d where "bs = [b, d]" "0xE0 \<le> a" "a \<le> 0xEF" "in_range (0x80, 0xBF) b" "in_range (0x80, 0xBF) d"
      "a = 0xE0 \<longrightarrow> 0xA0 \<le> uint b" "a = 0xED \<longrightarrow> uint b \<le> 0x9F"
    | (four) b d e where "bs = [b, d, e]" "0xF0 \<le> a" "a \<le> 0xF4" "in_range (0x80, 0xBF) b" "in_range (0x80, 0xBF) d"
      "in_range (0x80, 0xBF) e" "a = 0xF0 \<longrightarrow> 0x90 \<le> uint b" "a = 0xF4 \<longrightarrow> uint b \<le> 0x8F"
    using assms by (auto simp: lead_ranges_def list_all2_Cons1 in_range_def split: if_splits)
  then show ?thesis
  proof cases
    case two
    then show ?thesis using encode_two [of "a - 0xC0" "uint b - 0x80"] by (simp add: in_range_def)
  next
    case three
    then show ?thesis using encode_three [of "a - 0xE0" "uint b - 0x80" "uint d - 0x80"] by (auto simp: in_range_def)
  next
    case four
    then show ?thesis
      using encode_four [of "a - 0xF0" "uint b - 0x80" "uint d - 0x80" "uint e - 0x80"] by (auto simp: in_range_def)
  qed
qed


section \<open>Scanned strings\<close>

text \<open>\<open>grows L s L'\<close>: from \<open>L\<close> to \<open>L'\<close> the scanner adds \<open>s\<close> to the token buffer and sets no decimal point.\<close>

definition grows :: "'f lexer \<Rightarrow> bytes \<Rightarrow> 'f lexer \<Rightarrow> bool" where
  "grows L s L' \<longleftrightarrow> token_buffer L' = token_buffer L @ s \<and> decimal_point_position L' = decimal_point_position L"

lemma grows_trans: "grows L s L' \<Longrightarrow> grows L' t L'' \<Longrightarrow> grows L (s @ t) L''"
  by (simp add: grows_def)

lemma grows_get: "grows (lex_get L) s L' \<Longrightarrow> grows L s L'"
  by (simp add: grows_def)

lemma grows_add: "grows L [word_of_int c] (lex_add c L)"
  by (simp add: grows_def lex_add_def)

lemma grows_codepoint_loop: "grows L [] (snd (get_codepoint_loop fs c L))"
proof (induction fs arbitrary: c L)
  case (Cons f fs)
  have "grows L [] (lex_get L)" by (simp add: grows_def)
  moreover have "grows L [] (snd (get_codepoint_loop fs c' (lex_get L)))" for c' using Cons.IH by (rule grows_get)
  ultimately show ?case by (cases "hex_digit (current (lex_get L))") (simp_all add: Let_def)
qed (simp add: grows_def)

lemma hex_digit_range: "hex_digit c = Some d \<Longrightarrow> 0 \<le> d \<and> d \<le> 15"
  by (auto simp: hex_digit_def split: if_splits)

lemma codepoint_loop_range:
  "0 \<le> c \<Longrightarrow> 0 \<le> fst (get_codepoint_loop fs c L) \<or> fst (get_codepoint_loop fs c L) = -1"
proof (induction fs arbitrary: c L)
  case (Cons f fs)
  have "0 \<le> push_bit f d" if "hex_digit x = Some d" for x d using hex_digit_range [OF that] by simp
  then show ?case using Cons by (auto simp: Let_def split: option.split)
qed simp

lemma codepoint_loop_bound:
  "fst (get_codepoint_loop fs c L) = -1 \<or> fst (get_codepoint_loop fs c L) \<le> c + 15 * sum_list (map (\<lambda>f. 2 ^ f) fs)"
proof (induction fs arbitrary: c L)
  case (Cons f fs)
  show ?case
  proof (cases "hex_digit (current (lex_get L))")
    case (Some d)
    have "push_bit f d \<le> 15 * 2 ^ f" using hex_digit_range [OF Some] by (simp add: push_bit_eq_mult)
    then show ?thesis using Cons.IH [of "c + push_bit f d" "lex_get L"] Some by (auto simp: Let_def algebra_simps)
  qed (simp add: Let_def)
qed simp

lemma get_codepoint_spec:
  assumes "get_codepoint L = (c, L')"
  shows "grows L [] L'" "c = -1 \<or> 0 \<le> c \<and> c \<le> 0xFFFF"
proof -
  have g: "get_codepoint_loop [12, 8, 4, 0] 0 L = (c, L')" using assms by (simp add: get_codepoint_def)
  show "grows L [] L'" using grows_codepoint_loop [of L "[12, 8, 4, 0]" 0] by (simp only: g snd_conv)
  show "c = -1 \<or> 0 \<le> c \<and> c \<le> 0xFFFF"
    using codepoint_loop_range [of 0 "[12, 8, 4, 0]" L] codepoint_loop_bound [of "[12, 8, 4, 0]" 0 L]
    by (simp only: g fst_conv) auto
qed


lemma grows_low_surrogate:
  assumes "low_surrogate c L = (r, L')"
  shows "grows L [] L'" "0xD800 \<le> c \<Longrightarrow> c \<le> 0xDBFF \<Longrightarrow> r = Inr d \<Longrightarrow> scalar d"
proof -
  obtain c2 L2 where g: "get_codepoint (lex_get (lex_get L)) = (c2, L2)" by fastforce
  have "grows L [] L2" using get_codepoint_spec(1) [OF g] by (blast intro: grows_get)
  moreover have "grows L [] (lex_get L)" "grows L [] (lex_get (lex_get L))" by (simp_all add: grows_def)
  ultimately show "grows L [] L'" using assms g by (auto simp: low_surrogate_def Let_def split: if_splits)
  show "scalar d" if "0xD800 \<le> c" "c \<le> 0xDBFF" "r = Inr d"
    using assms g that by (auto simp: low_surrogate_def scalar_def Let_def push_bit_eq_mult split: if_splits)
qed

lemma grows_unicode:
  assumes "scan_unicode L = (True, L')"
  shows "\<exists>c. scalar c \<and> grows L (utf8_encode c) L'"
proof -
  obtain c1 L1 where g: "get_codepoint L = (c1, L1)" by fastforce
  note c1 = get_codepoint_spec [OF g]
  obtain r L2 where l: "low_surrogate c1 L1 = (r, L2)" by fastforce
  have add: "grows L (utf8_encode c) (add_codepoint c L3)" if "scalar c" "grows L [] L3" for c L3
    using that by (simp add: add_codepoint_encode grows_def)
  show ?thesis
  proof (cases "0xD800 \<le> c1 \<and> c1 \<le> 0xDBFF")
    case True
    then obtain c where c: "r = Inr c" "L' = add_codepoint c L2"
      using assms by (auto simp: scan_unicode_def g l split: sum.splits if_splits)
    have "grows L [] L2" using grows_trans [OF c1(1) grows_low_surrogate(1) [OF l]] by simp
    then show ?thesis using add c grows_low_surrogate(2) [OF l] True by blast
  next
    case False
    then have "L' = add_codepoint c1 L1" "scalar c1"
      using assms c1(2) by (auto simp: scan_unicode_def g scalar_def split: if_splits)
    then show ?thesis using add c1(1) by blast
  qed
qed

lemma grows_ascii: "0 \<le> c \<Longrightarrow> c < 0x80 \<Longrightarrow> \<exists>d. scalar d \<and> grows L (utf8_encode d) (lex_add c L)"
  by (intro exI [of _ c]) (simp add: scalar_def utf8_encode_def grows_add)

lemma simple_escape_ascii: "simple_escape x = Some c \<Longrightarrow> 0 \<le> c \<and> c < 0x80"
  by (auto simp: simple_escape_def split: if_splits)

lemma grows_escape:
  assumes "scan_escape L = (True, L')"
  shows "\<exists>c. scalar c \<and> grows L (utf8_encode c) L'"
proof (cases "simple_escape (current (lex_get L))")
  case None
  then have "scan_unicode (lex_get L) = (True, L')" using assms by (auto simp: scan_escape_def Let_def split: if_splits)
  then show ?thesis using grows_unicode [of "lex_get L" L'] grows_get by blast
next
  case (Some c)
  then have "L' = lex_add c (lex_get L)" using assms by (simp add: scan_escape_def Let_def)
  then show ?thesis using grows_ascii simple_escape_ascii [OF Some] grows_get by blast
qed

lemma grows_ranges:
  assumes "range_loop rs L = (True, L')" "\<forall>r\<in>set rs. 0 \<le> fst r \<and> snd r \<le> 0xFF"
  shows "\<exists>bs. list_all2 in_range rs bs \<and> grows L bs L'"
  using assms
proof (induction rs arbitrary: L)
  case (Cons r rs)
  let ?c = "current (lex_get L)" let ?L = "lex_add ?c (lex_get L)"
  have r: "fst r \<le> ?c" "?c \<le> snd r" "range_loop rs ?L = (True, L')"
    using Cons.prems(1) by (cases r; simp add: Let_def split: if_splits)+
  then obtain bs where bs: "list_all2 in_range rs bs" "grows ?L bs L'" using Cons by auto
  have "grows L (word_of_int ?c # bs) L'"
    using grows_trans [OF grows_get [OF grows_add] bs(2)] by simp
  moreover have "in_range r (word_of_int ?c)"
    using r Cons.prems(2) by (simp add: in_range_def word_of_range del: lex_get_fields)
  ultimately show ?case using bs(1) by blast
qed (simp add: grows_def)

lemma lead_ranges_bounds: "lead_ranges c = Some rs \<Longrightarrow> \<forall>r\<in>set rs. 0 \<le> fst r \<and> snd r \<le> 0xFF"
  by (auto simp: lead_ranges_def split: if_splits)

lemma grows_byte:
  assumes "scan_string_byte L = (True, L')"
  shows "\<exists>c. scalar c \<and> grows L (utf8_encode c) L'"
proof (cases "is_plain (current L)")
  case True
  then have "L' = lex_add (current L) L" using assms by (auto simp: scan_string_byte_def split: if_splits)
  then show ?thesis using True grows_ascii [of "current L" L] by (simp add: is_plain_def)
next
  case False
  then obtain rs where rs: "lead_ranges (current L) = Some rs" "range_loop rs (lex_add (current L) L) = (True, L')"
    using assms by (auto simp: scan_string_byte_def next_byte_in_range_def split: if_splits option.splits)
  obtain bs where "list_all2 in_range rs bs" "grows (lex_add (current L) L) bs L'"
    using grows_ranges [OF rs(2) lead_ranges_bounds [OF rs(1)]] by blast
  then have "grows L (word_of_int (current L) # bs) L'" "list_all2 in_range rs bs"
    using grows_trans [OF grows_add] by fastforce+
  then show ?thesis using lead_encode [OF rs(1)] by metis
qed

lemma utf8_scan_string_loop:
  "scan_string_loop L = (value_string, L') \<Longrightarrow> utf8 (token_buffer L) \<Longrightarrow>
   utf8 (token_buffer L') \<and> decimal_point_position L' = decimal_point_position L"
proof (induction L rule: scan_string_loop.induct)
  case (1 L)
  let ?L = "lex_get L"
  let ?r = "if current ?L = 0x5C then scan_escape ?L else scan_string_byte ?L"
  show ?case
  proof (cases "current ?L = 0x22")
    case True
    then have "L' = ?L" using "1.prems"(1) by (simp add: scan_string_loop.simps [of L] Let_def split: if_splits)
    then show ?thesis using "1.prems"(2) by simp
  next
    case False
    then obtain L1 where L1: "current ?L \<noteq> EOF" "?r = (True, L1)" "scan_string_loop L1 = (value_string, L')"
      using "1.prems"(1) by (auto simp: scan_string_loop.simps [of L] Let_def simp del: lex_get_fields split: if_splits prod.splits)
    then obtain c where c: "scalar c" "grows ?L (utf8_encode c) L1"
      using grows_escape [of ?L L1] grows_byte [of ?L L1] by (auto simp del: lex_get_fields split: if_splits)
    then have "utf8 (token_buffer L1)" using utf8_append "1.prems"(2) by (simp add: grows_def)
    then show ?thesis
      using "1.IH" [of ?L "(True, L1)" True L1] L1 False c(2) by (simp add: grows_def)
  qed
qed

lemma utf8_scan_string:
  "scan_string L = (value_string, L') \<Longrightarrow> utf8 (token_buffer L') \<and> decimal_point_position L' = None"
  using utf8_scan_string_loop [of "lex_reset L" L'] utf8_Nil by (simp add: scan_string_def lex_reset_def)


text \<open>Only \<^verbatim>\<open>scan_string\<close> returns a string token.\<close>

lemma number_done_token: "fst (scan_number_done f n L) \<noteq> value_string"
  by (simp add: scan_number_done_def Let_def)

lemma number_any2_token: "fst (scan_number_any2 f n L) \<noteq> value_string"
  by (induction f n L rule: scan_number_any2.induct)
    (subst scan_number_any2.simps, simp add: Let_def number_done_token del: lex_get_fields)

lemma number_exponent_token: "fst (scan_number_exponent f L) \<noteq> value_string"
  by (simp add: scan_number_exponent_def scan_number_sign_def Let_def number_any2_token del: lex_get_fields)

lemma number_decimal2_token: "fst (scan_number_decimal2 f n L) \<noteq> value_string"
  by (induction f n L rule: scan_number_decimal2.induct)
    (subst scan_number_decimal2.simps, simp add: Let_def number_done_token number_exponent_token del: lex_get_fields)

lemma number_decimal1_token: "fst (scan_number_decimal1 f L) \<noteq> value_string"
  by (simp add: scan_number_decimal1_def Let_def number_decimal2_token del: lex_get_fields)

lemma number_any1_token: "fst (scan_number_any1 f n L) \<noteq> value_string"
  by (induction f n L rule: scan_number_any1.induct)
    (subst scan_number_any1.simps,
      simp add: Let_def number_done_token number_exponent_token number_decimal1_token del: lex_get_fields)

lemma number_zero_token: "fst (scan_number_zero f n L) \<noteq> value_string"
  by (simp add: scan_number_zero_def Let_def number_done_token number_exponent_token number_decimal1_token del: lex_get_fields)

lemma number_token: "fst (scan_number f L) \<noteq> value_string"
  by (simp add: scan_number_def scan_number_minus_def Let_def number_zero_token number_any1_token del: lex_get_fields)

lemma literal_token: "t \<noteq> value_string \<Longrightarrow> scan_literal cs t L \<noteq> (value_string, L')"
proof -
  assume t: "t \<noteq> value_string"
  have "fst (scan_literal_loop cs t L) \<noteq> value_string" for cs L
    using t by (induction cs arbitrary: L) (simp_all add: Let_def del: lex_get_fields)
  then show ?thesis unfolding scan_literal_def by (metis fst_conv)
qed

lemma scan_token_string:
  assumes "scan_token f L = (value_string, L')"
  shows "scan_string L = (value_string, L')"
  using assms number_token [of f L] by (auto simp: scan_token_def Let_def literal_token split: if_splits)

lemma scanned_utf8:
  assumes "last_token (get_token F p) = value_string"
  shows "utf8 (get_string (m_lexer (get_token F p)))"
proof -
  obtain t L where tL: "scan (fl_strtof F) (m_lexer p) = (t, L)" by fastforce
  then have "t = value_string" using assms by (simp add: get_token_def)
  then obtain L0 where "scan_token (fl_strtof F) L0 = (value_string, L)"
    using tL by (auto simp: scan_def Let_def split: if_splits prod.splits)
  then have "utf8 (token_buffer L)" "decimal_point_position L = None"
    using utf8_scan_string [OF scan_token_string] by blast+
  then show ?thesis by (simp add: get_token_def tL get_string_def)
qed

end
