(* ===== verification/JsonDom.thy ===== *)
theory JsonDom
  imports JsonSax JsonUtf8
begin

text \<open>
  The value under construction in \<^verbatim>\<open>json_sax_dom_parser\<close>. The open containers are frames, innermost first:
  an array with its elements so far, or an object with its members so far and the key under which the next
  value goes. The pointers of \<^verbatim>\<open>ref_stack\<close> and \<^verbatim>\<open>object_element\<close> are the paths of the frames.
\<close>

datatype 'f frame = CArr "'f json list" | CObj "(bytes \<times> 'f json) list" bytes

text \<open>A member stored under a key, new or replaced.\<close>

definition member_set :: "bytes \<Rightarrow> 'f json \<Rightarrow> (bytes \<times> 'f json) list \<Rightarrow> (bytes \<times> 'f json) list" where
  "member_set k v es = alist_set k v (object_ref k es)"

fun plug :: "'f frame list \<Rightarrow> 'f json \<Rightarrow> 'f json" where
  "plug [] v = v"
| "plug (CArr xs # fs) v = plug fs (json_array (xs @ [v]))"
| "plug (CObj es k # fs) v = plug fs (json_object (member_set k v es))"

fun path :: "'f frame list \<Rightarrow> step list" where
  "path [] = []"
| "path (CArr xs # fs) = path fs @ [At (length xs)]"
| "path (CObj es k # fs) = path fs @ [Key k]"

fun stack :: "'f frame list \<Rightarrow> step list list" where
  "stack [] = []"
| "stack (f # fs) = path fs # stack fs"

fun is_arr :: "'f frame \<Rightarrow> bool" where
  "is_arr (CArr _) = True"
| "is_arr (CObj _ _) = False"

text \<open>The value of the innermost container while it waits for a value.\<close>

fun opened :: "'f frame \<Rightarrow> 'f json" where
  "opened (CArr xs) = json_array xs"
| "opened (CObj es k) = json_object (object_ref k es)"

section \<open>Paths\<close>

lemma map_of_object_ref: "map_of (object_ref k es) k \<noteq> None"
  by (induction k es rule: object_ref.induct) auto

lemma map_of_alist_set: "map_of es k \<noteq> None \<Longrightarrow> map_of (alist_set k v es) k = Some v"
  by (induction k v es rule: alist_set.induct) auto

lemma map_of_member_set [simp]: "map_of (member_set k v es) k = Some v"
  unfolding member_set_def by (rule map_of_alist_set) (rule map_of_object_ref)

lemma alist_set_twice [simp]: "alist_set k w (alist_set k v es) = alist_set k w es"
  by (induction k v es rule: alist_set.induct) auto

lemma alist_set_member_set [simp]: "alist_set k w (member_set k v es) = member_set k w es"
  by (simp add: member_set_def)

lemma json_at_append: "json_at (p @ q) j = Option.bind (json_at p j) (json_at q)"
  by (induction p j rule: json_at.induct) (auto split: option.split)

lemma json_set_append:
  "json_at p j = Some w \<Longrightarrow> json_set (p @ q) v j = json_set p (json_set q v w) j"
  by (induction p j arbitrary: w rule: json_at.induct) (auto split: option.splits if_splits)

lemma json_at_plug [simp]: "json_at (path fs) (plug fs v) = Some v"
  by (induction fs v rule: plug.induct) (simp_all add: json_at_append)

lemma json_set_plug [simp]: "json_set (path fs) w (plug fs v) = plug fs w"
proof (induction fs v arbitrary: w rule: plug.induct)
  case (2 xs fs v)
  then show ?case by (simp add: json_set_append [OF json_at_plug])
next
  case (3 es k fs v)
  then show ?case by (simp add: json_set_append [OF json_at_plug])
qed simp


section \<open>The states of the consumer\<close>

text \<open>Expecting a value in the frames \<open>gs\<close>; done with the value \<open>v\<close> in \<open>gs\<close>; inside the open container \<open>c\<close>, which
  stands in \<open>fs\<close>.\<close>

definition ready_at :: "'f frame list \<Rightarrow> 'f dom \<Rightarrow> bool" where
  "ready_at gs d \<longleftrightarrow> \<not> errored d \<and> ref_stack d = stack gs \<and>
     (case gs of [] \<Rightarrow> True
      | f # fs \<Rightarrow> root d = plug fs (opened f) \<and> (is_arr f \<or> object_element d = Some (path gs)))"

definition done_at :: "'f frame list \<Rightarrow> 'f json \<Rightarrow> 'f dom \<Rightarrow> bool" where
  "done_at gs v d \<longleftrightarrow> \<not> errored d \<and> ref_stack d = stack gs \<and> root d = plug gs v"

definition open_at :: "'f frame list \<Rightarrow> 'f json \<Rightarrow> 'f dom \<Rightarrow> bool" where
  "open_at fs c d \<longleftrightarrow> \<not> errored d \<and> ref_stack d = path fs # stack fs \<and> root d = plug fs c"

fun closed :: "'f frame \<Rightarrow> 'f json \<Rightarrow> 'f json" where
  "closed (CArr xs) v = json_array (xs @ [v])"
| "closed (CObj es k) v = json_object (member_set k v es)"

lemma plug_closed: "plug (f # fs) v = plug fs (closed f v)"
  by (cases f) simp_all

lemma done_open: "done_at (f # fs) v d \<Longrightarrow> open_at fs (closed f v) d"
  unfolding done_at_def open_at_def plug_closed by simp

lemma json_at_path: "json_at (path fs @ q) (plug fs v) = json_at q v"
  by (simp add: json_at_append)

lemma json_set_path: "json_set (path fs @ q) w (plug fs v) = plug fs (json_set q w v)"
  by (simp add: json_set_append [OF json_at_plug])

lemma object_ref_set:
  "json_set [Key k] v (json_object (object_ref k es)) = json_object (member_set k v es)"
  using map_of_object_ref [of k es] by (auto simp: member_set_def)

lemma handle_value_at:
  assumes "ready_at gs d"
  obtains d' where "handle_value v d = Some (d', path gs)" "done_at gs v d'"
proof (cases gs)
  case Nil
  then show thesis
    using assms that [of "d\<lparr>root := v\<rparr>"] by (simp add: ready_at_def done_at_def handle_value_def)
next
  case (Cons f fs)
  show thesis
  proof (cases f)
    case (CArr xs)
    then show thesis
      using assms Cons that [of "d\<lparr>root := plug gs v\<rparr>"] by (simp add: ready_at_def done_at_def handle_value_def)
  next
    case (CObj es k)
    then have "handle_value v d = Some (d\<lparr>root := json_set (path fs @ [Key k]) v (plug fs (json_object (object_ref k es)))\<rparr>, path gs)"
      using assms Cons by (simp add: ready_at_def handle_value_def)
    then have "handle_value v d = Some (d\<lparr>root := plug gs v\<rparr>, path gs)"
      unfolding json_set_path object_ref_set by (simp add: Cons CObj)
    then show thesis
      using assms Cons CObj that [of "d\<lparr>root := plug gs v\<rparr>"] by (simp add: ready_at_def done_at_def)
  qed
qed

lemma dom_value_at: "ready_at gs d \<Longrightarrow> \<exists>d'. dom_value v d = Go d' \<and> done_at gs v d'"
proof -
  assume "ready_at gs d"
  then obtain d' where "handle_value v d = Some (d', path gs)" "done_at gs v d'" by (rule handle_value_at)
  then show ?thesis by (simp add: dom_value_def)
qed

lemma dom_start_at: "ready_at gs d \<Longrightarrow> \<exists>d'. dom_start c d = Go d' \<and> open_at gs c d'"
proof -
  assume "ready_at gs d"
  then obtain d' where "handle_value c d = Some (d', path gs)" "done_at gs c d'" by (rule handle_value_at)
  then show ?thesis by (simp add: dom_start_def done_at_def open_at_def)
qed

lemma dom_key_at:
  "open_at fs (json_object es) d \<Longrightarrow> \<exists>d'. dom_key k d = Go d' \<and> ready_at (CObj es k # fs) d'"
  by (simp add: open_at_def dom_key_def ready_at_def)

lemma dom_next_at: "open_at fs (json_array xs) d \<Longrightarrow> ready_at (CArr xs # fs) d"
  by (simp add: open_at_def ready_at_def)

lemma dom_end_at:
  "open_at fs (json_object es) d \<Longrightarrow> \<exists>d'. dom_end_object d = Go d' \<and> done_at fs (json_object es) d'"
  "open_at fs (json_array xs) d \<Longrightarrow> \<exists>d'. dom_end_array d = Go d' \<and> done_at fs (json_array xs) d'"
  by (simp_all add: open_at_def dom_end_object_def dom_end_array_def done_at_def)

section \<open>Well-formed values\<close>

text \<open>Keys in strictly ascending order, text in UTF-8, and neither binary nor discarded values.\<close>

fun json_wf :: "'f json \<Rightarrow> bool" where
  "json_wf (json_object es) \<longleftrightarrow>
     sorted_wrt (\<lambda>a b. bytes_less (fst a) (fst b)) es \<and> (\<forall>(k, v) \<in> set es. utf8 k \<and> json_wf v)"
| "json_wf (json_array xs) \<longleftrightarrow> (\<forall>x \<in> set xs. json_wf x)"
| "json_wf (json_string s) \<longleftrightarrow> utf8 s"
| "json_wf (json_binary _ _) \<longleftrightarrow> False"
| "json_wf json_discarded \<longleftrightarrow> False"
| "json_wf _ \<longleftrightarrow> True"

lemma bytes_less_irrefl [simp]: "\<not> bytes_less x x"
  by (induction x) simp_all

lemma bytes_less_trans: "bytes_less x y \<Longrightarrow> bytes_less y z \<Longrightarrow> bytes_less x z"
proof (induction x y arbitrary: z rule: bytes_less.induct)
  case (2 y ys)
  then show ?case by (cases z) auto
next
  case (3 x xs y ys)
  then show ?case by (cases z) (auto dest: less_trans)
qed simp

lemma bytes_less_total: "x \<noteq> y \<Longrightarrow> bytes_less x y \<or> bytes_less y x"
proof (induction x y rule: bytes_less.induct)
  case (1 xs)
  then show ?case by (cases xs) auto
qed auto

abbreviation (input) key_less :: "bytes \<times> 'a \<Rightarrow> bytes \<times> 'a \<Rightarrow> bool" where
  "key_less a b \<equiv> bytes_less (fst a) (fst b)"

lemma keys_object_ref: "fst ` set (object_ref k es) = insert k (fst ` set es)"
  by (induction k es rule: object_ref.induct) auto

lemma keys_alist_set: "map fst (alist_set k v es) = map fst es"
  by (induction k v es rule: alist_set.induct) auto

lemma sorted_keys: "sorted_wrt key_less es \<longleftrightarrow> sorted_wrt bytes_less (map fst es)"
  by (simp add: sorted_wrt_map)

lemma sorted_object_ref: "sorted_wrt key_less es \<Longrightarrow> sorted_wrt key_less (object_ref k es)"
proof (induction k es rule: object_ref.induct)
  case (2 k k' v es)
  consider "k = k'" | "bytes_less k k'" | "k \<noteq> k'" "\<not> bytes_less k k'" "bytes_less k' k" using bytes_less_total by blast
  then show ?case
  proof cases
    case 2
    then show ?thesis using "2.prems" by (auto intro: bytes_less_trans)
  next
    case 3
    have "bytes_less k' (fst e)" if "e \<in> set (object_ref k es)" for e
    proof -
      have "fst e \<in> insert k (fst ` set es)" using that keys_object_ref by blast
      then show ?thesis using 3 "2.prems" by auto
    qed
    then show ?thesis using 3 2 by simp
  qed (use "2.prems" in simp)
qed simp

lemma values_object_ref: "(k', w) \<in> set (object_ref k es) \<Longrightarrow> k' \<noteq> k \<Longrightarrow> (k', w) \<in> set es"
  by (induction k es rule: object_ref.induct) (auto split: if_splits)

lemma values_alist_set:
  "(k', w) \<in> set (alist_set k v es) \<Longrightarrow> sorted_wrt key_less es \<Longrightarrow> (k', w) \<in> set es \<and> k' \<noteq> k \<or> k' = k \<and> w = v"
  by (induction k v es rule: alist_set.induct) (auto split: if_splits)

lemma sorted_member_set: "sorted_wrt key_less es \<Longrightarrow> sorted_wrt key_less (member_set k v es)"
  using sorted_object_ref [of es k] unfolding sorted_keys member_set_def keys_alist_set by simp

lemma values_member_set:
  assumes "(k', w) \<in> set (member_set k v es)" "sorted_wrt key_less es"
  shows "(k', w) \<in> set es \<or> k' = k \<and> w = v"
  using values_alist_set [OF _ sorted_object_ref [OF assms(2)], of k' w k v k] values_object_ref [of k' w k es] assms(1)
  by (auto simp: member_set_def)

lemma wf_member_set:
  assumes "json_wf (json_object es)" "utf8 k" "json_wf v"
  shows "json_wf (json_object (member_set k v es))"
  using assms sorted_member_set [of es k v] by (auto dest!: values_member_set)

section \<open>The DOM consumer as a consumer of the parser\<close>

fun frame_wf :: "'f frame \<Rightarrow> bool" where
  "frame_wf (CArr xs) = json_wf (json_array xs)"
| "frame_wf (CObj es k) = (json_wf (json_object es) \<and> utf8 k)"

lemma wf_closed: "frame_wf f \<Longrightarrow> json_wf v \<Longrightarrow> json_wf (closed f v)"
  by (cases f) (auto intro!: wf_member_set simp del: json_wf.simps(1))

definition dom_ready :: "bool list \<Rightarrow> 'f dom \<Rightarrow> bool" where
  "dom_ready bs d \<longleftrightarrow> (\<exists>gs. bs = map is_arr gs \<and> list_all frame_wf gs \<and> ready_at gs d)"

definition container :: "bool \<Rightarrow> 'f json \<Rightarrow> bool" where
  "container b c = (case c of json_array _ \<Rightarrow> b | json_object _ \<Rightarrow> \<not> b | _ \<Rightarrow> False)"

definition dom_between :: "bool list \<Rightarrow> 'f dom \<Rightarrow> bool" where
  "dom_between bs d \<longleftrightarrow>
     (case bs of
        [] \<Rightarrow> \<exists>v. done_at [] v d \<and> json_wf v
      | b # bs' \<Rightarrow> \<exists>fs c. bs' = map is_arr fs \<and> list_all frame_wf fs \<and> open_at fs c d \<and> json_wf c \<and> container b c)"

lemma dom_between_done:
  assumes "list_all frame_wf gs" "done_at gs v d" "json_wf v"
  shows "dom_between (map is_arr gs) d"
proof (cases gs)
  case Nil
  then show ?thesis using assms by (auto simp: dom_between_def)
next
  case (Cons f fs)
  have "container (is_arr f) (closed f v)" by (cases f) (simp_all add: container_def)
  moreover have "open_at fs (closed f v) d" "json_wf (closed f v)"
    using assms Cons by (auto intro: done_open wf_closed)
  ultimately show ?thesis using assms Cons by (auto simp: dom_between_def)
qed

lemma container_cases:
  assumes "container b c"
  obtains xs where "b" "c = json_array xs" | es where "\<not> b" "c = json_object es"
  using assms by (cases c) (auto simp: container_def)

text \<open>The scalar value that an event carries.\<close>

lemma dom_scalar:
  assumes "is_value e" "event_strings utf8 e"
  obtains v where "\<And>d. json_sax_dom_parser ae d e = dom_value v d" "json_wf v"
  using assms by (cases e) (auto simp: is_value_def event_strings_def json_sax_dom_parser_def)

interpretation dom: sax_consumer "json_sax_dom_parser ae" ae utf8 dom_ready dom_between errored for ae
proof (unfold_locales, goal_cases)
  case (1 F p)
  then show ?case using scanned_utf8 [of F p] by (simp add: token_strings_def)
next
  case (2 bs s e)
  obtain v where v: "\<And>d. json_sax_dom_parser ae d e = dom_value v d" "json_wf v" by (rule dom_scalar [OF 2(2,3)]) blast
  then show ?case using 2(1) dom_value_at dom_between_done unfolding dom_ready_def by metis
next
  case (3 bs s)
  then obtain gs where gs: "bs = map is_arr gs" "list_all frame_wf gs" "ready_at gs s" by (auto simp: dom_ready_def)
  then show ?case using dom_start_at [OF gs(3), of "json_array []"]
    by (force simp: json_sax_dom_parser_def dom_between_def container_def)
next
  case (4 bs s)
  then obtain gs where gs: "bs = map is_arr gs" "list_all frame_wf gs" "ready_at gs s" by (auto simp: dom_ready_def)
  then show ?case using dom_start_at [OF gs(3), of "json_object []"]
    by (force simp: json_sax_dom_parser_def dom_between_def container_def)
next
  case (5 bs s)
  then obtain fs xs where "bs = map is_arr fs" "list_all frame_wf fs" "open_at fs (json_array xs) s" "json_wf (json_array xs)"
    by (auto simp: dom_between_def elim: container_cases)
  then show ?case unfolding dom_ready_def by (intro exI [of _ "CArr xs # fs"]) (simp add: dom_next_at)
next
  case (6 bs s k)
  then obtain fs es where fs: "bs = map is_arr fs" "list_all frame_wf fs" "open_at fs (json_object es) s" "json_wf (json_object es)"
    by (auto simp: dom_between_def elim: container_cases)
  obtain d' where "dom_key k s = Go d'" "ready_at (CObj es k # fs) d'" using dom_key_at [OF fs(3)] by blast
  then show ?case using fs 6(2) unfolding dom_ready_def
    by (intro exI [of _ d'] conjI exI [of _ "CObj es k # fs"]) (simp_all add: json_sax_dom_parser_def)
next
  case (7 bs s)
  then obtain fs xs where "bs = map is_arr fs" "list_all frame_wf fs" "open_at fs (json_array xs) s" "json_wf (json_array xs)"
    by (auto simp: dom_between_def elim: container_cases)
  then show ?case using dom_end_at(2) dom_between_done by (fastforce simp: json_sax_dom_parser_def)
next
  case (8 bs s)
  then obtain fs es where "bs = map is_arr fs" "list_all frame_wf fs" "open_at fs (json_object es) s" "json_wf (json_object es)"
    by (auto simp: dom_between_def elim: container_cases)
  then show ?case using dom_end_at(1) dom_between_done by (fastforce simp: json_sax_dom_parser_def)
next
  case (9 bs s n t ex)
  then show ?case by (simp add: json_sax_dom_parser_def dom_parse_error_def)
qed

end
