(* ===== verification/JsonProps.thy ===== *)
theory JsonProps
  imports JsonDom
begin

text \<open>
  Properties of the JSON parser as a whole: parsing and accepting agree, and parsed values are well-formed.
\<close>

lemma dom_ready_init: "dom_ready [] dom_init"
  by (auto simp: dom_ready_def ready_at_def dom_init_def intro!: exI [of _ "[]"])

lemma dom_between_Nil: "dom_between [] d \<Longrightarrow> json_wf (root d) \<and> \<not> errored d"
  by (auto simp: dom_between_def done_at_def)

text \<open>The verdict of the acceptor and the result of the parser, with and without exceptions.\<close>

definition verdict :: "bool \<Rightarrow> (json_exn + 'f json) option \<Rightarrow> bool \<Rightarrow> bool" where
  "verdict ae r b \<longleftrightarrow>
     (if b then \<exists>v. r = Some (Inr v) \<and> json_wf v
      else if ae then \<exists>ex. r = Some (Inl ex) else r = Some (Inr json_discarded))"

lemma parse_verdict:
  assumes "token_strings utf8 p"
  shows "\<exists>b. accept F strict p = Some b \<and> verdict ae (parse F ae strict p) b"
proof -
  obtain r r' where r: "sax_parse_internal (json_sax_dom_parser ae) F p dom_init = Some r"
    "sax_parse_internal json_sax_acceptor F p () = Some r'" "dom.agrees ae r r'" "\<And>sk b q u. r' \<noteq> Next sk b q u"
    using dom.agrees_parse [OF dom_ready_init assms, of ae F] by metis
  obtain b q where r': "r' = Return b q ()" using r(3,4) by (cases r') (auto simp: dom.agrees_def)
  show ?thesis
  proof (cases b)
    case True
    then obtain d where d: "r = Return True q d" "dom_between [] d" using r(3) r' by (auto simp: dom.agrees_def)
    then show ?thesis
      using dom_between_Nil [OF d(2)] r r' True
      by (auto simp: accept_def sax_parse_def parse_def finish_parse_def verdict_def Let_def unexpected_def report_def
          call_def json_sax_acceptor_def)
  next
    case False
    then have "if ae then \<exists>ex. r = Thrown ex q else \<exists>d. r = Return False q d \<and> errored d"
      using r(3) r' by (simp add: dom.agrees_def)
    moreover have "accept F strict p = Some False" using r(2) r' False by (simp add: accept_def sax_parse_def)
    moreover have "verdict ae (parse F ae strict p) False"
    proof (cases ae)
      case True
      then obtain ex where "r = Thrown ex q" using calculation(1) by auto
      then show ?thesis using r(1) True by (simp add: parse_def verdict_def)
    next
      case False
      then obtain d where "r = Return False q d" "errored d" using calculation(1) by auto
      then show ?thesis using r(1) False by (simp add: parse_def finish_parse_def verdict_def Let_def)
    qed
    ultimately show ?thesis by blast
  qed
qed

lemma token_strings_init: "token_strings utf8 (parser_init F text comments point zero)"
  unfolding token_strings_def parser_init_def by (intro impI scanned_utf8)

text \<open>C28: Accepting and parsing agree on every text, strict or not: if the acceptor accepts it, the parser returns
  a value with and without exceptions; otherwise the parser throws a parse error if exceptions
  are on and returns the discarded value if they are off. No assertion of the parser or of the value
  builder fails.\<close>

theorem json_parse_iff_accept:
  "\<exists>b. accept F strict (parser_init F text comments point zero) = Some b \<and>
     (if b then \<exists>v. parse F True strict (parser_init F text comments point zero) = Some (Inr v) \<and> v \<noteq> json_discarded
      else \<exists>ex. parse F True strict (parser_init F text comments point zero) = Some (Inl ex)) \<and>
     (if b then \<exists>v. parse F False strict (parser_init F text comments point zero) = Some (Inr v) \<and> v \<noteq> json_discarded
      else parse F False strict (parser_init F text comments point zero) = Some (Inr json_discarded))"
proof -
  let ?p = "parser_init F text comments point zero"
  have "\<exists>b. accept F strict ?p = Some b \<and> verdict True (parse F True strict ?p) b"
    "\<exists>b. accept F strict ?p = Some b \<and> verdict False (parse F False strict ?p) b"
    by (rule parse_verdict [OF token_strings_init])+
  moreover have "json_wf v \<Longrightarrow> v \<noteq> json_discarded" for v :: "'a json" by (cases v) auto
  ultimately show ?thesis by (fastforce simp: verdict_def split: if_splits)
qed

text \<open>C29: A value that the parser returns is well-formed, whatever the text: the keys of every object are in
  strictly ascending order, every string and key is well-formed UTF-8, and it contains no binary and no
  discarded value.\<close>

theorem json_values_wellformed:
  "case parse F True strict (parser_init F text comments point zero) of
     Some (Inr v) \<Rightarrow> json_wf v
   | Some (Inl ex) \<Rightarrow> accept F strict (parser_init F text comments point zero) = Some False
   | None \<Rightarrow> False"
proof -
  let ?p = "parser_init F text comments point zero"
  obtain b where b: "accept F strict ?p = Some b" "verdict True (parse F True strict ?p) b"
    using parse_verdict [where p = ?p and ae = True, OF token_strings_init] by metis
  then show ?thesis by (cases b) (auto simp: verdict_def)
qed

end
