(* ===== verification/JsonDump.thy ===== *)
theory JsonDump
  imports JsonParser
begin

text \<open>
  The serializer of the JSON library in \<^verbatim>\<open>hv/json.hpp\<close>, class \<^verbatim>\<open>serializer\<close>: the UTF-8 decoder with its table,
  string escaping through a buffer of 512 bytes, integers through a buffer of 64 bytes, and the
  recursion over values with indentation.

  Exceptions and accesses outside of a buffer are values of \<open>dump_error\<close>. The conversion of finite
  floating-point numbers to text is the parameter \<open>to_chars\<close>.
\<close>

datatype error_handler_t = eh_strict | eh_replace | eh_ignore

datatype dump_error = type_error_316 bytes | overrun

text \<open>Sequencing with errors.\<close>

definition and_then :: "dump_error + 'a \<Rightarrow> ('a \<Rightarrow> dump_error + 'b) \<Rightarrow> dump_error + 'b" where
  "and_then r k = (case r of Inl e \<Rightarrow> Inl e | Inr x \<Rightarrow> k x)"

lemma and_then_simps [simp]: "and_then (Inr x) k = k x" "and_then (Inl e) k = Inl e"
  by (simp_all add: and_then_def)

lemma and_then_cong [fundef_cong]:
  "r = r' \<Longrightarrow> (\<And>x. r' = Inr x \<Longrightarrow> k x = k' x) \<Longrightarrow> and_then r k = and_then r' k'"
  by (simp add: and_then_def split: sum.split)

section \<open>The UTF-8 decoder\<close>

definition utf8d :: "nat list" where
  "utf8d =
     replicate 128 0 @
     replicate 16 1 @ replicate 16 9 @
     replicate 32 7 @
     [8, 8] @ replicate 30 2 @
     [0xA] @ replicate 12 3 @ [4, 3, 3] @
     [0xB, 6, 6, 6, 5] @ replicate 11 8 @
     [0, 1, 2, 3, 5, 8, 7, 1, 1, 1, 4, 6, 1, 1, 1, 1] @
     [1, 1, 1, 1, 1, 1, 1, 1, 1, 1, 1, 1, 1, 1, 1, 1] @
     [1, 0, 1, 1, 1, 1, 1, 0, 1, 0, 1, 1, 1, 1, 1, 1] @
     [1, 2, 1, 1, 1, 1, 1, 2, 1, 2, 1, 1, 1, 1, 1, 1] @
     [1, 1, 1, 1, 1, 1, 1, 2, 1, 1, 1, 1, 1, 1, 1, 1] @
     [1, 2, 1, 1, 1, 1, 1, 1, 1, 2, 1, 1, 1, 1, 1, 1] @
     [1, 1, 1, 1, 1, 1, 1, 3, 1, 3, 1, 1, 1, 1, 1, 1] @
     [1, 3, 1, 1, 1, 1, 1, 3, 1, 3, 1, 1, 1, 1, 1, 1] @
     [1, 3, 1, 1, 1, 1, 1, 1, 1, 1, 1, 1, 1, 1, 1, 1]"

text \<open>The new state and the new code point, an unsigned 32-bit number.\<close>

definition decode :: "nat \<Rightarrow> int \<Rightarrow> u8 \<Rightarrow> nat \<times> int" where
  "decode state codep byte =
     (let type = utf8d ! unat byte;
          codep = (if state \<noteq> 0 then (uint byte AND 0x3F) OR take_bit 32 (push_bit 6 codep)
                   else drop_bit type 0xFF AND uint byte)
      in (utf8d ! (256 + state * 16 + type), codep))"

section \<open>Strings\<close>

definition hex_lower :: "int \<Rightarrow> u8" where
  "hex_lower d = (if d < 10 then word_of_int (0x30 + d) else word_of_int (0x57 + d))"

text \<open>The format \<^verbatim>\<open>\u%04x\<close> of a 16-bit number.\<close>

definition u_escape :: "int \<Rightarrow> bytes" where
  "u_escape n = [0x5C, 0x75, hex_lower (n div 4096 mod 16), hex_lower (n div 256 mod 16), hex_lower (n div 16 mod 16),
     hex_lower (n mod 16)]"

text \<open>The text of a code point and the bytes that writing it to the buffer takes (\<^verbatim>\<open>snprintf\<close> adds a zero byte).\<close>

definition escape_text :: "bool \<Rightarrow> int \<Rightarrow> u8 \<Rightarrow> nat \<times> bytes" where
  "escape_text ensure_ascii codepoint byte =
     (if codepoint = 0x08 then (2, [0x5C, 0x62])
      else if codepoint = 0x09 then (2, [0x5C, 0x74])
      else if codepoint = 0x0A then (2, [0x5C, 0x6E])
      else if codepoint = 0x0C then (2, [0x5C, 0x66])
      else if codepoint = 0x0D then (2, [0x5C, 0x72])
      else if codepoint = 0x22 then (2, [0x5C, 0x22])
      else if codepoint = 0x5C then (2, [0x5C, 0x5C])
      else if codepoint \<le> 0x1F \<or> ensure_ascii \<and> 0x7F \<le> codepoint then
        (if codepoint \<le> 0xFFFF then (7, u_escape (take_bit 16 codepoint))
         else (13, u_escape (take_bit 16 (0xD7C0 + drop_bit 10 codepoint)) @
                   u_escape (take_bit 16 (0xDC00 + (codepoint AND 0x3FF)))))
      else (1, [byte]))"

text \<open>The local variables of \<^verbatim>\<open>dump_escaped\<close>, the buffer up to \<^verbatim>\<open>bytes\<close>, and what was written.\<close>

record esc =
  e_out :: bytes
  e_buf :: bytes
  e_codepoint :: int
  e_state :: nat
  e_accept :: nat
  e_undumped :: nat

definition esc_init :: esc where
  "esc_init = \<lparr>e_out = [], e_buf = [], e_codepoint = 0, e_state = 0, e_accept = 0, e_undumped = 0\<rparr>"

definition put :: "nat \<Rightarrow> bytes \<Rightarrow> esc \<Rightarrow> dump_error + esc" where
  "put need bs e = (if length (e_buf e) + need \<le> 512 then Inr (e\<lparr>e_buf := e_buf e @ bs\<rparr>) else Inl overrun)"

text \<open>The buffer is written out when fewer than 13 bytes are free; then the position is remembered.\<close>

definition flush :: "esc \<Rightarrow> esc" where
  "flush e = (if 512 - length (e_buf e) < 13 then e\<lparr>e_out := e_out e @ e_buf e, e_buf := []\<rparr> else e)"

definition mark :: "esc \<Rightarrow> esc" where
  "mark e = e\<lparr>e_accept := length (e_buf e)\<rparr>"

definition esc_accept :: "bool \<Rightarrow> u8 \<Rightarrow> esc \<Rightarrow> dump_error + esc" where
  "esc_accept ensure_ascii byte e =
     (let (need, bs) = escape_text ensure_ascii (e_codepoint e) byte in
      and_then (put need bs e) (\<lambda>e. Inr ((mark (flush e))\<lparr>e_undumped := 0\<rparr>)))"

definition replacement :: "bool \<Rightarrow> bytes" where
  "replacement ensure_ascii = (if ensure_ascii then [0x5C, 0x75, 0x66, 0x66, 0x66, 0x64] else [0xEF, 0xBF, 0xBD])"

definition esc_reject :: "error_handler_t \<Rightarrow> bool \<Rightarrow> esc \<Rightarrow> dump_error + esc" where
  "esc_reject eh ensure_ascii e =
     (let e = e\<lparr>e_buf := take (e_accept e) (e_buf e)\<rparr> in
      and_then
        (if eh = eh_replace
         then and_then (put (length (replacement ensure_ascii)) (replacement ensure_ascii) e) (\<lambda>e. Inr (mark (flush e)))
         else Inr e)
        (\<lambda>e. Inr (e\<lparr>e_undumped := 0, e_state := 0\<rparr>)))"

definition esc_incomplete :: "bool \<Rightarrow> u8 \<Rightarrow> esc \<Rightarrow> dump_error + esc" where
  "esc_incomplete ensure_ascii byte e =
     and_then (if \<not> ensure_ascii then put 1 [byte] e else Inr e) (\<lambda>e. Inr (e\<lparr>e_undumped := e_undumped e + 1\<rparr>))"

definition hex_bytes :: "u8 \<Rightarrow> bytes" where
  "hex_bytes byte = asc (hex2_upper (uint byte))"

text \<open>\<^verbatim>\<open>std::to_string\<close> of an unsigned number.\<close>

fun to_string :: "nat \<Rightarrow> bytes" where
  "to_string n = (if n < 10 then [word_of_nat (0x30 + n)] else to_string (n div 10) @ [word_of_nat (0x30 + n mod 10)])"

declare to_string.simps [simp del]

definition invalid_byte :: "nat \<Rightarrow> u8 \<Rightarrow> dump_error" where
  "invalid_byte i byte = type_error_316 (asc ''invalid UTF-8 byte at index '' @ to_string i @ asc '': 0x'' @ hex_bytes byte)"

definition esc_step :: "u8 \<Rightarrow> esc \<Rightarrow> esc" where
  "esc_step byte e =
     (let (state, codepoint) = decode (e_state e) (e_codepoint e) byte in e\<lparr>e_state := state, e_codepoint := codepoint\<rparr>)"

text \<open>The loop over the string from index \<open>i\<close>; after a rejected byte that was not the first of its sequence it
  is read again.\<close>

function escape_loop :: "error_handler_t \<Rightarrow> bool \<Rightarrow> nat \<Rightarrow> bytes \<Rightarrow> esc \<Rightarrow> dump_error + esc" where
  "escape_loop eh ensure_ascii i [] e = Inr e"
| "escape_loop eh ensure_ascii i (byte # s) e =
     (let e1 = esc_step byte e in
      if e_state e1 = 0 then and_then (esc_accept ensure_ascii byte e1) (\<lambda>e. escape_loop eh ensure_ascii (i + 1) s e)
      else if e_state e1 = 1 then
        (if eh = eh_strict then Inl (invalid_byte i byte)
         else and_then (esc_reject eh ensure_ascii e1) (\<lambda>e'.
           if 0 < e_undumped e then escape_loop eh ensure_ascii i (byte # s) e'
           else escape_loop eh ensure_ascii (i + 1) s e'))
      else and_then (esc_incomplete ensure_ascii byte e1) (\<lambda>e. escape_loop eh ensure_ascii (i + 1) s e))"
  by pat_completeness auto
termination
  by (relation "measure (\<lambda>(eh, a, i, s, e). 2 * length s + (if 0 < e_undumped e then 1 else 0))")
    (auto simp: esc_reject_def and_then_def Let_def split: sum.splits if_splits)

declare escape_loop.simps(2) [simp del]

definition esc_finish :: "error_handler_t \<Rightarrow> bool \<Rightarrow> bytes \<Rightarrow> esc \<Rightarrow> dump_error + bytes" where
  "esc_finish eh ensure_ascii s e =
     (if e_state e = 0 then Inr (e_out e @ e_buf e)
      else case eh of
        eh_strict \<Rightarrow> Inl (type_error_316 (asc ''incomplete UTF-8 string; last byte: 0x'' @ hex_bytes (last s)))
      | eh_ignore \<Rightarrow> Inr (e_out e @ take (e_accept e) (e_buf e))
      | eh_replace \<Rightarrow> Inr (e_out e @ take (e_accept e) (e_buf e) @ replacement ensure_ascii))"

text \<open>The bytes that \<^verbatim>\<open>dump_escaped\<close> writes.\<close>

definition dump_escaped :: "error_handler_t \<Rightarrow> bytes \<Rightarrow> bool \<Rightarrow> dump_error + bytes" where
  "dump_escaped eh s ensure_ascii =
     and_then (escape_loop eh ensure_ascii 0 s esc_init) (\<lambda>e. esc_finish eh ensure_ascii s e)"


section \<open>Integers\<close>

function count_digits :: "nat \<Rightarrow> nat \<Rightarrow> nat" where
  "count_digits x n_digits =
     (if x < 10 then n_digits
      else if x < 100 then n_digits + 1
      else if x < 1000 then n_digits + 2
      else if x < 10000 then n_digits + 3
      else count_digits (x div 10000) (n_digits + 4))"
  by pat_completeness auto
termination by (relation "measure fst") auto

declare count_digits.simps [simp del]

definition digits_to_99 :: "(u8 \<times> u8) list" where
  "digits_to_99 = concat (map (\<lambda>a. map (\<lambda>b. (word_of_nat (0x30 + a), word_of_nat (0x30 + b))) [0..<10]) [0..<10])"

text \<open>Two digits written before \<open>ptr\<close>.\<close>

definition put_pair :: "nat \<Rightarrow> nat \<Rightarrow> bytes \<Rightarrow> bytes" where
  "put_pair i ptr buf = (buf[ptr - 1 := snd (digits_to_99 ! i)])[ptr - 2 := fst (digits_to_99 ! i)]"

function put_digits :: "nat \<Rightarrow> nat \<Rightarrow> bytes \<Rightarrow> bytes" where
  "put_digits abs_value ptr buf =
     (if 100 \<le> abs_value then put_digits (abs_value div 100) (ptr - 2) (put_pair (abs_value mod 100) ptr buf)
      else if 10 \<le> abs_value then put_pair abs_value ptr buf
      else buf[ptr - 1 := word_of_nat (0x30 + abs_value)])"
  by pat_completeness auto
termination by (relation "measure fst") auto

declare put_digits.simps [simp del]

text \<open>The absolute value of a negative number in two's complement: \<^verbatim>\<open>static_cast<number_unsigned_t>(-(x + 1)) + 1\<close>.\<close>

definition remove_sign :: "int \<Rightarrow> u64" where
  "remove_sign x = word_of_int (- (x + 1)) + 1"

text \<open>\<open>x\<close> is the value of a signed or unsigned 64-bit number; the digits are written backwards into the
  buffer of 64 bytes, over whatever an earlier number left in its first bytes.\<close>

definition dump_integer :: "int \<Rightarrow> dump_error + bytes" where
  "dump_integer x =
     (if x = 0 then Inr [0x30]
      else
        let buf = (if x < 0 then (replicate 64 0)[0 := 0x2D] else replicate 64 0);
            abs_value = unat (if x < 0 then remove_sign x else word_of_int x);
            n_chars = (if x < 0 then 1 else 0) + count_digits abs_value 1
        in if n_chars < 64 - 1 then Inr (take n_chars (put_digits abs_value n_chars buf)) else Inl overrun)"

section \<open>Values\<close>

text \<open>The output and the indentation string.\<close>

record ser =
  o_text :: bytes
  indent_string :: bytes

record 'f dump_config =
  pretty_print :: bool
  ensure_ascii :: bool
  indent_step :: u32
  error_handler :: error_handler_t
  isfinite :: "'f \<Rightarrow> bool"
  to_chars :: "'f \<Rightarrow> bytes"

definition ser_init :: "u8 \<Rightarrow> ser" where
  "ser_init indent_char = \<lparr>o_text = [], indent_string = replicate 512 indent_char\<rparr>"

definition write_characters :: "bytes \<Rightarrow> ser \<Rightarrow> dump_error + ser" where
  "write_characters bs st = Inr (st\<lparr>o_text := o_text st @ bs\<rparr>)"

text \<open>\<open>n\<close> bytes from \<^verbatim>\<open>indent_string.c_str()\<close>, which ends in a zero byte.\<close>

definition write_indent :: "u32 \<Rightarrow> ser \<Rightarrow> dump_error + ser" where
  "write_indent n st =
     (if unat n \<le> length (indent_string st) + 1
      then write_characters (take (unat n) (indent_string st @ [0])) st else Inl overrun)"

definition grow_indent :: "u32 \<Rightarrow> ser \<Rightarrow> ser" where
  "grow_indent new_indent st =
     (if length (indent_string st) < unat new_indent
      then st\<lparr>indent_string := indent_string st @ replicate (length (indent_string st)) 0x20\<rparr> else st)"

definition write_escaped :: "'f dump_config \<Rightarrow> bytes \<Rightarrow> ser \<Rightarrow> dump_error + ser" where
  "write_escaped C s st = and_then (dump_escaped (error_handler C) s (ensure_ascii C)) (\<lambda>bs. write_characters bs st)"

definition write_integer :: "int \<Rightarrow> ser \<Rightarrow> dump_error + ser" where
  "write_integer x st = and_then (dump_integer x) (\<lambda>bs. write_characters bs st)"

definition dump_float :: "'f dump_config \<Rightarrow> 'f \<Rightarrow> ser \<Rightarrow> dump_error + ser" where
  "dump_float C x st = (if \<not> isfinite C x then write_characters (asc ''null'') st else write_characters (to_chars C x) st)"

text \<open>The byte array of a binary value.\<close>

fun dump_bytes :: "bytes \<Rightarrow> bytes \<Rightarrow> ser \<Rightarrow> dump_error + ser" where
  "dump_bytes sep [] st = Inr st"
| "dump_bytes sep [b] st = write_integer (uint b) st"
| "dump_bytes sep (b # bs) st =
     and_then (write_integer (uint b) st) (\<lambda>st. and_then (write_characters sep st) (dump_bytes sep bs))"

definition dump_subtype :: "u64 option \<Rightarrow> ser \<Rightarrow> dump_error + ser" where
  "dump_subtype sub st = (case sub of Some n \<Rightarrow> write_integer (uint n) st | None \<Rightarrow> write_characters (asc ''null'') st)"

definition dump_binary :: "'f dump_config \<Rightarrow> u32 \<Rightarrow> bytes \<Rightarrow> u64 option \<Rightarrow> ser \<Rightarrow> dump_error + ser" where
  "dump_binary C current_indent bs sub st =
     (if pretty_print C then
        let new_indent = current_indent + indent_step C in
        and_then (write_characters [0x7B, 0x0A] st) (\<lambda>st.
        and_then (write_indent new_indent (grow_indent new_indent st)) (\<lambda>st.
        and_then (write_characters (asc ([CHR 0x22] @ ''bytes'' @ [CHR 0x22] @ '': ['')) st) (\<lambda>st.
        and_then (dump_bytes [0x2C, 0x20] bs st) (\<lambda>st.
        and_then (write_characters [0x5D, 0x2C, 0x0A] st) (\<lambda>st.
        and_then (write_indent new_indent st) (\<lambda>st.
        and_then (write_characters (asc ([CHR 0x22] @ ''subtype'' @ [CHR 0x22] @ '': '')) st) (\<lambda>st.
        and_then (dump_subtype sub st) (\<lambda>st.
        and_then (write_characters [0x0A] st) (\<lambda>st.
        and_then (write_indent current_indent st) (\<lambda>st. write_characters [0x7D] st))))))))))
      else
        and_then (write_characters (asc (''{'' @ [CHR 0x22] @ ''bytes'' @ [CHR 0x22] @ '':['')) st) (\<lambda>st.
        and_then (dump_bytes [0x2C] bs st) (\<lambda>st.
        and_then (write_characters (asc (''],'' @ [CHR 0x22] @ ''subtype'' @ [CHR 0x22] @ '':'')) st) (\<lambda>st.
        and_then (dump_subtype sub st) (\<lambda>st. write_characters [0x7D] st)))))"

text \<open>What precedes an element, follows a key, and separates elements.\<close>

definition element_start :: "'f dump_config \<Rightarrow> u32 \<Rightarrow> ser \<Rightarrow> dump_error + ser" where
  "element_start C new_indent st = (if pretty_print C then write_indent new_indent st else Inr st)"

definition after_key :: "'f dump_config \<Rightarrow> bytes" where
  "after_key C = (if pretty_print C then [0x22, 0x3A, 0x20] else [0x22, 0x3A])"

definition between_elements :: "'f dump_config \<Rightarrow> bytes" where
  "between_elements C = (if pretty_print C then [0x2C, 0x0A] else [0x2C])"

definition dump_key :: "'f dump_config \<Rightarrow> u32 \<Rightarrow> bytes \<Rightarrow> ser \<Rightarrow> dump_error + ser" where
  "dump_key C new_indent k st =
     and_then (element_start C new_indent st) (\<lambda>st.
     and_then (write_characters [0x22] st) (\<lambda>st.
     and_then (write_escaped C k st) (\<lambda>st. write_characters (after_key C) st)))"

text \<open>The brackets around the elements, written by \<open>body\<close> at the new indentation.\<close>

definition dump_brackets ::
  "'f dump_config \<Rightarrow> u8 \<Rightarrow> u8 \<Rightarrow> u32 \<Rightarrow> (u32 \<Rightarrow> ser \<Rightarrow> dump_error + ser) \<Rightarrow> ser \<Rightarrow> dump_error + ser" where
  "dump_brackets C lb rb current_indent body st =
     (if pretty_print C then
        let new_indent = current_indent + indent_step C in
        and_then (write_characters [lb, 0x0A] st) (\<lambda>st.
        and_then (body new_indent (grow_indent new_indent st)) (\<lambda>st.
        and_then (write_characters [0x0A] st) (\<lambda>st.
        and_then (write_indent current_indent st) (\<lambda>st. write_characters [rb] st))))
      else
        and_then (write_characters [lb] st) (\<lambda>st.
        and_then (body current_indent st) (\<lambda>st. write_characters [rb] st)))"

lemma dump_brackets_cong [fundef_cong]:
  "C = C' \<Longrightarrow> lb = lb' \<Longrightarrow> rb = rb' \<Longrightarrow> ci = ci' \<Longrightarrow> (\<And>n st. body n st = body' n st) \<Longrightarrow> st = st' \<Longrightarrow>
   dump_brackets C lb rb ci body st = dump_brackets C' lb' rb' ci' body' st'"
  by (simp add: dump_brackets_def)

fun dump :: "'f dump_config \<Rightarrow> 'f json \<Rightarrow> u32 \<Rightarrow> ser \<Rightarrow> dump_error + ser"
  and dump_elements :: "'f dump_config \<Rightarrow> 'f json list \<Rightarrow> u32 \<Rightarrow> ser \<Rightarrow> dump_error + ser"
  and dump_members :: "'f dump_config \<Rightarrow> (bytes \<times> 'f json) list \<Rightarrow> u32 \<Rightarrow> ser \<Rightarrow> dump_error + ser" where
  "dump C (json_object es) current_indent st =
     (if es = [] then write_characters [0x7B, 0x7D] st
      else dump_brackets C 0x7B 0x7D current_indent (\<lambda>n st. dump_members C es n st) st)"
| "dump C (json_array xs) current_indent st =
     (if xs = [] then write_characters [0x5B, 0x5D] st
      else dump_brackets C 0x5B 0x5D current_indent (\<lambda>n st. dump_elements C xs n st) st)"
| "dump C (json_string s) current_indent st =
     and_then (write_characters [0x22] st) (\<lambda>st. and_then (write_escaped C s st) (\<lambda>st. write_characters [0x22] st))"
| "dump C (json_binary bs sub) current_indent st = dump_binary C current_indent bs sub st"
| "dump C (json_boolean b) current_indent st = write_characters (asc (if b then ''true'' else ''false'')) st"
| "dump C (json_integer n) current_indent st = write_integer (sint n) st"
| "dump C (json_unsigned n) current_indent st = write_integer (uint n) st"
| "dump C (json_float x) current_indent st = dump_float C x st"
| "dump C json_discarded current_indent st = write_characters (asc ''<discarded>'') st"
| "dump C json_null current_indent st = write_characters (asc ''null'') st"
| "dump_elements C [] new_indent st = Inr st"
| "dump_elements C (x # xs) new_indent st =
     and_then (element_start C new_indent st) (\<lambda>st.
     and_then (dump C x new_indent st) (\<lambda>st.
     if xs = [] then Inr st
     else and_then (write_characters (between_elements C) st) (\<lambda>st. dump_elements C xs new_indent st)))"
| "dump_members C [] new_indent st = Inr st"
| "dump_members C ((k, v) # es) new_indent st =
     and_then (dump_key C new_indent k st) (\<lambda>st.
     and_then (dump C v new_indent st) (\<lambda>st.
     if es = [] then Inr st
     else and_then (write_characters (between_elements C) st) (\<lambda>st. dump_members C es new_indent st)))"

text \<open>The member function \<^verbatim>\<open>dump\<close> of a value: a negative \<open>indent\<close> selects the compact form.\<close>

definition json_dump ::
  "('f \<Rightarrow> bool) \<Rightarrow> ('f \<Rightarrow> bytes) \<Rightarrow> int \<Rightarrow> u8 \<Rightarrow> bool \<Rightarrow> error_handler_t \<Rightarrow> 'f json \<Rightarrow> dump_error + bytes" where
  "json_dump fin chars indent indent_char ascii eh v =
     and_then
       (dump \<lparr>pretty_print = 0 \<le> indent, ensure_ascii = ascii, indent_step = (if 0 \<le> indent then word_of_int indent else 0),
          error_handler = eh, isfinite = fin, to_chars = chars\<rparr> v 0 (ser_init indent_char))
       (\<lambda>st. Inr (o_text st))"

end
