(* ===== verification/JsonReads.thy ===== *)
theory JsonReads
  imports JsonUtf8
begin

text \<open>
  The scanner as a reader of a byte list: \<open>reads L s\<close> says that \<open>s\<close> is the input still to be read, a
  character that was put back included. For every kind of token, the token, its value and what is left
  after scanning a text that begins with it.
\<close>

section \<open>The input still to be read\<close>

definition reads :: "'f lexer \<Rightarrow> bytes \<Rightarrow> bool" where
  "reads L s \<longleftrightarrow>
     (if next_unget L then (if current L = EOF then s = [] \<and> ia L = []
        else 0 \<le> current L \<and> current L \<le> 0xFF \<and> s = word_of_int (current L) # ia L)
      else ia L = s)"

lemma reads_get [simp]:
  assumes "reads L (b # s)"
  shows "current (lex_get L) = uint b" "reads (lex_get L) s"
  using assms by (auto simp: reads_def word_of_range split: if_splits)

lemma reads_get2:
  assumes "reads L (a # b # s)"
  shows "current (lex_get L) = uint a" "current (lex_get (lex_get L)) = uint b" "reads (lex_get (lex_get L)) s"
  using reads_get [OF assms] reads_get [OF reads_get(2) [OF assms]] by simp_all

lemma reads_get_end [simp]:
  assumes "reads L []"
  shows "current (lex_get L) = EOF" "reads (lex_get L) []"
  using assms by (auto simp: reads_def split: if_splits)

lemma reads_unget [simp]:
  assumes "reads L s"
  shows "reads (lex_unget (lex_get L)) s" "current (lex_unget (lex_get L)) = current (lex_get L)"
proof -
  show "current (lex_unget (lex_get L)) = current (lex_get L)" by simp
  have "0 \<le> uint b" "uint b \<le> 0xFF" for b :: u8 using uint_lt2p [of b] by auto
  then show "reads (lex_unget (lex_get L)) s"
    using assms by (cases "ia L") (auto simp: reads_def split: if_splits)
qed

lemma reads_keeps [simp]:
  "reads (lex_add c L) s = reads L s" "reads (lex_reset L) s = reads L s" "reads (lex_fail e L) s = reads L s"
  "reads (L\<lparr>value_unsigned := u\<rparr>) s = reads L s" "reads (L\<lparr>value_integer := u\<rparr>) s = reads L s"
  "reads (L\<lparr>value_float := f\<rparr>) s = reads L s" "reads (L\<lparr>token_buffer := bs\<rparr>) s = reads L s"
  "reads (L\<lparr>decimal_point_position := i\<rparr>) s = reads L s"
  by (simp_all add: reads_def lex_add_def lex_reset_def lex_fail_def)

lemma reads_init: "reads (lexer_init s ic point zero) s"
  by (simp add: reads_def lexer_init_def)

declare lex_get_fields(1,2) [simp del]

section \<open>White space and the dispatch\<close>

definition space :: "bytes \<Rightarrow> bool" where
  "space ws \<longleftrightarrow> (\<forall>b \<in> set ws. is_space (uint b))"

lemma space_simps [simp]: "space []" "space (b # ws) \<longleftrightarrow> is_space (uint b) \<and> space ws"
  "space (ws @ ws') \<longleftrightarrow> space ws \<and> space ws'"
  by (auto simp: space_def)

text \<open>The first character of a token: not white space, not the start of a comment or of a byte order mark.\<close>

definition token_start :: "u8 \<Rightarrow> bool" where
  "token_start b \<longleftrightarrow> \<not> is_space (uint b) \<and> b \<noteq> 0x2F \<and> b \<noteq> 0xEF"

lemma skip_whitespace_reads:
  assumes "reads L (ws @ b # s)" "space ws" "\<not> is_space (uint b)"
  shows "current (skip_whitespace L) = uint b \<and> reads (skip_whitespace L) s"
  using assms
proof (induction ws arbitrary: L)
  case Nil
  then show ?case by (subst (1 2) skip_whitespace.simps) (simp add: Let_def)
next
  case (Cons w ws)
  then show ?case by (subst (1 2) skip_whitespace.simps) (simp add: Let_def)
qed

lemma skip_whitespace_end:
  assumes "reads L ws" "space ws"
  shows "current (skip_whitespace L) = EOF \<and> reads (skip_whitespace L) []"
  using assms
proof (induction ws arbitrary: L)
  case Nil
  then show ?case by (subst (1 2) skip_whitespace.simps) (simp add: Let_def is_space_def)
next
  case (Cons w ws)
  then show ?case by (subst (1 2) skip_whitespace.simps) (simp add: Let_def)
qed

lemma uint_is: "0 \<le> n \<Longrightarrow> n \<le> 0xFF \<Longrightarrow> uint (b :: u8) = n \<longleftrightarrow> b = word_of_int n"
  using word_of_range [of n] by auto

lemma skip_bom_reads:
  assumes "reads L s" "s = [] \<or> hd s \<noteq> 0xEF"
  shows "\<exists>L'. skip_bom L = (True, L') \<and> reads L' s"
proof -
  have "current (lex_get L) \<noteq> 0xEF"
  proof (cases s)
    case (Cons b bs)
    then show ?thesis using assms by (simp add: uint_is)
  qed (use assms in simp)
  then show ?thesis using assms(1) by (simp add: skip_bom_def Let_def)
qed

lemma scan_reads:
  assumes "reads L (ws @ b # s)" "space ws" "token_start b"
  shows "\<exists>L'. scan f L = scan_token f L' \<and> current L' = uint b \<and> reads L' s"
proof -
  have hd: "hd (ws @ b # s) \<noteq> 0xEF"
    using assms(2,3) by (cases ws) (auto simp: token_start_def is_space_def)
  obtain L1 where L1: "(if chars_read_total L = 0 then skip_bom L else (True, L)) = (True, L1)" "reads L1 (ws @ b # s)"
    using skip_bom_reads [OF assms(1)] hd assms(1) by (cases "chars_read_total L = 0") auto
  let ?L = "skip_whitespace L1"
  have L: "current ?L = uint b" "reads ?L s"
    using skip_whitespace_reads [OF L1(2) assms(2)] assms(3) by (simp_all add: token_start_def)
  moreover have "uint b \<noteq> 0x2F" using assms(3) by (simp add: token_start_def uint_is)
  then have "skip_comments ?L = (True, ?L)" using L(1) by (subst skip_comments.simps) simp
  ultimately show ?thesis using L1(1) by (intro exI [of _ ?L]) (simp add: scan_def)
qed

lemma scan_end:
  assumes "reads L ws" "space ws"
  shows "fst (scan f L) = end_of_input"
proof -
  have hd: "ws = [] \<or> hd ws \<noteq> 0xEF" using assms(2) by (cases ws) (auto simp: is_space_def)
  obtain L1 where L1: "(if chars_read_total L = 0 then skip_bom L else (True, L)) = (True, L1)" "reads L1 ws"
    using skip_bom_reads [OF assms(1) hd] assms(1) by (cases "chars_read_total L = 0") auto
  have "current (skip_whitespace L1) = EOF" using skip_whitespace_end [OF L1(2) assms(2)] by simp
  moreover from this have "skip_comments (skip_whitespace L1) = (True, skip_whitespace L1)" by (subst skip_comments.simps) simp
  ultimately show ?thesis using L1(1) by (simp add: scan_def scan_token_def is_digit_def)
qed


section \<open>Strings\<close>

lemma sextets:
  fixes c :: int
  assumes "0 \<le> c" "c < 262144 * 64"
  obtains x y z w where "c = 262144 * x + 4096 * y + 64 * z + w" "0 \<le> x" "x < 64" "0 \<le> y" "y < 64" "0 \<le> z" "z < 64" "0 \<le> w" "w < 64"
    "c div 262144 = x" "c div 4096 = x * 64 + y" "c div 64 = (x * 64 + y) * 64 + z" "c mod 64 = w" "c div 64 mod 64 = z"
    "c div 4096 mod 64 = y"
proof -
  have 1: "c = c div 64 * 64 + c mod 64" "c div 64 = c div 64 div 64 * 64 + c div 64 mod 64"
    "c div 64 div 64 = c div 64 div 64 div 64 * 64 + c div 64 div 64 mod 64" by simp_all
  have "0 \<le> c div 262144" "c div 262144 < 64" using assms by auto
  then show thesis
    using that [of "c div 64 div 64 div 64" "c div 64 div 64 mod 64" "c div 64 mod 64" "c mod 64"] 1
    by (simp add: div_sextet)
qed

lemma lead_two: "2 \<le> z \<Longrightarrow> z < 32 \<Longrightarrow> lead_ranges (0xC0 + z) = Some [(0x80, 0xBF)]"
  by (simp add: lead_ranges_def)

lemma lead_three:
  "0 \<le> y \<Longrightarrow> y < 16 \<Longrightarrow> lead_ranges (0xE0 + y) =
     Some [(if y = 0 then 0xA0 else 0x80, if y = 13 then 0x9F else 0xBF), (0x80, 0xBF)]"
  by (auto simp: lead_ranges_def)

lemma lead_four:
  "0 \<le> x \<Longrightarrow> x < 5 \<Longrightarrow> lead_ranges (0xF0 + x) =
     Some [(if x = 0 then 0x90 else 0x80, if x = 4 then 0x8F else 0xBF), (0x80, 0xBF), (0x80, 0xBF)]"
  by (auto simp: lead_ranges_def)

lemma encode_lead:
  assumes "scalar c" "0x80 \<le> c"
  obtains a rs bs where "utf8_encode c = word_of_int a # bs" "0x80 \<le> a" "a \<le> 0xFF" "lead_ranges a = Some rs"
    "list_all2 in_range rs bs"
proof -
  have c: "0 \<le> c" "c < 262144 * 64" "c \<le> 0x10FFFF" using assms by (auto simp: scalar_def)
  obtain x y z w where d: "c = 262144 * x + 4096 * y + 64 * z + w" "0 \<le> x" "x < 64" "0 \<le> y" "y < 64" "0 \<le> z" "z < 64"
    "0 \<le> w" "w < 64" "c div 262144 = x" "c div 4096 = x * 64 + y" "c div 64 = (x * 64 + y) * 64 + z" "c mod 64 = w"
    "c div 64 mod 64 = z" "c div 4096 mod 64 = y" by (rule sextets [OF c(1,2)]) blast
  have r: "in_range (lo, hi) (word_of_int (0x80 + v))" if "0 \<le> v" "v < 64" "lo \<le> 0x80 + v" "0x80 + v \<le> hi" for v lo hi
    using that word_of_range [of "0x80 + v"] by (simp add: in_range_def)
  consider "c < 0x800" | "0x800 \<le> c" "c < 0x10000" | "0x10000 \<le> c" by linarith
  then show thesis
  proof cases
    case 1
    then have "x = 0" "y = 0" using d(1-9) assms(2) by linarith+
    moreover from this have "2 \<le> z" "z < 32" using 1 d(1-9) assms(2) by linarith+
    ultimately have x: "x = 0" "y = 0" "2 \<le> z" "z < 32" by auto
    show thesis
    proof (rule that [OF _ _ _ lead_two])
      show "utf8_encode c = word_of_int (0xC0 + z) # [word_of_int (0x80 + w)]"
        using 1 assms(2) d(10-15) x(1,2) by (simp add: utf8_encode_def)
      show "list_all2 in_range [(0x80, 0xBF)] [word_of_int (0x80 + w)]"
        unfolding list_all2_Cons using d(2-9) by (intro conjI r) auto
    qed (use d(2-9) x in auto)
  next
    case 2
    then have "x = 0" using d(1-9) by linarith
    moreover from this have "y < 16" "y = 0 \<Longrightarrow> 32 \<le> z" using 2 d(1-9) by linarith+
    ultimately have x: "x = 0" "y < 16" "y = 0 \<Longrightarrow> 32 \<le> z" by auto
    have z: "y = 13 \<Longrightarrow> z < 32" using assms(1) d(1-9) x(1) unfolding scalar_def by linarith
    show thesis
    proof (rule that [OF _ _ _ lead_three])
      show "utf8_encode c = word_of_int (0xE0 + y) # [word_of_int (0x80 + z), word_of_int (0x80 + w)]"
        using 2 d(10-15) x(1) by (simp add: utf8_encode_def)
      show "list_all2 in_range [(if y = 0 then 0xA0 else 0x80, if y = 13 then 0x9F else 0xBF), (0x80, 0xBF)]
          [word_of_int (0x80 + z), word_of_int (0x80 + w)]"
        unfolding list_all2_Cons using d(2-9) x z by (intro conjI r) auto
    qed (use d(2-9) x in auto)
  next
    case 3
    then have x: "x < 5" "x = 0 \<Longrightarrow> 16 \<le> y" "x = 4 \<Longrightarrow> y < 16" using d(1-9) c(3) by linarith+
    show thesis
    proof (rule that [OF _ _ _ lead_four])
      show "utf8_encode c = word_of_int (0xF0 + x) # [word_of_int (0x80 + y), word_of_int (0x80 + z), word_of_int (0x80 + w)]"
        using 3 d(10-15) by (simp add: utf8_encode_def)
      show "list_all2 in_range [(if x = 0 then 0x90 else 0x80, if x = 4 then 0x8F else 0xBF), (0x80, 0xBF), (0x80, 0xBF)]
          [word_of_int (0x80 + y), word_of_int (0x80 + z), word_of_int (0x80 + w)]"
        unfolding list_all2_Cons using d(2-9) x by (intro conjI r) auto
    qed (use d(2-9) x in auto)
  qed
qed

end
