(* ===== verification/JsonToken.thy ===== *)
theory JsonToken
  imports JsonReads
begin

text \<open>
  The tokens of RFC 8259 and how the scanner reads them: string literals with all their escapes,
  integer literals, the three names and the structural characters.
\<close>

section \<open>String literals\<close>

definition hex4 :: "bytes \<Rightarrow> int \<Rightarrow> bool" where
  "hex4 ds n \<longleftrightarrow> (\<exists>a b c d. map (\<lambda>x. hex_digit (uint x)) ds = [Some a, Some b, Some c, Some d] \<and>
     n = ((a * 16 + b) * 16 + c) * 16 + d)"

text \<open>The ways to write a character in a string literal.\<close>

inductive char_text :: "int \<Rightarrow> bytes \<Rightarrow> bool" where
  plain: "scalar c \<Longrightarrow> 0x20 \<le> c \<Longrightarrow> c \<noteq> 0x22 \<Longrightarrow> c \<noteq> 0x5C \<Longrightarrow> char_text c (utf8_encode c)"
| escape: "(b, c) \<in> set [(0x22, 0x22), (0x5C, 0x5C), (0x2F, 0x2F), (0x62, 0x08), (0x66, 0x0C), (0x6E, 0x0A), (0x72, 0x0D), (0x74, 0x09)]
    \<Longrightarrow> char_text c [0x5C, b]"
| unicode: "hex4 ds c \<Longrightarrow> scalar c \<Longrightarrow> char_text c (0x5C # 0x75 # ds)"
| pair: "hex4 ds h \<Longrightarrow> hex4 es l \<Longrightarrow> 0xD800 \<le> h \<Longrightarrow> h \<le> 0xDBFF \<Longrightarrow> 0xDC00 \<le> l \<Longrightarrow> l \<le> 0xDFFF
    \<Longrightarrow> char_text (0x10000 + (h - 0xD800) * 0x400 + (l - 0xDC00)) ((0x5C # 0x75 # ds) @ (0x5C # 0x75 # es))"

inductive chars_text :: "bytes \<Rightarrow> bytes \<Rightarrow> bool" where
  empty: "chars_text [] []"
| char: "char_text c t \<Longrightarrow> chars_text s ts \<Longrightarrow> chars_text (utf8_encode c @ s) (t @ ts)"

definition string_text :: "bytes \<Rightarrow> bytes \<Rightarrow> bool" where
  "string_text s t \<longleftrightarrow> (\<exists>ts. chars_text s ts \<and> t = [0x22] @ ts @ [0x22])"

lemma codepoint_loop_reads:
  assumes "map (\<lambda>x. hex_digit (uint x)) ds = map Some vs" "length ds = length fs" "reads L (ds @ s)"
  shows "\<exists>L'. get_codepoint_loop fs c L = (c + sum_list (map2 push_bit fs vs), L') \<and> reads L' s \<and> grows L [] L'"
  using assms
proof (induction fs arbitrary: ds vs c L)
  case (Cons f fs)
  then obtain d ds' v vs' where d: "ds = d # ds'" "vs = v # vs'" by (cases ds; cases vs) auto
  have "reads (lex_get L) (ds' @ s)" "current (lex_get L) = uint d" using Cons.prems(3) d by simp_all
  moreover from this obtain L' where
    "get_codepoint_loop fs (c + push_bit f v) (lex_get L) = (c + push_bit f v + sum_list (map2 push_bit fs vs'), L')"
    "reads L' s" "grows (lex_get L) [] L'"
    using Cons.IH [of ds' vs' "lex_get L" "c + push_bit f v"] Cons.prems d by auto
  ultimately show ?case using Cons.prems d grows_get by (auto simp: Let_def)
qed (simp add: grows_def)

lemma get_codepoint_reads:
  assumes "hex4 ds n" "reads L (ds @ s)"
  shows "\<exists>L'. get_codepoint L = (n, L') \<and> reads L' s \<and> grows L [] L'"
proof -
  obtain a b c d where v: "map (\<lambda>x. hex_digit (uint x)) ds = map Some [a, b, c, d]"
    "n = ((a * 16 + b) * 16 + c) * 16 + d" using assms(1) by (auto simp: hex4_def)
  then have "length ds = length [12, 8, 4, 0 :: nat]" using map_eq_imp_length_eq [OF v(1)] by simp
  from codepoint_loop_reads [OF v(1) this assms(2), of 0] show ?thesis
    using v(2) by (simp add: get_codepoint_def push_bit_eq_mult algebra_simps del: get_codepoint_loop.simps)
qed

lemma range_loop_reads:
  assumes "list_all2 in_range rs bs" "reads L (bs @ s)"
  shows "\<exists>L'. range_loop rs L = (True, L') \<and> reads L' s \<and> grows L bs L'"
  using assms
proof (induction rs bs arbitrary: L rule: list_all2_induct)
  case (Cons r rs b bs)
  obtain lo hi where r: "r = (lo, hi)" by (cases r)
  let ?L = "lex_add (uint b) (lex_get L)"
  have L: "reads ?L (bs @ s)" "current (lex_get L) = uint b" using Cons.prems by simp_all
  obtain L' where L': "range_loop rs ?L = (True, L')" "reads L' s" "grows ?L bs L'" using Cons.IH [OF L(1)] by blast
  have "grows L ([word_of_int (uint b)] @ bs) L'" using grows_trans [OF grows_get [OF grows_add] L'(3)] .
  then show ?case using L L' Cons.hyps(1) by (simp add: r Let_def in_range_def)
qed (simp add: grows_def)

text \<open>One round of the string loop per character.\<close>

lemma scan_byte_reads:
  assumes c: "scalar c" "0x20 \<le> c" "c \<noteq> 0x22" "c \<noteq> 0x5C" and L: "reads L (utf8_encode c @ s)"
  shows "\<exists>L'. scan_string_byte (lex_get L) = (True, L') \<and> reads L' s \<and> grows L (utf8_encode c) L' \<and>
    current (lex_get L) \<notin> {EOF, 0x22, 0x5C}"
proof (cases "c < 0x80")
  case True
  then have e: "utf8_encode c = [word_of_int c]" "uint (word_of_int c :: u8) = c"
    using c by (simp_all add: utf8_encode_def word_of_range)
  then have "current (lex_get L) = c" "reads (lex_get L) s" using L by simp_all
  moreover have "grows L (utf8_encode c) (lex_add c (lex_get L))" using e grows_get [OF grows_add] by metis
  ultimately show ?thesis
    using True c by (simp add: scan_string_byte_def is_control_def is_plain_def)
next
  case False
  then obtain a rs bs where a: "utf8_encode c = word_of_int a # bs" "0x80 \<le> a" "a \<le> 0xFF" "lead_ranges a = Some rs"
    "list_all2 in_range rs bs" using encode_lead [OF c(1)] by (metis not_less)
  have cur: "current (lex_get L) = a" "reads (lex_add a (lex_get L)) (bs @ s)" using L a by (simp_all add: word_of_range)
  obtain L' where L': "range_loop rs (lex_add a (lex_get L)) = (True, L')" "reads L' s" "grows (lex_add a (lex_get L)) bs L'"
    using range_loop_reads [OF a(5) cur(2)] by blast
  have "grows L ([word_of_int a] @ bs) L'" using grows_trans [OF grows_get [OF grows_add] L'(3)] .
  then show ?thesis
    using L' cur a by (simp add: scan_string_byte_def next_byte_in_range_def is_control_def is_plain_def)
qed


lemma grows_codepoint: "scalar c \<Longrightarrow> grows L [] L' \<Longrightarrow> grows L (utf8_encode c) (add_codepoint c L')"
  by (simp add: add_codepoint_encode grows_def)

lemma reads_codepoint [simp]: "reads (add_codepoint c L) s = reads L s"
  by (simp add: add_codepoint_def)

lemma scan_unicode_reads:
  assumes "hex4 ds c" "scalar c" "reads L (ds @ s)"
  shows "\<exists>L'. scan_unicode L = (True, L') \<and> reads L' s \<and> grows L (utf8_encode c) L'"
proof -
  obtain L1 where L1: "get_codepoint L = (c, L1)" "reads L1 s" "grows L [] L1"
    using get_codepoint_reads [OF assms(1,3)] by blast
  have "c \<noteq> -1" "\<not> (0xD800 \<le> c \<and> c \<le> 0xDBFF)" "\<not> (0xDC00 \<le> c \<and> c \<le> 0xDFFF)"
    using assms(2) by (auto simp: scalar_def)
  then have "scan_unicode L = (True, add_codepoint c L1)" unfolding scan_unicode_def L1(1) Let_def by auto
  then show ?thesis using L1(2) grows_codepoint [OF assms(2) L1(3)] by simp
qed

lemma scan_pair_reads:
  assumes "hex4 ds h" "hex4 es l" and h: "0xD800 \<le> h" "h \<le> 0xDBFF" and l: "0xDC00 \<le> l" "l \<le> 0xDFFF"
    and L: "reads L (ds @ 0x5C # 0x75 # es @ s)" and c: "c = 0x10000 + (h - 0xD800) * 0x400 + (l - 0xDC00)"
  shows "\<exists>L'. scan_unicode L = (True, L') \<and> reads L' s \<and> grows L (utf8_encode c) L'"
proof -
  have sc: "scalar c" "push_bit 10 h + l - 0x35FDC00 = c" using h l c by (auto simp: scalar_def push_bit_eq_mult)
  obtain L1 where L1: "get_codepoint L = (h, L1)" "reads L1 (0x5C # 0x75 # es @ s)" "grows L [] L1"
    using get_codepoint_reads [OF assms(1) L] by blast
  let ?L2 = "lex_get (lex_get L1)"
  have L2: "current (lex_get L1) = 0x5C" "current ?L2 = 0x75" "reads ?L2 (es @ s)" using reads_get2 [OF L1(2)] by simp_all
  obtain L3 where L3: "get_codepoint ?L2 = (l, L3)" "reads L3 s" "grows ?L2 [] L3"
    using get_codepoint_reads [OF assms(2) L2(3)] by blast
  have "grows L [] L3" using grows_trans [OF L1(3) grows_get [OF grows_get [OF L3(3)]]] by simp
  moreover have "low_surrogate h L1 = (Inr c, L3)" using L2 L3 l sc(2) by (simp add: low_surrogate_def Let_def)
  then have "scan_unicode L = (True, add_codepoint c L3)" using L1(1) h by (simp add: scan_unicode_def)
  ultimately show ?thesis using L3(2) grows_codepoint [OF sc(1)] by simp
qed

lemma scan_escape_reads:
  assumes "reads L (b # s)" and "simple_escape (uint b) = Some c" and "0 \<le> c" "c < 0x80"
  shows "\<exists>L'. scan_escape L = (True, L') \<and> reads L' s \<and> grows L (utf8_encode c) L'"
proof -
  have "utf8_encode c = [word_of_int c]" using assms by (simp add: utf8_encode_def)
  then have "grows L (utf8_encode c) (lex_add c (lex_get L))" using grows_get [OF grows_add] by metis
  then show ?thesis using assms by (simp add: scan_escape_def Let_def)
qed

lemma scan_escape_unicode: "reads L (0x75 # s) \<Longrightarrow> scan_escape L = scan_unicode (lex_get L)"
  by (simp add: scan_escape_def Let_def simple_escape_def)

lemma char_reads:
  assumes "char_text c t" "reads L (t @ s)"
  shows "\<exists>L'. scan_string_loop L = scan_string_loop L' \<and> reads L' s \<and> grows L (utf8_encode c) L'"
  using assms
proof cases
  case plain
  then obtain L' where "scan_string_byte (lex_get L) = (True, L')" "reads L' s" "grows L (utf8_encode c) L'"
    "current (lex_get L) \<notin> {EOF, 0x22, 0x5C}" using scan_byte_reads assms(2) by metis
  then show ?thesis by (intro exI [of _ L']) (simp add: scan_string_loop.simps [of L] Let_def)
next
  case (escape b)
  have b: "current (lex_get L) = 0x5C" "reads (lex_get L) (b # s)" using assms(2) escape(1) by simp_all
  have "simple_escape (uint b) = Some c" "0 \<le> c" "c < 0x80" using escape(2) by (auto simp: simple_escape_def)
  then obtain L' where "scan_escape (lex_get L) = (True, L')" "reads L' s" "grows (lex_get L) (utf8_encode c) L'"
    using scan_escape_reads [OF b(2)] by blast
  then show ?thesis using b grows_get by (intro exI [of _ L']) (simp add: scan_string_loop.simps [of L] Let_def)
next
  case (unicode ds)
  have b: "current (lex_get L) = 0x5C" "reads (lex_get L) (0x75 # ds @ s)" "reads (lex_get (lex_get L)) (ds @ s)"
    using assms(2) unicode(1) reads_get2 [of L "0x5C" "0x75" "ds @ s"] by simp_all
  obtain L' where "scan_unicode (lex_get (lex_get L)) = (True, L')" "reads L' s" "grows L (utf8_encode c) L'"
    using scan_unicode_reads [OF unicode(2,3) b(3)] grows_get by blast
  then show ?thesis using b scan_escape_unicode [OF b(2)]
    by (intro exI [of _ L']) (simp add: scan_string_loop.simps [of L] Let_def)
next
  case (pair ds h es l)
  have b: "current (lex_get L) = 0x5C" "reads (lex_get L) (0x75 # ds @ 0x5C # 0x75 # es @ s)"
    "reads (lex_get (lex_get L)) (ds @ 0x5C # 0x75 # es @ s)"
    using assms(2) pair(2) reads_get2 [of L "0x5C" "0x75" "ds @ 0x5C # 0x75 # es @ s"] by simp_all
  obtain L' where "scan_unicode (lex_get (lex_get L)) = (True, L')" "reads L' s" "grows L (utf8_encode c) L'"
    using scan_pair_reads [OF pair(3-8) b(3) pair(1)] grows_get by blast
  then show ?thesis using b scan_escape_unicode [OF b(2)]
    by (intro exI [of _ L']) (simp add: scan_string_loop.simps [of L] Let_def)
qed

lemma chars_reads:
  assumes "chars_text v ts" "reads L (ts @ 0x22 # s)"
  shows "\<exists>L'. scan_string_loop L = (value_string, L') \<and> reads L' s \<and> grows L v L'"
  using assms
proof (induction v ts arbitrary: L rule: chars_text.induct)
  case empty
  then show ?case
    using grows_get [of L "[]" "lex_get L"] by (simp add: scan_string_loop.simps [of L] Let_def grows_def)
next
  case (char c t v ts)
  obtain L1 where L1: "scan_string_loop L = scan_string_loop L1" "reads L1 (ts @ 0x22 # s)" "grows L (utf8_encode c) L1"
    using char_reads [OF char.hyps(1), of L "ts @ 0x22 # s"] char.prems by auto
  then show ?case using char.IH [OF L1(2)] grows_trans [OF L1(3)] by auto
qed


section \<open>Integer literals\<close>

definition digits :: "bytes \<Rightarrow> bool" where
  "digits ds \<longleftrightarrow> (\<forall>b \<in> set ds. is_digit (uint b))"

text \<open>At least one digit and no superfluous leading zero.\<close>

definition int_text :: "bytes \<Rightarrow> bool" where
  "int_text ds \<longleftrightarrow> digits ds \<and> ds \<noteq> [] \<and> (hd ds = 0x30 \<longrightarrow> tl ds = [])"

text \<open>What may follow a number: nothing that could continue it.\<close>

definition delimited :: "bytes \<Rightarrow> bool" where
  "delimited s \<longleftrightarrow> s = [] \<or> \<not> is_digit (uint (hd s)) \<and> hd s \<notin> {0x2E, 0x65, 0x45}"

lemma delimited_char:
  assumes "delimited s" "reads L s"
  shows "\<not> is_digit (current (lex_get L))" "current (lex_get L) \<notin> {0x2E, 0x65, 0x45}"
  using assms by (cases s; auto simp: delimited_def is_digit_def uint_is)+

lemma any1_reads:
  assumes "digits ds" "delimited s" "reads L (ds @ s)"
  shows "\<exists>L'. scan_number_any1 f n L = scan_number_done f n (lex_get L') \<and> reads L' s \<and> grows L ds L'"
  using assms
proof (induction ds arbitrary: L)
  case Nil
  then show ?case
    using delimited_char [of s L] by (intro exI [of _ L]) (simp add: scan_number_any1.simps [of f n L] Let_def grows_def)
next
  case (Cons d ds)
  let ?L = "lex_add (uint d) (lex_get L)"
  have d: "is_digit (uint d)" "digits ds" "reads ?L (ds @ s)" "current (lex_get L) = uint d"
    using Cons.prems by (simp_all add: digits_def)
  obtain L' where L': "scan_number_any1 f n ?L = scan_number_done f n (lex_get L')" "reads L' s" "grows ?L ds L'"
    using Cons.IH [OF d(2) Cons.prems(2) d(3)] by blast
  have "grows L ([word_of_int (uint d)] @ ds) L'" using grows_trans [OF grows_get [OF grows_add] L'(3)] .
  then show ?case using L' d by (intro exI [of _ L']) (simp add: scan_number_any1.simps [of f n L] Let_def)
qed

lemma int_reads:
  assumes "int_text (d # ds)" "delimited s" "reads L (ds @ s)" "n = value_unsigned_tok \<or> n = value_integer_tok"
  shows "\<exists>L'. (if uint d = 0x30 then scan_number_zero f n L else scan_number_any1 f n L) =
    scan_number_done f n (lex_get L') \<and> reads L' s \<and> grows L ds L'"
proof (cases "d = 0x30")
  case True
  then have "ds = []" using assms(1) by (simp add: int_text_def)
  then show ?thesis
    using delimited_char [of s L] assms True
    by (intro exI [of _ L]) (simp add: scan_number_zero_def Let_def grows_def)
next
  case False
  then have "uint d \<noteq> 0x30" by (simp add: uint_is)
  then show ?thesis using any1_reads [of ds s L f n] assms by (simp add: int_text_def digits_def)
qed

lemma done_unsigned:
  assumes "reads L s" "dec_value (token_buffer L) < 2 ^ 64"
  shows "\<exists>L'. scan_number_done f value_unsigned_tok (lex_get L) = (value_unsigned_tok, L') \<and>
    value_unsigned L' = word_of_int (dec_value (token_buffer L)) \<and> reads L' s"
  using assms by (simp add: scan_number_done_def Let_def strtoull_def)

lemma done_integer:
  assumes "reads L s" "token_buffer L = 0x2D # ds" "0 \<le> dec_value ds" "dec_value ds \<le> 2 ^ 63"
  shows "\<exists>L'. scan_number_done f value_integer_tok (lex_get L) = (value_integer_tok, L') \<and>
    value_integer L' = word_of_int (- dec_value ds) \<and> reads L' s"
  using assms by (simp add: scan_number_done_def Let_def strtoll_def)

lemma dec_value_nonneg:
  assumes "digits ds"
  shows "0 \<le> dec_value ds"
proof -
  have "0 \<le> foldl (\<lambda>n b. 10 * n + (uint b - 0x30)) a ds" if "0 \<le> a" for a
    using that assms by (induction ds arbitrary: a) (auto simp: digits_def is_digit_def)
  then show ?thesis by (simp add: dec_value_def)
qed

lemma unsigned_reads:
  assumes "int_text ds" "delimited s" "dec_value ds < 2 ^ 64" "current L = uint (hd ds)" "reads L (tl ds @ s)"
  shows "\<exists>L'. scan_number f L = (value_unsigned_tok, L') \<and> value_unsigned L' = word_of_int (dec_value ds) \<and> reads L' s"
proof -
  obtain d ds' where d: "ds = d # ds'" using assms(1) by (cases ds) (auto simp: int_text_def)
  let ?L = "lex_add (uint d) (lex_reset L)"
  have dig: "is_digit (uint d)" using assms(1) d by (simp add: int_text_def digits_def)
  obtain L1 where L1: "(if uint d = 0x30 then scan_number_zero f value_unsigned_tok ?L else scan_number_any1 f value_unsigned_tok ?L) =
      scan_number_done f value_unsigned_tok (lex_get L1)" "reads L1 s" "grows ?L ds' L1"
    using int_reads [of d ds' s ?L value_unsigned_tok f] assms d by auto
  have "scan_number f L = scan_number_done f value_unsigned_tok (lex_get L1)"
    using L1(1) dig assms(4) d by (auto simp: scan_number_def Let_def is_digit_def)
  moreover have "token_buffer L1 = ds" using L1(3) d by (simp add: grows_def lex_add_def lex_reset_def)
  ultimately show ?thesis using done_unsigned [OF L1(2)] assms(3) by simp
qed

lemma integer_reads:
  assumes "int_text ds" "delimited s" "dec_value ds \<le> 2 ^ 63" "current L = 0x2D" "reads L (ds @ s)"
  shows "\<exists>L'. scan_number f L = (value_integer_tok, L') \<and> value_integer L' = word_of_int (- dec_value ds) \<and> reads L' s"
proof -
  obtain d ds' where d: "ds = d # ds'" using assms(1) by (cases ds) (auto simp: int_text_def)
  have dig: "is_digit (uint d)" "0 \<le> dec_value ds"
    using assms(1) d dec_value_nonneg by (simp_all add: int_text_def digits_def)
  let ?M = "lex_add 0x2D (lex_reset L)" let ?L = "lex_add (uint d) (lex_get ?M)"
  have r: "reads ?M (d # ds' @ s)" using assms(5) d by simp
  have c: "current (lex_get ?M) = uint d" "reads ?L (ds' @ s)" using reads_get [OF r] by simp_all
  obtain L1 where L1: "(if uint d = 0x30 then scan_number_zero f value_integer_tok ?L else scan_number_any1 f value_integer_tok ?L) =
      scan_number_done f value_integer_tok (lex_get L1)" "reads L1 s" "grows ?L ds' L1"
    using int_reads [of d ds' s ?L value_integer_tok f] assms d c(2) by auto
  have "scan_number f L = scan_number_done f value_integer_tok (lex_get L1)"
    using L1(1) dig(1) assms(4) c(1) by (auto simp: scan_number_def scan_number_minus_def Let_def)
  moreover have "token_buffer L1 = 0x2D # ds" using L1(3) d by (simp add: grows_def lex_add_def lex_reset_def)
  ultimately show ?thesis using done_integer [OF L1(2)] assms(3) dig(2) by simp
qed

section \<open>Tokens\<close>

lemma literal_reads:
  assumes "reads L (map word_of_int cs @ s)" "\<forall>c \<in> set cs. 0 \<le> c \<and> c \<le> 0xFF"
  shows "\<exists>L'. scan_literal_loop cs t L = (t, L') \<and> reads L' s"
  using assms
proof (induction cs arbitrary: L)
  case (Cons c cs)
  then have "current (lex_get L) = c" "reads (lex_get L) (map word_of_int cs @ s)"
    using reads_get [of L "word_of_int c" "map word_of_int cs @ s"] by (simp_all add: word_of_range)
  then show ?case using Cons by (simp add: Let_def)
qed simp

text \<open>\<open>gets F p t s\<close>: the next token is \<open>t\<close> and \<open>s\<close> is left after it.\<close>

definition gets :: "'f float_lib \<Rightarrow> 'f parser \<Rightarrow> token_type \<Rightarrow> bytes \<Rightarrow> bool" where
  "gets F p t s \<longleftrightarrow> last_token (get_token F p) = t \<and> reads (m_lexer (get_token F p)) s"

lemma get_token_scan:
  assumes "reads (m_lexer p) (ws @ b # s)" "space ws" "token_start b"
  obtains L where "get_token F p = (let (t, L) = scan_token (fl_strtof F) L in \<lparr>last_token = t, m_lexer = L\<rparr>)"
    "current L = uint b" "reads L s"
  using scan_reads [OF assms, of "fl_strtof F"] by (auto simp: get_token_def)

lemma gets_structural:
  assumes "reads (m_lexer p) (ws @ b # s)" "space ws"
    and "(b, t) \<in> set [(0x5B, begin_array), (0x5D, end_array), (0x7B, begin_object), (0x7D, end_object),
      (0x3A, name_separator), (0x2C, value_separator)]"
  shows "gets F p t s"
proof -
  have "token_start b" using assms(3) by (auto simp: token_start_def is_space_def)
  then obtain L where "get_token F p = (let (t, L) = scan_token (fl_strtof F) L in \<lparr>last_token = t, m_lexer = L\<rparr>)"
    "current L = uint b" "reads L s" using get_token_scan [OF assms(1,2)] by metis
  then show ?thesis using assms(3) by (auto simp: gets_def scan_token_def)
qed

lemma gets_string:
  assumes "reads (m_lexer p) (ws @ t @ s)" "space ws" "string_text v t"
  shows "gets F p value_string s" "get_string (m_lexer (get_token F p)) = v"
proof -
  obtain ts where t: "chars_text v ts" "t = [0x22] @ ts @ [0x22]" using assms(3) by (auto simp: string_text_def)
  obtain L where L: "get_token F p = (let (t, L) = scan_token (fl_strtof F) L in \<lparr>last_token = t, m_lexer = L\<rparr>)"
    "current L = uint (0x22 :: u8)" "reads L (ts @ 0x22 # s)"
    using get_token_scan [of p ws "0x22" "ts @ 0x22 # s" F] assms(1,2) t(2)
    by (auto simp: token_start_def is_space_def)
  obtain L' where L': "scan_string_loop (lex_reset L) = (value_string, L')" "reads L' s" "grows (lex_reset L) v L'"
    using chars_reads [OF t(1), of "lex_reset L" s] L(3) by auto
  have "scan_token (fl_strtof F) L = (value_string, L')" using L L' by (simp add: scan_token_def scan_string_def)
  moreover have "get_string L' = v" using L'(3) by (simp add: get_string_def grows_def lex_reset_def)
  ultimately show "gets F p value_string s" "get_string (m_lexer (get_token F p)) = v" using L L' by (simp_all add: gets_def)
qed

end
