(* ===== verification/JsonEscape.thy ===== *)
theory JsonEscape
  imports JsonDump JsonToken
begin

text \<open>
  String escaping: \<^verbatim>\<open>dump_escaped\<close> stays within its buffer for every byte string and every error handler,
  and on well-formed UTF-8 it writes a text that the grammar reads back as the same string.
\<close>

section \<open>The table of the decoder\<close>

text \<open>The number of continuation bytes that a state of the decoder still expects.\<close>

definition expects :: "nat \<Rightarrow> nat" where
  "expects s = (if s < 2 then 0 else if s = 2 then 1 else if s < 6 then 2 else 3)"

definition transitions_ok :: bool where
  "transitions_ok = list_all (\<lambda>s. list_all (\<lambda>t. let s' = utf8d ! (256 + s * 16 + t) in
     s' < 9 \<and> (s = 0 \<or> s' = 1 \<or> Suc (expects s') = expects s)) [0..<12]) [0,2,3,4,5,6,7,8]"

lemma transitions_ok: transitions_ok
  by code_simp

lemma types_below: "list_all (\<lambda>t. t < 12) (take 256 utf8d)" "length utf8d = 400"
  by code_simp+

lemma type_below: "utf8d ! unat (b :: u8) < 12"
proof -
  have "unat b < 256" using unsigned_less [of b] by simp
  then show ?thesis using types_below by (auto simp: list_all_length dest: spec [of _ "unat b"])
qed

lemma transition:
  assumes "s < 9" "s \<noteq> 1"
  shows "fst (decode s c b) < 9" "s \<noteq> 0 \<Longrightarrow> fst (decode s c b) \<noteq> 1 \<Longrightarrow> Suc (expects (fst (decode s c b))) = expects s"
proof -
  let ?t = "utf8d ! unat b"
  have "s \<in> set [0,2,3,4,5,6,7,8]" using assms by auto
  moreover have "?t \<in> set [0..<12]" using type_below by simp
  ultimately have "let s' = utf8d ! (256 + s * 16 + ?t) in s' < 9 \<and> (s = 0 \<or> s' = 1 \<or> Suc (expects s') = expects s)"
    using transitions_ok unfolding transitions_ok_def list_all_iff by blast
  then show "fst (decode s c b) < 9"
    "s \<noteq> 0 \<Longrightarrow> fst (decode s c b) \<noteq> 1 \<Longrightarrow> Suc (expects (fst (decode s c b))) = expects s"
    by (auto simp: decode_def Let_def)
qed


section \<open>The buffer is never overrun\<close>

definition esc_ok :: "bool \<Rightarrow> esc \<Rightarrow> bool" where
  "esc_ok ascii e \<longleftrightarrow> e_state e < 9 \<and> e_state e \<noteq> 1 \<and> e_accept e \<le> 499 \<and>
     length (e_buf e) = e_accept e + (if ascii then 0 else e_undumped e) \<and>
     e_undumped e + expects (e_state e) \<le> (if e_state e = 0 then 0 else 4)"

text \<open>What the three cases of the loop may assume after the decoder step.\<close>

definition esc_mid :: "bool \<Rightarrow> esc \<Rightarrow> bool" where
  "esc_mid ascii e \<longleftrightarrow> e_accept e \<le> 499 \<and> length (e_buf e) = e_accept e + (if ascii then 0 else e_undumped e) \<and>
     e_state e < 9 \<and> (e_state e \<noteq> 1 \<longrightarrow> e_undumped e + 1 + expects (e_state e) \<le> 4)"

lemma esc_step_fields [simp]:
  "e_buf (esc_step b e) = e_buf e" "e_out (esc_step b e) = e_out e" "e_accept (esc_step b e) = e_accept e"
  "e_undumped (esc_step b e) = e_undumped e"
  "e_state (esc_step b e) = fst (decode (e_state e) (e_codepoint e) b)"
  "e_codepoint (esc_step b e) = snd (decode (e_state e) (e_codepoint e) b)"
  by (simp_all add: esc_step_def split: prod.split)

lemma esc_step_mid:
  assumes "esc_ok ascii e"
  shows "esc_mid ascii (esc_step b e)"
proof -
  let ?s = "fst (decode (e_state e) (e_codepoint e) b)"
  have s: "e_state e < 9" "e_state e \<noteq> 1" using assms by (simp_all add: esc_ok_def)
  have "expects ?s \<le> 3" by (simp add: expects_def)
  then have "e_undumped e + 1 + expects ?s \<le> 4" if "?s \<noteq> 1"
    using assms transition(2) [OF s, of "e_codepoint e" b] that by (cases "e_state e = 0") (auto simp: esc_ok_def)
  then show ?thesis using assms transition(1) [OF s] by (simp add: esc_ok_def esc_mid_def)
qed

lemma flush_bound: "length (e_buf e) \<le> 512 \<Longrightarrow> length (e_buf (flush e)) \<le> 499"
  by (auto simp: flush_def)

lemma flush_fields [simp]:
  "e_state (flush e) = e_state e" "e_undumped (flush e) = e_undumped e" "e_accept (flush e) = e_accept e"
  "e_codepoint (flush e) = e_codepoint e" "e_out (flush e) @ e_buf (flush e) = e_out e @ e_buf e"
  by (simp_all add: flush_def)

lemma mark_fields [simp]:
  "e_state (mark e) = e_state e" "e_undumped (mark e) = e_undumped e" "e_accept (mark e) = length (e_buf e)"
  "e_buf (mark e) = e_buf e" "e_out (mark e) = e_out e" "e_codepoint (mark e) = e_codepoint e"
  by (simp_all add: mark_def)

lemma escape_text_room:
  assumes "escape_text ascii c b = (need, bs)"
  shows "need \<le> 13" "length bs \<le> need" "\<not> ascii \<Longrightarrow> c \<le> 0xFFFF \<or> need \<le> 2 \<Longrightarrow> need \<le> 7" "\<not> ascii \<Longrightarrow> need \<le> 7"
  using assms by (auto simp: escape_text_def u_escape_def split: if_splits)

lemma esc_accept_ok:
  assumes "esc_mid ascii e" "e_state e = 0"
  shows "\<exists>e'. esc_accept ascii b e = Inr e' \<and> esc_ok ascii e'"
proof -
  obtain need bs where t: "escape_text ascii (e_codepoint e) b = (need, bs)" by fastforce
  have "length (e_buf e) + need \<le> 512"
    using escape_text_room(1,4) [OF t] assms by (cases ascii) (auto simp: esc_mid_def expects_def)
  moreover from this have "length (e_buf (flush (e\<lparr>e_buf := e_buf e @ bs\<rparr>))) \<le> 499"
    using escape_text_room(2) [OF t] by (intro flush_bound) simp
  ultimately show ?thesis using assms(2) by (simp add: esc_accept_def t put_def esc_ok_def expects_def)
qed

lemma replacement_length: "length (replacement ascii) \<le> 6"
  by (simp add: replacement_def)

lemma esc_reject_ok:
  assumes "esc_mid ascii e"
  shows "\<exists>e'. esc_reject eh ascii e = Inr e' \<and> esc_ok ascii e' \<and> e_undumped e' = 0 \<and> e_state e' = 0"
proof -
  let ?e = "e\<lparr>e_buf := take (e_accept e) (e_buf e)\<rparr>"
  have l: "length (e_buf ?e) = e_accept e" "e_accept e \<le> 499" using assms by (auto simp: esc_mid_def)
  have "length (e_buf (flush (?e\<lparr>e_buf := e_buf ?e @ replacement ascii\<rparr>))) \<le> 499"
    using l replacement_length [of ascii] by (intro flush_bound) simp
  then show ?thesis
    using l replacement_length [of ascii]
    by (cases "eh = eh_replace") (simp_all add: esc_reject_def put_def esc_ok_def expects_def)
qed

lemma esc_incomplete_ok:
  assumes "esc_mid ascii e" "e_state e \<noteq> 0" "e_state e \<noteq> 1"
  shows "\<exists>e'. esc_incomplete ascii b e = Inr e' \<and> esc_ok ascii e'"
  using assms by (auto simp: esc_incomplete_def put_def esc_mid_def esc_ok_def)

lemma escape_loop_ok:
  assumes "esc_ok ascii e"
  shows "escape_loop eh ascii i s e \<noteq> Inl overrun \<and> (\<forall>e'. escape_loop eh ascii i s e = Inr e' \<longrightarrow> esc_ok ascii e') \<and>
    (eh \<noteq> eh_strict \<longrightarrow> (\<exists>e'. escape_loop eh ascii i s e = Inr e'))"
  using assms
proof (induction eh ascii i s e rule: escape_loop.induct)
  case (2 eh ascii i b s e)
  let ?e = "esc_step b e"
  note mid = esc_step_mid [OF "2.prems", of b]
  consider "e_state ?e = 0" | "e_state ?e = 1" | "e_state ?e \<noteq> 0" "e_state ?e \<noteq> 1" by blast
  then show ?case
  proof cases
    case 1
    then obtain e' where e': "esc_accept ascii b ?e = Inr e'" "esc_ok ascii e'" using esc_accept_ok [OF mid] by blast
    then show ?thesis using 1 "2.IH"(1) by (simp add: escape_loop.simps(2) Let_def)
  next
    case 2
    obtain e' where e': "esc_reject eh ascii ?e = Inr e'" "esc_ok ascii e'" using esc_reject_ok [OF mid] by blast
    then have "escape_loop eh ascii i (b # s) e =
        (if eh = eh_strict then Inl (invalid_byte i b)
         else if 0 < e_undumped e then escape_loop eh ascii i (b # s) e' else escape_loop eh ascii (i + 1) s e')"
      using 2 by (subst escape_loop.simps(2)) (simp add: Let_def)
    note eq = this
    have one: "e_state ?e \<noteq> 0" "e_state ?e = 1" using 2 by simp_all
    consider "eh = eh_strict" | "eh \<noteq> eh_strict" "0 < e_undumped e" | "eh \<noteq> eh_strict" "\<not> 0 < e_undumped e" by blast
    then show ?thesis
    proof cases
      case 1
      then show ?thesis unfolding eq by (simp add: invalid_byte_def)
    next
      case 2
      then have "escape_loop eh ascii i (b # s) e = escape_loop eh ascii i (b # s) e'" using eq by simp
      then show ?thesis using "2.IH"(2) [OF refl one 2(1) e'(1) 2(2) e'(2)] by simp
    next
      case 3
      then have "escape_loop eh ascii i (b # s) e = escape_loop eh ascii (i + 1) s e'" using eq by simp
      then show ?thesis using "2.IH"(3) [OF refl one 3(1) e'(1) 3(2) e'(2)] by simp
    qed
  next
    case 3
    then obtain e' where e': "esc_incomplete ascii b ?e = Inr e'" "esc_ok ascii e'" using esc_incomplete_ok [OF mid] by blast
    then show ?thesis using 3 "2.IH"(4) by (simp add: escape_loop.simps(2) Let_def)
  qed
qed simp

lemma esc_init_ok: "esc_ok ascii esc_init"
  by (simp add: esc_ok_def esc_init_def expects_def)

lemma dump_escaped_safe: "dump_escaped eh s ascii \<noteq> Inl overrun"
proof (cases "escape_loop eh ascii 0 s esc_init")
  case (Inl x)
  then show ?thesis using escape_loop_ok [OF esc_init_ok, of eh ascii 0 s] by (simp add: dump_escaped_def)
next
  case (Inr e)
  then show ?thesis by (simp add: dump_escaped_def esc_finish_def split: error_handler_t.split)
qed


section \<open>Decoding what was encoded\<close>

lemma type_of:
  "n < 0x80 \<Longrightarrow> utf8d ! n = 0" "0x80 \<le> n \<Longrightarrow> n < 0x90 \<Longrightarrow> utf8d ! n = 1" "0x90 \<le> n \<Longrightarrow> n < 0xA0 \<Longrightarrow> utf8d ! n = 9"
  "0xA0 \<le> n \<Longrightarrow> n < 0xC0 \<Longrightarrow> utf8d ! n = 7" "0xC2 \<le> n \<Longrightarrow> n < 0xE0 \<Longrightarrow> utf8d ! n = 2" "utf8d ! 0xE0 = 10"
  "0xE1 \<le> n \<Longrightarrow> n < 0xED \<Longrightarrow> utf8d ! n = 3" "utf8d ! 0xED = 4" "utf8d ! 0xEE = 3" "utf8d ! 0xEF = 3"
  "utf8d ! 0xF0 = 11" "0xF1 \<le> n \<Longrightarrow> n < 0xF4 \<Longrightarrow> utf8d ! n = 6" "utf8d ! 0xF4 = 5"
  by (simp_all add: utf8d_def nth_append nth_Cons') linarith+

lemma state_of:
  "utf8d ! 256 = 0" "utf8d ! 258 = 2" "utf8d ! 259 = 3" "utf8d ! 260 = 5" "utf8d ! 261 = 8" "utf8d ! 262 = 7" "utf8d ! 266 = 4" "utf8d ! 267 = 6"
  "utf8d ! 289 = 0" "utf8d ! 295 = 0" "utf8d ! 297 = 0" "utf8d ! 305 = 2" "utf8d ! 311 = 2" "utf8d ! 313 = 2" "utf8d ! 327 = 2"
  "utf8d ! 337 = 2" "utf8d ! 345 = 2" "utf8d ! 359 = 3" "utf8d ! 361 = 3" "utf8d ! 369 = 3" "utf8d ! 375 = 3" "utf8d ! 377 = 3"
  "utf8d ! 385 = 3"
  by (simp_all add: utf8d_def nth_append nth_Cons')


fun decodes :: "nat \<Rightarrow> int \<Rightarrow> bytes \<Rightarrow> int \<Rightarrow> bool" where
  "decodes s c [] cp = False"
| "decodes s c [b] cp = (decode s c b = (0, cp))"
| "decodes s c (b # b' # bs) cp =
     (fst (decode s c b) \<notin> {0, 1} \<and> decodes (fst (decode s c b)) (snd (decode s c b)) (b' # bs) cp)"

lemma unat_of_range: "0 \<le> v \<Longrightarrow> v \<le> 0xFF \<Longrightarrow> unat (word_of_int v :: u8) = nat v"
  using word_of_range [of v] by (simp add: unat_eq_nat_uint)

text \<open>A continuation byte carries six bits.\<close>

lemma decode_cont:
  assumes "s \<noteq> 0" "0 \<le> c" "c < 2 ^ 26" "0 \<le> v" "v < 64"
  shows "decode s c (word_of_int (0x80 + v)) =
    (utf8d ! (256 + s * 16 + (if v < 16 then 1 else if v < 32 then 9 else 7)), c * 64 + v)"
proof -
  have "(0x80 + v) AND 0x3F = v"
    using assms low6 [of "0x80 + v"] sextet(2) [of v 2] by simp
  moreover have "take_bit 32 (push_bit 6 c) = c * 64"
    using assms by (simp add: push_bit_eq_mult take_bit_int_eq_self)
  moreover have "v OR (c * 64) = c * 64 + v"
    using or_below [of v 6 c] assms by (simp add: push_bit_eq_mult or.commute)
  moreover have "utf8d ! nat (0x80 + v) = (if v < 16 then 1 else if v < 32 then 9 else 7)"
    using type_of(2-4) [of "nat (0x80 + v)"] assms by auto
  moreover have "uint (word_of_int (0x80 + v) :: u8) = 0x80 + v" "unat (word_of_int (0x80 + v) :: u8) = nat (0x80 + v)"
    using assms by (intro word_of_range unat_of_range; simp)+
  ultimately show ?thesis using assms(1) unfolding decode_def Let_def by (simp only: if_False prod.inject) simp
qed

lemma decode_lead:
  assumes "0 \<le> v" "v \<le> 0xFF" "utf8d ! nat v = t" "v AND drop_bit t 0xFF = w"
  shows "decode 0 c (word_of_int v) = (utf8d ! (256 + t), w)"
  using assms word_of_range [of v] unat_of_range [of v] by (simp add: decode_def Let_def and.commute)

lemma and_low:
  fixes v :: int
  shows "v AND 0x3F = v mod 64" "v AND 0x1F = v mod 32" "v AND 0xF = v mod 16" "v AND 7 = v mod 8" "v AND 3 = v mod 4"
  using take_bit_eq_mask [of 6 v] take_bit_eq_mask [of 5 v] take_bit_eq_mask [of 4 v] take_bit_eq_mask [of 3 v]
    take_bit_eq_mask [of 2 v] by (simp_all add: mask_eq_exp_minus_1 take_bit_eq_mod)

lemma mod_low:
  fixes x :: int
  shows "0 \<le> x \<Longrightarrow> x < 32 \<Longrightarrow> (0xC0 + x) mod 64 = x" "0 \<le> x \<Longrightarrow> x < 16 \<Longrightarrow> (0xE0 + x) mod 32 = x"
    "0 \<le> x \<Longrightarrow> x < 4 \<Longrightarrow> (0xF0 + x) mod 4 = x"
proof -
  have low: "0 \<le> x \<Longrightarrow> x < m \<Longrightarrow> (k * m + x) mod m = x" for k m :: int by simp
  show "0 \<le> x \<Longrightarrow> x < 32 \<Longrightarrow> (0xC0 + x) mod 64 = x" "0 \<le> x \<Longrightarrow> x < 16 \<Longrightarrow> (0xE0 + x) mod 32 = x"
    "0 \<le> x \<Longrightarrow> x < 4 \<Longrightarrow> (0xF0 + x) mod 4 = x"
    using low [of 64 3] low [of 32 7] low [of 4 60] by simp_all
qed

lemma decode_lead2: "2 \<le> x \<Longrightarrow> x < 32 \<Longrightarrow> decode 0 c (word_of_int (0xC0 + x)) = (2, x)"
  using decode_lead [of "0xC0 + x" 2 x c] type_of(5) [of "nat (0xC0 + x)"] mod_low(1) [of x]
  by (simp add: drop_bit_eq_div and_low state_of)

lemma decode_lead3:
  assumes "0 \<le> y" "y < 16"
  shows "decode 0 c (word_of_int (0xE0 + y)) = (if y = 0 then 4 else if y = 13 then 5 else 3, y)"
proof -
  consider "y = 0" | "y = 13" | "y = 14" | "y = 15" | "1 \<le> y" "y < 13" using assms by linarith
  then show ?thesis
  proof cases
    case 5
    then show ?thesis using decode_lead [of "0xE0 + y" 3 y c] type_of(7) [of "nat (0xE0 + y)"] mod_low(2) [of y]
      by (simp add: drop_bit_eq_div and_low state_of)
  qed (use decode_lead [of "0xE0" 10 0 c] decode_lead [of "0xED" 4 13 c] decode_lead [of "0xEE" 3 14 c] decode_lead [of "0xEF" 3 15 c]
    in \<open>simp_all add: drop_bit_eq_div and_low state_of type_of\<close>)
qed

lemma decode_lead4:
  assumes "0 \<le> x" "x < 5"
  shows "decode 0 c (word_of_int (0xF0 + x)) = (if x = 0 then 6 else if x = 4 then 8 else 7, x)"
proof -
  consider "x = 0" | "x = 4" | "1 \<le> x" "x < 4" using assms by linarith
  then show ?thesis
  proof cases
    case 3
    then show ?thesis using decode_lead [of "0xF0 + x" 6 x c] type_of(12) [of "nat (0xF0 + x)"] mod_low(3) [of x]
      by (simp add: drop_bit_eq_div and_low state_of)
  qed (use decode_lead [of "0xF0" 11 0 c] decode_lead [of "0xF4" 5 4 c] in \<open>simp_all add: drop_bit_eq_div and_low state_of type_of\<close>)
qed

text \<open>Runs of continuation bytes from the states that expect one, two and three of them.\<close>

lemma decodes_one:
  assumes "0 \<le> c" "c < 2 ^ 26" "0 \<le> w" "w < 64"
  shows "decodes 2 c [word_of_int (0x80 + w)] (c * 64 + w)"
proof -
  have "decode 2 c (word_of_int (0x80 + w)) = (0, c * 64 + w)" using assms by (subst decode_cont) (auto simp: state_of)
  then show ?thesis by (simp only: decodes.simps)
qed

lemma decodes_two:
  assumes "s \<in> {3, 4, 5}" "s = 4 \<longrightarrow> 32 \<le> z" "s = 5 \<longrightarrow> z < 32" "0 \<le> c" "c < 2 ^ 20" "0 \<le> z" "z < 64" "0 \<le> w" "w < 64"
  shows "decodes s c [word_of_int (0x80 + z), word_of_int (0x80 + w)] ((c * 64 + z) * 64 + w)"
proof -
  have "decode s c (word_of_int (0x80 + z)) = (2, c * 64 + z)"
    using assms by (subst decode_cont) (auto simp: state_of)
  moreover have "decodes 2 (c * 64 + z) [word_of_int (0x80 + w)] ((c * 64 + z) * 64 + w)"
    using assms by (intro decodes_one) auto
  ultimately show ?thesis by simp
qed

lemma decodes_three:
  assumes "s \<in> {6, 7, 8}" "s = 6 \<longrightarrow> 16 \<le> y" "s = 8 \<longrightarrow> y < 16" "0 \<le> c" "c < 2 ^ 10" "0 \<le> y" "y < 64" "0 \<le> z" "z < 64" "0 \<le> w" "w < 64"
  shows "decodes s c [word_of_int (0x80 + y), word_of_int (0x80 + z), word_of_int (0x80 + w)] (((c * 64 + y) * 64 + z) * 64 + w)"
proof -
  have "decode s c (word_of_int (0x80 + y)) = (3, c * 64 + y)"
    using assms by (subst decode_cont) (auto simp: state_of)
  moreover have "decodes 3 (c * 64 + y) [word_of_int (0x80 + z), word_of_int (0x80 + w)] (((c * 64 + y) * 64 + z) * 64 + w)"
    using assms by (intro decodes_two) auto
  ultimately show ?thesis by simp
qed

lemma encode_decodes:
  assumes "scalar c"
  shows "decodes 0 c0 (utf8_encode c) c"
proof -
  have c: "0 \<le> c" "c < 262144 * 64" "c \<le> 0x10FFFF" using assms by (auto simp: scalar_def)
  obtain x y z w where d: "c = 262144 * x + 4096 * y + 64 * z + w" "0 \<le> x" "x < 64" "0 \<le> y" "y < 64" "0 \<le> z" "z < 64"
    "0 \<le> w" "w < 64" "c div 262144 = x" "c div 4096 = x * 64 + y" "c div 64 = (x * 64 + y) * 64 + z" "c mod 64 = w"
    "c div 64 mod 64 = z" "c div 4096 mod 64 = y" by (rule sextets [OF c(1,2)]) blast
  consider "c < 0x80" | "0x80 \<le> c" "c < 0x800" | "0x800 \<le> c" "c < 0x10000" | "0x10000 \<le> c" by linarith
  then show ?thesis
  proof cases
    case 1
    have "c AND 0xFF = c" using take_bit_eq_mask [of 8 c] 1 c by (simp add: mask_eq_exp_minus_1 take_bit_int_eq_self)
    then show ?thesis using decode_lead [of c 0 c c0] type_of(1) [of "nat c"] 1 c
      by (simp add: utf8_encode_def state_of)
  next
    case 2
    then have "x = 0" "y = 0" using d(1-9) by linarith+
    moreover from this have "2 \<le> z" "z < 32" using 2 d(1-9) by linarith+
    moreover have "utf8_encode c = [word_of_int (0xC0 + z), word_of_int (0x80 + w)]"
      using 2 d(10-15) \<open>x = 0\<close> \<open>y = 0\<close> by (simp add: utf8_encode_def)
    ultimately show ?thesis using decode_lead2 [of z c0] decodes_one [of z w] d(1-9) by simp
  next
    case 3
    then have x: "x = 0" using d(1-9) by linarith
    then have y: "y < 16" "y = 0 \<Longrightarrow> 32 \<le> z" using 3 d(1-9) by linarith+
    have z: "y = 13 \<Longrightarrow> z < 32" using assms d(1-9) x unfolding scalar_def by linarith
    have e: "utf8_encode c = [word_of_int (0xE0 + y), word_of_int (0x80 + z), word_of_int (0x80 + w)]"
      using 3 d(10-15) x by (simp add: utf8_encode_def)
    have "decodes (if y = 0 then 4 else if y = 13 then 5 else 3) y [word_of_int (0x80 + z), word_of_int (0x80 + w)] ((y * 64 + z) * 64 + w)"
      using d(2-9) y z by (intro decodes_two) auto
    moreover have "c = (y * 64 + z) * 64 + w" using d(1) x by simp
    ultimately show ?thesis unfolding e using decode_lead3 [of y c0] d(4) y(1) by simp
  next
    case 4
    then have x: "x < 5" "x = 0 \<Longrightarrow> 16 \<le> y" "x = 4 \<Longrightarrow> y < 16" using d(1-9) c(3) by linarith+
    have e: "utf8_encode c = [word_of_int (0xF0 + x), word_of_int (0x80 + y), word_of_int (0x80 + z), word_of_int (0x80 + w)]"
      using 4 d(10-15) by (simp add: utf8_encode_def)
    have "decodes (if x = 0 then 6 else if x = 4 then 8 else 7) x [word_of_int (0x80 + y), word_of_int (0x80 + z), word_of_int (0x80 + w)]
      (((x * 64 + y) * 64 + z) * 64 + w)" using d(2-9) x by (intro decodes_three) auto
    moreover have "c = ((x * 64 + y) * 64 + z) * 64 + w" using d(1) by simp
    ultimately show ?thesis unfolding e using decode_lead4 [of x c0] d(2) x(1) by simp
  qed
qed


section \<open>What is written for a character\<close>

text \<open>All that was written so far, in the buffer or already out of it.\<close>

definition esc_content :: "esc \<Rightarrow> bytes" where
  "esc_content e = e_out e @ e_buf e"

lemma content_simps [simp]:
  "esc_content (flush e) = esc_content e" "esc_content (mark e) = esc_content e" "esc_content (e\<lparr>e_undumped := n\<rparr>) = esc_content e"
  "esc_content (esc_step b e) = esc_content e"
  by (simp_all add: esc_content_def)

lemma put_content: "put need bs e = Inr e' \<Longrightarrow> esc_content e' = esc_content e @ bs \<and> e_state e' = e_state e \<and> e_codepoint e' = e_codepoint e"
  by (auto simp: put_def esc_content_def split: if_splits)

lemma incomplete_content:
  assumes "esc_incomplete ascii b e = Inr e'"
  shows "esc_content e' = esc_content e @ (if ascii then [] else [b])" "e_state e' = e_state e" "e_codepoint e' = e_codepoint e"
  using assms put_content [of 1 "[b]" e] by (auto simp: esc_incomplete_def and_then_def split: sum.splits if_splits)

lemma accept_content:
  assumes "esc_accept ascii b e = Inr e'"
  shows "esc_content e' = esc_content e @ snd (escape_text ascii (e_codepoint e) b)" "e_state e' = e_state e"
proof -
  obtain need bs where t: "escape_text ascii (e_codepoint e) b = (need, bs)" by fastforce
  then obtain e1 where e1: "put need bs e = Inr e1" "e' = (mark (flush e1))\<lparr>e_undumped := 0\<rparr>"
    using assms by (cases "put need bs e") (simp_all add: esc_accept_def)
  then show "esc_content e' = esc_content e @ snd (escape_text ascii (e_codepoint e) b)" "e_state e' = e_state e"
    using put_content [OF e1(1)] t by simp_all
qed

definition char_out :: "bool \<Rightarrow> bytes \<Rightarrow> int \<Rightarrow> bytes" where
  "char_out ascii bs c = (if ascii then [] else butlast bs) @ snd (escape_text ascii c (last bs))"

lemma escape_loop_char:
  assumes "decodes (e_state e) (e_codepoint e) bs c" "esc_ok ascii e"
  shows "\<exists>e'. escape_loop eh ascii i (bs @ s) e = escape_loop eh ascii (i + length bs) s e' \<and> esc_ok ascii e' \<and>
    e_state e' = 0 \<and> esc_content e' = esc_content e @ char_out ascii bs c"
  using assms
proof (induction bs arbitrary: e i)
  case (Cons b bs)
  let ?e = "esc_step b e"
  note mid = esc_step_mid [OF Cons.prems(2), of b]
  show ?case
  proof (cases bs)
    case Nil
    then have st: "e_state ?e = 0" "e_codepoint ?e = c" using Cons.prems(1) by simp_all
    then obtain e' where e': "esc_accept ascii b ?e = Inr e'" "esc_ok ascii e'" using esc_accept_ok [OF mid] by blast
    then have "e_state e' = 0" "esc_content e' = esc_content e @ char_out ascii [b] c"
      using accept_content [OF e'(1)] st by (simp_all add: char_out_def)
    then show ?thesis using e' st Nil by (intro exI [of _ e']) (simp add: escape_loop.simps(2) Let_def)
  next
    case (Cons b' bs')
    then have st: "e_state ?e \<noteq> 0" "e_state ?e \<noteq> 1" "decodes (e_state ?e) (e_codepoint ?e) bs c"
      using Cons.prems(1) by simp_all
    obtain e1 where e1: "esc_incomplete ascii b ?e = Inr e1" "esc_ok ascii e1" using esc_incomplete_ok [OF mid st(1,2)] by blast
    note f = incomplete_content [OF e1(1)]
    obtain e' where e': "escape_loop eh ascii (i + 1) (bs @ s) e1 = escape_loop eh ascii (i + 1 + length bs) s e'"
      "esc_ok ascii e'" "e_state e' = 0" "esc_content e' = esc_content e1 @ char_out ascii bs c"
      using Cons.IH [of e1 "i + 1"] st(3) e1(2) f by auto
    have "esc_content e' = esc_content e @ char_out ascii (b # bs) c"
      using e'(4) f(1) \<open>bs = b' # bs'\<close> by (simp add: char_out_def)
    then show ?thesis using e' e1 st by (intro exI [of _ e']) (simp add: escape_loop.simps(2) Let_def)
  qed
qed simp

section \<open>Its text in the grammar\<close>

lemma hex_lower_digit: "0 \<le> d \<Longrightarrow> d < 16 \<Longrightarrow> hex_digit (uint (hex_lower d)) = Some d"
proof -
  assume d: "0 \<le> d" "d < 16"
  have "uint (hex_lower d) = (if d < 10 then 0x30 + d else 0x57 + d)"
    unfolding hex_lower_def using d word_of_range [of "0x30 + d"] word_of_range [of "0x57 + d"] by (simp del: of_int_add)
  then show ?thesis using d by (simp add: hex_digit_def)
qed

lemma u_escape_hex4:
  assumes "0 \<le> n" "n \<le> 0xFFFF"
  obtains ds where "u_escape n = 0x5C # 0x75 # ds" "hex4 ds n"
proof
  show "u_escape n = 0x5C # 0x75 # [hex_lower (n div 4096 mod 16), hex_lower (n div 256 mod 16), hex_lower (n div 16 mod 16), hex_lower (n mod 16)]"
    by (simp add: u_escape_def)
  let ?a = "n div 4096 mod 16" and ?b = "n div 256 mod 16" and ?c = "n div 16 mod 16" and ?d = "n mod 16"
  have "n div 4096 = n div 16 div 16 div 16" "n div 256 = n div 16 div 16" by (simp_all add: zdiv_zmult2_eq [symmetric])
  moreover have "?a = n div 4096" using assms by (simp add: mod_pos_pos_trivial)
  moreover have "m div 16 * 16 + m mod 16 = m" for m :: int by simp
  ultimately have n: "n = ((?a * 16 + ?b) * 16 + ?c) * 16 + ?d" by metis
  have m: "map (\<lambda>x. hex_digit (uint x)) [hex_lower ?a, hex_lower ?b, hex_lower ?c, hex_lower ?d] = [Some ?a, Some ?b, Some ?c, Some ?d]"
    by (simp add: hex_lower_digit)
  show "hex4 [hex_lower ?a, hex_lower ?b, hex_lower ?c, hex_lower ?d] n" unfolding hex4_def
    by (rule exI [of _ ?a], rule exI [of _ ?b], rule exI [of _ ?c], rule exI [of _ ?d], rule conjI [OF m n])
qed

lemma encode_ascii: "c < 0x80 \<Longrightarrow> utf8_encode c = [word_of_int c]"
  by (simp add: utf8_encode_def)

lemma encode_not_Nil: "utf8_encode c \<noteq> []"
  by (simp add: utf8_encode_def)


text \<open>The characters with an escape of their own, and those written with their number.\<close>

definition short_escaped :: "int \<Rightarrow> bool" where
  "short_escaped c \<longleftrightarrow> c = 0x08 \<or> c = 0x09 \<or> c = 0x0A \<or> c = 0x0C \<or> c = 0x0D \<or> c = 0x22 \<or> c = 0x5C"

definition numbered :: "bool \<Rightarrow> int \<Rightarrow> bool" where
  "numbered ascii c \<longleftrightarrow> c \<le> 0x1F \<or> ascii \<and> 0x7F \<le> c"

lemma escape_text_numbered:
  "\<not> short_escaped c \<Longrightarrow> snd (escape_text ascii c b) =
     (if numbered ascii c then
        (if c \<le> 0xFFFF then u_escape (take_bit 16 c)
         else u_escape (take_bit 16 (0xD7C0 + drop_bit 10 c)) @ u_escape (take_bit 16 (0xDC00 + (c AND 0x3FF))))
      else [b])"
  by (simp add: short_escaped_def numbered_def escape_text_def)

lemma char_out_short:
  assumes "short_escaped c"
  shows "char_text c (char_out ascii (utf8_encode c) c)"
proof -
  have "c < 0x80" using assms by (auto simp: short_escaped_def)
  then have "char_out ascii (utf8_encode c) c = snd (escape_text ascii c (word_of_int c))"
    by (simp add: char_out_def encode_ascii)
  moreover obtain b where
    "(b, c) \<in> set [(0x22, 0x22), (0x5C, 0x5C), (0x2F, 0x2F), (0x62, 0x08), (0x66, 0x0C), (0x6E, 0x0A), (0x72, 0x0D), (0x74, 0x09)]"
    "snd (escape_text ascii c (word_of_int c)) = [0x5C, b]"
    using assms unfolding short_escaped_def by (elim disjE) (simp_all add: escape_text_def)
  ultimately show ?thesis using char_text.escape by simp
qed

lemma char_out_number:
  assumes "scalar c" "\<not> short_escaped c" "numbered ascii c" "c \<le> 0xFFFF"
  shows "char_text c (char_out ascii (utf8_encode c) c)"
proof -
  have c: "0 \<le> c" using assms by (auto simp: scalar_def)
  obtain ds where ds: "u_escape c = 0x5C # 0x75 # ds" "hex4 ds c" using u_escape_hex4 [OF c assms(4)] by blast
  have "(if ascii then [] else butlast (utf8_encode c)) = []"
    using assms(3) by (auto simp: numbered_def encode_ascii)
  moreover have "take_bit 16 c = c" using c assms(4) by (simp add: take_bit_int_eq_self)
  ultimately have "char_out ascii (utf8_encode c) c = 0x5C # 0x75 # ds"
    using assms ds(1) by (simp add: char_out_def escape_text_numbered)
  then show ?thesis using char_text.unicode [OF ds(2) assms(1)] by simp
qed

lemma char_out_pair:
  assumes "scalar c" "\<not> short_escaped c" "numbered ascii c" "0xFFFF < c"
  shows "char_text c (char_out ascii (utf8_encode c) c)"
proof -
  let ?h = "0xD7C0 + c div 1024" and ?l = "0xDC00 + c mod 1024"
  have c: "0 \<le> c" "c \<le> 0x10FFFF" using assms by (auto simp: scalar_def)
  then have b: "0x40 \<le> c div 1024" "c div 1024 \<le> 0x43F" "0 \<le> c mod 1024" "c mod 1024 < 1024" using assms(4) by auto
  then have r: "0xD800 \<le> ?h" "?h \<le> 0xDBFF" "0xDC00 \<le> ?l" "?l \<le> 0xDFFF" by linarith+
  have t: "take_bit 16 ?h = ?h" "take_bit 16 ?l = ?l" using b by (simp_all add: take_bit_int_eq_self)
  have m: "c AND 0x3FF = c mod 1024" using take_bit_eq_mask [of 10 c] by (simp add: mask_eq_exp_minus_1 take_bit_eq_mod)
  obtain ds where ds: "u_escape ?h = 0x5C # 0x75 # ds" "hex4 ds ?h" using u_escape_hex4 [of ?h] r by auto
  obtain es where es: "u_escape ?l = 0x5C # 0x75 # es" "hex4 es ?l" using u_escape_hex4 [of ?l] r by auto
  have "ascii" using assms(3,4) by (simp add: numbered_def)
  then have "char_out ascii (utf8_encode c) c = (0x5C # 0x75 # ds) @ (0x5C # 0x75 # es)"
    using assms(2-4) t m ds(1) es(1) by (simp add: char_out_def escape_text_numbered drop_bit_eq_div)
  moreover have "0x10000 + (?h - 0xD800) * 0x400 + (?l - 0xDC00) = c" by simp
  ultimately show ?thesis using char_text.pair [OF ds(2) es(2) r] by simp
qed

lemma char_out_plain:
  assumes "scalar c" "\<not> short_escaped c" "\<not> numbered ascii c"
  shows "char_text c (char_out ascii (utf8_encode c) c)"
proof -
  have "ascii \<Longrightarrow> utf8_encode c = [word_of_int c]" using assms(3) by (simp add: numbered_def encode_ascii)
  then have "char_out ascii (utf8_encode c) c = utf8_encode c"
    using assms encode_not_Nil [of c] by (simp add: char_out_def escape_text_numbered)
  then show ?thesis using char_text.plain [OF assms(1)] assms by (simp add: short_escaped_def numbered_def)
qed

lemma char_out_text: "scalar c \<Longrightarrow> char_text c (char_out ascii (utf8_encode c) c)"
  using char_out_short char_out_number char_out_pair char_out_plain by (metis not_le)

lemma escape_loop_chars:
  assumes "list_all scalar cs" "esc_ok ascii e" "e_state e = 0"
  shows "\<exists>e' t. escape_loop eh ascii i (concat (map utf8_encode cs)) e = Inr e' \<and> e_state e' = 0 \<and>
    esc_content e' = esc_content e @ t \<and> chars_text (concat (map utf8_encode cs)) t"
  using assms
proof (induction cs arbitrary: e i)
  case Nil
  then show ?case by (auto intro: chars_text.empty)
next
  case (Cons c cs)
  let ?s = "concat (map utf8_encode cs)"
  have c: "scalar c" "decodes (e_state e) (e_codepoint e) (utf8_encode c) c" using Cons.prems encode_decodes by simp_all
  obtain e1 where e1: "escape_loop eh ascii i (utf8_encode c @ ?s) e = escape_loop eh ascii (i + length (utf8_encode c)) ?s e1"
    "esc_ok ascii e1" "e_state e1 = 0" "esc_content e1 = esc_content e @ char_out ascii (utf8_encode c) c"
    using escape_loop_char [OF c(2) Cons.prems(2)] by blast
  obtain e' t where e': "escape_loop eh ascii (i + length (utf8_encode c)) ?s e1 = Inr e'" "e_state e' = 0"
    "esc_content e' = esc_content e1 @ t" "chars_text ?s t" using Cons.IH [OF _ e1(2,3), of "i + length (utf8_encode c)"] Cons.prems(1) by auto
  have "chars_text (utf8_encode c @ ?s) (char_out ascii (utf8_encode c) c @ t)"
    using char_out_text [OF c(1)] e'(4) by (rule chars_text.char)
  then show ?case using e1 e' by auto
qed

lemma dump_escaped_text:
  assumes "utf8 s"
  shows "\<exists>t. dump_escaped eh s ascii = Inr t \<and> chars_text s t"
proof -
  obtain cs where cs: "list_all scalar cs" "s = concat (map utf8_encode cs)" using assms by (auto simp: utf8_def)
  obtain e t where "escape_loop eh ascii 0 s esc_init = Inr e" "e_state e = 0" "esc_content e = esc_content esc_init @ t" "chars_text s t"
    using escape_loop_chars [OF cs(1) esc_init_ok, of eh ascii 0] cs(2) by (auto simp: esc_init_def)
  then show ?thesis by (auto simp: dump_escaped_def esc_finish_def esc_content_def esc_init_def)
qed

end
