(* ===== verification/JsonGrammar.thy ===== *)
theory JsonGrammar
  imports JsonToken JsonDom
begin

text \<open>
  The grammar of JSON texts as in RFC 8259, as a relation between values and texts, and the proof that the
  parser is complete for it: every text of a value, with any white space between its tokens and any
  spelling of its strings, is parsed into that value. Numbers are integers in the 64-bit ranges; of
  equal keys in an object the last one counts.
\<close>

section \<open>More tokens\<close>

lemma gets_literal:
  assumes "reads (m_lexer p) (ws @ t @ s)" "space ws"
    and "(t, tok) \<in> set [([0x74, 0x72, 0x75, 0x65], literal_true), ([0x66, 0x61, 0x6C, 0x73, 0x65], literal_false),
      ([0x6E, 0x75, 0x6C, 0x6C], literal_null)]"
  shows "gets F p tok s"
proof -
  obtain b bs where t: "t = b # bs" "token_start b" using assms(3) by (auto simp: token_start_def is_space_def)
  obtain L where L: "get_token F p = (let (t, L) = scan_token (fl_strtof F) L in \<lparr>last_token = t, m_lexer = L\<rparr>)"
    "current L = uint b" "reads L (bs @ s)" using get_token_scan [of p ws b "bs @ s" F] assms(1,2) t by auto
  then show ?thesis
    using assms(3) t literal_reads [of L "[0x72, 0x75, 0x65]" s literal_true]
      literal_reads [of L "[0x61, 0x6C, 0x73, 0x65]" s literal_false] literal_reads [of L "[0x75, 0x6C, 0x6C]" s literal_null]
    by (auto simp: gets_def scan_token_def scan_literal_def simp del: scan_literal_loop.simps)
qed

lemma digit_start:
  assumes "is_digit (uint b)"
  shows "token_start b" "scan_token f L = (if current L = uint b then scan_number f L else scan_token f L)"
  using assms by (auto simp: token_start_def is_space_def is_digit_def scan_token_def Let_def)

lemma gets_unsigned:
  assumes "reads (m_lexer p) (ws @ ds @ s)" "space ws" "int_text ds" "dec_value ds < 2 ^ 64" "delimited s"
  shows "gets F p value_unsigned_tok s" "value_unsigned (m_lexer (get_token F p)) = word_of_int (dec_value ds)"
proof -
  obtain b bs where b: "ds = b # bs" "is_digit (uint b)"
    using assms(3) by (cases ds) (auto simp: int_text_def digits_def)
  obtain L where L: "get_token F p = (let (t, L) = scan_token (fl_strtof F) L in \<lparr>last_token = t, m_lexer = L\<rparr>)"
    "current L = uint b" "reads L (bs @ s)" using get_token_scan [of p ws b "bs @ s" F] assms(1,2) b digit_start(1) by auto
  have "scan_token (fl_strtof F) L = scan_number (fl_strtof F) L" using digit_start(2) [OF b(2), of "fl_strtof F" L] L(2) by simp
  then show "gets F p value_unsigned_tok s" "value_unsigned (m_lexer (get_token F p)) = word_of_int (dec_value ds)"
    using L unsigned_reads [OF assms(3,5,4), of L "fl_strtof F"] b(1) by (auto simp: gets_def)
qed

lemma gets_integer:
  assumes "reads (m_lexer p) (ws @ (0x2D # ds) @ s)" "space ws" "int_text ds" "dec_value ds \<le> 2 ^ 63" "delimited s"
  shows "gets F p value_integer_tok s" "value_integer (m_lexer (get_token F p)) = word_of_int (- dec_value ds)"
proof -
  obtain L where L: "get_token F p = (let (t, L) = scan_token (fl_strtof F) L in \<lparr>last_token = t, m_lexer = L\<rparr>)"
    "current L = uint (0x2D :: u8)" "reads L (ds @ s)" using get_token_scan [of p ws "0x2D" "ds @ s" F] assms(1,2)
    by (auto simp: token_start_def is_space_def)
  have "scan_token (fl_strtof F) L = scan_number (fl_strtof F) L" using L(2) by (simp add: scan_token_def)
  then show "gets F p value_integer_tok s" "value_integer (m_lexer (get_token F p)) = word_of_int (- dec_value ds)"
    using L integer_reads [OF assms(3,5,4), of L "fl_strtof F"] by (auto simp: gets_def)
qed

section \<open>The grammar\<close>

definition members_of :: "(bytes \<times> 'f json) list \<Rightarrow> (bytes \<times> 'f json) list \<Rightarrow> (bytes \<times> 'f json) list" where
  "members_of ms es = fold (\<lambda>(k, v). member_set k v) ms es"

inductive value_text :: "'f json \<Rightarrow> bytes \<Rightarrow> bool"
  and elements_text :: "'f json list \<Rightarrow> bytes \<Rightarrow> bool"
  and members_text :: "(bytes \<times> 'f json) list \<Rightarrow> bytes \<Rightarrow> bool" where
  vt_null: "value_text json_null [0x6E, 0x75, 0x6C, 0x6C]"
| vt_true: "value_text (json_boolean True) [0x74, 0x72, 0x75, 0x65]"
| vt_false: "value_text (json_boolean False) [0x66, 0x61, 0x6C, 0x73, 0x65]"
| vt_unsigned: "int_text ds \<Longrightarrow> dec_value ds < 2 ^ 64 \<Longrightarrow> value_text (json_unsigned (word_of_int (dec_value ds))) ds"
| vt_integer: "int_text ds \<Longrightarrow> dec_value ds \<le> 2 ^ 63 \<Longrightarrow> value_text (json_integer (word_of_int (- dec_value ds))) (0x2D # ds)"
| vt_string: "string_text s t \<Longrightarrow> value_text (json_string s) t"
| vt_array0: "space ws \<Longrightarrow> value_text (json_array []) (0x5B # ws @ [0x5D])"
| vt_array: "elements_text vs t \<Longrightarrow> value_text (json_array vs) (0x5B # t @ [0x5D])"
| vt_object0: "space ws \<Longrightarrow> value_text (json_object []) (0x7B # ws @ [0x7D])"
| vt_object: "members_text ms t \<Longrightarrow> value_text (json_object (members_of ms [])) (0x7B # t @ [0x7D])"
| et_one: "space ws \<Longrightarrow> value_text v t \<Longrightarrow> space ws' \<Longrightarrow> elements_text [v] (ws @ t @ ws')"
| et_more: "space ws \<Longrightarrow> value_text v t \<Longrightarrow> space ws' \<Longrightarrow> elements_text vs ts \<Longrightarrow>
    elements_text (v # vs) (ws @ t @ ws' @ 0x2C # ts)"
| mt_one: "space ws \<Longrightarrow> string_text k kt \<Longrightarrow> space w1 \<Longrightarrow> space w2 \<Longrightarrow> value_text v t \<Longrightarrow> space ws' \<Longrightarrow>
    members_text [(k, v)] (ws @ kt @ w1 @ 0x3A # w2 @ t @ ws')"
| mt_more: "space ws \<Longrightarrow> string_text k kt \<Longrightarrow> space w1 \<Longrightarrow> space w2 \<Longrightarrow> value_text v t \<Longrightarrow> space ws' \<Longrightarrow>
    members_text ms ts \<Longrightarrow> members_text ((k, v) # ms) (ws @ kt @ w1 @ 0x3A # w2 @ t @ ws' @ 0x2C # ts)"

text \<open>A whole text: the value with white space around it.\<close>

definition json_text :: "'f json \<Rightarrow> bytes \<Rightarrow> bool" where
  "json_text v s \<longleftrightarrow> (\<exists>ws t ws'. space ws \<and> value_text v t \<and> space ws' \<and> s = ws @ t @ ws')"

section \<open>The loop on a value\<close>

lemma loop_eq:
  "iteration sax F skip bs p s = iteration sax F skip' bs' p' s' \<Longrightarrow>
   sax_loop sax F skip bs p s = sax_loop sax F skip' bs' p' s'"
  by (simp add: sax_loop.simps [of sax F skip] sax_loop.simps [of sax F skip'])

lemma loop_next:
  "iteration sax F skip bs p s = Next skip' bs' p' s' \<Longrightarrow> sax_loop sax F skip bs p s = sax_loop sax F skip' bs' p' s'"
  by (simp add: sax_loop.simps [of sax F skip])

lemma delimited_space: "space ws \<Longrightarrow> b \<in> {0x2C, 0x5D, 0x7D} \<Longrightarrow> delimited (ws @ b # s)"
  by (cases ws) (auto simp: delimited_def is_digit_def is_space_def uint_is)

lemma delimited_end: "space ws \<Longrightarrow> delimited ws"
  by (cases ws) (auto simp: delimited_def is_digit_def is_space_def uint_is)

text \<open>\<open>steps\<close>: the loop with a value to parse goes on as the loop after that value, which is \<open>v\<close>.\<close>

definition parses :: "bool \<Rightarrow> 'f float_lib \<Rightarrow> bool \<Rightarrow> bool list \<Rightarrow> 'f parser \<Rightarrow> 'f dom \<Rightarrow> 'f frame list \<Rightarrow> 'f json \<Rightarrow> bytes \<Rightarrow> bool" where
  "parses ae F skip bs p d gs v s \<longleftrightarrow>
     (\<exists>p' d'. sax_loop (json_sax_dom_parser ae) F skip bs p d = sax_loop (json_sax_dom_parser ae) F True (map is_arr gs) p' d' \<and>
        reads (m_lexer p') s \<and> done_at gs v d')"

lemma parses_done:
  "sax_loop (json_sax_dom_parser ae) F skip bs p d = sax_loop (json_sax_dom_parser ae) F True (map is_arr gs) p' d' \<Longrightarrow>
   reads (m_lexer p') s \<Longrightarrow> done_at gs v d' \<Longrightarrow> parses ae F skip bs p d gs v s"
  by (auto simp: parses_def)

lemma parses_step:
  "parses ae F skip' bs' p' d' gs v s \<Longrightarrow>
   sax_loop (json_sax_dom_parser ae) F skip bs p d = sax_loop (json_sax_dom_parser ae) F skip' bs' p' d' \<Longrightarrow>
   parses ae F skip bs p d gs v s"
  by (simp add: parses_def)

lemma parses_then:
  assumes "parses ae F skip bs p d gs v s"
    and "\<And>p' d'. reads (m_lexer p') s \<Longrightarrow> done_at gs v d' \<Longrightarrow> parses ae F True (map is_arr gs) p' d' hs w s'"
  shows "parses ae F skip bs p d hs w s'"
  using assms unfolding parses_def by (metis (no_types, lifting))

lemma parses_scalar:
  assumes "scalar_event p = Some e" "last_token p \<noteq> value_float_tok" "ready_at gs d" "reads (m_lexer p) s"
    and "\<And>d. json_sax_dom_parser ae d e = dom_value v d"
  shows "parses ae F False (map is_arr gs) p d gs v s"
proof -
  obtain d' where d': "dom_value v d = Go d'" "done_at gs v d'" using dom_value_at [OF assms(3)] by blast
  have "last_token p \<noteq> begin_object" "last_token p \<noteq> begin_array" using assms(1) by (auto simp: scalar_event_def)
  then have "iteration (json_sax_dom_parser ae) F False (map is_arr gs) p d = iteration (json_sax_dom_parser ae) F True (map is_arr gs) p d'"
    using assms d' by (simp add: iteration_def parse_value_def call_def)
  then show ?thesis using assms(4) d'(2) by (intro parses_done [OF loop_eq])
qed

lemma gets_scalar:
  assumes "gets F p tok s" "scalar_event (get_token F p) = Some e" "tok \<noteq> value_float_tok" "ready_at gs d"
    and "\<And>d. json_sax_dom_parser ae d e = dom_value v d"
  shows "parses ae F False (map is_arr gs) (get_token F p) d gs v s"
  using assms parses_scalar unfolding gets_def by metis

section \<open>Containers\<close>

lemma parses_end_array:
  assumes "open_at gs (json_array xs) d" "gets F p end_array s"
  shows "parses ae F True (True # map is_arr gs) p d gs (json_array xs) s"
proof -
  obtain d' where d': "dom_end_array d = Go d'" "done_at gs (json_array xs) d'" using dom_end_at(2) [OF assms(1)] by blast
  then have "iteration (json_sax_dom_parser ae) F True (True # map is_arr gs) p d = Next True (map is_arr gs) (get_token F p) d'"
    using assms(2) by (simp add: iteration_def evaluate_state_def evaluate_array_def gets_def call_def json_sax_dom_parser_def)
  then show ?thesis using d' assms(2) unfolding gets_def by (intro parses_done [OF loop_next]) auto
qed

lemma parses_end_object:
  assumes "open_at gs (json_object es) d" "gets F p end_object s"
  shows "parses ae F True (False # map is_arr gs) p d gs (json_object es) s"
proof -
  obtain d' where d': "dom_end_object d = Go d'" "done_at gs (json_object es) d'" using dom_end_at(1) [OF assms(1)] by blast
  then have "iteration (json_sax_dom_parser ae) F True (False # map is_arr gs) p d = Next True (map is_arr gs) (get_token F p) d'"
    using assms(2) by (simp add: iteration_def evaluate_state_def evaluate_object_def gets_def call_def json_sax_dom_parser_def)
  then show ?thesis using d' assms(2) unfolding gets_def by (intro parses_done [OF loop_next]) auto
qed

lemma loop_array_comma:
  "gets F p value_separator s \<Longrightarrow>
   sax_loop (json_sax_dom_parser ae) F True (True # bs) p d = sax_loop (json_sax_dom_parser ae) F False (True # bs) (get_token F (get_token F p)) d"
  by (rule loop_next) (simp add: iteration_def evaluate_state_def evaluate_array_def gets_def)

lemma loop_object_comma:
  assumes "gets F p value_separator s" "parse_key (json_sax_dom_parser ae) F (False # bs) (get_token F (get_token F p)) d = Next False bs' q d'"
  shows "sax_loop (json_sax_dom_parser ae) F True (False # bs) p d = sax_loop (json_sax_dom_parser ae) F False bs' q d'"
  by (rule loop_next) (use assms in \<open>simp add: iteration_def evaluate_state_def evaluate_object_def gets_def\<close>)

text \<open>A key and the colon after it.\<close>

lemma parse_key_reads:
  assumes "open_at gs (json_object es) d" "reads (m_lexer p) (ws @ kt @ w1 @ 0x3A # s)" "space ws" "string_text k kt" "space w1"
  shows "\<exists>q d'. parse_key (json_sax_dom_parser ae) F (False # bs) (get_token F p) d = Next False (False # bs) (get_token F q) d' \<and>
    reads (m_lexer q) s \<and> ready_at (CObj es k # gs) d'"
proof -
  obtain d' where d': "dom_key k d = Go d'" "ready_at (CObj es k # gs) d'" using dom_key_at [OF assms(1)] by blast
  let ?p = "get_token F p"
  have k: "gets F p value_string (w1 @ 0x3A # s)" "get_string (m_lexer ?p) = k"
    using gets_string [OF assms(2,3,4)] by blast+
  have "gets F ?p name_separator s" using k(1) gets_structural [of ?p w1 "0x3A" s name_separator F] assms(5) by (simp add: gets_def)
  then show ?thesis using d' k
    by (intro exI [of _ "get_token F ?p"] exI [of _ d']) (simp add: parse_key_def gets_def call_def json_sax_dom_parser_def)
qed

lemma parse_key_Next:
  "parse_key (json_sax_dom_parser ae) F bs p d = Next skip bs' q d' \<Longrightarrow> last_token p = value_string"
  by (auto simp: parse_key_def unexpected_def report_def call_def json_sax_dom_parser_def dom_parse_error_def split: if_splits)

text \<open>The three kinds of texts.\<close>

definition value_ok :: "bool \<Rightarrow> 'f float_lib \<Rightarrow> 'f json \<Rightarrow> bytes \<Rightarrow> bool" where
  "value_ok ae F v t \<longleftrightarrow> (\<forall>p ws s gs d. reads (m_lexer p) (ws @ t @ s) \<longrightarrow> space ws \<longrightarrow> delimited s \<longrightarrow> ready_at gs d \<longrightarrow>
     last_token (get_token F p) \<noteq> end_array \<and> parses ae F False (map is_arr gs) (get_token F p) d gs v s)"

definition elements_ok :: "bool \<Rightarrow> 'f float_lib \<Rightarrow> 'f json list \<Rightarrow> bytes \<Rightarrow> bool" where
  "elements_ok ae F vs t \<longleftrightarrow> (\<forall>p s gs xs d. reads (m_lexer p) (t @ 0x5D # s) \<longrightarrow> ready_at (CArr xs # gs) d \<longrightarrow>
     last_token (get_token F p) \<noteq> end_array \<and>
     parses ae F False (True # map is_arr gs) (get_token F p) d gs (json_array (xs @ vs)) s)"

definition members_ok :: "bool \<Rightarrow> 'f float_lib \<Rightarrow> (bytes \<times> 'f json) list \<Rightarrow> bytes \<Rightarrow> bool" where
  "members_ok ae F ms t \<longleftrightarrow> (\<forall>p s gs es d. reads (m_lexer p) (t @ 0x7D # s) \<longrightarrow> open_at gs (json_object es) d \<longrightarrow>
     (\<exists>q d'. parse_key (json_sax_dom_parser ae) F (False # map is_arr gs) (get_token F p) d = Next False (False # map is_arr gs) q d' \<and>
        parses ae F False (False # map is_arr gs) q d' gs (json_object (members_of ms es)) s))"

lemma value_okD:
  "value_ok ae F v t \<Longrightarrow> reads (m_lexer p) (ws @ t @ s) \<Longrightarrow> space ws \<Longrightarrow> delimited s \<Longrightarrow> ready_at gs d \<Longrightarrow>
   last_token (get_token F p) \<noteq> end_array \<and> parses ae F False (map is_arr gs) (get_token F p) d gs v s"
  by (simp add: value_ok_def)

lemma value_ok_scalar:
  assumes "\<And>p ws s. reads (m_lexer p) (ws @ t @ s) \<Longrightarrow> space ws \<Longrightarrow> delimited s \<Longrightarrow>
      gets F p tok s \<and> scalar_event (get_token F p) = Some e"
    and "tok \<noteq> value_float_tok" "tok \<noteq> end_array" "\<And>d. json_sax_dom_parser ae d e = dom_value v d"
  shows "value_ok ae F v t"
  unfolding value_ok_def
  using gets_scalar [OF conjunct1 [OF assms(1)] conjunct2 [OF assms(1)] assms(2) _ assms(4)] assms(1,3)
  unfolding gets_def by blast


lemma value_ok_array0:
  assumes "space ws"
  shows "value_ok ae F (json_array []) (0x5B # ws @ [0x5D])"
  unfolding value_ok_def
proof (intro allI impI)
  fix p :: "'a parser" and w s gs and d :: "'a dom"
  assume r: "reads (m_lexer p) (w @ (0x5B # ws @ [0x5D]) @ s)" and w: "space w" and d: "ready_at gs d"
  let ?p = "get_token F p"
  have g1: "gets F p begin_array (ws @ 0x5D # s)" using gets_structural [OF _ w, of p "0x5B"] r by simp
  then have g2: "gets F ?p end_array s" using gets_structural [OF _ assms, of ?p "0x5D" s] by (simp add: gets_def)
  obtain d1 where d1: "dom_start (json_array []) d = Go d1" "open_at gs (json_array []) d1" using dom_start_at [OF d] by blast
  obtain d2 where d2: "dom_end_array d1 = Go d2" "done_at gs (json_array []) d2" using dom_end_at(2) [OF d1(2)] by blast
  have "iteration (json_sax_dom_parser ae) F False (map is_arr gs) ?p d = iteration (json_sax_dom_parser ae) F True (map is_arr gs) (get_token F ?p) d2"
    using g1 g2 d1(1) d2(1)
    by (simp add: iteration_def parse_value_def parse_array_def gets_def call_def json_sax_dom_parser_def)
  then show "last_token ?p \<noteq> end_array \<and> parses ae F False (map is_arr gs) ?p d gs (json_array []) s"
    using g1 g2 d2(2) unfolding gets_def by (auto intro: parses_done [OF loop_eq])
qed

lemma value_ok_array:
  assumes el: "elements_ok ae F vs t"
  shows "value_ok ae F (json_array vs) (0x5B # t @ [0x5D])"
  unfolding value_ok_def
proof (intro allI impI)
  fix p :: "'a parser" and w s gs and d :: "'a dom"
  assume r: "reads (m_lexer p) (w @ (0x5B # t @ [0x5D]) @ s)" and w: "space w" and d: "ready_at gs d"
  let ?p = "get_token F p"
  have g1: "gets F p begin_array (t @ 0x5D # s)" using gets_structural [OF _ w, of p "0x5B"] r by simp
  then have r1: "reads (m_lexer ?p) (t @ 0x5D # s)" by (simp add: gets_def)
  obtain d1 where d1: "dom_start (json_array []) d = Go d1" "open_at gs (json_array []) d1" using dom_start_at [OF d] by blast
  have e: "last_token (get_token F ?p) \<noteq> end_array"
    "parses ae F False (True # map is_arr gs) (get_token F ?p) d1 gs (json_array ([] @ vs)) s"
    using el r1 dom_next_at [OF d1(2)] unfolding elements_ok_def by blast+
  then have "iteration (json_sax_dom_parser ae) F False (map is_arr gs) ?p d = Next False (True # map is_arr gs) (get_token F ?p) d1"
    using g1 d1(1) by (simp add: iteration_def parse_value_def parse_array_def gets_def call_def json_sax_dom_parser_def)
  then have "parses ae F False (map is_arr gs) ?p d gs (json_array vs) s"
    using parses_step [OF e(2) loop_next] by simp
  then show "last_token ?p \<noteq> end_array \<and> parses ae F False (map is_arr gs) ?p d gs (json_array vs) s"
    using g1 by (simp add: gets_def)
qed

lemma value_ok_object0:
  assumes "space ws"
  shows "value_ok ae F (json_object []) (0x7B # ws @ [0x7D])"
  unfolding value_ok_def
proof (intro allI impI)
  fix p :: "'a parser" and w s gs and d :: "'a dom"
  assume r: "reads (m_lexer p) (w @ (0x7B # ws @ [0x7D]) @ s)" and w: "space w" and d: "ready_at gs d"
  let ?p = "get_token F p"
  have g1: "gets F p begin_object (ws @ 0x7D # s)" using gets_structural [OF _ w, of p "0x7B"] r by simp
  then have g2: "gets F ?p end_object s" using gets_structural [OF _ assms, of ?p "0x7D" s] by (simp add: gets_def)
  obtain d1 where d1: "dom_start (json_object []) d = Go d1" "open_at gs (json_object []) d1" using dom_start_at [OF d] by blast
  obtain d2 where d2: "dom_end_object d1 = Go d2" "done_at gs (json_object []) d2" using dom_end_at(1) [OF d1(2)] by blast
  have "iteration (json_sax_dom_parser ae) F False (map is_arr gs) ?p d = iteration (json_sax_dom_parser ae) F True (map is_arr gs) (get_token F ?p) d2"
    using g1 g2 d1(1) d2(1)
    by (simp add: iteration_def parse_value_def parse_object_def gets_def call_def json_sax_dom_parser_def)
  then show "last_token ?p \<noteq> end_array \<and> parses ae F False (map is_arr gs) ?p d gs (json_object []) s"
    using g1 g2 d2(2) unfolding gets_def by (auto intro: parses_done [OF loop_eq])
qed

lemma value_ok_object:
  assumes el: "members_ok ae F ms t"
  shows "value_ok ae F (json_object (members_of ms [])) (0x7B # t @ [0x7D])"
  unfolding value_ok_def
proof (intro allI impI)
  fix p :: "'a parser" and w s gs and d :: "'a dom"
  assume r: "reads (m_lexer p) (w @ (0x7B # t @ [0x7D]) @ s)" and w: "space w" and d: "ready_at gs d"
  let ?p = "get_token F p"
  have g1: "gets F p begin_object (t @ 0x7D # s)" using gets_structural [OF _ w, of p "0x7B"] r by simp
  then have r1: "reads (m_lexer ?p) (t @ 0x7D # s)" by (simp add: gets_def)
  obtain d1 where d1: "dom_start (json_object []) d = Go d1" "open_at gs (json_object []) d1" using dom_start_at [OF d] by blast
  obtain q d2 where q: "parse_key (json_sax_dom_parser ae) F (False # map is_arr gs) (get_token F ?p) d1 = Next False (False # map is_arr gs) q d2"
    "parses ae F False (False # map is_arr gs) q d2 gs (json_object (members_of ms [])) s"
    using el r1 d1(2) unfolding members_ok_def by blast
  have "iteration (json_sax_dom_parser ae) F False (map is_arr gs) ?p d = Next False (False # map is_arr gs) q d2"
    using g1 d1(1) q(1) parse_key_Next [OF q(1)]
    by (simp add: iteration_def parse_value_def parse_object_def gets_def call_def json_sax_dom_parser_def)
  then show "last_token ?p \<noteq> end_array \<and> parses ae F False (map is_arr gs) ?p d gs (json_object (members_of ms [])) s"
    using g1 parses_step [OF q(2) loop_next] by (simp add: gets_def)
qed


lemma elements_ok_one:
  assumes "space ws" "value_ok ae F v t" "space ws'"
  shows "elements_ok ae F [v] (ws @ t @ ws')"
  unfolding elements_ok_def
proof (intro allI impI)
  fix p :: "'a parser" and s gs xs and d :: "'a dom"
  assume r: "reads (m_lexer p) ((ws @ t @ ws') @ 0x5D # s)" and d: "ready_at (CArr xs # gs) d"
  have v: "last_token (get_token F p) \<noteq> end_array"
    "parses ae F False (map is_arr (CArr xs # gs)) (get_token F p) d (CArr xs # gs) v (ws' @ 0x5D # s)"
    using value_okD [OF assms(2) _ assms(1) _ d, of p "ws' @ 0x5D # s"] r delimited_space [OF assms(3)] by simp_all
  have "parses ae F False (map is_arr (CArr xs # gs)) (get_token F p) d gs (json_array (xs @ [v])) s"
  proof (rule parses_then [OF v(2)])
    fix p' :: "'a parser" and d'
    assume "reads (m_lexer p') (ws' @ 0x5D # s)" "done_at (CArr xs # gs) v d'"
    then show "parses ae F True (map is_arr (CArr xs # gs)) p' d' gs (json_array (xs @ [v])) s"
      using parses_end_array gets_structural [OF _ assms(3), of p' "0x5D" s end_array F] done_open by fastforce
  qed
  then show "last_token (get_token F p) \<noteq> end_array \<and>
      parses ae F False (True # map is_arr gs) (get_token F p) d gs (json_array (xs @ [v])) s" using v(1) by simp
qed

lemma elements_ok_more:
  assumes "space ws" "value_ok ae F v t" "space ws'" "elements_ok ae F vs ts"
  shows "elements_ok ae F (v # vs) (ws @ t @ ws' @ 0x2C # ts)"
  unfolding elements_ok_def
proof (intro allI impI)
  fix p :: "'a parser" and s gs xs and d :: "'a dom"
  assume r: "reads (m_lexer p) ((ws @ t @ ws' @ 0x2C # ts) @ 0x5D # s)" and d: "ready_at (CArr xs # gs) d"
  have v: "last_token (get_token F p) \<noteq> end_array"
    "parses ae F False (map is_arr (CArr xs # gs)) (get_token F p) d (CArr xs # gs) v (ws' @ 0x2C # ts @ 0x5D # s)"
    using value_okD [OF assms(2) _ assms(1) _ d, of p "ws' @ 0x2C # ts @ 0x5D # s"] r delimited_space [OF assms(3)] by simp_all
  have "parses ae F False (map is_arr (CArr xs # gs)) (get_token F p) d gs (json_array (xs @ v # vs)) s"
  proof (rule parses_then [OF v(2)])
    fix p' :: "'a parser" and d'
    assume p': "reads (m_lexer p') (ws' @ 0x2C # ts @ 0x5D # s)" "done_at (CArr xs # gs) v d'"
    have g: "gets F p' value_separator (ts @ 0x5D # s)" using gets_structural [OF p'(1) assms(3)] by simp
    have "ready_at (CArr (xs @ [v]) # gs) d'" using dom_next_at done_open [OF p'(2)] by simp
    then have "parses ae F False (True # map is_arr gs) (get_token F (get_token F p')) d' gs (json_array ((xs @ [v]) @ vs)) s"
      using assms(4) g unfolding elements_ok_def gets_def by blast
    then show "parses ae F True (map is_arr (CArr xs # gs)) p' d' gs (json_array (xs @ v # vs)) s"
      using parses_step loop_array_comma [OF g] by fastforce
  qed
  then show "last_token (get_token F p) \<noteq> end_array \<and>
      parses ae F False (True # map is_arr gs) (get_token F p) d gs (json_array (xs @ v # vs)) s" using v(1) by simp
qed


text \<open>A member: its key, its value, and whatever the loop does after the value.\<close>

lemma member_ok:
  assumes ws: "space ws" "string_text k kt" "space w1" "space w2" and v: "value_ok ae F v t"
    and r: "reads (m_lexer p) (ws @ kt @ w1 @ 0x3A # w2 @ t @ rest)" and rest: "delimited rest"
    and d: "open_at gs (json_object es) d"
    and after: "\<And>p' d'. reads (m_lexer p') rest \<Longrightarrow> open_at gs (json_object (member_set k v es)) d' \<Longrightarrow>
      parses ae F True (False # map is_arr gs) p' d' gs w s"
  shows "\<exists>q d'. parse_key (json_sax_dom_parser ae) F (False # map is_arr gs) (get_token F p) d = Next False (False # map is_arr gs) q d' \<and>
    parses ae F False (False # map is_arr gs) q d' gs w s"
proof -
  obtain q d' where q: "parse_key (json_sax_dom_parser ae) F (False # map is_arr gs) (get_token F p) d = Next False (False # map is_arr gs) (get_token F q) d'"
    "reads (m_lexer q) (w2 @ t @ rest)" "ready_at (CObj es k # gs) d'"
    using parse_key_reads [OF d r ws(1-3)] by blast
  have "parses ae F False (map is_arr (CObj es k # gs)) (get_token F q) d' (CObj es k # gs) v rest"
    using value_okD [OF v q(2) ws(4) rest q(3)] by blast
  then have "parses ae F False (map is_arr (CObj es k # gs)) (get_token F q) d' gs w s"
    by (rule parses_then) (use after done_open in fastforce)
  then show ?thesis using q(1) by auto
qed

lemma members_ok_one:
  assumes "space ws" "string_text k kt" "space w1" "space w2" "value_ok ae F v t" "space ws'"
  shows "members_ok ae F [(k, v)] (ws @ kt @ w1 @ 0x3A # w2 @ t @ ws')"
  unfolding members_ok_def
proof (intro allI impI)
  fix p :: "'a parser" and s gs es and d :: "'a dom"
  assume r: "reads (m_lexer p) ((ws @ kt @ w1 @ 0x3A # w2 @ t @ ws') @ 0x7D # s)" and d: "open_at gs (json_object es) d"
  have "parses ae F True (False # map is_arr gs) p' d' gs (json_object (member_set k v es)) s"
    if "reads (m_lexer p') (ws' @ 0x7D # s)" "open_at gs (json_object (member_set k v es)) d'" for p' :: "'a parser" and d'
    using parses_end_object [OF that(2)] gets_structural [OF that(1) assms(6)] by simp
  then show "\<exists>q d'. parse_key (json_sax_dom_parser ae) F (False # map is_arr gs) (get_token F p) d = Next False (False # map is_arr gs) q d' \<and>
      parses ae F False (False # map is_arr gs) q d' gs (json_object (members_of [(k, v)] es)) s"
    using member_ok [OF assms(1-5), of p "ws' @ 0x7D # s"] r d delimited_space [OF assms(6)] by (simp add: members_of_def)
qed

lemma members_ok_more:
  assumes "space ws" "string_text k kt" "space w1" "space w2" "value_ok ae F v t" "space ws'" "members_ok ae F ms ts"
  shows "members_ok ae F ((k, v) # ms) (ws @ kt @ w1 @ 0x3A # w2 @ t @ ws' @ 0x2C # ts)"
  unfolding members_ok_def
proof (intro allI impI)
  fix p :: "'a parser" and s gs es and d :: "'a dom"
  let ?es = "member_set k v es"
  assume r: "reads (m_lexer p) ((ws @ kt @ w1 @ 0x3A # w2 @ t @ ws' @ 0x2C # ts) @ 0x7D # s)" and d: "open_at gs (json_object es) d"
  have "parses ae F True (False # map is_arr gs) p' d' gs (json_object (members_of ms ?es)) s"
    if p': "reads (m_lexer p') (ws' @ 0x2C # ts @ 0x7D # s)" "open_at gs (json_object ?es) d'" for p' :: "'a parser" and d'
  proof -
    have g: "gets F p' value_separator (ts @ 0x7D # s)" using gets_structural [OF p'(1) assms(6)] by simp
    then obtain q d2 where q: "parse_key (json_sax_dom_parser ae) F (False # map is_arr gs) (get_token F (get_token F p')) d' = Next False (False # map is_arr gs) q d2"
      "parses ae F False (False # map is_arr gs) q d2 gs (json_object (members_of ms ?es)) s"
      using assms(7) p'(2) unfolding members_ok_def gets_def by blast
    then show ?thesis using parses_step [OF q(2) loop_object_comma [OF g q(1)]] by blast
  qed
  then show "\<exists>q d'. parse_key (json_sax_dom_parser ae) F (False # map is_arr gs) (get_token F p) d = Next False (False # map is_arr gs) q d' \<and>
      parses ae F False (False # map is_arr gs) q d' gs (json_object (members_of ((k, v) # ms) es)) s"
    using member_ok [OF assms(1-5), of p "ws' @ 0x2C # ts @ 0x7D # s"] r d delimited_space [OF assms(6)]
    by (simp add: members_of_def)
qed

section \<open>Completeness\<close>

lemma value_ok_literal:
  fixes e :: "'a sax_event" and F :: "'a float_lib"
  assumes "(t, tok, e, v) \<in> set [([0x74, 0x72, 0x75, 0x65], literal_true, sax_boolean True, json_boolean True),
    ([0x66, 0x61, 0x6C, 0x73, 0x65], literal_false, sax_boolean False, json_boolean False),
    ([0x6E, 0x75, 0x6C, 0x6C], literal_null, sax_null, json_null)]"
  shows "value_ok ae F v t"
proof (rule value_ok_scalar [of t F tok e])
  fix p :: "'a parser" and ws s
  assume "reads (m_lexer p) (ws @ t @ s)" "space ws" "delimited s"
  then have "gets F p tok s" using gets_literal [of p ws t s tok F] assms by auto
  then show "gets F p tok s \<and> scalar_event (get_token F p) = Some e" using assms by (auto simp: gets_def scalar_event_def)
qed (use assms in \<open>auto simp: json_sax_dom_parser_def\<close>)

lemma value_ok_unsigned:
  assumes "int_text ds" "dec_value ds < 2 ^ 64"
  shows "value_ok ae F (json_unsigned (word_of_int (dec_value ds))) ds"
proof (rule value_ok_scalar [of ds F value_unsigned_tok "sax_number_unsigned (word_of_int (dec_value ds))"])
  fix p :: "'a parser" and ws s
  assume "reads (m_lexer p) (ws @ ds @ s)" "space ws" "delimited s"
  then show "gets F p value_unsigned_tok s \<and> scalar_event (get_token F p) = Some (sax_number_unsigned (word_of_int (dec_value ds)))"
    using gets_unsigned [of p ws ds s F] assms by (simp add: gets_def scalar_event_def)
qed (simp_all add: json_sax_dom_parser_def)

lemma value_ok_integer:
  assumes "int_text ds" "dec_value ds \<le> 2 ^ 63"
  shows "value_ok ae F (json_integer (word_of_int (- dec_value ds))) (0x2D # ds)"
proof (rule value_ok_scalar [of "0x2D # ds" F value_integer_tok "sax_number_integer (word_of_int (- dec_value ds))"])
  fix p :: "'a parser" and ws s
  assume "reads (m_lexer p) (ws @ (0x2D # ds) @ s)" "space ws" "delimited s"
  then show "gets F p value_integer_tok s \<and> scalar_event (get_token F p) = Some (sax_number_integer (word_of_int (- dec_value ds)))"
    using gets_integer [of p ws ds s F] assms by (simp add: gets_def scalar_event_def)
qed (simp_all add: json_sax_dom_parser_def)

lemma value_ok_string:
  assumes "string_text v t"
  shows "value_ok ae F (json_string v) t"
proof (rule value_ok_scalar [of t F value_string "sax_string v"])
  fix p :: "'a parser" and ws s
  assume "reads (m_lexer p) (ws @ t @ s)" "space ws" "delimited s"
  then show "gets F p value_string s \<and> scalar_event (get_token F p) = Some (sax_string v)"
    using gets_string [of p ws t s v F] assms by (simp add: gets_def scalar_event_def)
qed (simp_all add: json_sax_dom_parser_def)

lemma text_ok:
  "value_text v t \<Longrightarrow> value_ok ae F v t"
  "elements_text vs t \<Longrightarrow> elements_ok ae F vs t"
  "members_text ms t \<Longrightarrow> members_ok ae F ms t"
proof (induction rule: value_text_elements_text_members_text.inducts)
  case vt_null
  show ?case by (rule value_ok_literal [of _ literal_null sax_null]) simp
next
  case vt_true
  show ?case by (rule value_ok_literal [of _ literal_true "sax_boolean True"]) simp
next
  case vt_false
  show ?case by (rule value_ok_literal [of _ literal_false "sax_boolean False"]) simp
qed (blast intro: value_ok_unsigned value_ok_integer value_ok_string value_ok_array0 value_ok_array value_ok_object0 value_ok_object elements_ok_one elements_ok_more
  members_ok_one members_ok_more)+


lemma parse_init_reads:
  "parser_init F text comments point zero = get_token F \<lparr>last_token = uninitialized, m_lexer = lexer_init text comments point zero\<rparr>"
  by (simp add: parser_init_def)

lemma get_token_end:
  assumes "reads (m_lexer p) ws" "space ws"
  shows "last_token (get_token F p) = end_of_input"
  using scan_end [OF assms, of "fl_strtof F"] by (cases "scan (fl_strtof F) (m_lexer p)") (simp add: get_token_def)

lemma parse_complete:
  fixes v :: "'a json"
  assumes "json_text v text"
  shows "parse F ae strict (parser_init F text comments point zero) = Some (Inr v)"
proof -
  obtain ws t ws' where t: "space ws" "value_text v t" "space ws'" "text = ws @ t @ ws'"
    using assms by (auto simp: json_text_def)
  let ?q = "\<lparr>last_token = uninitialized, m_lexer = lexer_init text comments point zero\<rparr>"
  have q: "reads (m_lexer ?q) (ws @ t @ ws')" using reads_init t(4) by simp
  have d: "ready_at [] (dom_init :: 'a dom)" by (simp add: ready_at_def dom_init_def)
  have "parses ae F False (map is_arr ([] :: 'a frame list)) (get_token F ?q) dom_init [] v ws'"
    using value_okD [OF text_ok(1) [OF t(2)] q t(1) delimited_end [OF t(3)] d, of F ae] by simp
  then obtain p' d' where "sax_loop (json_sax_dom_parser ae) F False [] (get_token F ?q) dom_init = sax_loop (json_sax_dom_parser ae) F True [] p' d'"
    and p': "reads (m_lexer p') ws'" "done_at [] v d'" by (auto simp: parses_def)
  moreover have "sax_loop (json_sax_dom_parser ae) F True [] p' d' = Some (Return True p' d')"
    by (subst sax_loop.simps) (simp add: iteration_def evaluate_state_def)
  ultimately have "sax_parse_internal (json_sax_dom_parser ae) F (get_token F ?q) dom_init = Some (Return True p' d')"
    by (simp add: sax_parse_internal_def)
  then show ?thesis
    using p' get_token_end [OF p'(1) t(3), of F]
    by (simp add: parse_init_reads parse_def finish_parse_def done_at_def Let_def)
qed

end
