(* ===== verification/JsonRender.thy ===== *)
theory JsonRender
  imports JsonEscape JsonGrammar
begin

text \<open>
  The serializer writes a text of the value it is given: integers in decimal, and values without
  floating-point numbers, binary data and discarded parts with every choice of indentation up to 512, of
  white space for it, of escaping and of error handler. With completeness of the parser this gives the
  round trip.
\<close>

section \<open>Decimal digits\<close>

lemma to_string_small: "n < 10 \<Longrightarrow> to_string n = [word_of_nat (0x30 + n)]"
  by (subst to_string.simps) simp

lemma to_string_step: "10 \<le> n \<Longrightarrow> to_string n = to_string (n div 10) @ [word_of_nat (0x30 + n mod 10)]"
  by (subst to_string.simps) simp

lemma to_string_not_Nil [simp]: "to_string n \<noteq> []"
  by (subst to_string.simps) simp

lemma length_to_string_step: "10 \<le> n \<Longrightarrow> length (to_string n) = Suc (length (to_string (n div 10)))"
  by (simp add: to_string_step)

lemma count_digits_length: "count_digits n (Suc k) = k + length (to_string n)"
proof (induction n "Suc k" arbitrary: k rule: count_digits.induct)
  case (1 n)
  have d: "n div 10 div 10 = n div 100" "n div 100 div 10 = n div 1000" "n div 1000 div 10 = n div 10000"
    by (simp_all add: div_mult2_eq [symmetric])
  have small: "length (to_string n) = (if n < 10 then 1 else if n < 100 then 2 else if n < 1000 then 3 else 4)" if "n < 10000"
    using that length_to_string_step [of n] length_to_string_step [of "n div 10"] length_to_string_step [of "n div 100"] d
    by (auto simp: to_string_small)
  have large: "length (to_string n) = 4 + length (to_string (n div 10000))" if "10000 \<le> n"
  proof -
    have "10 \<le> n" "10 \<le> n div 10" "10 \<le> n div 100" "10 \<le> n div 1000" using that by simp_all
    from this [THEN length_to_string_step] show ?thesis using d by simp
  qed
  show ?case
  proof (cases "n < 10000")
    case True
    then show ?thesis by (subst count_digits.simps) (simp add: small)
  next
    case False
    have "count_digits n (Suc k) = count_digits (n div 10000) (Suc (k + 4))"
      using False by (subst count_digits.simps) simp
    also have "\<dots> = k + 4 + length (to_string (n div 10000))"
      using False by (intro "1.hyps") simp_all
    finally show ?thesis using False large by simp
  qed
qed

lemma length_to_string: "n < 10 ^ Suc k \<Longrightarrow> length (to_string n) \<le> Suc k"
proof (induction k arbitrary: n)
  case (Suc k)
  then show ?case by (cases "n < 10") (auto simp: to_string_small length_to_string_step)
qed (simp add: to_string_small)

lemma digits_to_99_nth:
  assumes "i < 100"
  shows "digits_to_99 ! i = (word_of_nat (0x30 + i div 10), word_of_nat (0x30 + i mod 10))"
proof -
  have "list_all (\<lambda>i. digits_to_99 ! i = (word_of_nat (0x30 + i div 10), word_of_nat (0x30 + i mod 10))) [0..<100]"
    by code_simp
  then show ?thesis using assms by (simp add: list_all_iff)
qed

text \<open>Writing backwards from \<open>ptr\<close> fills the buffer from \<open>a\<close> on.\<close>

lemma update_at: "length xs = a \<Longrightarrow> (xs @ y # ys)[a := z] = xs @ z # ys"
  by (simp add: list_update_append)

lemma put_pair_fill:
  assumes "length xs = p" "i < 100"
  shows "put_pair i (Suc (Suc p)) (xs @ u # w # ys) = xs @ word_of_nat (0x30 + i div 10) # word_of_nat (0x30 + i mod 10) # ys"
  using assms update_at [of "xs @ [u]" "Suc p" w ys] update_at [of xs p]
  by (simp add: put_pair_def digits_to_99_nth)

lemma put_digits_fill:
  assumes "length xs = a" "length gap = length (to_string n)"
  shows "put_digits n (a + length gap) (xs @ gap @ ys) = xs @ to_string n @ ys"
  using assms
proof (induction n arbitrary: gap ys rule: less_induct)
  case (less n)
  have d: "n div 10 div 10 = n div 100" "n div 10 mod 10 = n mod 100 div 10" "n mod 100 mod 10 = n mod 10"
    using mod_mult2_eq [of n 10 10] by (simp_all add: div_mult2_eq [symmetric])
  consider (one) "n < 10" | (two) "10 \<le> n" "n < 100" | (more) "100 \<le> n" by linarith
  then show ?case
  proof cases
    case one
    then obtain g where "gap = [g]" using less.prems(2) by (auto simp: to_string_small length_Suc_conv)
    then show ?thesis using one less.prems(1) by (subst put_digits.simps) (simp add: to_string_small update_at)
  next
    case two
    then have t: "to_string n = [word_of_nat (0x30 + n div 10), word_of_nat (0x30 + n mod 10)]"
      by (simp add: to_string_step to_string_small)
    then obtain g h where "gap = [g, h]" using less.prems(2) by (auto simp: length_Suc_conv)
    then show ?thesis using two t less.prems(1) put_pair_fill [of xs a n g h ys] by (subst put_digits.simps) simp
  next
    case more
    then have t: "to_string n = to_string (n div 100) @ [word_of_nat (0x30 + n mod 100 div 10), word_of_nat (0x30 + n mod 100 mod 10)]"
    proof -
      have "10 \<le> n" "10 \<le> n div 10" using more by simp_all
      from this [THEN to_string_step] show ?thesis using d by simp
    qed
    define g where "g = take (length (to_string (n div 100))) gap"
    obtain u w where gap: "gap = g @ [u, w]" "length g = length (to_string (n div 100))"
    proof -
      have "length (drop (length (to_string (n div 100))) gap) = Suc (Suc 0)" using less.prems(2) t by simp
      then obtain u w where "drop (length (to_string (n div 100))) gap = [u, w]" unfolding length_Suc_conv length_0_conv by blast
      then have "gap = g @ [u, w]" unfolding g_def by (metis append_take_drop_id)
      then show ?thesis using that less.prems(2) t by (simp add: g_def)
    qed
    have "put_digits n (a + length gap) (xs @ gap @ ys) =
        put_digits (n div 100) (a + length g) (put_pair (n mod 100) (a + length gap) (xs @ gap @ ys))"
      using more gap by (subst put_digits.simps) simp
    also have "put_pair (n mod 100) (a + length gap) (xs @ gap @ ys) =
        xs @ g @ (word_of_nat (0x30 + n mod 100 div 10) # word_of_nat (0x30 + n mod 100 mod 10) # ys)"
      using put_pair_fill [of "xs @ g" "a + length g" "n mod 100" u w ys] gap less.prems(1) by simp
    also have "put_digits (n div 100) (a + length g) \<dots> =
        xs @ to_string (n div 100) @ (word_of_nat (0x30 + n mod 100 div 10) # word_of_nat (0x30 + n mod 100 mod 10) # ys)"
      using more gap less.prems(1) by (intro less.IH) simp_all
    finally show ?thesis using t by simp
  qed
qed

lemma digit_byte: "d < 10 \<Longrightarrow> uint (word_of_nat (0x30 + d) :: u8) = 0x30 + int d"
  using word_of_range [of "0x30 + int d"] by simp

lemma to_string_digits: "digits (to_string n)"
proof (induction n rule: to_string.induct)
  case (1 n)
  then show ?case
    by (cases "n < 10") (simp_all add: to_string_small to_string_step digits_def is_digit_def digit_byte del: of_nat_add)
qed

lemma to_string_head:
  assumes "0 < n"
  shows "hd (to_string n) \<noteq> 0x30"
  using assms
proof (induction n rule: to_string.induct)
  case (1 n)
  show ?case
  proof (cases "n < 10")
    case True
    then have "uint (hd (to_string n)) = 0x30 + int n" by (simp add: to_string_small digit_byte del: of_nat_add)
    then show ?thesis using "1.prems" by auto
  next
    case False
    then have "hd (to_string (n div 10)) \<noteq> 0x30" by (intro "1.IH") auto
    then show ?thesis using False by (simp add: to_string_step)
  qed
qed

lemma to_string_int_text: "int_text (to_string n)"
  using to_string_digits [of n] to_string_head [of n] by (cases "n = 0") (simp_all add: int_text_def to_string_small)

lemma to_string_value: "dec_value (to_string n) = int n"
proof (induction n rule: to_string.induct)
  case (1 n)
  show ?case
  proof (cases "n < 10")
    case True
    then show ?thesis by (simp add: to_string_small dec_value_def digit_byte del: of_nat_add)
  next
    case False
    then have "dec_value (to_string n) = 10 * dec_value (to_string (n div 10)) + int (n mod 10)"
      by (simp add: to_string_step dec_value_def digit_byte del: of_nat_add)
    also have "dec_value (to_string (n div 10)) = int (n div 10)" using 1 False by simp
    also have "10 * int (n div 10) + int (n mod 10) = int (10 * (n div 10) + n mod 10)"
      by (simp only: of_nat_add of_nat_mult of_nat_numeral)
    also have "10 * (n div 10) + n mod 10 = n" by simp
    finally show ?thesis .
  qed
qed

lemma remove_sign_value:
  assumes "- (2 ^ 63) \<le> x" "x < 0"
  shows "unat (remove_sign x) = nat (- x)"
proof -
  have "remove_sign x = word_of_int (- (x + 1) + 1)" by (simp only: remove_sign_def of_int_add of_int_1)
  then have "remove_sign x = word_of_int (- x)" by (simp only: minus_add_distrib minus_add_cancel add.assoc) simp
  then show ?thesis using assms by (simp only: unat_eq_nat_uint uint_word_of_int) simp
qed

lemma filled_prefix:
  assumes "length xs + length (to_string n) \<le> 64"
  shows "take (length xs + length (to_string n))
     (put_digits n (length xs + length (to_string n)) (xs @ replicate (64 - length xs) 0)) = xs @ to_string n"
proof -
  let ?k = "length (to_string n)"
  have "replicate (64 - length xs) 0 = replicate ?k (0 :: u8) @ replicate (64 - length xs - ?k) 0"
    using assms by (simp add: replicate_add [symmetric])
  then show ?thesis using put_digits_fill [of xs "length xs" "replicate ?k 0" n "replicate (64 - length xs - ?k) 0"] by simp
qed

text \<open>Every signed and unsigned 64-bit number is written in decimal, within the buffer of 64 bytes.\<close>

lemma dump_integer_decimal:
  assumes "- (2 ^ 63) \<le> x" "x < 2 ^ 64"
  shows "dump_integer x = Inr (if x < 0 then 0x2D # to_string (nat (- x)) else to_string (nat x))"
proof -
  have len: "length (to_string (nat y)) \<le> 20" if "y < 2 ^ 64" for y :: int
  proof -
    have "nat y < 10 ^ Suc 19" using that by simp
    from length_to_string [OF this] show ?thesis by simp
  qed
  consider (neg) "x < 0" | (zero) "x = 0" | (pos) "0 < x" by linarith
  then show ?thesis
  proof cases
    case neg
    have "(replicate 64 0)[0 := 0x2D] = [0x2D] @ replicate 63 (0 :: u8)" by (simp add: numeral_eq_Suc)
    then show ?thesis
      using neg len [of "- x"] assms(1) filled_prefix [of "[0x2D]" "nat (- x)"] remove_sign_value [OF assms(1) neg]
        count_digits_length [of "nat (- x)" 0]
      by (simp add: dump_integer_def)
  next
    case zero
    then show ?thesis by (simp add: dump_integer_def to_string_small)
  next
    case pos
    have "unat (word_of_int x :: u64) = nat x" using pos assms(2) by (simp add: unat_eq_nat_uint uint_word_of_int)
    then show ?thesis
      using pos len [of x] assms(2) filled_prefix [of "[]" "nat x"] count_digits_length [of "nat x" 0]
      by (simp add: dump_integer_def)
  qed
qed

section \<open>Output and indentation\<close>

text \<open>The indentation string is long enough for \<open>n\<close> and white space throughout.\<close>

definition indent_ok :: "'f dump_config \<Rightarrow> u32 \<Rightarrow> ser \<Rightarrow> bool" where
  "indent_ok C n st \<longleftrightarrow> (pretty_print C \<longrightarrow>
     512 \<le> length (indent_string st) \<and> space (indent_string st) \<and> unat n \<le> length (indent_string st))"

definition grown :: "ser \<Rightarrow> ser \<Rightarrow> bool" where
  "grown st st' \<longleftrightarrow> length (indent_string st) \<le> length (indent_string st') \<and> (space (indent_string st) \<longrightarrow> space (indent_string st'))"

text \<open>\<open>writes C n m P\<close>: at indentation \<open>n\<close>, \<open>m\<close> succeeds and appends a text with property \<open>P\<close>.\<close>

definition writes :: "'f dump_config \<Rightarrow> u32 \<Rightarrow> (ser \<Rightarrow> dump_error + ser) \<Rightarrow> (bytes \<Rightarrow> bool) \<Rightarrow> bool" where
  "writes C n m P \<longleftrightarrow>
     (\<forall>st. indent_ok C n st \<longrightarrow> (\<exists>t st'. m st = Inr st' \<and> o_text st' = o_text st @ t \<and> grown st st' \<and> P t))"

lemma grown_refl [simp]: "grown st st" "grown st (st\<lparr>o_text := t\<rparr>)"
  by (simp_all add: grown_def)

lemma grown_trans: "grown a b \<Longrightarrow> grown b c \<Longrightarrow> grown a c"
  by (auto simp: grown_def)

lemma indent_ok_grown: "indent_ok C n st \<Longrightarrow> grown st st' \<Longrightarrow> indent_ok C n st'"
  by (auto simp: indent_ok_def grown_def)

lemma writesE:
  assumes "writes C n m P" "indent_ok C n st"
  obtains t st' where "m st = Inr st'" "o_text st' = o_text st @ t" "grown st st'" "P t" "indent_ok C n st'"
  using assms indent_ok_grown unfolding writes_def by blast

lemma writes_weaken: "writes C n m P \<Longrightarrow> (\<And>t. P t \<Longrightarrow> Q t) \<Longrightarrow> writes C n m Q"
  unfolding writes_def by blast

lemma writes_seq:
  assumes "writes C n m P" "writes C n m' Q" "\<And>a b. P a \<Longrightarrow> Q b \<Longrightarrow> R (a @ b)"
  shows "writes C n (\<lambda>st. and_then (m st) (\<lambda>st. m' st)) R"
  unfolding writes_def
proof (intro allI impI)
  fix st
  assume i: "indent_ok C n st"
  obtain a st1 where 1: "m st = Inr st1" "o_text st1 = o_text st @ a" "grown st st1" "P a" "indent_ok C n st1"
    using assms(1) i by (rule writesE)
  obtain b st2 where 2: "m' st1 = Inr st2" "o_text st2 = o_text st1 @ b" "grown st1 st2" "Q b"
    using assms(2) 1(5) by (rule writesE)
  show "\<exists>t st'. and_then (m st) (\<lambda>st. m' st) = Inr st' \<and> o_text st' = o_text st @ t \<and> grown st st' \<and> R t"
    using 1 2 assms(3) grown_trans by (intro exI [of _ "a @ b"] exI [of _ st2]) auto
qed

lemma writes_text: "P bs \<Longrightarrow> writes C n (\<lambda>st. write_characters bs st) P"
  by (simp add: writes_def write_characters_def)

lemma writes_escaped: "utf8 s \<Longrightarrow> writes C n (\<lambda>st. write_escaped C s st) (chars_text s)"
  using dump_escaped_text [of s "error_handler C" "ensure_ascii C"]
  by (auto simp: writes_def write_escaped_def write_characters_def)

lemma writes_integer:
  assumes "- (2 ^ 63) \<le> x" "x < 2 ^ 64"
  shows "writes C n (\<lambda>st. write_integer x st) (\<lambda>t. t = (if x < 0 then 0x2D # to_string (nat (- x)) else to_string (nat x)))"
  by (simp add: writes_def write_integer_def dump_integer_decimal [OF assms] write_characters_def)

lemma space_take: "space s \<Longrightarrow> space (take n s)"
  by (auto simp: space_def dest: in_set_takeD)

lemma writes_indent: "pretty_print C \<Longrightarrow> writes C n (\<lambda>st. write_indent n st) space"
  by (auto simp: writes_def write_indent_def write_characters_def indent_ok_def space_take)

lemma writes_element_start: "writes C n (\<lambda>st. element_start C n st) space"
proof (cases "pretty_print C")
  case True
  then show ?thesis using writes_indent by (simp add: element_start_def)
qed (simp add: writes_def element_start_def)

lemma grow_indent_ok:
  assumes "indent_ok C n st" "pretty_print C" "unat (indent_step C) \<le> 512"
  shows "indent_ok C (n + indent_step C) (grow_indent (n + indent_step C) st)" "grown st (grow_indent (n + indent_step C) st)"
    "o_text (grow_indent m st) = o_text st"
proof -
  have "unat (n + indent_step C) \<le> unat n + unat (indent_step C)" by (simp add: unat_plus_if')
  then show "indent_ok C (n + indent_step C) (grow_indent (n + indent_step C) st)" "grown st (grow_indent (n + indent_step C) st)"
    "o_text (grow_indent m st) = o_text st"
    using assms by (auto simp: indent_ok_def grown_def grow_indent_def space_def is_space_def)
qed

text \<open>The body of an array or object at the next level of indentation.\<close>

lemma writes_body:
  assumes "writes C (n + indent_step C) body P" "pretty_print C" "unat (indent_step C) \<le> 512"
  shows "writes C n (\<lambda>st. body (grow_indent (n + indent_step C) st)) P"
  unfolding writes_def
proof (intro allI impI)
  fix st
  assume "indent_ok C n st"
  note g = grow_indent_ok [OF this assms(2,3)]
  obtain t st' where "body (grow_indent (n + indent_step C) st) = Inr st'"
    "o_text st' = o_text (grow_indent (n + indent_step C) st) @ t" "grown (grow_indent (n + indent_step C) st) st'" "P t"
    using assms(1) g(1) by (rule writesE)
  then show "\<exists>t st'. body (grow_indent (n + indent_step C) st) = Inr st' \<and> o_text st' = o_text st @ t \<and> grown st st' \<and> P t"
    using g grown_trans by (intro exI [of _ t] exI [of _ st']) auto
qed

lemma writes_brackets:
  assumes "\<And>n. writes C n (body n) P" "unat (indent_step C) \<le> 512"
    and R: "\<And>ws t ws'. space ws \<Longrightarrow> P t \<Longrightarrow> space ws' \<Longrightarrow> R (lb # (ws @ t @ ws') @ [rb])"
  shows "writes C n (\<lambda>st. dump_brackets C lb rb n body st) R"
proof (cases "pretty_print C")
  case True
  have close: "writes C n (\<lambda>st. and_then (write_characters [0x0A] st) (\<lambda>st. and_then (write_indent n st) (\<lambda>st. write_characters [rb] st)))
    (\<lambda>t. \<exists>ws. space ws \<and> t = ws @ [rb])"
    by (rule writes_seq [OF writes_text [where P = "\<lambda>t. t = [0x0A]"] writes_seq [OF writes_indent [OF True]
          writes_text [where P = "\<lambda>t. t = [rb]"], where R = "\<lambda>t. \<exists>ws. space ws \<and> t = ws @ [rb]"]])
      (auto simp: is_space_def intro: exI [of _ "0x0A # _"])
  have "writes C n (\<lambda>st. and_then (write_characters [lb, 0x0A] st) (\<lambda>st.
        and_then (body (n + indent_step C) (grow_indent (n + indent_step C) st)) (\<lambda>st.
        and_then (write_characters [0x0A] st) (\<lambda>st. and_then (write_indent n st) (\<lambda>st. write_characters [rb] st))))) R"
  proof (rule writes_seq [OF writes_text [where P = "\<lambda>t. t = [lb, 0x0A]"] writes_seq [OF writes_body [OF assms(1) True assms(2)] close,
          where R = "\<lambda>t. \<exists>u ws. P u \<and> space ws \<and> t = u @ ws @ [rb]"]])
    show "R (a @ b)" if "a = [lb, 0x0A]" "\<exists>u ws. P u \<and> space ws \<and> b = u @ ws @ [rb]" for a b
      using that R [of "[0x0A]"] by (auto simp: is_space_def)
  qed auto
  then show ?thesis using True by (simp add: dump_brackets_def Let_def)
next
  case False
  have "writes C n (\<lambda>st. and_then (write_characters [lb] st) (\<lambda>st. and_then (body n st) (\<lambda>st. write_characters [rb] st))) R"
  proof (rule writes_seq [OF writes_text [where P = "\<lambda>t. t = [lb]"] writes_seq [OF assms(1) writes_text [where P = "\<lambda>t. t = [rb]"],
          where R = "\<lambda>t. \<exists>u. P u \<and> t = u @ [rb]"]])
    show "R (a @ b)" if "a = [lb]" "\<exists>u. P u \<and> b = u @ [rb]" for a b
      using that R [of "[]" _ "[]"] by auto
  qed auto
  then show ?thesis using False by (simp add: dump_brackets_def)
qed

section \<open>Values\<close>

text \<open>The value as the parser reads it: an integer that is not negative becomes an unsigned number, which compares
  equal to it.\<close>

fun as_parsed :: "'f json \<Rightarrow> 'f json" where
  "as_parsed (json_object es) = json_object (map (\<lambda>(k, v). (k, as_parsed v)) es)"
| "as_parsed (json_array xs) = json_array (map as_parsed xs)"
| "as_parsed (json_integer n) = (if 0 \<le> sint n then json_unsigned n else json_integer n)"
| "as_parsed v = v"

fun float_free :: "'f json \<Rightarrow> bool" where
  "float_free (json_object es) \<longleftrightarrow> (\<forall>(k, v) \<in> set es. float_free v)"
| "float_free (json_array xs) \<longleftrightarrow> (\<forall>x \<in> set xs. float_free x)"
| "float_free (json_float _) \<longleftrightarrow> False"
| "float_free _ \<longleftrightarrow> True"

lemma space_append [simp]: "space (a @ b) \<longleftrightarrow> space a \<and> space b"
  by (auto simp: space_def)

lemma text_lead:
  "elements_text vs t \<Longrightarrow> space ws \<Longrightarrow> elements_text vs (ws @ t)"
  "members_text ms t \<Longrightarrow> space ws \<Longrightarrow> members_text ms (ws @ t)"
proof -
  show "elements_text vs (ws @ t)" if "elements_text vs t" "space ws"
    using that(1)
  proof cases
    case (et_one w v t' w')
    then show ?thesis using value_text_elements_text_members_text.et_one [of "ws @ w" v t' w'] that(2) by simp
  next
    case (et_more w v t' w' vs' ts)
    then show ?thesis using value_text_elements_text_members_text.et_more [of "ws @ w" v t' w' vs' ts] that(2) by simp
  qed
  show "members_text ms (ws @ t)" if "members_text ms t" "space ws"
    using that(1)
  proof cases
    case (mt_one w k kt w1 w2 v t' w')
    then show ?thesis using value_text_elements_text_members_text.mt_one [of "ws @ w" k kt w1 w2 v t' w'] that(2) by simp
  next
    case (mt_more w k kt w1 w2 v t' w' ms' ts)
    then show ?thesis using value_text_elements_text_members_text.mt_more [of "ws @ w" k kt w1 w2 v t' w' ms' ts] that(2) by simp
  qed
qed

lemma text_trail:
  fixes v :: "'a json" and vs :: "'a json list" and ms :: "(bytes \<times> 'a json) list"
  shows "value_text v u \<Longrightarrow> True"
    "elements_text vs t \<Longrightarrow> space ws \<Longrightarrow> elements_text vs (t @ ws)"
    "members_text ms t' \<Longrightarrow> space ws \<Longrightarrow> members_text ms (t' @ ws)"
proof (induction rule: value_text_elements_text_members_text.inducts)
  case (et_one w v t w')
  then show ?case using value_text_elements_text_members_text.et_one [of w v t "w' @ ws"] by simp
next
  case (et_more w v t w' vs ts)
  then show ?case using value_text_elements_text_members_text.et_more [of w v t w' vs "ts @ ws"] by simp
next
  case (mt_one w k kt w1 w2 v t w')
  then show ?case using value_text_elements_text_members_text.mt_one [of w k kt w1 w2 v t "w' @ ws"] by simp
next
  case (mt_more w k kt w1 w2 v t w' ms ts)
  then show ?case using value_text_elements_text_members_text.mt_more [of w k kt w1 w2 v t w' ms "ts @ ws"] by simp
qed auto

lemma member_set_last:
  "\<forall>e \<in> set es. bytes_less (fst e) k \<Longrightarrow> member_set k v es = es @ [(k, v)]"
proof (induction es)
  case (Cons e es)
  obtain k' w where e: "e = (k', w)" by (cases e)
  have "k \<noteq> k'" "\<not> bytes_less k k'" using Cons.prems e bytes_less_trans [of k k' k] by auto
  then show ?case using Cons e by (simp add: member_set_def)
qed (simp add: member_set_def)

lemma members_of_sorted:
  assumes "sorted_wrt (\<lambda>a b. bytes_less (fst a) (fst b)) (es @ ms)"
  shows "members_of ms es = es @ ms"
  using assms
proof (induction ms arbitrary: es)
  case (Cons m ms)
  obtain k v where m: "m = (k, v)" by (cases m)
  have "member_set k v es = es @ [(k, v)]" using Cons.prems m by (intro member_set_last) (auto simp: sorted_wrt_append)
  then show ?case using Cons.IH [of "es @ [m]"] Cons.prems m by (simp add: members_of_def)
qed (simp add: members_of_def)

text \<open>The separator between elements is a comma and white space.\<close>

lemma between_elements_text: "\<exists>ws. space ws \<and> between_elements C = 0x2C # ws"
  by (auto simp: between_elements_def is_space_def)

lemma after_key_text: "\<exists>ws. space ws \<and> after_key C = 0x22 # 0x3A # ws"
  by (auto simp: after_key_def is_space_def)

lemma writes_key:
  assumes "utf8 k"
  shows "writes C n (\<lambda>st. dump_key C n k st)
    (\<lambda>t. \<exists>ws kt w2. space ws \<and> string_text k kt \<and> space w2 \<and> t = ws @ kt @ 0x3A # w2)"
  unfolding dump_key_def
proof (rule writes_seq [OF writes_element_start writes_seq [OF writes_text [where P = "\<lambda>t. t = [0x22]"] writes_seq [OF writes_escaped [OF assms]
          writes_text [where P = "\<lambda>t. t = after_key C"], where R = "\<lambda>t. \<exists>u. chars_text k u \<and> t = u @ after_key C"],
        where R = "\<lambda>t. \<exists>u. chars_text k u \<and> t = 0x22 # u @ after_key C"]])
  fix ws b
  assume "space ws" "\<exists>u. chars_text k u \<and> b = 0x22 # u @ after_key C"
  then obtain u w2 where u: "chars_text k u" "space w2" "b = 0x22 # u @ 0x22 # 0x3A # w2" using after_key_text [of C] by auto
  then have "string_text k ([0x22] @ u @ [0x22])" by (auto simp: string_text_def)
  then show "\<exists>ws' kt w2. space ws' \<and> string_text k kt \<and> space w2 \<and> ws @ b = ws' @ kt @ 0x3A # w2"
    using \<open>space ws\<close> u(2,3) by (intro exI [of _ ws] exI [of _ "[0x22] @ u @ [0x22]"] exI [of _ w2]) simp
qed auto

text \<open>The elements of an array and the members of an object, if each value is written as its text.\<close>

definition rendered :: "'f dump_config \<Rightarrow> 'f json \<Rightarrow> bool" where
  "rendered C v \<longleftrightarrow> (\<forall>n. writes C n (\<lambda>st. dump C v n st) (value_text (as_parsed v)))"

lemma and_then_Inr [simp]: "and_then r Inr = r"
  by (cases r) simp_all

lemma writes_elements:
  assumes "list_all (rendered C) xs" "xs \<noteq> []"
  shows "writes C n (\<lambda>st. dump_elements C xs n st) (elements_text (map as_parsed xs))"
  using assms
proof (induction xs)
  case (Cons x xs)
  have x: "writes C n (\<lambda>st. dump C x n st) (value_text (as_parsed x))" using Cons.prems by (simp add: rendered_def)
  show ?case
  proof (cases "xs = []")
    case True
    have "writes C n (\<lambda>st. and_then (element_start C n st) (\<lambda>st. dump C x n st)) (elements_text [as_parsed x])"
      by (rule writes_seq [OF writes_element_start x]) (use et_one [of _ _ _ "[]"] in simp)
    then show ?thesis using True by simp
  next
    case False
    obtain ws where ws: "space ws" "between_elements C = 0x2C # ws" using between_elements_text by blast
    have rest: "writes C n (\<lambda>st. and_then (write_characters (between_elements C) st) (\<lambda>st. dump_elements C xs n st))
      (\<lambda>t. \<exists>u. elements_text (map as_parsed xs) u \<and> t = 0x2C # u)"
      by (rule writes_seq [OF writes_text [where P = "\<lambda>t. t = between_elements C"] Cons.IH])
        (use Cons.prems False ws text_lead(1) in auto)
    have "writes C n (\<lambda>st. and_then (element_start C n st) (\<lambda>st. and_then (dump C x n st) (\<lambda>st.
        and_then (write_characters (between_elements C) st) (\<lambda>st. dump_elements C xs n st)))) (elements_text (map as_parsed (x # xs)))"
    proof (rule writes_seq [OF writes_element_start writes_seq [OF x rest,
          where R = "\<lambda>t. \<exists>a u. value_text (as_parsed x) a \<and> elements_text (map as_parsed xs) u \<and> t = a @ 0x2C # u"]])
      show "elements_text (map as_parsed (x # xs)) (w @ b)"
        if "space w" "\<exists>a u. value_text (as_parsed x) a \<and> elements_text (map as_parsed xs) u \<and> b = a @ 0x2C # u" for w b
        using that et_more [of w "as_parsed x" _ "[]" "map as_parsed xs"] by auto
    qed auto
    then show ?thesis using False by simp
  qed
qed simp

lemma writes_members:
  assumes "list_all (\<lambda>(k, v). utf8 k \<and> rendered C v) es" "es \<noteq> []"
  shows "writes C n (\<lambda>st. dump_members C es n st) (members_text (map (\<lambda>(k, v). (k, as_parsed v)) es))"
  using assms
proof (induction es)
  case (Cons e es)
  obtain k v where e: "e = (k, v)" by (cases e)
  have v: "utf8 k" "writes C n (\<lambda>st. dump C v n st) (value_text (as_parsed v))" using Cons.prems e by (simp_all add: rendered_def)
  let ?P = "\<lambda>t. \<exists>ws kt w2. space ws \<and> string_text k kt \<and> space w2 \<and> t = ws @ kt @ 0x3A # w2"
  let ?ms = "map (\<lambda>(k, v). (k, as_parsed v)) es"
  show ?case
  proof (cases "es = []")
    case True
    have "writes C n (\<lambda>st. and_then (dump_key C n k st) (\<lambda>st. dump C v n st)) (members_text [(k, as_parsed v)])"
      by (rule writes_seq [OF writes_key [OF v(1)] v(2)]) (use mt_one [of _ _ _ "[]" _ _ _ "[]"] in auto)
    then show ?thesis using True e by simp
  next
    case False
    obtain ws where ws: "space ws" "between_elements C = 0x2C # ws" using between_elements_text by blast
    have rest: "writes C n (\<lambda>st. and_then (write_characters (between_elements C) st) (\<lambda>st. dump_members C es n st))
      (\<lambda>t. \<exists>u. members_text ?ms u \<and> t = 0x2C # u)"
      by (rule writes_seq [OF writes_text [where P = "\<lambda>t. t = between_elements C"] Cons.IH])
        (use Cons.prems False ws text_lead(2) in auto)
    have "writes C n (\<lambda>st. and_then (dump_key C n k st) (\<lambda>st. and_then (dump C v n st) (\<lambda>st.
        and_then (write_characters (between_elements C) st) (\<lambda>st. dump_members C es n st)))) (members_text ((k, as_parsed v) # ?ms))"
    proof (rule writes_seq [OF writes_key [OF v(1)] writes_seq [OF v(2) rest,
          where R = "\<lambda>t. \<exists>a u. value_text (as_parsed v) a \<and> members_text ?ms u \<and> t = a @ 0x2C # u"]])
      show "members_text ((k, as_parsed v) # ?ms) (a @ b)"
        if "?P a" "\<exists>a u. value_text (as_parsed v) a \<and> members_text ?ms u \<and> b = a @ 0x2C # u" for a b
        using that mt_more [of _ k _ "[]" _ "as_parsed v" _ "[]" ?ms] by auto
    qed auto
    then show ?thesis using False e by simp
  qed
qed simp

lemma rendered_array:
  assumes "list_all (rendered C) xs" "unat (indent_step C) \<le> 512"
  shows "rendered C (json_array xs)"
proof (cases "xs = []")
  case True
  then show ?thesis using vt_array0 [of "[]"] by (auto simp: rendered_def intro!: writes_text)
next
  case False
  have "writes C n (\<lambda>st. dump_brackets C 0x5B 0x5D n (\<lambda>n st. dump_elements C xs n st) st) (value_text (json_array (map as_parsed xs)))" for n
    by (rule writes_brackets [OF writes_elements [OF assms(1) False] assms(2)])
      (intro vt_array text_lead(1) text_trail(2))
  then show ?thesis using False by (simp add: rendered_def)
qed

lemma rendered_object:
  assumes "list_all (\<lambda>(k, v). utf8 k \<and> rendered C v) es" "sorted_wrt (\<lambda>a b. bytes_less (fst a) (fst b)) es"
    "unat (indent_step C) \<le> 512"
  shows "rendered C (json_object es)"
proof (cases "es = []")
  case True
  then show ?thesis using vt_object0 [of "[]"] by (auto simp: rendered_def intro!: writes_text)
next
  case False
  let ?ms = "map (\<lambda>(k, v). (k, as_parsed v)) es"
  have "sorted_wrt (\<lambda>a b. bytes_less (fst a) (fst b)) ?ms"
    using assms(2) by (simp add: sorted_wrt_map case_prod_beta)
  then have m: "members_of ?ms [] = ?ms" using members_of_sorted [of "[]" ?ms] by simp
  have "value_text (json_object ?ms) (0x7B # (ws @ t @ ws') @ [0x7D])" if "space ws" "members_text ?ms t" "space ws'" for ws t ws'
    using vt_object [of ?ms] text_lead(2) text_trail(3) that m by metis
  then have "writes C n (\<lambda>st. dump_brackets C 0x7B 0x7D n (\<lambda>n st. dump_members C es n st) st) (value_text (json_object ?ms))" for n
    by (rule writes_brackets [OF writes_members [OF assms(1) False] assms(3)])
  then show ?thesis using False by (simp add: rendered_def)
qed

lemma rendered_string:
  fixes C :: "'f dump_config"
  assumes "utf8 s"
  shows "rendered C (json_string s)"
proof -
  have "value_text (json_string s :: 'f json) ([0x22] @ t @ [0x22])" if "chars_text s t" for t
    using that by (intro vt_string) (auto simp: string_text_def)
  then have "writes C n (\<lambda>st. and_then (write_characters [0x22] st) (\<lambda>st. and_then (write_escaped C s st) (\<lambda>st. write_characters [0x22] st)))
    (value_text (json_string s :: 'f json))" for n
    by (intro writes_seq [OF writes_text [where P = "\<lambda>t. t = [0x22]"] writes_seq [OF writes_escaped [OF assms]
          writes_text [where P = "\<lambda>t. t = [0x22]"], where R = "\<lambda>t. \<exists>u. chars_text s u \<and> t = u @ [0x22]"]]) auto
  then show ?thesis by (simp add: rendered_def)
qed

lemma value_text_unsigned: "value_text (json_unsigned n) (to_string (unat n))"
proof -
  have "uint n < 2 ^ 64" using unsigned_less [of n] by simp
  then show ?thesis using vt_unsigned [OF to_string_int_text [of "unat n"]] by (simp add: to_string_value)
qed

lemma value_text_negative:
  assumes "sint (n :: u64) < 0"
  shows "value_text (json_integer n) (0x2D # to_string (nat (- sint n)))"
proof -
  have "- (2 ^ 63) \<le> sint n" using sint_ge [of n] by simp
  then show ?thesis using vt_integer [OF to_string_int_text [of "nat (- sint n)"]] assms by (simp add: to_string_value)
qed

lemma rendered_integer: "rendered C (json_integer n)"
proof -
  have r: "- (2 ^ 63) \<le> sint n" "sint n < 2 ^ 63" using sint_ge [of n] sint_lt [of n] by simp_all
  have "uint n = uint (word_of_int (sint n) :: u64)" by simp
  then have "0 \<le> sint n \<Longrightarrow> uint n = sint n" using r(2) by (simp only: uint_word_of_int) simp
  then have "0 \<le> sint n \<Longrightarrow> nat (sint n) = unat n" by (simp only: unat_eq_nat_uint)
  then show ?thesis
    using writes_weaken [OF writes_integer [OF r(1)]] r(2) value_text_unsigned [of n] value_text_negative [of n]
    by (auto simp: rendered_def)
qed

lemma rendered_unsigned: "rendered C (json_unsigned n)"
proof -
  have "- (2 ^ 63) \<le> (0 :: int)" "0 \<le> uint n" "uint n < 2 ^ 64" using uint_bounded [of n] by simp_all
  then have "- (2 ^ 63) \<le> uint n" "uint n < 2 ^ 64" by (blast intro: order_trans)+
  from writes_weaken [OF writes_integer [OF this]] show ?thesis
    using value_text_unsigned [of n] by (auto simp: rendered_def not_less)
qed

lemma rendered_scalar:
  "rendered C json_null" "rendered C (json_boolean b)"
  by (auto simp: rendered_def asc_def vt_null vt_true vt_false intro!: writes_text)

lemma dump_rendered:
  assumes "unat (indent_step C) \<le> 512" "json_wf v" "float_free v"
  shows "rendered C v"
  using assms(2,3)
proof (induction v)
  case (json_object es)
  then have "list_all (\<lambda>(k, v). utf8 k \<and> rendered C v) es" by (fastforce simp: list_all_iff)
  then show ?case using json_object.prems(1) assms(1) by (intro rendered_object) simp_all
next
  case (json_array xs)
  then have "list_all (rendered C) xs" by (simp add: list_all_iff)
  then show ?case using assms(1) by (rule rendered_array)
qed (simp_all add: rendered_scalar rendered_integer rendered_unsigned rendered_string)

section \<open>The member function \<^verbatim>\<open>dump\<close>\<close>

text \<open>Compact, or with an indentation of at most 512 characters of white space.\<close>

lemma json_dump_text:
  assumes "json_wf v" "float_free v" "indent < 0 \<or> indent \<le> 512 \<and> is_space (uint indent_char)"
  shows "\<exists>t. json_dump fin chars indent indent_char ascii eh v = Inr t \<and> value_text (as_parsed v) t"
proof -
  let ?C = "\<lparr>pretty_print = 0 \<le> indent, ensure_ascii = ascii, indent_step = (if 0 \<le> indent then word_of_int indent else 0),
          error_handler = eh, isfinite = fin, to_chars = chars\<rparr>"
  have "uint (word_of_int indent :: u32) \<le> 512" if "0 \<le> indent"
    using assms(3) that by (simp add: uint_word_of_int)
  then have "unat (indent_step ?C) \<le> 512" by (simp add: unat_eq_nat_uint nat_le_iff del: nat_uint_eq)
  then have "writes ?C 0 (\<lambda>st. dump ?C v 0 st) (value_text (as_parsed v))"
    using dump_rendered [OF _ assms(1,2)] unfolding rendered_def by blast
  moreover have "indent_ok ?C 0 (ser_init indent_char)"
    using assms(3) by (auto simp: indent_ok_def ser_init_def space_def)
  ultimately obtain t st where "dump ?C v 0 (ser_init indent_char) = Inr st" "o_text st = o_text (ser_init indent_char) @ t"
    "value_text (as_parsed v) t" by (rule writesE)
  then show ?thesis by (simp add: json_dump_def ser_init_def)
qed

end
