(* ===== verification/JsonStrict.thy ===== *)
theory JsonStrict
  imports JsonEscape
begin

text \<open>
  Which strings are escaped: with the error handlers \<^verbatim>\<open>replace\<close> and \<^verbatim>\<open>ignore\<close> all of them, with \<^verbatim>\<open>strict\<close>
  exactly the well-formed UTF-8 ones. The table of the decoder is compared with the ranges of
  continuation bytes that the scanner of the parser uses.
\<close>

section \<open>The decoder accepts well-formed UTF-8 only\<close>

text \<open>The continuation bytes that a state still expects.\<close>

definition state_ranges :: "nat \<Rightarrow> (int \<times> int) list" where
  "state_ranges s =
     (if s = 2 then [(0x80, 0xBF)]
      else if s = 3 then [(0x80, 0xBF), (0x80, 0xBF)]
      else if s = 4 then [(0xA0, 0xBF), (0x80, 0xBF)]
      else if s = 5 then [(0x80, 0x9F), (0x80, 0xBF)]
      else if s = 6 then [(0x90, 0xBF), (0x80, 0xBF), (0x80, 0xBF)]
      else if s = 7 then [(0x80, 0xBF), (0x80, 0xBF), (0x80, 0xBF)]
      else if s = 8 then [(0x80, 0x8F), (0x80, 0xBF), (0x80, 0xBF)]
      else [])"

definition lead_row_ok :: "nat \<Rightarrow> bool" where
  "lead_row_ok n = (let s = utf8d ! (256 + utf8d ! n) in s = 1 \<or> s = 0 \<and> n < 128 \<or> lead_ranges (int n) = Some (state_ranges s))"

text \<open>The bytes of the three types of continuation bytes.\<close>

definition type_range :: "nat \<Rightarrow> (int \<times> int) option" where
  "type_range t = (if t = 1 then Some (0x80, 0x8F) else if t = 9 then Some (0x90, 0x9F) else if t = 7 then Some (0xA0, 0xBF) else None)"

definition type_ok :: "nat \<Rightarrow> bool" where
  "type_ok n = (case type_range (utf8d ! n) of None \<Rightarrow> True | Some (lo, hi) \<Rightarrow> lo \<le> int n \<and> int n \<le> hi)"

definition next_row_ok :: "nat \<Rightarrow> nat \<Rightarrow> bool" where
  "next_row_ok s t = (let s' = utf8d ! (256 + s * 16 + t) in
     s' = 1 \<or> (case (type_range t, state_ranges s) of
        (Some (lo, hi), r # rs) \<Rightarrow> fst r \<le> lo \<and> hi \<le> snd r \<and> rs = state_ranges s'
      | _ \<Rightarrow> False))"

lemma lead_rows: "list_all lead_row_ok [0..<256]"
  by code_simp

lemma types_ok: "list_all type_ok [0..<256]"
  by code_simp

lemma next_rows: "list_all (\<lambda>s. list_all (next_row_ok s) [0..<12]) [2..<9]"
  by code_simp

lemma byte_below: "unat (b :: u8) \<in> set [0..<256]"
  using unsigned_less [of b] by simp

lemma decode_lead_ranges:
  assumes "fst (decode 0 c b) \<noteq> 1"
  shows "fst (decode 0 c b) = 0 \<and> unat b < 128 \<or> lead_ranges (uint b) = Some (state_ranges (fst (decode 0 c b)))"
proof -
  have "lead_row_ok (unat b)" using lead_rows byte_below by (simp only: list_all_iff)
  then show ?thesis using assms by (auto simp: lead_row_ok_def decode_def Let_def)
qed

lemma decode_next_ranges:
  assumes "2 \<le> s" "s < 9" "fst (decode s c b) \<noteq> 1"
  shows "\<exists>r. in_range r b \<and> state_ranges s = r # state_ranges (fst (decode s c b))"
proof -
  have "s \<in> set [2..<9]" using assms(1,2) by (simp only: set_upt atLeastLessThan_iff)
  moreover have "utf8d ! unat b \<in> set [0..<12]" using type_below by (simp only: set_upt atLeastLessThan_iff le0 simp_thms)
  ultimately have "next_row_ok s (utf8d ! unat b)" using next_rows unfolding list_all_iff by blast
  moreover have "type_ok (unat b)" using types_ok byte_below by (simp only: list_all_iff)
  moreover obtain rl rh rs where "state_ranges s = (rl, rh) # rs" using assms(1,2) by (cases "state_ranges s") (auto simp: state_ranges_def split: if_splits)
  ultimately show ?thesis
    using assms(3) by (auto simp: next_row_ok_def type_ok_def decode_def Let_def in_range_def split: option.splits)
qed

section \<open>The strict error handler\<close>

lemma utf8_prepend: "scalar c \<Longrightarrow> utf8 s \<Longrightarrow> utf8 (utf8_encode c @ s)"
  unfolding utf8_def by (metis concat.simps(2) list.map(2) list.pred_inject(2))

text \<open>The rest of the string from a state of the decoder: the continuation bytes it expects, then UTF-8.\<close>

definition continues :: "nat \<Rightarrow> bytes \<Rightarrow> bool" where
  "continues s t \<longleftrightarrow> (\<exists>bs u. t = bs @ u \<and> list_all2 in_range (state_ranges s) bs \<and> utf8 u)"

lemma continues_0: "continues 0 t \<longleftrightarrow> utf8 t"
  by (auto simp: continues_def state_ranges_def)

lemma continues_Cons:
  assumes "s < 9" "s \<noteq> 1" "fst (decode s c b) \<noteq> 1" "continues (fst (decode s c b)) t"
  shows "continues s (b # t)"
proof (cases "s = 0")
  case True
  obtain bs u where t: "t = bs @ u" "list_all2 in_range (state_ranges (fst (decode 0 c b))) bs" "utf8 u"
    using assms(4) True by (auto simp: continues_def)
  have "\<exists>d. scalar d \<and> utf8_encode d = b # bs"
  proof (cases "fst (decode 0 c b) = 0 \<and> unat b < 128")
    case True
    then have "bs = []" "uint b < 128" using t(2) by (simp_all add: state_ranges_def unat_eq_nat_uint nat_less_iff del: nat_uint_eq)
    moreover have "0 \<le> uint b" by simp
    ultimately show ?thesis by (intro exI [of _ "uint b"]) (simp add: encode_ascii scalar_def)
  next
    case False
    then have "lead_ranges (uint b) = Some (state_ranges (fst (decode 0 c b)))"
      using decode_lead_ranges [of c b] assms(3) True by blast
    from lead_encode [OF this t(2)] show ?thesis by simp
  qed
  then have "utf8 ((b # bs) @ u)" using utf8_prepend [OF _ t(3)] by metis
  then show ?thesis using True t(1) continues_0 by simp
next
  case False
  then obtain r where "in_range r b" "state_ranges s = r # state_ranges (fst (decode s c b))"
    using decode_next_ranges [of s c b] assms by auto
  then show ?thesis using assms(4) unfolding continues_def by (metis append_Cons list.rel_intros(2))
qed

lemma escape_loop_strict:
  assumes "escape_loop eh_strict ascii i s e = Inr e'" "e_state e < 9" "e_state e \<noteq> 1" "e_state e' = 0"
  shows "continues (e_state e) s"
  using assms
proof (induction s arbitrary: i e)
  case Nil
  then show ?case by (simp add: continues_0 utf8_Nil)
next
  case (Cons b s)
  let ?e = "esc_step b e"
  have one: "e_state ?e \<noteq> 1" using Cons.prems(1) by (auto simp: escape_loop.simps(2) Let_def)
  have "\<exists>e1. escape_loop eh_strict ascii (i + 1) s e1 = Inr e' \<and> e_state e1 = e_state ?e"
  proof (cases "e_state ?e = 0")
    case True
    then obtain e1 where "esc_accept ascii b ?e = Inr e1" "escape_loop eh_strict ascii (i + 1) s e1 = Inr e'"
      using Cons.prems(1) by (cases "esc_accept ascii b ?e") (auto simp: escape_loop.simps(2) Let_def)
    then show ?thesis using accept_content(2) by blast
  next
    case False
    then obtain e1 where "esc_incomplete ascii b ?e = Inr e1" "escape_loop eh_strict ascii (i + 1) s e1 = Inr e'"
      using Cons.prems(1) one by (cases "esc_incomplete ascii b ?e") (auto simp: escape_loop.simps(2) Let_def)
    then show ?thesis using incomplete_content(2) by blast
  qed
  then obtain e1 where e1: "escape_loop eh_strict ascii (i + 1) s e1 = Inr e'" "e_state e1 = e_state ?e" by blast
  have "e_state ?e < 9" using transition(1) [OF Cons.prems(2,3)] by simp
  then have "continues (e_state ?e) s" using Cons.IH [OF e1(1)] e1(2) one Cons.prems(4) by simp
  then show ?case using continues_Cons [OF Cons.prems(2,3), of "e_codepoint e" b s] one by simp
qed

lemma dump_escaped_strict: "dump_escaped eh_strict s ascii = Inr t \<Longrightarrow> utf8 s"
proof -
  assume "dump_escaped eh_strict s ascii = Inr t"
  then obtain e where "escape_loop eh_strict ascii 0 s esc_init = Inr e" "e_state e = 0"
    by (cases "escape_loop eh_strict ascii 0 s esc_init") (auto simp: dump_escaped_def esc_finish_def split: if_splits)
  then show "utf8 s" using escape_loop_strict [of ascii 0 s esc_init e] continues_0 by (simp add: esc_init_def)
qed

lemma dump_escaped_lenient:
  assumes "eh \<noteq> eh_strict"
  shows "\<exists>t. dump_escaped eh s ascii = Inr t"
proof -
  obtain e where "escape_loop eh ascii 0 s esc_init = Inr e" using escape_loop_ok [OF esc_init_ok] assms by blast
  then show ?thesis using assms by (cases eh) (auto simp: dump_escaped_def esc_finish_def)
qed

end
