(* ===== verification/JsonRoundtrip.thy ===== *)
theory JsonRoundtrip
  imports JsonRender JsonStrict
begin

text \<open>
  Parser and serializer together: the parser reads every text of the grammar, what the serializer writes is
  such a text, and the serializer escapes strings within its buffer.
\<close>

section \<open>Parsing every text of the grammar\<close>

text \<open>C31: The parser is complete for RFC 8259 without fractions and exponents: a text of a value, with any white
  space and any spelling of its strings, is parsed into exactly that value, with or without exceptions, in
  strict mode or not, and whether or not comments are ignored. Integers are in the ranges of the
  64-bit types, and the last of equal keys counts.\<close>

theorem json_parser_complete:
  assumes "json_text v text"
  shows "parse F ae strict (parser_init F text comments point zero) = Some (Inr v)"
  by (rule parse_complete [OF assms])

definition sample_text :: bytes where
  "sample_text = [0x20, 0x5B, 0x31, 0x2C, 0x0A, 0x22, 0x5C, 0x6E, 0x22, 0x20, 0x5D]"

definition sample_value :: "unit json" where
  "sample_value = json_array [json_unsigned 1, json_string [0x0A]]"

lemma sample_json_text: "json_text sample_value sample_text"
proof -
  have "value_text (json_unsigned 1 :: unit json) [0x31]"
    using vt_unsigned [of "[0x31]"] by (simp add: int_text_def digits_def is_digit_def dec_value_def)
  moreover have "char_text 0x0A [0x5C, 0x6E]" by (rule char_text.escape) simp
  then have "chars_text [0x0A] [0x5C, 0x6E]" using char [OF _ chars_text.empty] by (fastforce simp: encode_ascii)
  then have "value_text (json_string [0x0A] :: unit json) [0x22, 0x5C, 0x6E, 0x22]"
    by (intro vt_string) (auto simp: string_text_def)
  ultimately have "elements_text [json_unsigned 1, json_string [0x0A] :: unit json] ([] @ [0x31] @ [] @ 0x2C # ([0x0A] @ [0x22, 0x5C, 0x6E, 0x22] @ [0x20]))"
    by (intro et_more et_one) (simp_all add: is_space_def)
  from vt_array [OF this] show ?thesis unfolding json_text_def sample_value_def sample_text_def
    by (intro exI [of _ "[0x20]"] exI [of _ "[0x5B, 0x31, 0x2C, 0x0A, 0x22, 0x5C, 0x6E, 0x22, 0x20, 0x5D]"] exI [of _ "[]"])
      (simp add: is_space_def)
qed

theorem json_parser_complete_witness:
  "json_text sample_value sample_text \<and>
   parse \<lparr>fl_strtof = (\<lambda>_. ()), fl_isfinite = (\<lambda>_. True)\<rparr> True True
     (parser_init \<lparr>fl_strtof = (\<lambda>_. ()), fl_isfinite = (\<lambda>_. True)\<rparr> sample_text False 0x2E ()) = Some (Inr sample_value)"
  using sample_json_text json_parser_complete [OF sample_json_text] by blast

section \<open>Writing and reading back\<close>

lemma json_text_value: "value_text v t \<Longrightarrow> json_text v t"
  unfolding json_text_def by (intro exI [of _ "[]"] exI [of _ t]) simp

text \<open>C30: Round trip: a well-formed value without floating-point numbers is written without an error, compact or
  with an indentation of up to 512 characters of white space, escaping to ASCII or not and with
  every error handler, and parsing the text gives the value back, integers that are not negative as
  unsigned numbers.\<close>

theorem json_dump_parse:
  assumes "json_wf v" "float_free v" "indent < 0 \<or> indent \<le> 512 \<and> is_space (uint indent_char)"
  shows "\<exists>t. json_dump fin chars indent indent_char ascii eh v = Inr t \<and>
    parse F ae strict (parser_init F t comments point zero) = Some (Inr (as_parsed v))"
proof -
  obtain t where "json_dump fin chars indent indent_char ascii eh v = Inr t" "value_text (as_parsed v) t"
    using json_dump_text [OF assms] by blast
  then show ?thesis by (intro exI [of _ t] conjI parse_complete json_text_value)
qed

lemma utf8_ascii:
  assumes "list_all (\<lambda>c. 0 \<le> c \<and> c < 0x80) cs"
  shows "utf8 (map word_of_int cs)"
proof -
  have "list_all scalar cs" using assms by (auto simp: list_all_iff scalar_def)
  moreover have "map word_of_int cs = concat (map utf8_encode cs)" using assms by (induction cs) (auto simp: encode_ascii)
  ultimately show ?thesis unfolding utf8_def by blast
qed

theorem json_dump_parse_witness:
  "let v = json_object [([0x61], json_array [json_integer (- 5), json_string [0x22]]), ([0x62], json_null)] :: unit json;
       F = \<lparr>fl_strtof = (\<lambda>_. ()), fl_isfinite = (\<lambda>_. True)\<rparr>
   in json_wf v \<and> float_free v \<and> is_space (uint (0x20 :: u8)) \<and>
     (\<exists>t. json_dump (\<lambda>_. True) (\<lambda>_. []) 4 0x20 True eh_strict v = Inr t \<and>
        parse F True True (parser_init F t False 0x2E ()) = Some (Inr v))"
proof -
  let ?v = "json_object [([0x61], json_array [json_integer (- 5), json_string [0x22]]), ([0x62], json_null)] :: unit json"
  have "utf8 [0x61]" "utf8 [0x62]" "utf8 [0x22]"
    using utf8_ascii [of "[0x61]"] utf8_ascii [of "[0x62]"] utf8_ascii [of "[0x22]"] by simp_all
  then have "json_wf ?v" "float_free ?v" "is_space (uint (0x20 :: u8))" by (simp_all add: is_space_def)
  moreover have "as_parsed ?v = ?v" by simp
  ultimately show ?thesis
    using json_dump_parse [of ?v 4 "0x20"] by (simp only: Let_def) simp
qed

section \<open>Escaping strings\<close>

text \<open>C32: Escaping never writes outside the buffer of 512 bytes, for any byte string and every error handler; it
  succeeds with \<^verbatim>\<open>replace\<close> and \<^verbatim>\<open>ignore\<close> on every string and with \<^verbatim>\<open>strict\<close> exactly on well-formed UTF-8.\<close>

theorem json_escape_safe:
  "dump_escaped eh s ascii \<noteq> Inl overrun \<and>
   (\<exists>t. dump_escaped eh s ascii = Inr t) = (eh \<in> {eh_replace, eh_ignore} \<or> utf8 s)"
proof -
  have "(\<exists>t. dump_escaped eh s ascii = Inr t) \<longleftrightarrow> eh \<noteq> eh_strict \<or> utf8 s"
    using dump_escaped_lenient [of eh s ascii] dump_escaped_text [of s eh ascii] dump_escaped_strict [of s ascii] by (cases eh) auto
  then show ?thesis using dump_escaped_safe by (cases eh) auto
qed

section \<open>Wide indentation\<close>

text \<open>The indentation string is doubled at most once per level, so the first level of an indentation of 1026
  reads beyond it.\<close>

lemma indent_overrun: "json_dump fin chars 1026 0x20 ascii eh (json_array [json_null]) = Inl overrun"
  by (simp add: json_dump_def dump_brackets_def element_start_def write_indent_def write_characters_def grow_indent_def ser_init_def)

end
