(* ===== verification/JsonPointer.thy ===== *)
theory JsonPointer
  imports JsonRender
begin

text \<open>
  JSON pointers of \<^verbatim>\<open>hv/json.hpp\<close>, class \<^verbatim>\<open>json_pointer\<close>: escaping of reference tokens, conversion from and to strings,
  array indices, and the resolution of a pointer in a value. Exceptions are represented by their class
  and id. A reference into a value is the path to it.
\<close>

datatype json_error = parse_error nat | out_of_range nat | type_error nat | other_error nat | failed_assertion

definition ok_then :: "json_error + 'a \<Rightarrow> ('a \<Rightarrow> json_error + 'b) \<Rightarrow> json_error + 'b" where
  "ok_then r k = (case r of Inl e \<Rightarrow> Inl e | Inr x \<Rightarrow> k x)"

lemma ok_then_simps [simp]: "ok_then (Inr x) k = k x" "ok_then (Inl e) k = Inl e"
  by (simp_all add: ok_then_def)

section \<open>Escaping\<close>

function replace_substring :: "bytes \<Rightarrow> bytes \<Rightarrow> bytes \<Rightarrow> bytes" where
  "replace_substring f t s =
     (if f = [] \<or> s = [] then s
      else if take (length f) s = f then t @ replace_substring f t (drop (length f) s)
      else hd s # replace_substring f t (tl s))"
  by pat_completeness auto
termination by (relation "measure (\<lambda>(f, t, s). length s)") auto

declare replace_substring.simps [simp del]

definition escape :: "bytes \<Rightarrow> bytes" where
  "escape s = replace_substring [0x2F] [0x7E, 0x31] (replace_substring [0x7E] [0x7E, 0x30] s)"

definition unescape :: "bytes \<Rightarrow> bytes" where
  "unescape s = replace_substring [0x7E, 0x30] [0x7E] (replace_substring [0x7E, 0x31] [0x2F] s)"

section \<open>Conversion\<close>

definition pointer_to_string :: "bytes list \<Rightarrow> bytes" where
  "pointer_to_string tokens = foldl (\<lambda>a b. a @ 0x2F # escape b) [] tokens"

text \<open>Every \<^verbatim>\<open>~\<close> must be followed by \<^verbatim>\<open>0\<close> or \<^verbatim>\<open>1\<close>.\<close>

fun tildes_ok :: "bytes \<Rightarrow> bool" where
  "tildes_ok [] \<longleftrightarrow> True"
| "tildes_ok (c # s) \<longleftrightarrow> (c = 0x7E \<longrightarrow> s \<noteq> [] \<and> (hd s = 0x30 \<or> hd s = 0x31)) \<and> tildes_ok s"

text \<open>The loop over the reference tokens, on the string after the last slash read.\<close>

function split_loop :: "bytes \<Rightarrow> json_error + bytes list" where
  "split_loop s =
     (let token = takeWhile (\<lambda>c. c \<noteq> 0x2F) s; rest = dropWhile (\<lambda>c. c \<noteq> 0x2F) s in
      if \<not> tildes_ok token then Inl (parse_error 108)
      else if rest = [] then Inr [unescape token]
      else ok_then (split_loop (tl rest)) (\<lambda>ts. Inr (unescape token # ts)))"
  by pat_completeness auto
termination
proof (relation "measure length")
  fix s token rest :: bytes
  assume "rest = dropWhile (\<lambda>c. c \<noteq> 0x2F) s" "rest \<noteq> []"
  then have "length (tl rest) < length rest" "length rest \<le> length s" by (simp_all add: length_dropWhile_le)
  then show "(tl rest, s) \<in> measure length" by simp
qed simp

declare split_loop.simps [simp del]

definition split_pointer :: "bytes \<Rightarrow> json_error + bytes list" where
  "split_pointer s =
     (if s = [] then Inr []
      else if hd s \<noteq> 0x2F then Inl (parse_error 107)
      else split_loop (tl s))"

section \<open>Resolution\<close>

definition array_index :: "bytes \<Rightarrow> json_error + nat" where
  "array_index s =
     (if 1 < length s \<and> hd s = 0x30 then Inl (parse_error 106)
      else if 1 < length s \<and> \<not> (0x31 \<le> hd s \<and> hd s \<le> 0x39) then Inl (parse_error 109)
      else
        let ds = takeWhile (\<lambda>b. is_digit (uint b)) s in
        if ds = [] \<or> 2 ^ 64 \<le> dec_value ds \<or> length ds \<noteq> length s then Inl (out_of_range 404)
        else if 2 ^ 64 - 1 \<le> dec_value ds then Inl (out_of_range 410)
        else Inr (nat (dec_value ds)))"

text \<open>The path to the value that a pointer refers to, and that value; the member function \<^verbatim>\<open>at\<close>.\<close>

fun get_checked :: "bytes list \<Rightarrow> 'f json \<Rightarrow> json_error + (step list \<times> 'f json)" where
  "get_checked [] j = Inr ([], j)"
| "get_checked (t # ts) j =
     (case j of
        json_object es \<Rightarrow>
          (case map_of es t of
             None \<Rightarrow> Inl (out_of_range 403)
           | Some v \<Rightarrow> ok_then (get_checked ts v) (\<lambda>(p, w). Inr (Key t # p, w)))
      | json_array xs \<Rightarrow>
          (if t = [0x2D] then Inl (out_of_range 402)
           else ok_then (array_index t) (\<lambda>i.
             if i < length xs then ok_then (get_checked ts (xs ! i)) (\<lambda>(p, w). Inr (At i # p, w))
             else Inl (out_of_range 401)))
      | _ \<Rightarrow> Inl (out_of_range 404))"

fun pointer_contains :: "bytes list \<Rightarrow> 'f json \<Rightarrow> json_error + bool" where
  "pointer_contains [] j = Inr True"
| "pointer_contains (t # ts) j =
     (case j of
        json_object es \<Rightarrow> (case map_of es t of None \<Rightarrow> Inr False | Some v \<Rightarrow> pointer_contains ts v)
      | json_array xs \<Rightarrow>
          (if t = [0x2D] then Inr False
           else if length t = 1 \<and> \<not> (0x30 \<le> hd t \<and> hd t \<le> 0x39) then Inr False
           else if 1 < length t \<and> \<not> (0x31 \<le> hd t \<and> hd t \<le> 0x39) then Inr False
           else if 1 < length t \<and> \<not> list_all (\<lambda>c. 0x30 \<le> c \<and> c \<le> 0x39) (tl t) then Inr False
           else ok_then (array_index t) (\<lambda>i. if i < length xs then pointer_contains ts (xs ! i) else Inr False))
      | _ \<Rightarrow> Inr False)"

section \<open>Round trips\<close>

definition esc_char :: "u8 \<Rightarrow> bytes" where
  "esc_char c = (if c = 0x7E then [0x7E, 0x30] else if c = 0x2F then [0x7E, 0x31] else [c])"

lemma replace_byte: "replace_substring [c] t s = concat (map (\<lambda>b. if b = c then t else [b]) s)"
proof (induction s)
  case Nil
  show ?case by (subst replace_substring.simps) simp
next
  case (Cons b s)
  then show ?case by (subst replace_substring.simps) simp
qed

lemma escape_chars: "escape s = concat (map esc_char s)"
  unfolding escape_def replace_byte by (induction s) (simp_all add: esc_char_def)

lemma escape_simps [simp]: "escape [] = []" "escape (c # s) = esc_char c @ escape s"
  by (simp_all add: escape_chars)

lemma replace_pair_simps:
  "replace_substring [a, b] t [] = []"
  "replace_substring [a, b] t (c # s) =
     (if s \<noteq> [] \<and> c = a \<and> hd s = b then t @ replace_substring [a, b] t (tl s) else c # replace_substring [a, b] t s)"
  by (subst replace_substring.simps; cases s; simp)+

text \<open>The text between the two replacements of \<^verbatim>\<open>unescape\<close>: only \<^verbatim>\<open>~0\<close> is left.\<close>

definition half_char :: "u8 \<Rightarrow> bytes" where
  "half_char c = (if c = 0x7E then [0x7E, 0x30] else [c])"

lemma half_unescape: "replace_substring [0x7E, 0x31] [0x2F] (escape t) = concat (map half_char t)"
  by (induction t) (auto simp: esc_char_def half_char_def replace_pair_simps)

lemma unescape_half: "replace_substring [0x7E, 0x30] [0x7E] (concat (map half_char t)) = t"
  by (induction t) (auto simp: half_char_def replace_pair_simps)

lemma unescape_escape [simp]: "unescape (escape t) = t"
  by (simp add: unescape_def half_unescape unescape_half)

lemma escape_no_slash [simp]: "0x2F \<notin> set (escape t)"
  by (induction t) (auto simp: esc_char_def)

lemma escape_tildes_ok [simp]: "tildes_ok (escape t)"
  by (induction t) (auto simp: esc_char_def)

lemma tildes_ok_escape:
  assumes "tildes_ok s" "0x2F \<notin> set s"
  shows "\<exists>t. s = escape t"
  using assms
proof (induction s rule: length_induct)
  case (1 s)
  show ?case
  proof (cases s)
    case Nil
    then show ?thesis using escape_simps(1) by metis
  next
    case (Cons c u)
    show ?thesis
    proof (cases "c = 0x7E")
      case True
      then obtain d w where u: "u = d # w" "d = 0x30 \<or> d = 0x31" "tildes_ok w" "0x2F \<notin> set w"
        using 1 Cons by (cases u) auto
      then obtain t where t: "w = escape t" using 1(1) Cons by (metis length_Cons less_Suc_eq)
      have "s = escape ((if d = 0x30 then 0x7E else 0x2F) # t)"
        using u(1,2) t Cons True by (auto simp: esc_char_def)
      then show ?thesis by blast
    next
      case False
      then obtain t where t: "u = escape t" using 1 Cons by auto
      have "s = escape (c # t)" using t Cons False 1(3) by (auto simp: esc_char_def)
      then show ?thesis by blast
    qed
  qed
qed

text \<open>The string form of a pointer, token by token.\<close>

primrec token_texts :: "bytes list \<Rightarrow> bytes" where
  "token_texts [] = []"
| "token_texts (t # ts) = 0x2F # escape t @ token_texts ts"

lemma foldl_token_texts: "foldl (\<lambda>a b. a @ 0x2F # escape b) s ts = s @ token_texts ts"
  by (induction ts arbitrary: s) simp_all

lemma pointer_to_string_texts: "pointer_to_string ts = token_texts ts"
  by (simp add: pointer_to_string_def foldl_token_texts)

lemma takeWhile_escape:
  "takeWhile (\<lambda>c. c \<noteq> 0x2F) (escape t @ token_texts ts) = escape t"
  "dropWhile (\<lambda>c. c \<noteq> 0x2F) (escape t @ token_texts ts) = token_texts ts"
proof -
  have "\<forall>c \<in> set (escape t). c \<noteq> 0x2F" by (metis escape_no_slash)
  then show "takeWhile (\<lambda>c. c \<noteq> 0x2F) (escape t @ token_texts ts) = escape t"
    "dropWhile (\<lambda>c. c \<noteq> 0x2F) (escape t @ token_texts ts) = token_texts ts"
    by (cases ts; simp add: takeWhile_append2 dropWhile_append2)+
qed

lemma split_loop_texts: "split_loop (escape t @ token_texts ts) = Inr (t # ts)"
proof (induction ts arbitrary: t)
  case Nil
  show ?case using takeWhile_escape [of t "[]"] by (subst split_loop.simps) (simp only: Let_def, simp)
next
  case (Cons u ts)
  show ?case by (subst split_loop.simps) (simp only: takeWhile_escape Let_def, simp add: Cons)
qed

lemma split_pointer_of_texts: "split_pointer (pointer_to_string ts) = Inr ts"
  by (cases ts) (simp_all add: pointer_to_string_texts split_pointer_def split_loop_texts)

lemma texts_of_split_loop: "split_loop s = Inr ts \<Longrightarrow> 0x2F # s = token_texts ts"
proof (induction s arbitrary: ts rule: split_loop.induct)
  case (1 s)
  define token rest where tr: "token = takeWhile (\<lambda>c. c \<noteq> 0x2F) s" "rest = dropWhile (\<lambda>c. c \<noteq> 0x2F) s"
  have s: "s = token @ rest" by (simp add: tr)
  have ok: "tildes_ok token" using 1(2) by (subst (asm) split_loop.simps) (simp add: tr Let_def split: if_splits)
  have "0x2F \<notin> set token" by (auto simp: tr dest: set_takeWhileD)
  then obtain t where t: "token = escape t" using tildes_ok_escape ok by blast
  show ?case
  proof (cases "rest = []")
    case True
    then have "ts = [t]" using 1(2) ok t by (subst (asm) split_loop.simps) (simp flip: tr add: Let_def)
    then show ?thesis using s t True by simp
  next
    case False
    then have hd: "hd rest = 0x2F" using hd_dropWhile [of "\<lambda>c. c \<noteq> 0x2F" s] by (simp add: tr)
    have "split_loop s = ok_then (split_loop (tl rest)) (\<lambda>ts. Inr (t # ts))"
      using ok t False by (subst split_loop.simps) (simp flip: tr add: Let_def)
    then obtain us where us: "split_loop (tl rest) = Inr us" "ts = t # us"
      using 1(2) by (cases "split_loop (tl rest)") simp_all
    have "0x2F # tl rest = token_texts us" using 1(1) [of token rest us] us(1) ok False by (simp add: tr)
    then show ?thesis using s t us(2) hd False by (cases rest) simp_all
  qed
qed

text \<open>C34: A JSON pointer survives the conversion to a string and back: the string of any list of reference tokens (also with
  slashes, tildes and empty tokens) is split into exactly these tokens, and every string that is accepted is the string
  form of the tokens it is split into. So the escaping is unambiguous, and the pointers and their valid strings
  correspond one to one.\<close>

theorem json_pointer_roundtrip: "split_pointer s = Inr ts \<longleftrightarrow> s = pointer_to_string ts"
proof
  assume s: "split_pointer s = Inr ts"
  show "s = pointer_to_string ts"
  proof (cases s)
    case Nil
    then show ?thesis using s by (simp add: split_pointer_def pointer_to_string_def)
  next
    case (Cons c u)
    then have c: "c = 0x2F" and "split_loop u = Inr ts" using s by (simp_all add: split_pointer_def split: if_splits)
    from this(2) have "0x2F # u = token_texts ts" by (rule texts_of_split_loop)
    then show ?thesis using c Cons by (simp add: pointer_to_string_texts)
  qed
qed (simp add: split_pointer_of_texts)

text \<open>The indices that \<^verbatim>\<open>std::to_string\<close> prints are read back.\<close>

lemma uint_eq_48: "uint (b :: u8) = 0x30 \<Longrightarrow> b = 0x30"
  by (rule word_uint_eqI) simp

lemma array_index_to_string:
  assumes "i < 2 ^ 64 - 1"
  shows "array_index (to_string i) = Inr i"
proof -
  let ?s = "to_string i"
  have ds: "takeWhile (\<lambda>b. is_digit (uint b)) ?s = ?s"
    using to_string_digits [of i] by (simp add: digits_def list_all_iff takeWhile_eq_all_conv)
  have first: "hd ?s \<noteq> 0x30 \<and> 0x31 \<le> hd ?s \<and> hd ?s \<le> 0x39" if "1 < length ?s"
  proof -
    have "0 < i" using that by (cases "i = 0") (simp_all add: to_string_small)
    then have h: "hd ?s \<noteq> 0x30" by (rule to_string_head)
    have "is_digit (uint (hd ?s))" using to_string_digits [of i] by (cases ?s) (simp_all add: digits_def)
    then have "0x30 \<le> uint (hd ?s)" "uint (hd ?s) \<le> 0x39" by (simp_all add: is_digit_def)
    moreover have "uint (hd ?s) \<noteq> 0x30" using h uint_eq_48 [of "hd ?s"] by blast
    ultimately show ?thesis using h by (simp add: word_le_def)
  qed
  have "\<not> 2 ^ 64 - 1 \<le> int i" using assms by simp
  then show ?thesis using first by (auto simp: array_index_def ds to_string_value Let_def)
qed

end
