(* ===== verification/JsonPatch.thy ===== *)
theory JsonPatch
  imports JsonPointer JsonDump
begin

text \<open>
  Comparison of JSON values, JSON patches, the computation of a patch from two values and JSON merge patches,
  from \<^verbatim>\<open>hv/json.hpp\<close>, class \<^verbatim>\<open>basic_json\<close>. A patch and the value it is applied to are different
  objects. The functions on floating-point numbers and the choices that C++ leaves to the compiler are
  parameters: which side of \<^verbatim>\<open>=\<close> and of \<^verbatim>\<open>==\<close> is evaluated first decides which of two errors is thrown.
\<close>

record 'f json_env =
  feq :: "'f \<Rightarrow> 'f \<Rightarrow> bool"
  fof_int :: "int \<Rightarrow> 'f"
  env_finite :: "'f \<Rightarrow> bool"
  env_chars :: "'f \<Rightarrow> bytes"
  assign_value_first :: bool
  test_value_first :: bool

section \<open>Types and comparison\<close>

datatype value_t =
  t_null | t_object | t_array | t_string | t_boolean | t_number_integer | t_number_unsigned | t_number_float |
  t_binary | t_discarded

primrec json_type :: "'f json \<Rightarrow> value_t" where
  "json_type json_null = t_null"
| "json_type (json_object es) = t_object"
| "json_type (json_array xs) = t_array"
| "json_type (json_string s) = t_string"
| "json_type (json_boolean b) = t_boolean"
| "json_type (json_integer i) = t_number_integer"
| "json_type (json_unsigned u) = t_number_unsigned"
| "json_type (json_float f) = t_number_float"
| "json_type (json_binary b st) = t_binary"
| "json_type json_discarded = t_discarded"

text \<open>The cases of \<^verbatim>\<open>operator==\<close> on values without elements. A comparison of numbers of different types
  converts one of them; an unsigned number is converted to the signed type and keeps its bits. Values of other different types and
  unordered values are not equal.\<close>

fun scalar_eq :: "'f json_env \<Rightarrow> 'f json \<Rightarrow> 'f json \<Rightarrow> bool" where
  "scalar_eq E json_null json_null \<longleftrightarrow> True"
| "scalar_eq E (json_string s) (json_string t) \<longleftrightarrow> s = t"
| "scalar_eq E (json_boolean a) (json_boolean b) \<longleftrightarrow> a = b"
| "scalar_eq E (json_integer a) (json_integer b) \<longleftrightarrow> a = b"
| "scalar_eq E (json_unsigned a) (json_unsigned b) \<longleftrightarrow> a = b"
| "scalar_eq E (json_float a) (json_float b) \<longleftrightarrow> feq E a b"
| "scalar_eq E (json_binary a s) (json_binary b t) \<longleftrightarrow> a = b \<and> s = t"
| "scalar_eq E (json_integer a) (json_float b) \<longleftrightarrow> feq E (fof_int E (sint a)) b"
| "scalar_eq E (json_float a) (json_integer b) \<longleftrightarrow> feq E a (fof_int E (sint b))"
| "scalar_eq E (json_unsigned a) (json_float b) \<longleftrightarrow> feq E (fof_int E (uint a)) b"
| "scalar_eq E (json_float a) (json_unsigned b) \<longleftrightarrow> feq E a (fof_int E (uint b))"
| "scalar_eq E (json_unsigned a) (json_integer b) \<longleftrightarrow> a = b"
| "scalar_eq E (json_integer a) (json_unsigned b) \<longleftrightarrow> a = b"
| "scalar_eq E _ _ \<longleftrightarrow> False"

fun json_eq :: "'f json_env \<Rightarrow> 'f json \<Rightarrow> 'f json \<Rightarrow> bool"
  and eq_elements :: "'f json_env \<Rightarrow> 'f json list \<Rightarrow> 'f json list \<Rightarrow> bool"
  and eq_members :: "'f json_env \<Rightarrow> (bytes \<times> 'f json) list \<Rightarrow> (bytes \<times> 'f json) list \<Rightarrow> bool" where
  "json_eq E a b =
     (case a of
        json_array xs \<Rightarrow> (case b of json_array ys \<Rightarrow> eq_elements E xs ys | _ \<Rightarrow> False)
      | json_object es \<Rightarrow> (case b of json_object fs \<Rightarrow> eq_members E es fs | _ \<Rightarrow> False)
      | _ \<Rightarrow> scalar_eq E a b)"
| "eq_elements E [] ys \<longleftrightarrow> ys = []"
| "eq_elements E (x # xs) ys \<longleftrightarrow> (case ys of [] \<Rightarrow> False | y # ys' \<Rightarrow> json_eq E x y \<and> eq_elements E xs ys')"
| "eq_members E [] fs \<longleftrightarrow> fs = []"
| "eq_members E ((k, v) # es) fs \<longleftrightarrow>
     (case fs of [] \<Rightarrow> False | (k', w) # fs' \<Rightarrow> k = k' \<and> json_eq E v w \<and> eq_members E es fs')"

section \<open>The operations of a patch\<close>

text \<open>\<^verbatim>\<open>std::map::erase\<close> of a key.\<close>

definition member_erase :: "bytes \<Rightarrow> (bytes \<times> 'f json) list \<Rightarrow> (bytes \<times> 'f json) list" where
  "member_erase k es = filter (\<lambda>e. fst e \<noteq> k) es"

definition operation_add :: "bytes list \<Rightarrow> 'f json \<Rightarrow> 'f json \<Rightarrow> json_error + 'f json" where
  "operation_add ptr val result =
     (if ptr = [] then Inr val
      else ok_then (if [hd ptr] \<noteq> ptr then get_checked [hd ptr] result else Inr ([], result)) (\<lambda>_.
        ok_then (get_checked (butlast ptr) result) (\<lambda>(p, parent).
          case parent of
            json_null \<Rightarrow> Inr (json_set p (json_object (member_set (last ptr) val [])) result)
          | json_object es \<Rightarrow> Inr (json_set p (json_object (member_set (last ptr) val es)) result)
          | json_array xs \<Rightarrow>
              if last ptr = [0x2D] then Inr (json_set p (json_array (xs @ [val])) result)
              else ok_then (array_index (last ptr)) (\<lambda>idx.
                if length xs < idx then Inl (out_of_range 401)
                else Inr (json_set p (json_array (take idx xs @ val # drop idx xs)) result))
          | _ \<Rightarrow> Inl failed_assertion)))"

definition operation_remove :: "bytes list \<Rightarrow> 'f json \<Rightarrow> json_error + 'f json" where
  "operation_remove ptr result =
     (if ptr = [] then Inl (out_of_range 405)
      else ok_then (get_checked (butlast ptr) result) (\<lambda>(p, parent).
        case parent of
          json_object es \<Rightarrow>
            if map_of es (last ptr) \<noteq> None then Inr (json_set p (json_object (member_erase (last ptr) es)) result)
            else Inl (out_of_range 403)
        | json_array xs \<Rightarrow>
            ok_then (array_index (last ptr)) (\<lambda>idx.
              if length xs \<le> idx then Inl (out_of_range 401)
              else Inr (json_set p (json_array (take idx xs @ drop (Suc idx) xs)) result))
        | _ \<Rightarrow> Inr result))"

text \<open>The lookup of a member of an operation, and of a string member.\<close>

definition get_value :: "(bytes \<times> 'f json) list \<Rightarrow> string \<Rightarrow> json_error + 'f json" where
  "get_value val member = (case map_of val (asc member) of None \<Rightarrow> Inl (parse_error 105) | Some v \<Rightarrow> Inr v)"

definition get_string_value :: "(bytes \<times> 'f json) list \<Rightarrow> string \<Rightarrow> json_error + bytes" where
  "get_string_value val member =
     ok_then (get_value val member) (\<lambda>v. case v of json_string s \<Rightarrow> Inr s | _ \<Rightarrow> Inl (parse_error 105))"

text \<open>Two operands evaluated in one order or the other.\<close>

definition both :: "bool \<Rightarrow> json_error + 'a \<Rightarrow> json_error + 'b \<Rightarrow> json_error + ('a \<times> 'b)" where
  "both right_first l r =
     (if right_first then ok_then r (\<lambda>y. ok_then l (\<lambda>x. Inr (x, y))) else ok_then l (\<lambda>x. ok_then r (\<lambda>y. Inr (x, y))))"

text \<open>The message of a failed test contains the operation as text: if that cannot be written, the error of the
  serializer is thrown instead.\<close>

definition test_failure :: "'f json_env \<Rightarrow> (bytes \<times> 'f json) list \<Rightarrow> json_error" where
  "test_failure E val =
     (case json_dump (env_finite E) (env_chars E) (-1) 0x20 False eh_strict (json_object val) of
        Inl (type_error_316 _) \<Rightarrow> type_error 316
      | Inl overrun \<Rightarrow> failed_assertion
      | Inr _ \<Rightarrow> other_error 501)"

definition patch_test :: "'f json_env \<Rightarrow> (bytes \<times> 'f json) list \<Rightarrow> bytes list \<Rightarrow> 'f json \<Rightarrow> json_error + 'f json" where
  "patch_test E val ptr result =
     (case both (test_value_first E) (get_checked ptr result) (get_value val ''value'') of
        Inr ((_, found), v) \<Rightarrow> if json_eq E found v then Inr result else Inl (test_failure E val)
      | Inl (out_of_range _) \<Rightarrow> Inl (test_failure E val)
      | Inl e \<Rightarrow> Inl e)"

text \<open>An operation either fails, leaving what it has done to the value so far, or succeeds.\<close>

definition settle :: "'f json \<Rightarrow> json_error + 'f json \<Rightarrow> json_error option \<times> 'f json" where
  "settle before r = (case r of Inl e \<Rightarrow> (Some e, before) | Inr after \<Rightarrow> (None, after))"

definition patch_move :: "(bytes \<times> 'f json) list \<Rightarrow> bytes list \<Rightarrow> 'f json \<Rightarrow> json_error option \<times> 'f json" where
  "patch_move val ptr result =
     (case ok_then (get_string_value val ''from'') (\<lambda>from_path. ok_then (split_pointer from_path) (\<lambda>from_ptr.
             ok_then (get_checked from_ptr result) (\<lambda>(_, v). ok_then (operation_remove from_ptr result) (\<lambda>r. Inr (v, r))))) of
        Inl e \<Rightarrow> (Some e, result)
      | Inr (v, removed) \<Rightarrow> settle removed (operation_add ptr v removed))"

definition patch_operation ::
  "'f json_env \<Rightarrow> (bytes \<times> 'f json) list \<Rightarrow> bytes \<Rightarrow> bytes list \<Rightarrow> 'f json \<Rightarrow> json_error option \<times> 'f json" where
  "patch_operation E val op ptr result =
     (if op = asc ''add'' then settle result (ok_then (get_value val ''value'') (\<lambda>v. operation_add ptr v result))
      else if op = asc ''remove'' then settle result (operation_remove ptr result)
      else if op = asc ''replace'' then
        settle result (ok_then (both (assign_value_first E) (get_checked ptr result) (get_value val ''value'')) (\<lambda>((p, _), v).
          Inr (json_set p v result)))
      else if op = asc ''move'' then patch_move val ptr result
      else if op = asc ''copy'' then
        settle result (ok_then (get_string_value val ''from'') (\<lambda>from_path. ok_then (split_pointer from_path) (\<lambda>from_ptr.
          ok_then (get_checked from_ptr result) (\<lambda>(_, v). operation_add ptr v result))))
      else if op = asc ''test'' then settle result (patch_test E val ptr result)
      else (Some (parse_error 105), result))"

definition patch_step :: "'f json_env \<Rightarrow> 'f json \<Rightarrow> 'f json \<Rightarrow> json_error option \<times> 'f json" where
  "patch_step E j result =
     (case j of
        json_object val \<Rightarrow>
          (case ok_then (get_string_value val ''op'') (\<lambda>op. ok_then (get_string_value val ''path'') (\<lambda>path.
                  ok_then (split_pointer path) (\<lambda>ptr. Inr (op, ptr)))) of
             Inl e \<Rightarrow> (Some e, result)
           | Inr (op, ptr) \<Rightarrow> patch_operation E val op ptr result)
      | _ \<Rightarrow> (Some (parse_error 104), result))"

fun patch_loop :: "'f json_env \<Rightarrow> 'f json list \<Rightarrow> 'f json \<Rightarrow> json_error option \<times> 'f json" where
  "patch_loop E [] result = (None, result)"
| "patch_loop E (j # js) result =
     (case patch_step E j result of (Some e, r) \<Rightarrow> (Some e, r) | (None, r) \<Rightarrow> patch_loop E js r)"

definition patch_inplace :: "'f json_env \<Rightarrow> 'f json \<Rightarrow> 'f json \<Rightarrow> json_error option \<times> 'f json" where
  "patch_inplace E json_patch result =
     (case json_patch of json_array js \<Rightarrow> patch_loop E js result | _ \<Rightarrow> (Some (parse_error 104), result))"

definition patch :: "'f json_env \<Rightarrow> 'f json \<Rightarrow> 'f json \<Rightarrow> json_error + 'f json" where
  "patch E json_patch j = (case patch_inplace E json_patch j of (Some e, _) \<Rightarrow> Inl e | (None, r) \<Rightarrow> Inr r)"

section \<open>The difference of two values\<close>

definition replace_op :: "bytes \<Rightarrow> 'f json \<Rightarrow> 'f json" where
  "replace_op base v =
     json_object [(asc ''op'', json_string (asc ''replace'')), (asc ''path'', json_string base), (asc ''value'', v)]"

definition add_op :: "bytes \<Rightarrow> 'f json \<Rightarrow> 'f json" where
  "add_op base v =
     json_object [(asc ''op'', json_string (asc ''add'')), (asc ''path'', json_string base), (asc ''value'', v)]"

definition remove_op :: "bytes \<Rightarrow> 'f json" where
  "remove_op base = json_object [(asc ''op'', json_string (asc ''remove'')), (asc ''path'', json_string base)]"

text \<open>The two loops after the common elements of two arrays: removals are inserted at one position, so that the last
  index comes first. The loop over the members that only the target has.\<close>

definition diff_removals :: "nat \<Rightarrow> nat \<Rightarrow> bytes \<Rightarrow> 'f json list \<Rightarrow> 'f json list" where
  "diff_removals i n base result =
     fold (\<lambda>i r. take (length result) r @ remove_op (base @ 0x2F # to_string i) # drop (length result) r) [i ..< n] result"

definition diff_additions :: "bytes \<Rightarrow> 'f json list \<Rightarrow> 'f json list" where
  "diff_additions base ys = map (add_op (base @ [0x2F, 0x2D])) ys"

definition diff_new_members :: "(bytes \<times> 'f json) list \<Rightarrow> (bytes \<times> 'f json) list \<Rightarrow> bytes \<Rightarrow> 'f json list" where
  "diff_new_members es fs base =
     map (\<lambda>(k, v). add_op (base @ 0x2F # escape k) v) (filter (\<lambda>(k, v). map_of es k = None) fs)"

fun diff_ops :: "'f json_env \<Rightarrow> 'f json \<Rightarrow> 'f json \<Rightarrow> bytes \<Rightarrow> 'f json list"
  and diff_elements :: "'f json_env \<Rightarrow> 'f json list \<Rightarrow> 'f json list \<Rightarrow> nat \<Rightarrow> bytes \<Rightarrow> 'f json list"
  and diff_members :: "'f json_env \<Rightarrow> (bytes \<times> 'f json) list \<Rightarrow> (bytes \<times> 'f json) list \<Rightarrow> bytes \<Rightarrow> 'f json list" where
  "diff_ops E source target base =
     (if json_eq E source target then []
      else if json_type source \<noteq> json_type target then [replace_op base target]
      else case source of
        json_array xs \<Rightarrow>
          (case target of
             json_array ys \<Rightarrow>
               diff_removals (min (length xs) (length ys)) (length xs) base (diff_elements E xs ys 0 base) @
               diff_additions base (drop (length xs) ys)
           | _ \<Rightarrow> [])
      | json_object es \<Rightarrow>
          (case target of
             json_object fs \<Rightarrow> diff_members E es fs base @ diff_new_members es fs base
           | _ \<Rightarrow> [])
      | _ \<Rightarrow> [replace_op base target])"
| "diff_elements E [] ys i base = []"
| "diff_elements E (x # xs) ys i base =
     (case ys of
        [] \<Rightarrow> []
      | y # ys' \<Rightarrow> diff_ops E x y (base @ 0x2F # to_string i) @ diff_elements E xs ys' (Suc i) base)"
| "diff_members E [] fs base = []"
| "diff_members E ((k, v) # es) fs base =
     (case map_of fs k of
        Some w \<Rightarrow> diff_ops E v w (base @ 0x2F # escape k)
      | None \<Rightarrow> [remove_op (base @ 0x2F # escape k)]) @ diff_members E es fs base"

definition diff :: "'f json_env \<Rightarrow> 'f json \<Rightarrow> 'f json \<Rightarrow> 'f json" where
  "diff E source target = json_array (diff_ops E source target [])"

section \<open>Merge patches\<close>

fun merge_patch :: "'f json \<Rightarrow> 'f json \<Rightarrow> 'f json"
  and merge_members :: "(bytes \<times> 'f json) list \<Rightarrow> (bytes \<times> 'f json) list \<Rightarrow> (bytes \<times> 'f json) list" where
  "merge_patch j apply_patch =
     (case apply_patch of
        json_object es \<Rightarrow> json_object (merge_members (case j of json_object ms \<Rightarrow> ms | _ \<Rightarrow> []) es)
      | _ \<Rightarrow> apply_patch)"
| "merge_members ms [] = ms"
| "merge_members ms ((k, v) # es) =
     merge_members
       (if v = json_null then member_erase k ms
        else member_set k (merge_patch (case map_of ms k of Some w \<Rightarrow> w | None \<Rightarrow> json_null) v) ms) es"

declare json_eq.simps [simp del] diff_ops.simps [simp del] merge_patch.simps [simp del]

end
