(* ===== verification/JsonOps.thy ===== *)
theory JsonOps
  imports JsonPatch
begin

text \<open>
  Pointers and the paths they are resolved to, and the effect of the operations of a JSON patch on the value
  that a pointer refers to. A sequence of operations that turns one value into another does so wherever the value stands
  in a document.
\<close>

section \<open>Pointers and paths\<close>

lemma ok_then_Inr: "ok_then r k = Inr y \<longleftrightarrow> (\<exists>x. r = Inr x \<and> k x = Inr y)"
  by (cases r) simp_all

lemma get_checked_Cons:
  "get_checked (t # ts) j = Inr (p, v) \<longleftrightarrow>
     (\<exists>es w q. j = json_object es \<and> map_of es t = Some w \<and> get_checked ts w = Inr (q, v) \<and> p = Key t # q) \<or>
     (\<exists>xs i q. j = json_array xs \<and> t \<noteq> [0x2D] \<and> array_index t = Inr i \<and> i < length xs \<and>
        get_checked ts (xs ! i) = Inr (q, v) \<and> p = At i # q)"
  by (cases j) (auto simp: ok_then_Inr split: option.splits)

lemma get_checked_at: "get_checked ts j = Inr (p, v) \<Longrightarrow> json_at p j = Some v"
proof (induction ts arbitrary: j p)
  case (Cons t ts)
  from Cons.prems Cons.IH show ?case unfolding get_checked_Cons by auto
qed simp

lemma get_checked_append:
  "get_checked (ts @ us) j =
     ok_then (get_checked ts j) (\<lambda>(p, v). ok_then (get_checked us v) (\<lambda>(q, w). Inr (p @ q, w)))"
proof (induction ts arbitrary: j)
  case Nil
  show ?case by (cases "get_checked us j") auto
next
  case (Cons t ts)
  show ?case
  proof (cases j)
    case (json_object es)
    then show ?thesis by (cases "map_of es t") (auto simp: Cons ok_then_def split: sum.split)
  next
    case (json_array xs)
    then show ?thesis by (cases "array_index t") (auto simp: Cons ok_then_def split: sum.split)
  qed simp_all
qed

lemma alist_set_same: "map_of es k = Some v \<Longrightarrow> alist_set k v es = es"
  by (induction k v es rule: alist_set.induct) (auto split: if_splits)

lemma get_checked_set: "get_checked ts j = Inr (p, v) \<Longrightarrow> get_checked ts (json_set p w j) = Inr (p, w)"
proof (induction ts arbitrary: j p)
  case (Cons t ts)
  from Cons.prems Cons.IH show ?case unfolding get_checked_Cons by (auto simp: map_of_alist_set)
qed simp

lemma json_set_twice: "json_at p j = Some v \<Longrightarrow> json_set p u (json_set p w j) = json_set p u j"
  by (induction p j rule: json_at.induct) (auto simp: map_of_alist_set split: if_splits option.splits)

lemma json_set_same: "json_at p j = Some v \<Longrightarrow> json_set p v j = j"
  by (induction p j rule: json_at.induct) (auto simp: alist_set_same split: if_splits option.splits)

lemmas get_checked_facts = get_checked_set json_set_twice [OF get_checked_at] json_set_same [OF get_checked_at]

lemma token_texts_append: "token_texts (ts @ us) = token_texts ts @ token_texts us"
  by (induction ts) simp_all

lemma escape_plain: "0x7E \<notin> set s \<Longrightarrow> 0x2F \<notin> set s \<Longrightarrow> escape s = s"
  by (induction s) (auto simp: esc_char_def)

lemma escape_to_string: "escape (to_string i) = to_string i"
proof (rule escape_plain)
  have "\<forall>b \<in> set (to_string i). 48 \<le> uint b \<and> uint b \<le> 57"
    using to_string_digits [of i] by (simp add: digits_def is_digit_def)
  then show "0x7E \<notin> set (to_string i)" "0x2F \<notin> set (to_string i)" by (auto dest: bspec)
qed

lemma token_texts_snoc:
  "token_texts ts @ 0x2F # escape t = token_texts (ts @ [t])"
  "token_texts ts @ 0x2F # to_string i = token_texts (ts @ [to_string i])"
  "token_texts ts @ [0x2F, 0x2D] = token_texts (ts @ [[0x2D]])"
  by (simp_all add: token_texts_append escape_to_string esc_char_def)

lemma to_string_not_dash: "to_string i \<noteq> [0x2D]"
  using to_string_digits [of i] by (auto simp: digits_def is_digit_def)

section \<open>Lookups without exceptions\<close>

lemma array_index_digits:
  assumes "array_index t = Inr i"
  shows "t \<noteq> []" "\<forall>c \<in> set t. 0x30 \<le> c \<and> c \<le> 0x39" "1 < length t \<Longrightarrow> 0x31 \<le> hd t"
proof -
  let ?ds = "takeWhile (\<lambda>b. is_digit (uint b)) t"
  have ds: "?ds \<noteq> []" "length ?ds = length t" using assms by (auto simp: array_index_def Let_def split: if_splits)
  then show "t \<noteq> []" by auto
  have "?ds = t" using ds(2) by (metis append_Nil2 takeWhile_dropWhile_id length_append add_eq_self_zero length_0_conv)
  then have "\<forall>c \<in> set t. is_digit (uint c)" by (metis set_takeWhileD)
  then show "\<forall>c \<in> set t. 0x30 \<le> c \<and> c \<le> 0x39" by (simp add: is_digit_def word_le_def)
  show "0x31 \<le> hd t" if "1 < length t" using assms that by (auto simp: array_index_def split: if_splits)
qed

text \<open>\<^verbatim>\<open>contains\<close> answers true exactly for the pointers that \<^verbatim>\<open>at\<close> resolves.\<close>

lemma pointer_contains_at: "pointer_contains ts j = Inr True \<longleftrightarrow> (\<exists>x. get_checked ts j = Inr x)"
proof (induction ts arbitrary: j)
  case (Cons t ts)
  show ?case
  proof (cases j)
    case (json_object es)
    then show ?thesis using Cons by (auto simp: ok_then_Inr split: option.split)
  next
    case (json_array xs)
    show ?thesis
    proof (cases "array_index t")
      case (Inl e)
      then show ?thesis using json_array by simp
    next
      case (Inr i)
      note d = array_index_digits [OF Inr]
      have "hd t \<in> set t" "set (tl t) \<subseteq> set t" using d(1) by (auto dest: list.set_sel)
      then have "0x30 \<le> hd t \<and> hd t \<le> 0x39" "list_all (\<lambda>c. 0x30 \<le> c \<and> c \<le> 0x39) (tl t)"
        using d(2) by (auto simp: list_all_iff)
      then show ?thesis using json_array Inr Cons d(3) by (auto simp: ok_then_Inr)
    qed
  qed simp_all
qed simp

section \<open>Single operations\<close>

lemma asc_eq [simp]: "asc s = asc t \<longleftrightarrow> s = t"
proof -
  have "inj (of_char :: char \<Rightarrow> u8)"
  proof (rule injI)
    fix c d :: char
    have u: "unat (of_char e :: u8) = of_char e" for e
    proof -
      have "unat (of_char e :: u8) = unat (of_nat (of_char e) :: u8)" by (simp only: of_nat_of_char)
      also have "\<dots> = of_char e mod 2 ^ LENGTH(8)" by (rule unat_of_nat)
      finally show ?thesis by simp
    qed
    assume "of_char c = (of_char d :: u8)"
    then have "unat (of_char c :: u8) = unat (of_char d :: u8)" by (rule arg_cong)
    then show "c = d" unfolding u by (rule of_char_eqI)
  qed
  then show ?thesis by (simp add: asc_def inj_map_eq_map)
qed

lemma settle_simps [simp]: "settle b (Inr a) = (None, a)" "settle b (Inl e) = (Some e, b)"
  by (simp_all add: settle_def)

lemma step_add: "patch_step E (add_op (token_texts ts) v) doc = settle doc (operation_add ts v doc)"
  using split_pointer_of_texts [of ts]
  by (simp add: patch_step_def add_op_def patch_operation_def get_string_value_def get_value_def pointer_to_string_texts)

lemma step_remove: "patch_step E (remove_op (token_texts ts)) doc = settle doc (operation_remove ts doc)"
  using split_pointer_of_texts [of ts]
  by (simp add: patch_step_def remove_op_def patch_operation_def get_string_value_def get_value_def pointer_to_string_texts)

lemma step_replace:
  "get_checked ts doc = Inr (p, v) \<Longrightarrow> patch_step E (replace_op (token_texts ts) w) doc = (None, json_set p w doc)"
  using split_pointer_of_texts [of ts]
  by (simp add: patch_step_def replace_op_def patch_operation_def get_string_value_def get_value_def pointer_to_string_texts both_def)

lemma add_at:
  assumes "get_checked ts doc = Inr (p, parent)"
  shows "operation_add (ts @ [t]) v doc =
     (case parent of
        json_null \<Rightarrow> Inr (json_set p (json_object (member_set t v [])) doc)
      | json_object es \<Rightarrow> Inr (json_set p (json_object (member_set t v es)) doc)
      | json_array xs \<Rightarrow>
          if t = [0x2D] then Inr (json_set p (json_array (xs @ [v])) doc)
          else ok_then (array_index t) (\<lambda>i. if length xs < i then Inl (out_of_range 401)
            else Inr (json_set p (json_array (take i xs @ v # drop i xs)) doc))
      | _ \<Rightarrow> Inl failed_assertion)"
proof (cases ts)
  case Nil
  then have "p = []" "parent = doc" using assms by simp_all
  then show ?thesis using Nil by (cases doc) (simp_all add: operation_add_def cong: if_cong)
next
  case (Cons u us)
  then have "get_checked ([u] @ us) doc = Inr (p, parent)" using assms by simp
  then obtain x where "get_checked [u] doc = Inr x" unfolding get_checked_append ok_then_Inr by blast
  moreover have "ts @ [t] = u # us @ [t]" using Cons by simp
  moreover have "butlast (u # us @ [t]) = ts" "last (u # us @ [t]) = t" using Cons by simp_all
  ultimately show ?thesis using assms by (cases parent) (simp_all add: operation_add_def)
qed

lemma remove_at:
  assumes "get_checked ts doc = Inr (p, parent)"
  shows "operation_remove (ts @ [t]) doc =
     (case parent of
        json_object es \<Rightarrow>
          if map_of es t \<noteq> None then Inr (json_set p (json_object (member_erase t es)) doc) else Inl (out_of_range 403)
      | json_array xs \<Rightarrow>
          ok_then (array_index t) (\<lambda>i. if length xs \<le> i then Inl (out_of_range 401)
            else Inr (json_set p (json_array (take i xs @ drop (Suc i) xs)) doc))
      | _ \<Rightarrow> Inr doc)"
  using assms by (cases parent) (simp_all add: operation_remove_def)

section \<open>Operations under a pointer\<close>

definition patches :: "'f json_env \<Rightarrow> 'f json list \<Rightarrow> bytes list \<Rightarrow> 'f json \<Rightarrow> 'f json \<Rightarrow> bool" where
  "patches E ops ts v w \<longleftrightarrow>
     (\<forall>doc p. get_checked ts doc = Inr (p, v) \<longrightarrow> patch_loop E ops doc = (None, json_set p w doc))"

lemma patch_loop_append:
  "patch_loop E (js @ ks) r = (case patch_loop E js r of (Some e, r') \<Rightarrow> (Some e, r') | (None, r') \<Rightarrow> patch_loop E ks r')"
  by (induction js arbitrary: r) (auto split: option.split prod.split)

lemma patches_Nil: "patches E [] ts v v"
  by (simp add: patches_def get_checked_facts)

lemma patches_append:
  assumes "patches E js ts v w" "patches E ks ts w u"
  shows "patches E (js @ ks) ts v u"
proof -
  have "patch_loop E (js @ ks) doc = (None, json_set p u doc)" if r: "get_checked ts doc = Inr (p, v)" for doc p
  proof -
    have 1: "patch_loop E js doc = (None, json_set p w doc)" using assms(1) r by (simp add: patches_def)
    have "patch_loop E ks (json_set p w doc) = (None, json_set p u (json_set p w doc))"
      using assms(2) get_checked_set [OF r] by (simp add: patches_def)
    then show ?thesis using 1 r by (simp add: patch_loop_append get_checked_facts)
  qed
  then show ?thesis by (simp add: patches_def)
qed

lemma patches_step:
  assumes "\<And>doc p. get_checked ts doc = Inr (p, v) \<Longrightarrow> patch_step E j doc = (None, json_set p w doc)"
  shows "patches E [j] ts v w"
  using assms by (simp add: patches_def)

lemma patches_child:
  assumes "patches E ops (ts @ [t]) x y" "get_checked [t] v = Inr ([s], x)"
  shows "patches E ops ts v (json_set [s] y v)"
proof -
  have "patch_loop E ops doc = (None, json_set p (json_set [s] y v) doc)" if r: "get_checked ts doc = Inr (p, v)" for doc p
  proof -
    have "get_checked (ts @ [t]) doc = Inr (p @ [s], x)" using r assms(2) by (simp add: get_checked_append)
    then have "patch_loop E ops doc = (None, json_set (p @ [s]) y doc)" using assms(1) by (simp add: patches_def)
    then show ?thesis using json_set_append [OF get_checked_at [OF r]] by simp
  qed
  then show ?thesis by (simp add: patches_def)
qed

lemma patches_replace: "patches E [replace_op (token_texts ts) w] ts v w"
  by (rule patches_step) (rule step_replace)

lemma patches_member:
  assumes "patches E ops (ts @ [k]) x y" "k \<notin> fst ` set pre"
  shows "patches E ops ts (json_object (pre @ (k, x) # es)) (json_object (pre @ (k, y) # es))"
proof -
  have m: "map_of (pre @ (k, x) # es) k = Some x" using assms(2) by (induction pre) auto
  have "alist_set k y (pre @ (k, x) # es) = pre @ (k, y) # es"
    using assms(2) by (induction pre) auto
  then show ?thesis using patches_child [OF assms(1), of "json_object (pre @ (k, x) # es)" "Key k"] m by simp
qed

lemma patches_element:
  assumes "patches E ops (ts @ [to_string (length pre)]) x y" "length pre < 2 ^ 63"
  shows "patches E ops ts (json_array (pre @ x # xs)) (json_array (pre @ y # xs))"
  using patches_child [OF assms(1), of "json_array (pre @ x # xs)" "At (length pre)"] assms(2)
  by (simp add: array_index_to_string to_string_not_dash)

lemma patches_add_member:
  "patches E [add_op (token_texts (ts @ [k])) v] ts (json_object es) (json_object (member_set k v es))"
  by (rule patches_step) (simp add: step_add add_at)

lemma patches_remove_member:
  fixes x :: "'a json"
  assumes "k \<notin> fst ` set pre" "k \<notin> fst ` set es"
  shows "patches E [remove_op (token_texts (ts @ [k]))] ts (json_object (pre @ (k, x) # es)) (json_object (pre @ es))"
proof (rule patches_step)
  fix doc p
  assume r: "get_checked ts doc = Inr (p, json_object (pre @ (k, x) # es))"
  have m: "map_of (pre @ (k, x) # es) k \<noteq> None" by (simp add: map_of_eq_None_iff)
  have "member_erase k fs = fs" if "k \<notin> fst ` set fs" for fs :: "(bytes \<times> 'a json) list"
    using that by (force simp: member_erase_def filter_id_conv)
  then have "member_erase k (pre @ (k, x) # es) = pre @ es"
    using assms by (simp add: member_erase_def)
  then show "patch_step E (remove_op (token_texts (ts @ [k]))) doc = (None, json_set p (json_object (pre @ es)) doc)"
    using m by (simp add: step_remove remove_at [OF r])
qed

lemma patches_additions:
  "patches E (diff_additions (token_texts ts) ys) ts (json_array xs) (json_array (xs @ ys))"
proof (induction ys arbitrary: xs)
  case Nil
  show ?case by (simp add: diff_additions_def patches_Nil)
next
  case (Cons y ys)
  have "patches E [add_op (token_texts (ts @ [[0x2D]])) y] ts (json_array xs) (json_array (xs @ [y]))"
    by (rule patches_step) (simp add: step_add add_at)
  from patches_append [OF this Cons [of "xs @ [y]"]] show ?case by (simp add: diff_additions_def token_texts_snoc)
qed

lemma fold_insert_at:
  "n = length r \<Longrightarrow> fold (\<lambda>i r. take n r @ f i # drop n r) is (r @ s) = r @ rev (map f is) @ s"
  by (induction "is" arbitrary: s) simp_all

lemma diff_removals_rev:
  "diff_removals m n base r = r @ rev (map (\<lambda>i. remove_op (base @ 0x2F # to_string i)) [m ..< n])"
  using fold_insert_at [of "length r" r "\<lambda>i. remove_op (base @ 0x2F # to_string i)" "[m ..< n]" "[]"]
  by (simp add: diff_removals_def)

lemma patches_removals:
  assumes "length xs < 2 ^ 63" "m \<le> length xs"
  shows "patches E (rev (map (\<lambda>i. remove_op (token_texts ts @ 0x2F # to_string i)) [m ..< length xs])) ts
    (json_array xs) (json_array (take m xs))"
  using assms
proof (induction xs rule: rev_induct)
  case Nil
  then show ?case by (simp add: patches_Nil)
next
  case (snoc x xs)
  show ?case
  proof (cases "m \<le> length xs")
    case True
    have "patches E [remove_op (token_texts (ts @ [to_string (length xs)]))] ts (json_array (xs @ [x])) (json_array xs)"
      using snoc.prems by (intro patches_step) (simp add: step_remove remove_at array_index_to_string)
    from patches_append [OF this snoc.IH] True snoc.prems show ?thesis by (simp add: token_texts_snoc)
  next
    case False
    then have "m = length (xs @ [x])" using snoc.prems by simp
    then show ?thesis by (simp add: patches_Nil)
  qed
qed

lemma patches_new_members:
  "patches E (map (\<lambda>(k, v). add_op (token_texts ts @ 0x2F # escape k) v) fs) ts (json_object es) (json_object (members_of fs es))"
proof (induction fs arbitrary: es)
  case Nil
  show ?case by (simp add: members_of_def patches_Nil)
next
  case (Cons f fs)
  obtain k v where f: "f = (k, v)" by (cases f)
  from patches_append [OF patches_add_member Cons] show ?case by (simp add: f members_of_def token_texts_snoc)
qed

end
