(* ===== verification/JsonDiff.thy ===== *)
theory JsonDiff
  imports JsonOps
begin

text \<open>
  The patch that \<^verbatim>\<open>diff\<close> computes from two values turns the first into the second: what the loops over
  two arrays and two objects do, and the theorem by induction on the source.
\<close>

section \<open>Equal values\<close>

lemma eq_elements_all2: "eq_elements E xs ys \<longleftrightarrow> list_all2 (json_eq E) xs ys"
  by (induction xs arbitrary: ys) (simp_all add: list_all2_Cons1 split: list.split)

definition member_eq :: "('a \<Rightarrow> 'b \<Rightarrow> bool) \<Rightarrow> bytes \<times> 'a \<Rightarrow> bytes \<times> 'b \<Rightarrow> bool" where
  "member_eq R e f \<longleftrightarrow> fst e = fst f \<and> R (snd e) (snd f)"

lemma eq_members_all2: "eq_members E es fs \<longleftrightarrow> list_all2 (member_eq (json_eq E)) es fs"
proof (induction es arbitrary: fs)
  case (Cons e es)
  show ?case by (cases e; cases fs) (auto simp: Cons member_eq_def)
qed simp

lemma json_eq_array: "json_eq E (json_array xs) (json_array ys) \<longleftrightarrow> list_all2 (json_eq E) xs ys"
  by (simp add: json_eq.simps eq_elements_all2)

lemma json_eq_object: "json_eq E (json_object es) (json_object fs) \<longleftrightarrow> list_all2 (member_eq (json_eq E)) es fs"
  by (simp add: json_eq.simps eq_members_all2)

lemma sorted_keys_unique:
  assumes "sorted_wrt bytes_less xs" "sorted_wrt bytes_less ys" "set xs = set ys"
  shows "xs = ys"
  using assms
proof (induction xs arbitrary: ys)
  case (Cons x xs)
  then obtain y ys' where ys: "ys = y # ys'" by (cases ys) auto
  have xy: "x = y"
  proof (rule ccontr)
    assume ne: "x \<noteq> y"
    then have "x \<in> set ys'" "y \<in> set xs" using Cons.prems(3) ys by auto
    then have "bytes_less y x" "bytes_less x y" using Cons.prems(1,2) ys by auto
    then show False using bytes_less_trans [of x y x] by simp
  qed
  have "x \<notin> set xs" "x \<notin> set ys'" using Cons.prems(1,2) ys xy by auto
  then have "set xs = set ys'" using Cons.prems(3) ys xy by auto
  then show ?case using Cons ys xy by simp
qed simp

lemma sorted_distinct_keys: "sorted_wrt key_less es \<Longrightarrow> distinct (map fst es)"
proof (induction es)
  case (Cons e es)
  then have "fst e \<notin> fst ` set es" by fastforce
  then show ?case using Cons by simp
qed simp

lemma members_equal:
  assumes "sorted_wrt key_less es" "sorted_wrt key_less fs" "\<And>k. rel_option R (map_of es k) (map_of fs k)"
  shows "list_all2 (member_eq R) es fs"
proof -
  have "map_of es k = None \<longleftrightarrow> map_of fs k = None" for k
    using assms(3) [of k] by (cases "map_of es k"; cases "map_of fs k") simp_all
  then have "dom (map_of es) = dom (map_of fs)" by (simp add: dom_def)
  then have keys: "map fst es = map fst fs"
    using assms(1,2) by (intro sorted_keys_unique) (simp_all add: sorted_keys dom_map_of_conv_image_fst)
  then have len: "length es = length fs" using map_eq_imp_length_eq by blast
  have "member_eq R (es ! i) (fs ! i)" if i: "i < length es" for i
  proof -
    let ?k = "fst (es ! i)"
    have k: "?k = fst (fs ! i)" using keys i len by (metis nth_map)
    have "map_of es ?k = Some (snd (es ! i))"
      using sorted_distinct_keys [OF assms(1)] i by (simp add: map_of_eq_Some_iff)
    moreover have "map_of fs ?k = Some (snd (fs ! i))"
      using sorted_distinct_keys [OF assms(2)] i len k by (simp add: map_of_eq_Some_iff)
    ultimately show ?thesis using assms(3) [of ?k] k by (simp add: member_eq_def)
  qed
  then show ?thesis using len by (simp add: list_all2_conv_all_nth)
qed

section \<open>Lookups in the changed members\<close>

lemma map_of_member_set_other:
  assumes k: "k' \<noteq> k"
  shows "map_of (member_set k v es) k' = map_of es k'"
proof -
  have 1: "map_of (object_ref k es) k' = map_of es k'" for es :: "(bytes \<times> 'a json) list"
    using k by (induction k es rule: object_ref.induct) auto
  have "map_of (alist_set k v fs) k' = map_of fs k'" for fs
    using k by (induction k v fs rule: alist_set.induct) auto
  then show ?thesis using 1 by (simp add: member_set_def)
qed

lemma map_of_members_of:
  "distinct (map fst fs) \<Longrightarrow>
   map_of (members_of fs es) k = (case map_of fs k of Some v \<Rightarrow> Some v | None \<Rightarrow> map_of es k)"
proof (induction fs arbitrary: es)
  case Nil
  show ?case by (simp add: members_of_def)
next
  case (Cons f fs)
  obtain k' v where f: "f = (k', v)" by (cases f)
  have *: "members_of (f # fs) es = members_of fs (member_set k' v es)" by (simp add: members_of_def f)
  show ?case
  proof (cases "k = k'")
    case True
    then have "map_of fs k = None" using Cons.prems f by (simp add: map_of_eq_None_iff)
    then show ?thesis using Cons * True f by simp
  next
    case False
    then show ?thesis using Cons * f by (simp add: map_of_member_set_other [OF False] split: option.split)
  qed
qed

lemma sorted_members_of: "sorted_wrt key_less es \<Longrightarrow> sorted_wrt key_less (members_of fs es)"
  by (induction fs arbitrary: es) (auto simp: members_of_def sorted_member_set)

lemma map_of_filter_key: "map_of (filter (\<lambda>(k, v). P k) fs) k = (if P k then map_of fs k else None)"
  by (induction fs) auto

section \<open>The patch of a difference\<close>

text \<open>Values as they are stored: keys in ascending order, and not more elements than a vector can have.\<close>

fun storable :: "'f json \<Rightarrow> bool" where
  "storable (json_object es) \<longleftrightarrow> sorted_wrt key_less es \<and> (\<forall>e \<in> set es. storable (snd e))"
| "storable (json_array xs) \<longleftrightarrow> length xs < 2 ^ 63 \<and> (\<forall>x \<in> set xs. storable x)"
| "storable _ \<longleftrightarrow> True"

definition diff_ok :: "'f json_env \<Rightarrow> 'f json \<Rightarrow> 'f json \<Rightarrow> bytes list \<Rightarrow> bool" where
  "diff_ok E s t ts \<longleftrightarrow> (\<exists>v. patches E (diff_ops E s t (token_texts ts)) ts s v \<and> json_eq E v t)"

definition elements_diff_ok :: "'f json_env \<Rightarrow> 'f json list \<Rightarrow> 'f json list \<Rightarrow> 'f json list \<Rightarrow> bytes list \<Rightarrow> bool" where
  "elements_diff_ok E pre xs ys ts \<longleftrightarrow>
     (\<exists>zs. patches E (diff_elements E xs ys (length pre) (token_texts ts)) ts
        (json_array (pre @ xs)) (json_array (pre @ zs @ drop (length ys) xs)) \<and>
      list_all2 (json_eq E) zs (take (length xs) ys))"

definition members_diff_ok ::
  "'f json_env \<Rightarrow> (bytes \<times> 'f json) list \<Rightarrow> (bytes \<times> 'f json) list \<Rightarrow> (bytes \<times> 'f json) list \<Rightarrow> bytes list \<Rightarrow> bool" where
  "members_diff_ok E pre es fs ts \<longleftrightarrow>
     (\<exists>zs. patches E (diff_members E es fs (token_texts ts)) ts (json_object (pre @ es)) (json_object (pre @ zs)) \<and>
      map fst zs = filter (\<lambda>k. map_of fs k \<noteq> None) (map fst es) \<and>
      (\<forall>(k, v) \<in> set zs. \<exists>w. map_of fs k = Some w \<and> json_eq E v w))"

lemma elements_diff_Cons:
  assumes "diff_ok E x y (ts @ [to_string (length pre)])" "\<And>z. elements_diff_ok E (pre @ [z]) xs ys ts" "length pre < 2 ^ 63"
  shows "elements_diff_ok E pre (x # xs) (y # ys) ts"
proof -
  obtain z where z: "patches E (diff_ops E x y (token_texts (ts @ [to_string (length pre)]))) (ts @ [to_string (length pre)]) x z"
    "json_eq E z y" using assms(1) by (auto simp: diff_ok_def)
  obtain zs where zs: "patches E (diff_elements E xs ys (Suc (length pre)) (token_texts ts)) ts
      (json_array ((pre @ [z]) @ xs)) (json_array ((pre @ [z]) @ zs @ drop (length ys) xs))"
    "list_all2 (json_eq E) zs (take (length xs) ys)" using assms(2) [of z] by (auto simp: elements_diff_ok_def)
  have "patches E (diff_elements E (x # xs) (y # ys) (length pre) (token_texts ts)) ts
      (json_array (pre @ x # xs)) (json_array (pre @ (z # zs) @ drop (length (y # ys)) (x # xs)))"
    using patches_append [OF patches_element [OF z(1) assms(3), of xs]] zs(1) by (simp add: token_texts_snoc)
  moreover have "list_all2 (json_eq E) (z # zs) (take (length (x # xs)) (y # ys))" using z(2) zs(2) by simp
  ultimately show ?thesis unfolding elements_diff_ok_def by blast
qed

lemma members_diff_Cons:
  assumes "\<And>w. map_of fs k = Some w \<Longrightarrow> diff_ok E x w (ts @ [k])" "\<And>pre'. pre' = pre \<or> (\<exists>z. pre' = pre @ [(k, z)]) \<Longrightarrow> members_diff_ok E pre' es fs ts"
    "k \<notin> fst ` set pre" "k \<notin> fst ` set es"
  shows "members_diff_ok E pre ((k, x) # es) fs ts"
proof (cases "map_of fs k")
  case None
  obtain zs where zs: "patches E (diff_members E es fs (token_texts ts)) ts (json_object (pre @ es)) (json_object (pre @ zs))"
    "map fst zs = filter (\<lambda>k. map_of fs k \<noteq> None) (map fst es)" "\<forall>(k, v) \<in> set zs. \<exists>w. map_of fs k = Some w \<and> json_eq E v w"
    using assms(2) [of pre] by (auto simp: members_diff_ok_def)
  have "patches E (diff_members E ((k, x) # es) fs (token_texts ts)) ts (json_object (pre @ (k, x) # es)) (json_object (pre @ zs))"
    using patches_append [OF patches_remove_member [OF assms(3,4)] zs(1)] None by (simp add: token_texts_snoc)
  then show ?thesis using zs(2,3) None unfolding members_diff_ok_def by auto
next
  case (Some w)
  obtain z where z: "patches E (diff_ops E x w (token_texts (ts @ [k]))) (ts @ [k]) x z" "json_eq E z w"
    using assms(1) [OF Some] by (auto simp: diff_ok_def)
  obtain zs where zs: "patches E (diff_members E es fs (token_texts ts)) ts (json_object ((pre @ [(k, z)]) @ es))
      (json_object ((pre @ [(k, z)]) @ zs))"
    "map fst zs = filter (\<lambda>k. map_of fs k \<noteq> None) (map fst es)" "\<forall>(k, v) \<in> set zs. \<exists>w. map_of fs k = Some w \<and> json_eq E v w"
    using assms(2) [of "pre @ [(k, z)]"] by (auto simp: members_diff_ok_def)
  have "patches E (diff_members E ((k, x) # es) fs (token_texts ts)) ts (json_object (pre @ (k, x) # es))
      (json_object (pre @ (k, z) # zs))"
    using patches_append [OF patches_member [OF z(1) assms(3), of es]] zs(1) Some by (simp add: token_texts_snoc)
  then show ?thesis using zs(2,3) z(2) Some unfolding members_diff_ok_def by (intro exI [of _ "(k, z) # zs"]) auto
qed

text \<open>The loops over two arrays.\<close>

lemma array_diff_ok:
  assumes "elements_diff_ok E [] xs ys ts" "length xs < 2 ^ 63" "list_all2 (json_eq E) ys ys"
    "\<not> json_eq E (json_array xs) (json_array ys)"
  shows "diff_ok E (json_array xs) (json_array ys) ts"
proof -
  let ?m = "min (length xs) (length ys)" and ?b = "token_texts ts"
  obtain zs where zs: "patches E (diff_elements E xs ys 0 ?b) ts (json_array xs) (json_array (zs @ drop (length ys) xs))"
    "list_all2 (json_eq E) zs (take (length xs) ys)" using assms(1) by (auto simp: elements_diff_ok_def)
  have len: "length zs = ?m" using zs(2) by (simp add: list_all2_conv_all_nth)
  have lx: "length (zs @ drop (length ys) xs) = length xs" "take ?m (zs @ drop (length ys) xs) = zs" using len by auto
  have 1: "patches E (rev (map (\<lambda>i. remove_op (?b @ 0x2F # to_string i)) [?m ..< length xs])) ts
      (json_array (zs @ drop (length ys) xs)) (json_array zs)"
    using patches_removals [of "zs @ drop (length ys) xs" ?m E ts] lx assms(2) by simp
  have 2: "patches E (diff_additions ?b (drop (length xs) ys)) ts (json_array zs) (json_array (zs @ drop (length xs) ys))"
    by (rule patches_additions)
  have "patches E (diff_ops E (json_array xs) (json_array ys) ?b) ts (json_array xs) (json_array (zs @ drop (length xs) ys))"
    using patches_append [OF patches_append [OF zs(1) 1] 2] assms(4) by (simp add: diff_ops.simps diff_removals_rev)
  moreover have "list_all2 (json_eq E) (zs @ drop (length xs) ys) (take (length xs) ys @ drop (length xs) ys)"
    using zs(2) assms(3) by (intro list_all2_appendI list_all2_dropI)
  ultimately show ?thesis unfolding diff_ok_def by (auto simp: json_eq_array)
qed

text \<open>The loops over two objects.\<close>

lemma object_diff_ok:
  assumes "members_diff_ok E [] es fs ts" "sorted_wrt key_less es" "sorted_wrt key_less fs"
    "list_all2 (member_eq (json_eq E)) fs fs" "\<not> json_eq E (json_object es) (json_object fs)"
  shows "diff_ok E (json_object es) (json_object fs) ts"
proof -
  let ?b = "token_texts ts" and ?new = "filter (\<lambda>(k, v). map_of es k = None) fs"
  obtain zs where zs: "patches E (diff_members E es fs ?b) ts (json_object es) (json_object zs)"
    "map fst zs = filter (\<lambda>k. map_of fs k \<noteq> None) (map fst es)" "\<forall>(k, v) \<in> set zs. \<exists>w. map_of fs k = Some w \<and> json_eq E v w"
    using assms(1) by (auto simp: members_diff_ok_def)
  have sz: "sorted_wrt key_less zs" using assms(2) unfolding sorted_keys zs(2) by (rule sorted_wrt_filter)
  have p: "patches E (diff_ops E (json_object es) (json_object fs) ?b) ts (json_object es) (json_object (members_of ?new zs))"
    using patches_append [OF zs(1) patches_new_members] assms(5) by (simp add: diff_ops.simps diff_new_members_def)
  have dn: "distinct (map fst ?new)" using sorted_distinct_keys [OF assms(3)] by (simp add: distinct_map_filter)
  have refl: "json_eq E w w" if "map_of fs k = Some w" for k w
    using assms(4) map_of_SomeD [OF that] by (auto simp: list_all2_same member_eq_def)
  have "rel_option (json_eq E) (map_of (members_of ?new zs) k) (map_of fs k)" for k
  proof (cases "map_of zs k")
    case None
    then have "k \<notin> set (map fst zs)" by (simp add: map_of_eq_None_iff)
    then have "map_of es k = None \<or> map_of fs k = None" by (auto simp: zs(2) map_of_eq_None_iff)
    then show ?thesis using None refl [of k]
      by (cases "map_of fs k") (auto simp: map_of_members_of [OF dn] map_of_filter_key split: option.split)
  next
    case (Some v)
    then obtain w where w: "map_of fs k = Some w" "json_eq E v w" using zs(3) map_of_SomeD [OF Some] by auto
    have "k \<in> set (map fst zs)" using map_of_SomeD [OF Some] by force
    then have "map_of es k \<noteq> None" by (simp add: zs(2) map_of_eq_None_iff)
    then show ?thesis using w Some by (auto simp: map_of_members_of [OF dn] map_of_filter_key)
  qed
  then have "json_eq E (json_object (members_of ?new zs)) (json_object fs)"
    unfolding json_eq_object using sorted_members_of [OF sz] assms(3) by (intro members_equal)
  then show ?thesis using p unfolding diff_ok_def by blast
qed

lemma elements_diff:
  assumes "\<And>x y us. x \<in> set xs \<Longrightarrow> y \<in> set ys \<Longrightarrow> diff_ok E x y us" "length pre + length xs < 2 ^ 63"
  shows "elements_diff_ok E pre xs ys ts"
  using assms
proof (induction xs arbitrary: pre ys)
  case Nil
  show ?case by (simp add: elements_diff_ok_def patches_Nil)
next
  case (Cons x xs)
  show ?case
  proof (cases ys)
    case Nil
    then show ?thesis by (simp add: elements_diff_ok_def patches_Nil)
  next
    case (Cons y ys')
    have "elements_diff_ok E (pre @ [z]) xs ys' ts" for z using Cons.IH Cons.prems Cons by simp
    then show ?thesis unfolding Cons using Cons.prems Cons by (intro elements_diff_Cons) simp_all
  qed
qed

lemma members_diff:
  assumes "\<And>k x w us. (k, x) \<in> set es \<Longrightarrow> map_of fs k = Some w \<Longrightarrow> diff_ok E x w us" "distinct (map fst (pre @ es))"
  shows "members_diff_ok E pre es fs ts"
  using assms
proof (induction es arbitrary: pre)
  case Nil
  show ?case by (simp add: members_diff_ok_def patches_Nil)
next
  case (Cons e es)
  obtain k x where e: "e = (k, x)" by (cases e)
  have "members_diff_ok E pre' es fs ts" if q: "pre' = pre \<or> (\<exists>z. pre' = pre @ [(k, z)])" for pre'
  proof (rule Cons.IH)
    have "k \<notin> fst ` set es" "distinct (map fst (pre @ es))" "distinct (map fst ((pre @ [(k, z)]) @ es))" for z
      using Cons.prems(2) by (simp_all add: e)
    then show "distinct (map fst (pre' @ es))" using q by blast
  qed (use Cons.prems(1) in auto)
  moreover have "diff_ok E x w us" if "map_of fs k = Some w" for w us by (rule Cons.prems(1) [of k]) (use that e in simp_all)
  ultimately show ?case unfolding e using Cons.prems(2) e by (intro members_diff_Cons) auto
qed

lemma diff_replaces:
  assumes "json_eq E s t \<or> json_type s \<noteq> json_type t \<or> json_type s \<notin> {t_array, t_object}" "json_eq E t t"
  shows "diff_ok E s t ts"
proof (cases "json_eq E s t")
  case True
  then show ?thesis by (auto simp: diff_ok_def diff_ops.simps intro: patches_Nil)
next
  case False
  then have "diff_ops E s t (token_texts ts) = [replace_op (token_texts ts) t]"
    using assms(1) by (cases s) (simp_all add: diff_ops.simps)
  then show ?thesis using assms(2) patches_replace [of E ts t s] by (auto simp: diff_ok_def)
qed

lemma diff_patches: "storable s \<Longrightarrow> storable t \<Longrightarrow> json_eq E t t \<Longrightarrow> diff_ok E s t ts"
proof (induction s arbitrary: t ts)
  case (json_array xs t ts)
  show ?case
  proof (cases "json_eq E (json_array xs) t \<or> json_type t \<noteq> t_array")
    case True
    then show ?thesis using json_array.prems by (intro diff_replaces) auto
  next
    case False
    then obtain ys where t: "t = json_array ys" by (cases t) auto
    have refl: "list_all2 (json_eq E) ys ys" using json_array.prems(3) by (simp add: t json_eq_array)
    have "diff_ok E x y us" if "x \<in> set xs" "y \<in> set ys" for x y us
      using json_array that refl by (simp add: t list_all2_same)
    then have "elements_diff_ok E [] xs ys ts" using json_array.prems(1) by (intro elements_diff) simp_all
    then show ?thesis unfolding t using json_array.prems(1) refl False t by (simp add: array_diff_ok)
  qed
next
  case (json_object es t ts)
  show ?case
  proof (cases "json_eq E (json_object es) t \<or> json_type t \<noteq> t_object")
    case True
    then show ?thesis using json_object.prems by (intro diff_replaces) auto
  next
    case False
    then obtain fs where t: "t = json_object fs" by (cases t) auto
    have refl: "list_all2 (member_eq (json_eq E)) fs fs" using json_object.prems(3) by (simp add: t json_eq_object)
    have "diff_ok E x w us" if "(k, x) \<in> set es" "map_of fs k = Some w" for k x w us
    proof -
      have "(k, w) \<in> set fs" using that(2) by (rule map_of_SomeD)
      then have "storable w" "json_eq E w w" using json_object.prems(2) refl by (auto simp: t list_all2_same member_eq_def)
      moreover have "storable x" using json_object.prems(1) that(1) by auto
      ultimately show ?thesis using json_object.IH that(1) by (force simp: snds.simps)
    qed
    then have "members_diff_ok E [] es fs ts" using json_object.prems(1) by (intro members_diff) (simp_all add: sorted_distinct_keys)
    then show ?thesis unfolding t using json_object.prems(1,2) refl False t by (simp add: object_diff_ok)
  qed
qed (auto intro: diff_replaces)

text \<open>C33: The patch that diff computes is right: applied to the source, it succeeds and gives a value that
  compares equal to the target, for all values that can be stored, whatever their types, nesting, keys and lengths, if the target
  compares equal to itself (it does unless it holds a NaN or a discarded value). Where two values compare equal though they are of different types,
  such as the integer 1 and the float 1.0, the value of the source is kept.\<close>

theorem json_diff_patch:
  assumes "storable source" "storable target" "json_eq E target target"
  shows "\<exists>v. patch E (diff E source target) source = Inr v \<and> json_eq E v target"
proof -
  obtain v where v: "patches E (diff_ops E source target []) [] source v" "json_eq E v target"
    using diff_patches [OF assms, of "[]"] by (auto simp: diff_ok_def)
  then have "patch_loop E (diff_ops E source target []) source = (None, v)" by (simp add: patches_def)
  then show ?thesis using v(2) by (simp add: patch_def patch_inplace_def diff_def)
qed

definition int_env :: "int json_env" where
  "int_env = \<lparr>feq = (=), fof_int = (\<lambda>i. i), env_finite = (\<lambda>i. True), env_chars = (\<lambda>i. []),
     assign_value_first = True, test_value_first = False\<rparr>"

theorem json_diff_patch_witness:
  "\<exists>v. patch int_env (diff int_env
       (json_object [([0x61], json_array [json_null, json_unsigned 1, json_unsigned 2]), ([0x62], json_boolean True)])
       (json_object [([0x2F, 0x7E], json_string []), ([0x61], json_array [json_boolean False])]))
       (json_object [([0x61], json_array [json_null, json_unsigned 1, json_unsigned 2]), ([0x62], json_boolean True)]) = Inr v \<and>
     json_eq int_env v (json_object [([0x2F, 0x7E], json_string []), ([0x61], json_array [json_boolean False])])"
  by (rule json_diff_patch) (simp_all add: json_eq.simps)

end
