(* ===== verification/JsonMerge.thy ===== *)
theory JsonMerge
  imports JsonDiff
begin

text \<open>
  What a merge patch does to the members of an object, and that a second application changes nothing.
\<close>

definition members_or_none :: "'f json \<Rightarrow> (bytes \<times> 'f json) list" where
  "members_or_none j = (case j of json_object ms \<Rightarrow> ms | _ \<Rightarrow> [])"

text \<open>The member that a merge leaves, from the member of the value and the member of the patch (RFC 7396).\<close>

definition merged :: "'f json option \<Rightarrow> 'f json option \<Rightarrow> 'f json option" where
  "merged old new =
     (case new of
        None \<Rightarrow> old
      | Some v \<Rightarrow> if v = json_null then None
          else Some (merge_patch (case old of Some w \<Rightarrow> w | None \<Rightarrow> json_null) v))"

lemma map_of_member_set_if: "map_of (member_set k v es) k' = (if k' = k then Some v else map_of es k')"
  by (simp add: map_of_member_set_other)

lemma map_of_member_erase: "map_of (member_erase k es) k' = (if k' = k then None else map_of es k')"
  unfolding member_erase_def by (induction es) auto

lemma merge_members_lookup:
  "distinct (map fst es) \<Longrightarrow> map_of (merge_members ms es) k = merged (map_of ms k) (map_of es k)"
proof (induction es arbitrary: ms)
  case Nil
  show ?case by (simp add: merged_def)
next
  case (Cons e es)
  obtain k' v where e: "e = (k', v)" by (cases e)
  show ?case
  proof (cases "k = k'")
    case True
    then have "map_of es k = None" using Cons.prems e by (simp add: map_of_eq_None_iff)
    then show ?thesis using Cons True e by (simp add: merged_def map_of_member_erase)
  next
    case False
    then show ?thesis using Cons e by (simp add: map_of_member_erase map_of_member_set_if)
  qed
qed

lemma sorted_merge_members: "sorted_wrt key_less ms \<Longrightarrow> sorted_wrt key_less (merge_members ms es)"
proof (induction es arbitrary: ms)
  case (Cons e es)
  have "sorted_wrt key_less (member_erase k ms)" for k
    unfolding member_erase_def using Cons.prems by (rule sorted_wrt_filter)
  then show ?case using Cons by (cases e) (simp add: sorted_member_set)
qed simp

lemma members_unique:
  assumes "sorted_wrt key_less es" "sorted_wrt key_less fs" "\<And>k. map_of es k = map_of fs k"
  shows "es = fs"
proof -
  have "list_all2 (member_eq (=)) es fs" using assms by (intro members_equal) (simp_all add: option.rel_eq)
  then show ?thesis
    by (auto simp: list_all2_conv_all_nth member_eq_def prod_eq_iff intro: nth_equalityI)
qed

lemma merge_patch_object: "merge_patch j (json_object es) = json_object (merge_members (members_or_none j) es)"
  by (simp add: merge_patch.simps members_or_none_def)

lemma storable_members_or_none:
  assumes "storable j"
  shows "sorted_wrt key_less (members_or_none j)" "map_of (members_or_none j) k = Some w \<Longrightarrow> storable w"
  using assms by (cases j; force simp: members_or_none_def dest: map_of_SomeD)+

lemma merge_patch_twice:
  "storable j \<Longrightarrow> storable p \<Longrightarrow> merge_patch (merge_patch j p) p = merge_patch j p"
proof (induction p arbitrary: j)
  case (json_object es j)
  let ?ms = "members_or_none j"
  have d: "distinct (map fst es)" using json_object.prems(2) by (simp add: sorted_distinct_keys)
  have s: "sorted_wrt key_less ?ms" using storable_members_or_none(1) [OF json_object.prems(1)] .
  have IH: "merge_patch (merge_patch w v) v = merge_patch w v" if "map_of es k = Some v" "storable w" for k v w
  proof -
    have "(k, v) \<in> set es" using that(1) by (rule map_of_SomeD)
    then show ?thesis using json_object.IH [of "(k, v)" v w] json_object.prems(2) that(2) by (force simp: snds.simps)
  qed
  have "merged (merged (map_of ?ms k) (map_of es k)) (map_of es k) = merged (map_of ?ms k) (map_of es k)" for k
  proof (cases "map_of es k")
    case None
    then show ?thesis by (simp add: merged_def)
  next
    case (Some v)
    have "storable (case map_of ?ms k of Some w \<Rightarrow> w | None \<Rightarrow> json_null)"
      using storable_members_or_none(2) [OF json_object.prems(1), of k] by (simp split: option.split)
    then show ?thesis using IH [OF Some] Some by (simp add: merged_def)
  qed
  then have "merge_members (merge_members ?ms es) es = merge_members ?ms es"
    using s d by (intro members_unique) (simp_all add: sorted_merge_members merge_members_lookup)
  then show ?case by (simp add: merge_patch_object) (simp add: members_or_none_def)
qed (simp_all add: merge_patch.simps)

text \<open>C35: A merge patch does what RFC 7396 says. A patch that is not an object replaces the value. A patch that is an object makes an
  object (of the members of the value, of no members if it is not an object) in which a member that the patch sets to null is
  absent, any other member of the patch is merged into the old member, or into null, and all others are kept; the keys stay
  in order. Applying the patch once more changes nothing.\<close>

theorem merge_patch_members:
  assumes "storable j" "storable p"
  shows "(json_type p \<noteq> t_object \<longrightarrow> merge_patch j p = p) \<and>
    (\<forall>es. p = json_object es \<longrightarrow> (\<exists>ms. merge_patch j p = json_object ms \<and> sorted_wrt key_less ms \<and>
       (\<forall>k. map_of ms k = merged (map_of (members_or_none j) k) (map_of es k)))) \<and>
    merge_patch (merge_patch j p) p = merge_patch j p"
proof (intro conjI)
  show "json_type p \<noteq> t_object \<longrightarrow> merge_patch j p = p" by (cases p) (simp_all add: merge_patch.simps)
  show "\<forall>es. p = json_object es \<longrightarrow> (\<exists>ms. merge_patch j p = json_object ms \<and> sorted_wrt key_less ms \<and>
       (\<forall>k. map_of ms k = merged (map_of (members_or_none j) k) (map_of es k)))"
    using assms(2) storable_members_or_none(1) [OF assms(1)]
    by (auto simp: merge_patch_object sorted_merge_members merge_members_lookup sorted_distinct_keys)
qed (rule merge_patch_twice [OF assms])

theorem merge_patch_members_witness:
  "merge_patch (merge_patch (json_object [([0x61], json_unsigned 1), ([0x62], json_unsigned 2)])
       (json_object [([0x61], json_null), ([0x63], json_object [([0x64], json_null)])]))
     (json_object [([0x61], json_null), ([0x63], json_object [([0x64], json_null)])]) =
   (json_object [([0x62], json_unsigned 2), ([0x63], json_object [])] :: int json)"
  using merge_patch_members [of "json_object [([0x61], json_unsigned 1), ([0x62], json_unsigned 2)]"
      "json_object [([0x61], json_null), ([0x63], json_object [([0x64], json_null)])] :: int json"]
  by (simp add: merge_patch.simps member_erase_def member_set_def)

end
