(* ===== verification/Calls.thy ===== *)
theory Calls
  imports HbusPrelude
begin

text \<open>
  Sequences of calls of a component and of its specification, and the interface between the two: when every
  call is simulated, every sequence of calls is.
\<close>

fun run_calls :: "('op \<Rightarrow> 'c \<Rightarrow> ('c \<times> 'r) option) \<Rightarrow> 'op list \<Rightarrow> 'c \<Rightarrow> ('c \<times> 'r list) option" where
  "run_calls step [] c = Some (c, [])"
| "run_calls step (op # ops) c =
     (case step op c of None \<Rightarrow> None | Some (c, r) \<Rightarrow> map_option (map_prod id ((#) r)) (run_calls step ops c))"

fun spec_calls :: "('op \<Rightarrow> 's \<Rightarrow> 's \<times> 'r) \<Rightarrow> 'op list \<Rightarrow> 's \<Rightarrow> 's \<times> 'r list" where
  "spec_calls step [] s = (s, [])"
| "spec_calls step (op # ops) s = (let (s, r) = step op s in map_prod id ((#) r) (spec_calls step ops s))"

section \<open>Simulation of calls\<close>

locale call_simulation =
  fixes step :: "'op \<Rightarrow> 'c \<Rightarrow> ('c \<times> 'r) option"
    and spec :: "'op \<Rightarrow> 's \<Rightarrow> 's \<times> 'r"
    and ok :: "'c \<Rightarrow> bool"
    and abstract :: "'c \<Rightarrow> 's"
  assumes step_refines: "ok c \<Longrightarrow> \<exists>c' r. step op c = Some (c', r) \<and> ok c' \<and> spec op (abstract c) = (abstract c', r)"
begin

lemma run_refines:
  "ok c \<Longrightarrow> \<exists>c' rs. run_calls step ops c = Some (c', rs) \<and> ok c' \<and> spec_calls spec ops (abstract c) = (abstract c', rs)"
proof (induction ops arbitrary: c)
  case (Cons op ops)
  obtain c1 r where 1: "step op c = Some (c1, r)" "ok c1" "spec op (abstract c) = (abstract c1, r)"
    using step_refines [OF Cons.prems] by blast
  then show ?case using Cons.IH [OF 1(2)] by auto
qed simp

end

end
