(* ===== verification/LruCache.thy ===== *)
theory LruCache
  imports Calls
begin

text \<open>
  The least-recently-used cache of \<^verbatim>\<open>hv/LRUCache.h\<close>: a doubly linked list of nodes in the order of use and a
  hash map from keys to list iterators. Nodes live in a store and an iterator is the address of its
  node, so that the map and the list share nodes as in the source; \<open>None\<close> is a use of an iterator
  that is no longer valid. Every member function holds the mutex throughout except \<^verbatim>\<open>capacity\<close>, which reads one
  word without it, so an execution is a sequence of calls. The eviction callback is opaque: the calls made to it are recorded.
\<close>

section \<open>The cache\<close>

record ('k, 'v) node =
  node_key :: 'k
  node_value :: 'v

record ('k, 'v, 'cb) lru =
  c_capacity :: nat
  node_list :: "nat list"
  hash_map :: "'k \<Rightarrow> nat option"
  eviction_callback :: "'cb option"
  nodes :: "nat \<Rightarrow> ('k, 'v) node option"
  next_node :: nat
  calls :: "('cb \<times> 'k \<times> 'v) list"

definition lru_init :: "nat \<Rightarrow> ('k, 'v, 'cb) lru" where
  "lru_init capacity =
     \<lparr>c_capacity = (if capacity = 0 then 1 else capacity), node_list = [], hash_map = (\<lambda>_. None), eviction_callback = None,
      nodes = (\<lambda>_. None), next_node = 0, calls = []\<rparr>"

definition set_eviction_callback :: "'cb option \<Rightarrow> ('k, 'v, 'cb) lru \<Rightarrow> ('k, 'v, 'cb) lru" where
  "set_eviction_callback cb c = c\<lparr>eviction_callback := cb\<rparr>"

text \<open>\<^verbatim>\<open>if (eviction_callback_) eviction_callback_(...)\<close>, and \<^verbatim>\<open>std::list::erase\<close>.\<close>

definition call_evicted :: "('k, 'v) node \<Rightarrow> ('k, 'v, 'cb) lru \<Rightarrow> ('k, 'v, 'cb) lru" where
  "call_evicted n c =
     (case eviction_callback c of None \<Rightarrow> c | Some f \<Rightarrow> c\<lparr>calls := calls c @ [(f, node_key n, node_value n)]\<rparr>)"

definition erase_node :: "nat \<Rightarrow> ('k, 'v, 'cb) lru \<Rightarrow> ('k, 'v, 'cb) lru" where
  "erase_node p c = c\<lparr>node_list := remove1 p (node_list c), nodes := (nodes c)(p := None)\<rparr>"

definition erase_key :: "'k \<Rightarrow> ('k, 'v, 'cb) lru \<Rightarrow> ('k, 'v, 'cb) lru" where
  "erase_key k c = c\<lparr>hash_map := (hash_map c)(k := None)\<rparr>"

definition move_to_front :: "nat \<Rightarrow> ('k, 'v, 'cb) lru \<Rightarrow> ('k, 'v, 'cb) lru option" where
  "move_to_front p c =
     (if p \<notin> set (node_list c) then None
      else if p \<noteq> hd (node_list c) then Some (c\<lparr>node_list := p # remove1 p (node_list c)\<rparr>)
      else Some c)"

definition evict_lru :: "('k, 'v, 'cb) lru \<Rightarrow> ('k, 'v, 'cb) lru option" where
  "evict_lru c =
     (if node_list c = [] then Some c
      else let p = last (node_list c) in
        case nodes c p of
          None \<Rightarrow> None
        | Some n \<Rightarrow> Some (erase_node p (erase_key (node_key n) (call_evicted n c))))"

text \<open>The two overloads of \<^verbatim>\<open>get\<close>: the value is copied out, or its node is returned.\<close>

definition get_node :: "'k \<Rightarrow> ('k, 'v, 'cb) lru \<Rightarrow> (('k, 'v, 'cb) lru \<times> nat option) option" where
  "get_node key c =
     (case hash_map c key of
        None \<Rightarrow> Some (c, None)
      | Some p \<Rightarrow> (case move_to_front p c of None \<Rightarrow> None | Some c \<Rightarrow> Some (c, Some p)))"

definition lru_get :: "'k \<Rightarrow> ('k, 'v, 'cb) lru \<Rightarrow> (('k, 'v, 'cb) lru \<times> 'v option) option" where
  "lru_get key c =
     (case hash_map c key of
        None \<Rightarrow> Some (c, None)
      | Some p \<Rightarrow>
          (case move_to_front p c of
             None \<Rightarrow> None
           | Some c \<Rightarrow> (case nodes c p of None \<Rightarrow> None | Some n \<Rightarrow> Some (c, Some (node_value n)))))"

definition emplace_front :: "'k \<Rightarrow> 'v \<Rightarrow> ('k, 'v, 'cb) lru \<Rightarrow> ('k, 'v, 'cb) lru" where
  "emplace_front key value c =
     c\<lparr>node_list := next_node c # node_list c, nodes := (nodes c)(next_node c \<mapsto> \<lparr>node_key = key, node_value = value\<rparr>),
       next_node := Suc (next_node c)\<rparr>"

definition lru_put :: "'k \<Rightarrow> 'v \<Rightarrow> ('k, 'v, 'cb) lru \<Rightarrow> (('k, 'v, 'cb) lru \<times> bool) option" where
  "lru_put key value c =
     (case hash_map c key of
        Some p \<Rightarrow>
          (case nodes c p of
             None \<Rightarrow> None
           | Some n \<Rightarrow>
               (case move_to_front p (c\<lparr>nodes := (nodes c)(p \<mapsto> n\<lparr>node_value := value\<rparr>)\<rparr>) of
                  None \<Rightarrow> None
                | Some c \<Rightarrow> Some (c, False)))
      | None \<Rightarrow>
          (case (if c_capacity c \<le> length (node_list c) then evict_lru c else Some c) of
             None \<Rightarrow> None
           | Some c \<Rightarrow>
               let c = emplace_front key value c in
               Some (c\<lparr>hash_map := (hash_map c)(key \<mapsto> hd (node_list c))\<rparr>, True)))"

definition lru_remove :: "'k \<Rightarrow> ('k, 'v, 'cb) lru \<Rightarrow> (('k, 'v, 'cb) lru \<times> bool) option" where
  "lru_remove key c =
     (case hash_map c key of
        None \<Rightarrow> Some (c, False)
      | Some p \<Rightarrow>
          (case nodes c p of
             None \<Rightarrow> None
           | Some n \<Rightarrow> Some (erase_key key (erase_node p (call_evicted n c)), True)))"

definition lru_contains :: "'k \<Rightarrow> ('k, 'v, 'cb) lru \<Rightarrow> bool" where
  "lru_contains key c = (hash_map c key \<noteq> None)"

fun call_all :: "nat list \<Rightarrow> ('k, 'v, 'cb) lru \<Rightarrow> ('k, 'v, 'cb) lru option" where
  "call_all [] c = Some c"
| "call_all (p # ps) c = (case nodes c p of None \<Rightarrow> None | Some n \<Rightarrow> call_all ps (call_evicted n c))"

definition lru_clear :: "('k, 'v, 'cb) lru \<Rightarrow> ('k, 'v, 'cb) lru option" where
  "lru_clear c =
     (case (if eviction_callback c \<noteq> None then call_all (node_list c) c else Some c) of
        None \<Rightarrow> None
      | Some c \<Rightarrow> Some (c\<lparr>node_list := [], nodes := (\<lambda>p. if p \<in> set (node_list c) then None else nodes c p), hash_map := (\<lambda>_. None)\<rparr>))"

definition lru_size :: "('k, 'v, 'cb) lru \<Rightarrow> nat" where
  "lru_size c = length (node_list c)"

definition lru_capacity :: "('k, 'v, 'cb) lru \<Rightarrow> nat" where
  "lru_capacity c = c_capacity c"

definition lru_empty :: "('k, 'v, 'cb) lru \<Rightarrow> bool" where
  "lru_empty c = (node_list c = [])"

lemma evict_lru_length: "evict_lru c = Some c' \<Longrightarrow> length (node_list c') = length (node_list c) - 1"
  by (auto simp: evict_lru_def erase_node_def erase_key_def call_evicted_def length_remove1 Let_def split: if_splits option.splits)

text \<open>The loop of \<^verbatim>\<open>set_capacity\<close>.\<close>

function evict_excess :: "('k, 'v, 'cb) lru \<Rightarrow> ('k, 'v, 'cb) lru option" where
  "evict_excess c =
     (if c_capacity c < length (node_list c)
      then (case evict_lru c of None \<Rightarrow> None | Some c \<Rightarrow> evict_excess c)
      else Some c)"
  by pat_completeness auto
termination
  by (relation "measure (\<lambda>c. length (node_list c))") (auto dest: evict_lru_length)

declare evict_excess.simps [simp del]

definition set_capacity :: "nat \<Rightarrow> ('k, 'v, 'cb) lru \<Rightarrow> ('k, 'v, 'cb) lru option" where
  "set_capacity new_capacity c =
     (let new_capacity = (if new_capacity = 0 then 1 else new_capacity) in evict_excess (c\<lparr>c_capacity := new_capacity\<rparr>))"

text \<open>\<^verbatim>\<open>for_each\<close>: the arguments that the function is called with.\<close>

fun for_each_loop :: "nat list \<Rightarrow> ('k, 'v, 'cb) lru \<Rightarrow> ('k \<times> 'v) list option" where
  "for_each_loop [] c = Some []"
| "for_each_loop (p # ps) c =
     (case nodes c p of
        None \<Rightarrow> None
      | Some n \<Rightarrow> map_option (\<lambda>es. (node_key n, node_value n) # es) (for_each_loop ps c))"

definition for_each :: "('k, 'v, 'cb) lru \<Rightarrow> ('k \<times> 'v) list option" where
  "for_each c = for_each_loop (node_list c) c"

fun remove_if_loop ::
  "('k \<Rightarrow> 'v \<Rightarrow> bool) \<Rightarrow> nat list \<Rightarrow> nat \<Rightarrow> ('k, 'v, 'cb) lru \<Rightarrow> (('k, 'v, 'cb) lru \<times> nat) option" where
  "remove_if_loop predicate [] removed_count c = Some (c, removed_count)"
| "remove_if_loop predicate (p # ps) removed_count c =
     (case nodes c p of
        None \<Rightarrow> None
      | Some n \<Rightarrow>
          if predicate (node_key n) (node_value n)
          then remove_if_loop predicate ps (removed_count + 1) (erase_node p (erase_key (node_key n) (call_evicted n c)))
          else remove_if_loop predicate ps removed_count c)"

definition remove_if :: "('k \<Rightarrow> 'v \<Rightarrow> bool) \<Rightarrow> ('k, 'v, 'cb) lru \<Rightarrow> (('k, 'v, 'cb) lru \<times> nat) option" where
  "remove_if predicate c = remove_if_loop predicate (node_list c) 0 c"

section \<open>The specification\<close>

text \<open>The entries, most recently used first, each key once; every entry that leaves by eviction or removal
  is reported to the callback.\<close>

record ('k, 'v, 'cb) recency =
  r_capacity :: nat
  r_items :: "('k \<times> 'v) list"
  r_callback :: "'cb option"
  r_calls :: "('cb \<times> 'k \<times> 'v) list"

definition without :: "'k \<Rightarrow> ('k \<times> 'v) list \<Rightarrow> ('k \<times> 'v) list" where
  "without k es = filter (\<lambda>e. fst e \<noteq> k) es"

definition r_report :: "('k \<times> 'v) list \<Rightarrow> ('k, 'v, 'cb) recency \<Rightarrow> ('k, 'v, 'cb) recency" where
  "r_report es s = (case r_callback s of None \<Rightarrow> s | Some f \<Rightarrow> s\<lparr>r_calls := r_calls s @ map (Pair f) es\<rparr>)"

definition r_keep :: "nat \<Rightarrow> ('k, 'v, 'cb) recency \<Rightarrow> ('k, 'v, 'cb) recency" where
  "r_keep n s = (r_report (rev (drop n (r_items s))) s)\<lparr>r_items := take n (r_items s)\<rparr>"

definition r_get :: "'k \<Rightarrow> ('k, 'v, 'cb) recency \<Rightarrow> ('k, 'v, 'cb) recency \<times> 'v option" where
  "r_get k s =
     (case map_of (r_items s) k of
        None \<Rightarrow> (s, None)
      | Some v \<Rightarrow> (s\<lparr>r_items := (k, v) # without k (r_items s)\<rparr>, Some v))"

definition r_put :: "'k \<Rightarrow> 'v \<Rightarrow> ('k, 'v, 'cb) recency \<Rightarrow> ('k, 'v, 'cb) recency \<times> bool" where
  "r_put k v s =
     (if map_of (r_items s) k \<noteq> None then (s\<lparr>r_items := (k, v) # without k (r_items s)\<rparr>, False)
      else let s = r_keep (r_capacity s - 1) s in (s\<lparr>r_items := (k, v) # r_items s\<rparr>, True))"

definition r_remove :: "'k \<Rightarrow> ('k, 'v, 'cb) recency \<Rightarrow> ('k, 'v, 'cb) recency \<times> bool" where
  "r_remove k s =
     (case map_of (r_items s) k of
        None \<Rightarrow> (s, False)
      | Some v \<Rightarrow> ((r_report [(k, v)] s)\<lparr>r_items := without k (r_items s)\<rparr>, True))"

definition r_clear :: "('k, 'v, 'cb) recency \<Rightarrow> ('k, 'v, 'cb) recency" where
  "r_clear s = (r_report (r_items s) s)\<lparr>r_items := []\<rparr>"

definition r_set_capacity :: "nat \<Rightarrow> ('k, 'v, 'cb) recency \<Rightarrow> ('k, 'v, 'cb) recency" where
  "r_set_capacity n s = (r_keep (max 1 n) s)\<lparr>r_capacity := max 1 n\<rparr>"

definition r_remove_if :: "('k \<Rightarrow> 'v \<Rightarrow> bool) \<Rightarrow> ('k, 'v, 'cb) recency \<Rightarrow> ('k, 'v, 'cb) recency \<times> nat" where
  "r_remove_if P s =
     (let es = filter (\<lambda>(k, v). P k v) (r_items s) in
      ((r_report es s)\<lparr>r_items := filter (\<lambda>(k, v). \<not> P k v) (r_items s)\<rparr>, length es))"

section \<open>Sequences of calls\<close>

datatype ('k, 'v, 'cb) lru_op =
  op_get 'k | op_find 'k | op_put 'k 'v | op_remove 'k | op_contains 'k | op_clear | op_size | op_capacity | op_empty |
  op_set_capacity nat | op_for_each | op_remove_if "'k \<Rightarrow> 'v \<Rightarrow> bool" | op_set_callback "'cb option"

datatype ('k, 'v) lru_res = res_unit | res_bool bool | res_nat nat | res_value "'v option" | res_items "('k \<times> 'v) list"

text \<open>A caller that reads the value through the pointer it got.\<close>

definition lru_find :: "'k \<Rightarrow> ('k, 'v, 'cb) lru \<Rightarrow> (('k, 'v, 'cb) lru \<times> 'v option) option" where
  "lru_find k c =
     (case get_node k c of
        None \<Rightarrow> None
      | Some (c, None) \<Rightarrow> Some (c, None)
      | Some (c, Some p) \<Rightarrow> (case nodes c p of None \<Rightarrow> None | Some n \<Rightarrow> Some (c, Some (node_value n))))"

definition lru_step :: "('k, 'v, 'cb) lru_op \<Rightarrow> ('k, 'v, 'cb) lru \<Rightarrow> (('k, 'v, 'cb) lru \<times> ('k, 'v) lru_res) option" where
  "lru_step op c =
     (case op of
        op_get k \<Rightarrow> map_option (map_prod id res_value) (lru_get k c)
      | op_find k \<Rightarrow> map_option (map_prod id res_value) (lru_find k c)
      | op_put k v \<Rightarrow> map_option (map_prod id res_bool) (lru_put k v c)
      | op_remove k \<Rightarrow> map_option (map_prod id res_bool) (lru_remove k c)
      | op_contains k \<Rightarrow> Some (c, res_bool (lru_contains k c))
      | op_clear \<Rightarrow> map_option (\<lambda>c. (c, res_unit)) (lru_clear c)
      | op_size \<Rightarrow> Some (c, res_nat (lru_size c))
      | op_capacity \<Rightarrow> Some (c, res_nat (lru_capacity c))
      | op_empty \<Rightarrow> Some (c, res_bool (lru_empty c))
      | op_set_capacity n \<Rightarrow> map_option (\<lambda>c. (c, res_unit)) (set_capacity n c)
      | op_for_each \<Rightarrow> map_option (\<lambda>es. (c, res_items es)) (for_each c)
      | op_remove_if P \<Rightarrow> map_option (map_prod id res_nat) (remove_if P c)
      | op_set_callback f \<Rightarrow> Some (set_eviction_callback f c, res_unit))"

definition r_step :: "('k, 'v, 'cb) lru_op \<Rightarrow> ('k, 'v, 'cb) recency \<Rightarrow> ('k, 'v, 'cb) recency \<times> ('k, 'v) lru_res" where
  "r_step op s =
     (case op of
        op_get k \<Rightarrow> map_prod id res_value (r_get k s)
      | op_find k \<Rightarrow> map_prod id res_value (r_get k s)
      | op_put k v \<Rightarrow> map_prod id res_bool (r_put k v s)
      | op_remove k \<Rightarrow> map_prod id res_bool (r_remove k s)
      | op_contains k \<Rightarrow> (s, res_bool (map_of (r_items s) k \<noteq> None))
      | op_clear \<Rightarrow> (r_clear s, res_unit)
      | op_size \<Rightarrow> (s, res_nat (length (r_items s)))
      | op_capacity \<Rightarrow> (s, res_nat (r_capacity s))
      | op_empty \<Rightarrow> (s, res_bool (r_items s = []))
      | op_set_capacity n \<Rightarrow> (r_set_capacity n s, res_unit)
      | op_for_each \<Rightarrow> (s, res_items (r_items s))
      | op_remove_if P \<Rightarrow> map_prod id res_nat (r_remove_if P s)
      | op_set_callback f \<Rightarrow> (s\<lparr>r_callback := f\<rparr>, res_unit))"

end
