(* ===== verification/LruRefine.thy ===== *)
theory LruRefine
  imports LruCache
begin

text \<open>
  The cache refines its specification: in every state that satisfies the invariant, each member
  function has a defined result, keeps the invariant and does to the entries, the capacity and the
  calls of the eviction callback what the specification says.
\<close>

section \<open>The invariant and the abstraction\<close>

text \<open>The map and the list refer to the same nodes, each under its own key.\<close>

definition linked :: "('k, 'v, 'cb) lru \<Rightarrow> bool" where
  "linked c \<longleftrightarrow> distinct (node_list c) \<and>
     (\<forall>p \<in> set (node_list c). p < next_node c \<and> (\<exists>n. nodes c p = Some n \<and> hash_map c (node_key n) = Some p)) \<and>
     (\<forall>k p. hash_map c k = Some p \<longrightarrow> p \<in> set (node_list c) \<and> (\<exists>n. nodes c p = Some n \<and> node_key n = k))"

definition lru_ok :: "('k, 'v, 'cb) lru \<Rightarrow> bool" where
  "lru_ok c \<longleftrightarrow> linked c \<and> 1 \<le> c_capacity c \<and> length (node_list c) \<le> c_capacity c"

definition entry :: "('k, 'v, 'cb) lru \<Rightarrow> nat \<Rightarrow> 'k \<times> 'v" where
  "entry c p = (case nodes c p of Some n \<Rightarrow> (node_key n, node_value n) | None \<Rightarrow> undefined)"

definition lru_items :: "('k, 'v, 'cb) lru \<Rightarrow> ('k \<times> 'v) list" where
  "lru_items c = map (entry c) (node_list c)"

definition recency_of :: "('k, 'v, 'cb) lru \<Rightarrow> ('k, 'v, 'cb) recency" where
  "recency_of c = \<lparr>r_capacity = c_capacity c, r_items = lru_items c, r_callback = eviction_callback c, r_calls = calls c\<rparr>"

lemma length_lru_items: "length (lru_items c) = length (node_list c)"
  by (simp add: lru_items_def)

lemma recency_of_fields [simp]:
  "r_capacity (recency_of c) = c_capacity c" "r_items (recency_of c) = lru_items c"
  "r_callback (recency_of c) = eviction_callback c" "r_calls (recency_of c) = calls c"
  by (simp_all add: recency_of_def)

lemma entry_node: "nodes c p = Some n \<Longrightarrow> entry c p = (node_key n, node_value n)"
  by (simp add: entry_def)

lemma linkedD:
  assumes "linked c" "p \<in> set (node_list c)"
  obtains n where "nodes c p = Some n" "hash_map c (node_key n) = Some p" "entry c p = (node_key n, node_value n)" "p < next_node c"
  using assms by (auto simp: linked_def entry_def)

lemma linked_hash:
  assumes "linked c" "hash_map c k = Some p"
  obtains n where "p \<in> set (node_list c)" "nodes c p = Some n" "node_key n = k" "entry c p = (k, node_value n)"
proof -
  have "p \<in> set (node_list c) \<and> (\<exists>n. nodes c p = Some n \<and> node_key n = k)" using assms unfolding linked_def by blast
  then show ?thesis using that entry_node by metis
qed

lemma key_inject:
  assumes "linked c" "p \<in> set (node_list c)" "q \<in> set (node_list c)"
  shows "fst (entry c p) = fst (entry c q) \<longleftrightarrow> p = q"
proof -
  obtain n where n: "nodes c p = Some n" "hash_map c (node_key n) = Some p" "entry c p = (node_key n, node_value n)" using assms(1,2) by (rule linkedD)
  obtain m where m: "nodes c q = Some m" "hash_map c (node_key m) = Some q" "entry c q = (node_key m, node_value m)" using assms(1,3) by (rule linkedD)
  show ?thesis using n m by auto
qed

lemma distinct_keys: "linked c \<Longrightarrow> distinct (map fst (lru_items c))"
  using key_inject [of c] by (auto simp: lru_items_def distinct_map linked_def inj_on_def)

lemma map_of_items: "linked c \<Longrightarrow> map_of (lru_items c) k = map_option (\<lambda>p. snd (entry c p)) (hash_map c k)"
proof (cases "hash_map c k")
  case None
  assume l: "linked c"
  have "k \<notin> fst ` set (lru_items c)"
  proof
    assume "k \<in> fst ` set (lru_items c)"
    then obtain p where "p \<in> set (node_list c)" "fst (entry c p) = k" by (auto simp: lru_items_def)
    then show False using linkedD [OF l] None by (metis fst_conv option.distinct(1))
  qed
  then show ?thesis using None by (simp add: map_of_eq_None_iff)
next
  case (Some p)
  assume l: "linked c"
  obtain n where "p \<in> set (node_list c)" "nodes c p = Some n" "entry c p = (k, node_value n)" using l Some by (rule linked_hash)
  then have "(k, node_value n) \<in> set (lru_items c)" by (force simp: lru_items_def)
  then show ?thesis using distinct_keys [OF l] Some \<open>entry c p = (k, node_value n)\<close> by simp
qed

lemma without_entry:
  assumes "linked c" "p \<in> set (node_list c)"
  shows "without (fst (entry c p)) (lru_items c) = map (entry c) (remove1 p (node_list c))"
proof -
  have "filter (\<lambda>q. fst (entry c q) \<noteq> fst (entry c p)) (node_list c) = filter (\<lambda>q. q \<noteq> p) (node_list c)"
    using key_inject [OF assms(1)] assms(2) by (intro filter_cong) auto
  moreover have "remove1 p (node_list c) = filter (\<lambda>q. q \<noteq> p) (node_list c)"
    using assms(1) by (simp add: linked_def distinct_remove1_removeAll removeAll_filter_not_eq eq_commute)
  ultimately show ?thesis by (simp add: without_def lru_items_def filter_map o_def)
qed

text \<open>The invariant does not depend on the values.\<close>

lemma linked_keys:
  assumes "linked c" "node_list d = node_list c" "hash_map d = hash_map c" "next_node d = next_node c"
    and keys: "\<And>p. map_option node_key (nodes d p) = map_option node_key (nodes c p)"
  shows "linked d"
proof -
  have "(\<exists>n. nodes d p = Some n \<and> Q (node_key n)) \<longleftrightarrow> (\<exists>n. nodes c p = Some n \<and> Q (node_key n))" for p Q
    using keys [of p] by (cases "nodes c p"; cases "nodes d p") auto
  from this [of _ "\<lambda>k. hash_map c k = Some _"] this [of _ "\<lambda>k. k = _"] show ?thesis
    using assms(1) unfolding linked_def assms(2-4) by simp
qed

section \<open>Moving to the front\<close>

lemma entry_list [simp]: "entry (c\<lparr>node_list := ps\<rparr>) = entry c"
  by (simp add: entry_def fun_eq_iff)

lemma move_to_front_refines:
  assumes "linked c" "p \<in> set (node_list c)"
  shows "\<exists>c'. move_to_front p c = Some c' \<and> c' = c\<lparr>node_list := p # remove1 p (node_list c)\<rparr>"
proof (cases "node_list c")
  case (Cons q qs)
  then show ?thesis using assms by (auto simp: move_to_front_def)
qed (use assms in simp)

lemma linked_front:
  assumes "linked c" "p \<in> set (node_list c)"
  shows "linked (c\<lparr>node_list := p # remove1 p (node_list c)\<rparr>)" "length (p # remove1 p (node_list c)) = length (node_list c)"
proof -
  have "set (p # remove1 p (node_list c)) = set (node_list c)" "distinct (p # remove1 p (node_list c))"
    using assms by (auto simp: linked_def)
  then show "linked (c\<lparr>node_list := p # remove1 p (node_list c)\<rparr>)" using assms(1) unfolding linked_def by simp
  show "length (p # remove1 p (node_list c)) = length (node_list c)"
    using assms(2) by (simp add: length_remove1) (metis Suc_pred length_pos_if_in_set)
qed

lemma lru_ok_front: "lru_ok c \<Longrightarrow> p \<in> set (node_list c) \<Longrightarrow> lru_ok (c\<lparr>node_list := p # remove1 p (node_list c)\<rparr>)"
  using linked_front [of c p] by (simp add: lru_ok_def)

lemma items_front:
  "linked c \<Longrightarrow> p \<in> set (node_list c) \<Longrightarrow>
   lru_items (c\<lparr>node_list := p # remove1 p (node_list c)\<rparr>) = entry c p # without (fst (entry c p)) (lru_items c)"
  by (simp add: without_entry) (simp add: lru_items_def)

lemma get_refines:
  assumes "lru_ok c"
  shows "\<exists>c' r. lru_get k c = Some (c', r) \<and> lru_ok c' \<and> r_get k (recency_of c) = (recency_of c', r)"
proof (cases "hash_map c k")
  case None
  then show ?thesis using assms map_of_items [of c k] by (simp add: lru_get_def r_get_def lru_ok_def)
next
  case (Some p)
  have l: "linked c" using assms by (simp add: lru_ok_def)
  obtain n where n: "p \<in> set (node_list c)" "nodes c p = Some n" "entry c p = (k, node_value n)"
    using l Some by (rule linked_hash)
  let ?c = "c\<lparr>node_list := p # remove1 p (node_list c)\<rparr>"
  have "lru_get k c = Some (?c, Some (node_value n))"
    using move_to_front_refines [OF l n(1)] Some n(2) by (auto simp: lru_get_def)
  moreover have "r_get k (recency_of c) = (recency_of ?c, Some (node_value n))"
    using map_of_items [OF l, of k] Some n(3) items_front [OF l n(1)] by (simp add: r_get_def recency_of_def)
  ultimately show ?thesis using lru_ok_front [OF assms n(1)] by blast
qed

lemma find_get: "lru_ok c \<Longrightarrow> lru_find k c = lru_get k c"
  by (auto simp: lru_find_def get_node_def lru_get_def split: option.split)

section \<open>Entries that leave\<close>

definition drop_node :: "nat \<Rightarrow> ('k, 'v) node \<Rightarrow> ('k, 'v, 'cb) lru \<Rightarrow> ('k, 'v, 'cb) lru" where
  "drop_node p n c = erase_node p (erase_key (node_key n) (call_evicted n c))"

lemma drop_fields [simp]:
  "node_list (drop_node p n c) = remove1 p (node_list c)" "nodes (drop_node p n c) = (nodes c)(p := None)"
  "hash_map (drop_node p n c) = (hash_map c)(node_key n := None)" "c_capacity (drop_node p n c) = c_capacity c"
  "eviction_callback (drop_node p n c) = eviction_callback c" "next_node (drop_node p n c) = next_node c"
  by (simp_all add: drop_node_def erase_node_def erase_key_def call_evicted_def split: option.split)

lemma entry_drop: "q \<noteq> p \<Longrightarrow> entry (drop_node p n c) q = entry c q"
  by (simp add: entry_def)

lemma linked_drop:
  assumes "linked c" "p \<in> set (node_list c)" "nodes c p = Some n"
  shows "linked (drop_node p n c)"
proof -
  have d: "distinct (node_list c)" using assms(1) by (simp add: linked_def)
  have h: "hash_map c (node_key n) = Some p" using assms by (auto simp: linked_def)
  have "q < next_node c \<and> (\<exists>m. ((nodes c)(p := None)) q = Some m \<and> ((hash_map c)(node_key n := None)) (node_key m) = Some q)"
    if q: "q \<in> set (node_list c)" "q \<noteq> p" for q
  proof -
    obtain m where m: "nodes c q = Some m" "hash_map c (node_key m) = Some q" "q < next_node c"
      using assms(1) q(1) by (rule linkedD)
    moreover have "node_key m \<noteq> node_key n" using m(2) h q(2) by auto
    ultimately show ?thesis using q(2) by simp
  qed
  moreover have "q \<in> set (node_list c) \<and> q \<noteq> p \<and> (\<exists>m. ((nodes c)(p := None)) q = Some m \<and> node_key m = k)"
    if q: "hash_map c k = Some q" "k \<noteq> node_key n" for k q
  proof -
    obtain m where m: "q \<in> set (node_list c)" "nodes c q = Some m" "node_key m = k" using assms(1) q(1) by (rule linked_hash)
    then show ?thesis using assms(3) q(2) by auto
  qed
  ultimately have a: "\<forall>q \<in> set (node_list c) - {p}. q < next_node c \<and>
      (\<exists>m. ((nodes c)(p := None)) q = Some m \<and> ((hash_map c)(node_key n := None)) (node_key m) = Some q)"
    and b: "\<forall>k q. ((hash_map c)(node_key n := None)) k = Some q \<longrightarrow> q \<in> set (node_list c) - {p} \<and>
      (\<exists>m. ((nodes c)(p := None)) q = Some m \<and> node_key m = k)"
    by (blast, metis Diff_iff fun_upd_apply option.distinct(1) singletonD)
  show ?thesis unfolding linked_def drop_fields set_remove1_eq [OF d] by (intro conjI a b distinct_remove1 d)
qed

lemma r_report_simps [simp]:
  "r_report [] s = s" "r_items (r_report es s) = r_items s" "r_callback (r_report es s) = r_callback s"
  "r_capacity (r_report es s) = r_capacity s" "r_report es (s\<lparr>r_items := xs\<rparr>) = (r_report es s)\<lparr>r_items := xs\<rparr>"
  by (simp_all add: r_report_def split: option.split)

lemma r_report_append: "r_report (es @ fs) s = r_report fs (r_report es s)"
  by (simp add: r_report_def split: option.split)

lemma recency_drop:
  assumes "linked c" "p \<in> set (node_list c)" "nodes c p = Some n"
  shows "recency_of (drop_node p n c) = (r_report [entry c p] (recency_of c))\<lparr>r_items := map (entry c) (remove1 p (node_list c))\<rparr>"
proof -
  have "p \<notin> set (remove1 p (node_list c))" using assms(1) by (simp add: linked_def)
  then have "lru_items (drop_node p n c) = map (entry c) (remove1 p (node_list c))"
    unfolding lru_items_def drop_fields by (intro map_cong refl entry_drop) metis
  then show ?thesis
    using entry_node [OF assms(3)]
    by (simp add: recency_of_def r_report_def)
      (simp add: drop_node_def erase_node_def erase_key_def call_evicted_def split: option.split)
qed

lemma remove1_last: "distinct xs \<Longrightarrow> xs \<noteq> [] \<Longrightarrow> remove1 (last xs) xs = butlast xs"
  by (induction xs) auto

text \<open>Eviction of the entry that was not used for the longest time.\<close>

lemma evict_refines:
  assumes "linked c" "node_list c \<noteq> []"
  shows "\<exists>c'. evict_lru c = Some c' \<and> linked c' \<and> c_capacity c' = c_capacity c \<and>
    recency_of c' = (r_report [last (lru_items c)] (recency_of c))\<lparr>r_items := butlast (lru_items c)\<rparr>"
proof -
  let ?p = "last (node_list c)"
  have p: "?p \<in> set (node_list c)" using assms(2) by simp
  obtain n where n: "nodes c ?p = Some n" using assms(1) p by (rule linkedD)
  have "evict_lru c = Some (drop_node ?p n c)" using assms(2) n by (simp add: evict_lru_def drop_node_def)
  moreover have "lru_items c \<noteq> []" "last (lru_items c) = entry c ?p" using assms(2) by (simp_all add: lru_items_def last_map)
  moreover have "butlast (lru_items c) = map (entry c) (remove1 ?p (node_list c))"
    using remove1_last [of "node_list c"] assms by (simp add: lru_items_def map_butlast linked_def)
  ultimately show ?thesis using recency_drop [OF assms(1) p n] linked_drop [OF assms(1) p n] by simp
qed

lemma remove_refines:
  assumes "lru_ok c"
  shows "\<exists>c' r. lru_remove k c = Some (c', r) \<and> lru_ok c' \<and> r_remove k (recency_of c) = (recency_of c', r)"
proof (cases "hash_map c k")
  case None
  then show ?thesis using assms map_of_items [of c k] by (auto simp: lru_remove_def r_remove_def lru_ok_def)
next
  case (Some p)
  have l: "linked c" using assms by (simp add: lru_ok_def)
  obtain n where n: "p \<in> set (node_list c)" "nodes c p = Some n" "node_key n = k" "entry c p = (k, node_value n)"
    using l Some by (rule linked_hash)
  have "lru_remove k c = Some (drop_node p n c, True)"
    using Some n by (simp add: lru_remove_def drop_node_def erase_key_def erase_node_def)
  moreover have "r_remove k (recency_of c) = (recency_of (drop_node p n c), True)"
    using map_of_items [OF l, of k] Some n(4) recency_drop [OF l n(1,2)] without_entry [OF l n(1)] by (simp add: r_remove_def)
  moreover have "lru_ok (drop_node p n c)"
    using assms linked_drop [OF l n(1,2)] n(1) by (auto simp: lru_ok_def length_remove1)
  ultimately show ?thesis by blast
qed

section \<open>Insertion\<close>

lemma put_old_refines:
  assumes "lru_ok c" "hash_map c k = Some p"
  shows "\<exists>c' r. lru_put k v c = Some (c', r) \<and> lru_ok c' \<and> r_put k v (recency_of c) = (recency_of c', r)"
proof -
  have l: "linked c" using assms(1) by (simp add: lru_ok_def)
  obtain n where n: "p \<in> set (node_list c)" "nodes c p = Some n" "node_key n = k" "entry c p = (k, node_value n)"
    using l assms(2) by (rule linked_hash)
  let ?c = "c\<lparr>nodes := (nodes c)(p \<mapsto> n\<lparr>node_value := v\<rparr>)\<rparr>"
  have l': "linked ?c" by (rule linked_keys [OF l]) (use n(2) in simp_all)
  have e: "entry ?c q = (if q = p then (k, v) else entry c q)" for q using n(3) by (simp add: entry_def)
  have p: "p \<in> set (node_list ?c)" using n(1) by simp
  let ?d = "?c\<lparr>node_list := p # remove1 p (node_list ?c)\<rparr>"
  have "p \<notin> set (remove1 p (node_list c))" using l by (simp add: linked_def)
  then have "map (entry ?c) (remove1 p (node_list c)) = map (entry c) (remove1 p (node_list c))" by (auto simp: e)
  then have "lru_items ?d = (k, v) # without k (lru_items c)"
    using items_front [OF l' p] without_entry [OF l' p] without_entry [OF l n(1)] n(4) by (simp add: e)
  then have "r_put k v (recency_of c) = (recency_of ?d, False)"
    using map_of_items [OF l, of k] assms(2) by (simp add: r_put_def recency_of_def)
  moreover have "lru_put k v c = Some (?d, False)"
    using move_to_front_refines [OF l' p] assms(2) n(2) by (auto simp: lru_put_def)
  moreover have "lru_ok ?d" using lru_ok_front [OF _ p] assms(1) l' by (simp add: lru_ok_def)
  ultimately show ?thesis by blast
qed

text \<open>Room for one more entry.\<close>

lemma make_room:
  assumes "lru_ok c"
  shows "\<exists>c'. (if c_capacity c \<le> length (node_list c) then evict_lru c else Some c) = Some c' \<and> linked c' \<and>
    c_capacity c' = c_capacity c \<and> recency_of c' = r_keep (c_capacity c - 1) (recency_of c)"
proof (cases "c_capacity c \<le> length (node_list c)")
  case True
  then have len: "length (lru_items c) = c_capacity c" "node_list c \<noteq> []" using assms by (auto simp: lru_ok_def lru_items_def)
  obtain es e where es: "lru_items c = es @ [e]" using len by (cases "lru_items c" rule: rev_cases) (auto simp: lru_items_def)
  then have "take (c_capacity c - 1) (lru_items c) = butlast (lru_items c)" "drop (c_capacity c - 1) (lru_items c) = [last (lru_items c)]"
    using len(1) by auto
  then show ?thesis using True evict_refines [OF _ len(2)] assms by (simp add: r_keep_def lru_ok_def)
next
  case False
  then have "take (c_capacity c - 1) (lru_items c) = lru_items c" "drop (c_capacity c - 1) (lru_items c) = []" by (simp_all add: lru_items_def)
  then show ?thesis using False assms by (simp add: r_keep_def lru_ok_def recency_of_def)
qed

text \<open>A new node in front, known under a key that was not in use.\<close>

definition add_new :: "'k \<Rightarrow> 'v \<Rightarrow> ('k, 'v, 'cb) lru \<Rightarrow> ('k, 'v, 'cb) lru" where
  "add_new k v c = (let c = emplace_front k v c in c\<lparr>hash_map := (hash_map c)(k \<mapsto> hd (node_list c))\<rparr>)"

lemma add_new_fields [simp]:
  "node_list (add_new k v c) = next_node c # node_list c"
  "nodes (add_new k v c) = (nodes c)(next_node c \<mapsto> \<lparr>node_key = k, node_value = v\<rparr>)"
  "hash_map (add_new k v c) = (hash_map c)(k \<mapsto> next_node c)" "next_node (add_new k v c) = Suc (next_node c)"
  "c_capacity (add_new k v c) = c_capacity c" "eviction_callback (add_new k v c) = eviction_callback c" "calls (add_new k v c) = calls c"
  by (simp_all add: add_new_def emplace_front_def Let_def)

lemma linked_new:
  assumes "linked c" "hash_map c k = None"
  shows "linked (add_new k v c)"
proof -
  let ?p = "next_node c"
  have p: "?p \<notin> set (node_list c)" using assms(1) by (auto simp: linked_def)
  have a: "q < Suc ?p \<and> (\<exists>n. nodes (add_new k v c) q = Some n \<and> hash_map (add_new k v c) (node_key n) = Some q)"
    if q: "q \<in> set (node_list c)" for q
  proof -
    obtain n where n: "nodes c q = Some n" "hash_map c (node_key n) = Some q" "q < ?p" using assms(1) q by (rule linkedD)
    moreover have "node_key n \<noteq> k" using n(2) assms(2) by auto
    ultimately show ?thesis by auto
  qed
  have b: "q \<in> set (node_list c) \<and> (\<exists>n. nodes (add_new k v c) q = Some n \<and> node_key n = k')" if q: "hash_map c k' = Some q" for k' q
  proof -
    obtain n where "q \<in> set (node_list c)" "nodes c q = Some n" "node_key n = k'" using assms(1) q by (rule linked_hash)
    then show ?thesis using p by auto
  qed
  have "distinct (node_list c)" using assms(1) by (simp add: linked_def)
  then show ?thesis using p a b unfolding linked_def by (auto split: if_splits)
qed

lemma items_new:
  assumes "linked c"
  shows "lru_items (add_new k v c) = (k, v) # lru_items c"
proof -
  have "next_node c \<notin> set (node_list c)" using assms by (auto simp: linked_def)
  then show ?thesis by (auto simp: lru_items_def entry_def intro!: map_cong)
qed

lemma evict_keeps_None: "evict_lru c = Some c' \<Longrightarrow> hash_map c k = None \<Longrightarrow> hash_map c' k = None"
  by (auto simp: evict_lru_def erase_node_def erase_key_def call_evicted_def Let_def split: if_splits option.splits)

lemma r_keep_simps [simp]: "r_items (r_keep n s) = take n (r_items s)" "r_capacity (r_keep n s) = r_capacity s"
  by (simp_all add: r_keep_def)

lemma put_new_refines:
  assumes "lru_ok c" "hash_map c k = None"
  shows "\<exists>c' r. lru_put k v c = Some (c', r) \<and> lru_ok c' \<and> r_put k v (recency_of c) = (recency_of c', r)"
proof -
  obtain d where d: "(if c_capacity c \<le> length (node_list c) then evict_lru c else Some c) = Some d" "linked d"
    "c_capacity d = c_capacity c" "recency_of d = r_keep (c_capacity c - 1) (recency_of c)" using make_room [OF assms(1)] by blast
  have "hash_map d k = None" using d(1) assms(2) evict_keeps_None [of c d k] by (auto split: if_splits)
  then have l: "linked (add_new k v d)" using d(2) by (intro linked_new)
  have "lru_items d = take (c_capacity c - 1) (lru_items c)" using arg_cong [OF d(4), of r_items] by simp
  then have "length (node_list d) \<le> c_capacity c - 1" using length_lru_items [of d] length_lru_items [of c] by simp
  then have "lru_ok (add_new k v d)" using l d(3) assms(1) by (auto simp: lru_ok_def)
  moreover have "lru_put k v c = Some (add_new k v d, True)" using d(1) assms(2) by (simp add: lru_put_def add_new_def Let_def)
  moreover have "(recency_of d)\<lparr>r_items := (k, v) # lru_items d\<rparr> = recency_of (add_new k v d)"
    using items_new [OF d(2)] by (simp add: recency_of_def)
  then have "r_put k v (recency_of c) = (recency_of (add_new k v d), True)"
    using map_of_items [of c k] assms d(4) \<open>lru_items d = _\<close> by (simp add: r_put_def lru_ok_def Let_def)
  ultimately show ?thesis by blast
qed

section \<open>Loops over the list\<close>

lemma call_evicted_fields [simp]:
  "node_list (call_evicted n c) = node_list c" "nodes (call_evicted n c) = nodes c" "hash_map (call_evicted n c) = hash_map c"
  "c_capacity (call_evicted n c) = c_capacity c" "next_node (call_evicted n c) = next_node c"
  "eviction_callback (call_evicted n c) = eviction_callback c" "entry (call_evicted n c) = entry c"
  by (simp_all add: call_evicted_def entry_def fun_eq_iff split: option.split)

lemma call_all_calls:
  assumes "\<forall>p \<in> set ps. nodes c p \<noteq> None" "eviction_callback c = Some f"
  shows "call_all ps c = Some (c\<lparr>calls := calls c @ map (\<lambda>p. (f, entry c p)) ps\<rparr>)"
  using assms
proof (induction ps arbitrary: c)
  case (Cons p ps)
  obtain n where n: "nodes c p = Some n" using Cons.prems by auto
  have "call_all ps (call_evicted n c) = Some ((call_evicted n c)\<lparr>calls := calls (call_evicted n c) @ map (\<lambda>p. (f, entry c p)) ps\<rparr>)"
    using Cons.IH [of "call_evicted n c"] Cons.prems by simp
  then show ?case using n Cons.prems(2) entry_node [OF n] by (simp add: call_evicted_def)
qed simp

lemma clear_refines:
  assumes "lru_ok c"
  shows "\<exists>c'. lru_clear c = Some c' \<and> lru_ok c' \<and> r_clear (recency_of c) = recency_of c'"
proof -
  have "\<forall>p \<in> set (node_list c). nodes c p \<noteq> None" using assms by (auto simp: lru_ok_def linked_def)
  then show ?thesis
    using assms call_all_calls [of "node_list c" c]
    by (cases "eviction_callback c")
      (auto simp: lru_clear_def r_clear_def recency_of_def r_report_def lru_ok_def linked_def lru_items_def)
qed

lemma for_each_refines:
  assumes "lru_ok c"
  shows "for_each c = Some (lru_items c)"
proof -
  have "for_each_loop ps c = Some (map (entry c) ps)" if "\<forall>p \<in> set ps. nodes c p \<noteq> None" for ps
    using that by (induction ps) (auto simp: entry_def)
  moreover have "\<forall>p \<in> set (node_list c). nodes c p \<noteq> None" using assms by (auto simp: lru_ok_def linked_def)
  ultimately show ?thesis by (simp add: for_each_def lru_items_def)
qed

lemma r_keep_step:
  assumes "n < length (r_items s)"
  shows "r_keep n ((r_report [last (r_items s)] s)\<lparr>r_items := butlast (r_items s)\<rparr>) = r_keep n s"
proof -
  obtain xs x where xs: "r_items s = xs @ [x]" using assms by (cases "r_items s" rule: rev_cases) auto
  then have "rev (drop n (r_items s)) = [x] @ rev (drop n xs)" "take n (r_items s) = take n xs" using assms by simp_all
  then have "r_keep n s = (r_report (rev (drop n xs)) (r_report [x] s))\<lparr>r_items := take n xs\<rparr>"
    by (simp only: r_keep_def r_report_append)
  then show ?thesis using xs by (simp add: r_keep_def)
qed

lemma evict_excess_refines:
  "linked c \<Longrightarrow> \<exists>c'. evict_excess c = Some c' \<and> linked c' \<and> c_capacity c' = c_capacity c \<and>
    length (node_list c') \<le> c_capacity c \<and> recency_of c' = r_keep (c_capacity c) (recency_of c)"
proof (induction c rule: evict_excess.induct)
  case (1 c)
  show ?case
  proof (cases "c_capacity c < length (node_list c)")
    case True
    then have "node_list c \<noteq> []" by auto
    then obtain d where d: "evict_lru c = Some d" "linked d" "c_capacity d = c_capacity c"
      "recency_of d = (r_report [last (lru_items c)] (recency_of c))\<lparr>r_items := butlast (lru_items c)\<rparr>"
      using evict_refines [OF "1.prems"] by blast
    have "r_keep (c_capacity c) (recency_of d) = r_keep (c_capacity c) (recency_of c)"
      unfolding d(4) using r_keep_step [of "c_capacity c" "recency_of c"] True by (simp add: lru_items_def)
    then show ?thesis
      using "1.IH" [OF True d(1,2)] True d(1,3) by (simp add: evict_excess.simps [of c])
  next
    case False
    then have "recency_of c = r_keep (c_capacity c) (recency_of c)" by (simp add: r_keep_def length_lru_items)
    then show ?thesis using False "1.prems" by (simp add: evict_excess.simps [of c])
  qed
qed

lemma set_capacity_refines:
  assumes "lru_ok c"
  shows "\<exists>c'. set_capacity n c = Some c' \<and> lru_ok c' \<and> r_set_capacity n (recency_of c) = recency_of c'"
proof -
  let ?c = "c\<lparr>c_capacity := max 1 n\<rparr>"
  have l: "linked ?c" using assms by (simp add: lru_ok_def linked_def)
  have "recency_of ?c = (recency_of c)\<lparr>r_capacity := max 1 n\<rparr>" by (simp add: recency_of_def lru_items_def entry_def)
  moreover have "r_keep m (s\<lparr>r_capacity := k\<rparr>) = (r_keep m s)\<lparr>r_capacity := k\<rparr>" for m k and s :: "('a, 'b, 'c) recency"
    by (simp add: r_keep_def r_report_def split: option.split)
  moreover have "(if n = 0 then 1 else n) = max 1 n" by simp
  ultimately show ?thesis using evict_excess_refines [OF l] by (auto simp: set_capacity_def r_set_capacity_def lru_ok_def Let_def)
qed

lemma remove_if_loop_refines:
  assumes "linked c" "node_list c = qs @ ps"
  shows "\<exists>c'. remove_if_loop P ps k c = Some (c', k + length (filter (case_prod P) (map (entry c) ps))) \<and> linked c' \<and>
    length (node_list c') \<le> length (node_list c) \<and>
    recency_of c' = (r_report (filter (case_prod P) (map (entry c) ps)) (recency_of c))
      \<lparr>r_items := map (entry c) qs @ filter (\<lambda>e. \<not> case_prod P e) (map (entry c) ps)\<rparr>"
  using assms
proof (induction ps arbitrary: c qs k)
  case Nil
  then show ?case by (simp add: recency_of_def lru_items_def)
next
  case (Cons p ps)
  have p: "p \<in> set (node_list c)" using Cons.prems(2) by simp
  obtain n where n: "nodes c p = Some n" "entry c p = (node_key n, node_value n)" using Cons.prems(1) p by (rule linkedD)
  show ?case
  proof (cases "P (node_key n) (node_value n)")
    case True
    let ?d = "drop_node p n c"
    have q: "p \<notin> set qs" "p \<notin> set ps" using Cons.prems by (auto simp: linked_def)
    then have r: "remove1 p (node_list c) = qs @ ps" using Cons.prems(2) by (simp add: remove1_append)
    have e: "map (entry ?d) ps = map (entry c) ps" "map (entry ?d) qs = map (entry c) qs"
      using q by (auto simp del: drop_fields intro!: entry_drop)
    have len: "length (qs @ ps) \<le> length (node_list c)" using Cons.prems(2) by simp
    have "remove_if_loop P (p # ps) k c = remove_if_loop P ps (k + 1) ?d"
      using True n(1) by (simp add: drop_node_def)
    moreover obtain c' where "remove_if_loop P ps (k + 1) ?d = Some (c', k + 1 + length (filter (case_prod P) (map (entry c) ps)))"
      "linked c'" "length (node_list c') \<le> length (qs @ ps)"
      "recency_of c' = (r_report (filter (case_prod P) (map (entry c) ps)) (recency_of ?d))
        \<lparr>r_items := map (entry c) qs @ filter (\<lambda>e. \<not> case_prod P e) (map (entry c) ps)\<rparr>"
      using Cons.IH [OF linked_drop [OF Cons.prems(1) p n(1)], of qs "k + 1"] unfolding drop_fields(1) r e by blast
    moreover have "r_report (filter (case_prod P) (map (entry c) (p # ps))) (recency_of c) =
        r_report (filter (case_prod P) (map (entry c) ps)) (r_report [entry c p] (recency_of c))"
      using r_report_append [of "[entry c p]" "filter (case_prod P) (map (entry c) ps)"] True n(2) by simp
    ultimately show ?thesis
      using recency_drop [OF Cons.prems(1) p n(1)] len True n(2) by (intro exI [of _ c']) (simp del: remove_if_loop.simps)
  next
    case False
    have "remove_if_loop P (p # ps) k c = remove_if_loop P ps k c" using False n(1) by simp
    then show ?thesis using Cons.IH [OF Cons.prems(1), of "qs @ [p]" k] Cons.prems(2) False n(2)
      by (simp del: remove_if_loop.simps)
  qed
qed

lemma remove_if_refines:
  assumes "lru_ok c"
  shows "\<exists>c' r. remove_if P c = Some (c', r) \<and> lru_ok c' \<and> r_remove_if P (recency_of c) = (recency_of c', r)"
proof -
  have l: "linked c" using assms by (simp add: lru_ok_def)
  obtain c' where c': "remove_if P c = Some (c', length (filter (case_prod P) (lru_items c)))" "linked c'"
    "length (node_list c') \<le> length (node_list c)"
    "recency_of c' = (r_report (filter (case_prod P) (lru_items c)) (recency_of c))\<lparr>r_items := filter (\<lambda>e. \<not> case_prod P e) (lru_items c)\<rparr>"
    using remove_if_loop_refines [OF l, of "[]" "node_list c" P 0] by (auto simp: remove_if_def lru_items_def)
  have "c_capacity c' = c_capacity c" using arg_cong [OF c'(4), of r_capacity] by simp
  then have "lru_ok c'" using assms c'(2,3) by (simp add: lru_ok_def)
  moreover have "r_remove_if P (recency_of c) = (recency_of c', length (filter (case_prod P) (lru_items c)))"
    using c'(4) by (simp add: r_remove_if_def Let_def case_prod_unfold)
  ultimately show ?thesis using c'(1) by blast
qed

section \<open>Every call\<close>

lemma put_refines:
  "lru_ok c \<Longrightarrow> \<exists>c' r. lru_put k v c = Some (c', r) \<and> lru_ok c' \<and> r_put k v (recency_of c) = (recency_of c', r)"
  using put_old_refines [of c k _ v] put_new_refines [of c k v] by (cases "hash_map c k") simp_all

lemma contains_refines: "lru_ok c \<Longrightarrow> lru_contains k c \<longleftrightarrow> map_of (lru_items c) k \<noteq> None"
  using map_of_items [of c k] by (simp add: lru_contains_def lru_ok_def)

lemma lru_step_refines:
  assumes "lru_ok c"
  shows "\<exists>c' r. lru_step op c = Some (c', r) \<and> lru_ok c' \<and> r_step op (recency_of c) = (recency_of c', r)"
proof (cases op)
  case (op_get k)
  then show ?thesis using get_refines [OF assms, of k] by (auto simp: lru_step_def r_step_def)
next
  case (op_find k)
  then show ?thesis using get_refines [OF assms, of k] find_get [OF assms] by (auto simp: lru_step_def r_step_def)
next
  case (op_put k v)
  then show ?thesis using put_refines [OF assms, of k v] by (auto simp: lru_step_def r_step_def)
next
  case (op_remove k)
  then show ?thesis using remove_refines [OF assms, of k] by (auto simp: lru_step_def r_step_def)
next
  case op_clear
  then show ?thesis using clear_refines [OF assms] by (auto simp: lru_step_def r_step_def)
next
  case (op_set_capacity n)
  then show ?thesis using set_capacity_refines [OF assms, of n] by (auto simp: lru_step_def r_step_def)
next
  case (op_remove_if P)
  then show ?thesis using remove_if_refines [OF assms, of P] by (auto simp: lru_step_def r_step_def)
next
  case (op_set_callback f)
  then show ?thesis using assms
    by (simp add: lru_step_def r_step_def set_eviction_callback_def lru_ok_def linked_def recency_of_def lru_items_def entry_def)
qed (use assms in \<open>simp_all add: lru_step_def r_step_def lru_size_def lru_capacity_def lru_empty_def length_lru_items contains_refines for_each_refines\<close>,
  simp add: lru_items_def)

interpretation lru: call_simulation lru_step r_step lru_ok recency_of
  by unfold_locales (rule lru_step_refines)

lemma recency_init: "recency_of (lru_init n) = \<lparr>r_capacity = max 1 n, r_items = [], r_callback = None, r_calls = []\<rparr>"
  by (simp add: recency_of_def lru_init_def lru_items_def)

lemma lru_init_ok: "lru_ok (lru_init n)"
  by (simp add: lru_init_def lru_ok_def linked_def)

text \<open>C40: The cache behaves like its specification under every sequence of calls, starting from a new cache: no call
  uses an invalid iterator, all results agree, and afterwards the entries in their order of use, the
  capacity and the calls made to the eviction callbacks agree, with at most as many entries as the capacity,
  no key twice.\<close>

theorem lru_cache_refines:
  "\<exists>c rs. run_calls lru_step ops (lru_init n) = Some (c, rs) \<and>
     spec_calls r_step ops \<lparr>r_capacity = max 1 n, r_items = [], r_callback = None, r_calls = []\<rparr> = (recency_of c, rs) \<and>
     distinct (map fst (lru_items c)) \<and> lru_size c \<le> lru_capacity c"
proof -
  obtain c rs where c: "run_calls lru_step ops (lru_init n) = Some (c, rs)" "lru_ok c"
    "spec_calls r_step ops (recency_of (lru_init n)) = (recency_of c, rs)"
    using lru.run_refines [OF lru_init_ok] by blast
  then show ?thesis using distinct_keys [of c] unfolding recency_init by (auto simp: lru_ok_def lru_size_def lru_capacity_def)
qed

end
