(* ===== verification/VlBuf.thy ===== *)
theory VlBuf
  imports Calls
begin

text \<open>
  The buffer classes \<^verbatim>\<open>HBuf\<close> and \<^verbatim>\<open>HVLBuf\<close> of \<^verbatim>\<open>hv/hbuf.h\<close>: bytes at an offset of a block of memory that grows on
  demand, used as a queue with two ends. Memory is a byte string; a copy outside of it, or reallocation of
  memory that the buffer does not own, has no result. \<^verbatim>\<open>hv_realloc\<close> is a function of the prebuilt library and a
  parameter: it keeps the old bytes that fit. Sizes are those of existing memory, so that doubling them stays
  in \<^verbatim>\<open>size_t\<close>.
\<close>

section \<open>Memory\<close>

definition read_at :: "nat \<Rightarrow> nat \<Rightarrow> bytes \<Rightarrow> bytes option" where
  "read_at i n m = (if i + n \<le> length m then Some (take n (drop i m)) else None)"

definition write_at :: "nat \<Rightarrow> bytes \<Rightarrow> bytes \<Rightarrow> bytes option" where
  "write_at i bs m = (if i + length bs \<le> length m then Some (take i m @ bs @ drop (i + length bs) m) else None)"

definition memmove :: "nat \<Rightarrow> nat \<Rightarrow> nat \<Rightarrow> bytes \<Rightarrow> bytes option" where
  "memmove dst src n m = (case read_at src n m of None \<Rightarrow> None | Some bs \<Rightarrow> write_at dst bs m)"

lemma read_write:
  assumes "write_at i bs m = Some m'"
  shows "length m' = length m" "take (length bs) (drop i m') = bs" "j + n \<le> i \<Longrightarrow> take n (drop j m') = take n (drop j m)"
    "i + length bs \<le> j \<Longrightarrow> drop j m' = drop j m"
proof -
  have i: "i + length bs \<le> length m" and m': "m' = take i m @ bs @ drop (i + length bs) m"
    using assms by (auto simp: write_at_def split: if_splits)
  show "length m' = length m" "take (length bs) (drop i m') = bs" using i m' by simp_all
  show "take n (drop j m') = take n (drop j m)" if "j + n \<le> i"
    using that i by (auto simp: m' take_drop min_def)
  show "drop j m' = drop j m" if "i + length bs \<le> j"
  proof -
    define k where "k = j - (i + length bs)"
    have "drop (i + length bs + k) m' = drop k (drop (i + length bs) m)" using i by (simp add: m')
    then show ?thesis using that by (simp add: k_def add.commute)
  qed
qed

text \<open>The library function \<^verbatim>\<open>hv_realloc\<close>.\<close>

locale hv_memory =
  fixes hv_realloc :: "bytes \<Rightarrow> nat \<Rightarrow> bytes"
  assumes realloc_length: "length (hv_realloc m n) = n"
    and realloc_keeps: "length m \<le> n \<Longrightarrow> take (length m) (hv_realloc m n) = m"

definition zero_realloc :: "bytes \<Rightarrow> nat \<Rightarrow> bytes" where
  "zero_realloc m n = take n m @ replicate (n - length m) 0"

interpretation zero_mem: hv_memory zero_realloc
  by unfold_locales (auto simp: zero_realloc_def)

section \<open>The base class\<close>

record hbuf_cpp =
  hb_base :: "bytes option"
  hb_len :: nat
  cleanup_ok :: bool

definition HBuf_default :: hbuf_cpp where
  "HBuf_default = \<lparr>hb_base = None, hb_len = 0, cleanup_ok = False\<rparr>"

text \<open>A view of memory that belongs to the caller.\<close>

definition HBuf_view :: "bytes \<Rightarrow> hbuf_cpp" where
  "HBuf_view data = \<lparr>hb_base = Some data, hb_len = length data, cleanup_ok = False\<rparr>"

definition HBuf_resize :: "(bytes \<Rightarrow> nat \<Rightarrow> bytes) \<Rightarrow> nat \<Rightarrow> hbuf_cpp \<Rightarrow> hbuf_cpp option" where
  "HBuf_resize R cap b =
     (if cap = hb_len b then Some b
      else case hb_base b of
        None \<Rightarrow> Some (b\<lparr>hb_base := Some (replicate cap 0), hb_len := cap, cleanup_ok := True\<rparr>)
      | Some m \<Rightarrow>
          if cleanup_ok b then Some (b\<lparr>hb_base := Some (R m cap), hb_len := cap, cleanup_ok := True\<rparr>) else None)"

text \<open>The constructor with a capacity leaves the flag \<open>g\<close> as it finds it if the capacity is zero.\<close>

definition HBuf_cap :: "(bytes \<Rightarrow> nat \<Rightarrow> bytes) \<Rightarrow> bool \<Rightarrow> nat \<Rightarrow> hbuf_cpp option" where
  "HBuf_cap R g cap = HBuf_resize R cap \<lparr>hb_base = None, hb_len = 0, cleanup_ok = g\<rparr>"

definition HBuf_cleanup :: "hbuf_cpp \<Rightarrow> hbuf_cpp" where
  "HBuf_cleanup b = (if cleanup_ok b then b\<lparr>hb_base := None, hb_len := 0, cleanup_ok := False\<rparr> else b)"

definition HBuf_isNull :: "hbuf_cpp \<Rightarrow> bool" where
  "HBuf_isNull b \<longleftrightarrow> hb_base b = None \<or> hb_len b = 0"

definition hb_mem :: "hbuf_cpp \<Rightarrow> bytes" where
  "hb_mem b = (case hb_base b of None \<Rightarrow> [] | Some m \<Rightarrow> m)"

text \<open>Storing a changed memory; the null pointer stays one.\<close>

definition hb_store :: "bytes \<Rightarrow> hbuf_cpp \<Rightarrow> hbuf_cpp" where
  "hb_store m b = (case hb_base b of None \<Rightarrow> b | Some _ \<Rightarrow> b\<lparr>hb_base := Some m\<rparr>)"

definition HBuf_copy :: "(bytes \<Rightarrow> nat \<Rightarrow> bytes) \<Rightarrow> bytes \<Rightarrow> hbuf_cpp \<Rightarrow> hbuf_cpp option" where
  "HBuf_copy R data b =
     (case HBuf_resize R (length data) b of
        None \<Rightarrow> None
      | Some b \<Rightarrow> map_option (\<lambda>m. hb_store m b) (write_at 0 data (hb_mem b)))"

section \<open>The variable-length buffer\<close>

record vlbuf =
  vl_buf :: hbuf_cpp
  vl_offset :: nat
  vl_size :: nat

abbreviation vl_len :: "vlbuf \<Rightarrow> nat" where "vl_len b \<equiv> hb_len (vl_buf b)"
abbreviation vl_mem :: "vlbuf \<Rightarrow> bytes" where "vl_mem b \<equiv> hb_mem (vl_buf b)"

definition HVLBuf_default :: vlbuf where
  "HVLBuf_default = \<lparr>vl_buf = HBuf_default, vl_offset = 0, vl_size = 0\<rparr>"

definition HVLBuf_view :: "bytes \<Rightarrow> vlbuf" where
  "HVLBuf_view data = \<lparr>vl_buf = HBuf_view data, vl_offset = 0, vl_size = length data\<rparr>"

definition HVLBuf_cap :: "(bytes \<Rightarrow> nat \<Rightarrow> bytes) \<Rightarrow> bool \<Rightarrow> nat \<Rightarrow> vlbuf option" where
  "HVLBuf_cap R g cap = map_option (\<lambda>b. \<lparr>vl_buf = b, vl_offset = 0, vl_size = 0\<rparr>) (HBuf_cap R g cap)"

text \<open>Growth for \<open>n\<close> more bytes, and a memory operation on the block.\<close>

definition vl_grow :: "(bytes \<Rightarrow> nat \<Rightarrow> bytes) \<Rightarrow> nat \<Rightarrow> vlbuf \<Rightarrow> vlbuf option" where
  "vl_grow R n b = map_option (\<lambda>h. b\<lparr>vl_buf := h\<rparr>) (HBuf_resize R (max (vl_len b) n * 2) (vl_buf b))"

definition vl_mem_op :: "(bytes \<Rightarrow> bytes option) \<Rightarrow> vlbuf \<Rightarrow> vlbuf option" where
  "vl_mem_op f b = map_option (\<lambda>m. b\<lparr>vl_buf := hb_store m (vl_buf b)\<rparr>) (f (vl_mem b))"

definition vl_push_front :: "(bytes \<Rightarrow> nat \<Rightarrow> bytes) \<Rightarrow> bytes \<Rightarrow> vlbuf \<Rightarrow> vlbuf option" where
  "vl_push_front R bs b = do {
     b \<leftarrow> (if vl_len b - vl_size b < length bs then vl_grow R (length bs) b else Some b);
     b \<leftarrow> (if vl_offset b < length bs
           then do {
             b \<leftarrow> vl_mem_op (memmove (vl_len b - vl_size b) (vl_offset b) (vl_size b)) b;
             Some (b\<lparr>vl_offset := vl_len b - vl_size b\<rparr>) }
           else Some b);
     if vl_offset b < length bs then None
     else do {
       b \<leftarrow> vl_mem_op (write_at (vl_offset b - length bs) bs) b;
       Some (b\<lparr>vl_offset := vl_offset b - length bs, vl_size := vl_size b + length bs\<rparr>) } }"

definition vl_push_back :: "(bytes \<Rightarrow> nat \<Rightarrow> bytes) \<Rightarrow> bytes \<Rightarrow> vlbuf \<Rightarrow> vlbuf option" where
  "vl_push_back R bs b = do {
     b \<leftarrow> (if vl_len b - vl_size b < length bs then vl_grow R (length bs) b
           else if vl_len b - vl_offset b - vl_size b < length bs
           then do {
             b \<leftarrow> vl_mem_op (memmove 0 (vl_offset b) (vl_size b)) b;
             Some (b\<lparr>vl_offset := 0\<rparr>) }
           else Some b);
     b \<leftarrow> vl_mem_op (write_at (vl_offset b + vl_size b) bs) b;
     Some (b\<lparr>vl_size := vl_size b + length bs\<rparr>) }"

text \<open>The bytes are copied out if a destination is given and as many are there.\<close>

definition vl_pop_front :: "bool \<Rightarrow> nat \<Rightarrow> vlbuf \<Rightarrow> (vlbuf \<times> bytes option) option" where
  "vl_pop_front out n b =
     (if n \<le> vl_size b then do {
        bs \<leftarrow> (if out then map_option Some (read_at (vl_offset b) n (vl_mem b)) else Some None);
        let offset = vl_offset b + n;
        Some (b\<lparr>vl_offset := (if vl_len b \<le> offset then 0 else offset), vl_size := vl_size b - n\<rparr>, bs) }
      else Some (b, None))"

definition vl_pop_back :: "bool \<Rightarrow> nat \<Rightarrow> vlbuf \<Rightarrow> (vlbuf \<times> bytes option) option" where
  "vl_pop_back out n b =
     (if n \<le> vl_size b then do {
        bs \<leftarrow> (if out then map_option Some (read_at (vl_offset b + vl_size b - n) n (vl_mem b)) else Some None);
        Some (b\<lparr>vl_size := vl_size b - n\<rparr>, bs) }
      else Some (b, None))"

definition vl_clear :: "vlbuf \<Rightarrow> vlbuf" where
  "vl_clear b = b\<lparr>vl_offset := 0, vl_size := 0\<rparr>"

definition vl_prepend :: "(bytes \<Rightarrow> nat \<Rightarrow> bytes) \<Rightarrow> bytes \<Rightarrow> vlbuf \<Rightarrow> vlbuf option" where
  "vl_prepend R bs b = vl_push_front R bs b"

definition vl_append :: "(bytes \<Rightarrow> nat \<Rightarrow> bytes) \<Rightarrow> bytes \<Rightarrow> vlbuf \<Rightarrow> vlbuf option" where
  "vl_append R bs b = vl_push_back R bs b"

definition vl_insert :: "(bytes \<Rightarrow> nat \<Rightarrow> bytes) \<Rightarrow> bytes \<Rightarrow> vlbuf \<Rightarrow> vlbuf option" where
  "vl_insert R bs b = vl_push_back R bs b"

definition vl_remove :: "nat \<Rightarrow> vlbuf \<Rightarrow> vlbuf option" where
  "vl_remove n b = map_option fst (vl_pop_front False n b)"

definition vl_data :: "vlbuf \<Rightarrow> bytes option" where
  "vl_data b = read_at (vl_offset b) (vl_size b) (vl_mem b)"

section \<open>Calls\<close>

datatype vl_op =
  vl_op_push_front bytes | vl_op_push_back bytes | vl_op_pop_front bool nat | vl_op_pop_back bool nat | vl_op_clear |
  vl_op_prepend bytes | vl_op_append bytes | vl_op_insert bytes | vl_op_remove nat | vl_op_data

definition vl_step :: "(bytes \<Rightarrow> nat \<Rightarrow> bytes) \<Rightarrow> vl_op \<Rightarrow> vlbuf \<Rightarrow> (vlbuf \<times> bytes option) option" where
  "vl_step R op b =
     (case op of
        vl_op_push_front bs \<Rightarrow> map_option (\<lambda>b. (b, None)) (vl_push_front R bs b)
      | vl_op_push_back bs \<Rightarrow> map_option (\<lambda>b. (b, None)) (vl_push_back R bs b)
      | vl_op_pop_front out n \<Rightarrow> vl_pop_front out n b
      | vl_op_pop_back out n \<Rightarrow> vl_pop_back out n b
      | vl_op_clear \<Rightarrow> Some (vl_clear b, None)
      | vl_op_prepend bs \<Rightarrow> map_option (\<lambda>b. (b, None)) (vl_prepend R bs b)
      | vl_op_append bs \<Rightarrow> map_option (\<lambda>b. (b, None)) (vl_append R bs b)
      | vl_op_insert bs \<Rightarrow> map_option (\<lambda>b. (b, None)) (vl_insert R bs b)
      | vl_op_remove n \<Rightarrow> map_option (\<lambda>b. (b, None)) (vl_remove n b)
      | vl_op_data \<Rightarrow> map_option (\<lambda>bs. (b, Some bs)) (vl_data b))"

text \<open>The specification: a queue of bytes with two ends.\<close>

definition drop_last :: "nat \<Rightarrow> 'a list \<Rightarrow> 'a list" where
  "drop_last n xs = take (length xs - n) xs"

definition deque_step :: "vl_op \<Rightarrow> bytes \<Rightarrow> bytes \<times> bytes option" where
  "deque_step op s =
     (case op of
        vl_op_push_front bs \<Rightarrow> (bs @ s, None)
      | vl_op_push_back bs \<Rightarrow> (s @ bs, None)
      | vl_op_pop_front out n \<Rightarrow> if n \<le> length s then (drop n s, if out then Some (take n s) else None) else (s, None)
      | vl_op_pop_back out n \<Rightarrow>
          if n \<le> length s then (drop_last n s, if out then Some (drop (length s - n) s) else None) else (s, None)
      | vl_op_clear \<Rightarrow> ([], None)
      | vl_op_prepend bs \<Rightarrow> (bs @ s, None)
      | vl_op_append bs \<Rightarrow> (s @ bs, None)
      | vl_op_insert bs \<Rightarrow> (s @ bs, None)
      | vl_op_remove n \<Rightarrow> (if n \<le> length s then drop n s else s, None)
      | vl_op_data \<Rightarrow> (s, Some s))"

section \<open>Refinement\<close>

definition hb_ok :: "hbuf_cpp \<Rightarrow> bool" where
  "hb_ok b \<longleftrightarrow> hb_len b = length (hb_mem b) \<and> (hb_base b \<noteq> None \<longrightarrow> cleanup_ok b)"

definition vl_ok :: "vlbuf \<Rightarrow> bool" where
  "vl_ok b \<longleftrightarrow> hb_ok (vl_buf b) \<and> vl_offset b + vl_size b \<le> vl_len b"

definition vl_contents :: "vlbuf \<Rightarrow> bytes" where
  "vl_contents b = take (vl_size b) (drop (vl_offset b) (vl_mem b))"

lemma length_contents: "vl_ok b \<Longrightarrow> length (vl_contents b) = vl_size b"
  by (auto simp: vl_contents_def vl_ok_def hb_ok_def min_def)

lemma hb_store_ok:
  assumes "hb_ok h" "length m = length (hb_mem h)"
  shows "hb_ok (hb_store m h)" "hb_mem (hb_store m h) = m" "hb_len (hb_store m h) = hb_len h"
  using assms by (auto simp: hb_ok_def hb_store_def hb_mem_def split: option.splits)

text \<open>Writing into the block keeps everything but the bytes written.\<close>

lemma write_ok:
  assumes "hb_ok (vl_buf b)" "i + length bs \<le> vl_len b"
  obtains c where "vl_mem_op (write_at i bs) b = Some c" "hb_ok (vl_buf c)" "vl_len c = vl_len b"
    "vl_offset c = vl_offset b" "vl_size c = vl_size b" "write_at i bs (vl_mem b) = Some (vl_mem c)"
proof -
  obtain m where m: "write_at i bs (vl_mem b) = Some m" using assms by (simp add: write_at_def hb_ok_def)
  then have "length m = length (vl_mem b)" by (rule read_write(1))
  note st = hb_store_ok [OF assms(1) this]
  show ?thesis by (rule that [of "b\<lparr>vl_buf := hb_store m (vl_buf b)\<rparr>"]) (simp_all add: vl_mem_op_def m st)
qed

lemma move_ok:
  assumes "vl_ok b" "dst + vl_size b \<le> vl_len b"
  obtains c where "vl_mem_op (memmove dst (vl_offset b) (vl_size b)) b = Some c" "hb_ok (vl_buf c)" "vl_len c = vl_len b"
    "vl_offset c = vl_offset b" "vl_size c = vl_size b" "take (vl_size b) (drop dst (vl_mem c)) = vl_contents b"
proof -
  have "vl_mem_op (memmove dst (vl_offset b) (vl_size b)) b = vl_mem_op (write_at dst (vl_contents b)) b"
    using assms(1) by (simp add: vl_mem_op_def memmove_def read_at_def vl_ok_def hb_ok_def vl_contents_def)
  moreover obtain c where c: "vl_mem_op (write_at dst (vl_contents b)) b = Some c" "hb_ok (vl_buf c)" "vl_len c = vl_len b"
    "vl_offset c = vl_offset b" "vl_size c = vl_size b" "write_at dst (vl_contents b) (vl_mem b) = Some (vl_mem c)"
    using write_ok [of b dst "vl_contents b"] assms length_contents by (auto simp: vl_ok_def)
  ultimately show ?thesis using that read_write(2) [OF c(6)] length_contents [OF assms(1)] by simp
qed

lemma take_add_drop: "take (n + k) (drop i m) = take n (drop i m) @ take k (drop (i + n) m)"
  by (subst take_add) (simp add: add.commute)

lemma vl_write_back:
  assumes "vl_ok b" "vl_offset b + vl_size b + length bs \<le> vl_len b"
  shows "\<exists>c. vl_mem_op (write_at (vl_offset b + vl_size b) bs) b = Some c \<and>
    vl_ok (c\<lparr>vl_size := vl_size c + length bs\<rparr>) \<and> vl_contents (c\<lparr>vl_size := vl_size c + length bs\<rparr>) = vl_contents b @ bs"
proof -
  obtain c where c: "vl_mem_op (write_at (vl_offset b + vl_size b) bs) b = Some c" "hb_ok (vl_buf c)" "vl_len c = vl_len b"
    "vl_offset c = vl_offset b" "vl_size c = vl_size b" "write_at (vl_offset b + vl_size b) bs (vl_mem b) = Some (vl_mem c)"
    using write_ok assms by (metis vl_ok_def)
  have "take (vl_size b) (drop (vl_offset b) (vl_mem c)) = vl_contents b"
    using read_write(3) [OF c(6), of "vl_offset b" "vl_size b"] by (simp add: vl_contents_def)
  then show ?thesis
    using c assms read_write(2) [OF c(6)] by (simp add: vl_ok_def vl_contents_def take_add_drop)
qed

lemma vl_write_front:
  assumes "vl_ok b" "length bs \<le> vl_offset b"
  shows "\<exists>c. vl_mem_op (write_at (vl_offset b - length bs) bs) b = Some c \<and>
    vl_ok (c\<lparr>vl_offset := vl_offset c - length bs, vl_size := vl_size c + length bs\<rparr>) \<and>
    vl_contents (c\<lparr>vl_offset := vl_offset c - length bs, vl_size := vl_size c + length bs\<rparr>) = bs @ vl_contents b"
proof -
  have "vl_offset b - length bs + length bs \<le> vl_len b" using assms by (simp add: vl_ok_def)
  then obtain c where c: "vl_mem_op (write_at (vl_offset b - length bs) bs) b = Some c" "hb_ok (vl_buf c)" "vl_len c = vl_len b"
    "vl_offset c = vl_offset b" "vl_size c = vl_size b" "write_at (vl_offset b - length bs) bs (vl_mem b) = Some (vl_mem c)"
    using write_ok assms(1) by (metis vl_ok_def)
  have "drop (vl_offset b) (vl_mem c) = drop (vl_offset b) (vl_mem b)"
    using read_write(4) [OF c(6), of "vl_offset b"] assms(2) by simp
  then show ?thesis
    using c assms read_write(2) [OF c(6)] take_add_drop [of "length bs" "vl_size b" "vl_offset b - length bs" "vl_mem c"]
    by (simp add: vl_ok_def vl_contents_def add.commute)
qed

lemma vl_move:
  assumes "vl_ok b" "dst + vl_size b \<le> vl_len b"
  shows "\<exists>c. vl_mem_op (memmove dst (vl_offset b) (vl_size b)) b = Some c \<and> vl_ok (c\<lparr>vl_offset := dst\<rparr>) \<and>
    vl_contents (c\<lparr>vl_offset := dst\<rparr>) = vl_contents b \<and> vl_len c = vl_len b \<and> vl_size c = vl_size b"
proof -
  obtain c where "vl_mem_op (memmove dst (vl_offset b) (vl_size b)) b = Some c" "hb_ok (vl_buf c)" "vl_len c = vl_len b"
    "vl_offset c = vl_offset b" "vl_size c = vl_size b" "take (vl_size b) (drop dst (vl_mem c)) = vl_contents b"
    using assms by (rule move_ok)
  then show ?thesis using assms(2) by (auto simp: vl_ok_def vl_contents_def)
qed

context hv_memory
begin

lemma vl_grow_ok:
  assumes "vl_ok b" "vl_len b - vl_size b < n"
  shows "\<exists>c. vl_grow hv_realloc n b = Some c \<and> vl_ok c \<and> vl_contents c = vl_contents b \<and> vl_offset c = vl_offset b \<and>
    vl_size c = vl_size b \<and> vl_offset c + vl_size c + n \<le> vl_len c"
proof -
  let ?cap = "max (vl_len b) n * 2"
  have ok: "vl_len b = length (vl_mem b)" "vl_offset b + vl_size b \<le> vl_len b" and cap: "?cap \<noteq> vl_len b" "vl_len b \<le> ?cap"
    using assms by (auto simp: vl_ok_def hb_ok_def max_def)
  show ?thesis
  proof (cases "hb_base (vl_buf b)")
    case None
    then show ?thesis using ok cap assms(2) by (auto simp: vl_grow_def HBuf_resize_def vl_ok_def hb_ok_def hb_mem_def vl_contents_def)
  next
    case (Some m)
    have m: "vl_mem b = m" "cleanup_ok (vl_buf b)" using Some assms(1) by (simp_all add: hb_mem_def vl_ok_def hb_ok_def)
    let ?c = "b\<lparr>vl_buf := vl_buf b\<lparr>hb_base := Some (hv_realloc m ?cap), hb_len := ?cap, cleanup_ok := True\<rparr>\<rparr>"
    have "vl_grow hv_realloc n b = Some ?c" using Some m cap by (simp add: vl_grow_def HBuf_resize_def)
    moreover have "take (length m) (hv_realloc m ?cap) = m" using realloc_keeps cap(2) ok(1) m(1) by simp
    then have "take (vl_size b) (drop (vl_offset b) (hv_realloc m ?cap)) = take (vl_size b) (drop (vl_offset b) m)"
      using ok m(1) by (metis (no_types, lifting) drop_take min.absorb1 le_diff_conv2 add.commute take_take add_leD1)
    then have "vl_contents ?c = vl_contents b" using m(1) by (simp add: vl_contents_def hb_mem_def)
    moreover have "vl_ok ?c" using ok cap(2) realloc_length by (simp add: vl_ok_def hb_ok_def hb_mem_def)
    moreover have "vl_offset b + vl_size b + n \<le> ?cap" using ok(2) by (simp add: max_def)
    ultimately show ?thesis by (intro exI [of _ ?c]) simp
  qed
qed

lemma vl_push_back_refines:
  assumes "vl_ok b"
  shows "\<exists>c. vl_push_back hv_realloc bs b = Some c \<and> vl_ok c \<and> vl_contents c = vl_contents b @ bs"
proof -
  let ?n = "length bs"
  have "\<exists>c. (if vl_len b - vl_size b < ?n then vl_grow hv_realloc ?n b
      else if vl_len b - vl_offset b - vl_size b < ?n
      then do { b \<leftarrow> vl_mem_op (memmove 0 (vl_offset b) (vl_size b)) b; Some (b\<lparr>vl_offset := 0\<rparr>) }
      else Some b) = Some c \<and> vl_ok c \<and> vl_contents c = vl_contents b \<and> vl_offset c + vl_size c + ?n \<le> vl_len c"
  proof -
    consider (grow) "vl_len b - vl_size b < ?n"
      | (move) "\<not> vl_len b - vl_size b < ?n" "vl_len b - vl_offset b - vl_size b < ?n"
      | (stay) "\<not> vl_len b - vl_size b < ?n" "\<not> vl_len b - vl_offset b - vl_size b < ?n" by blast
    then show ?thesis
    proof cases
      case grow
      then show ?thesis using vl_grow_ok [OF assms] by auto
    next
      case move
      then show ?thesis using vl_move [OF assms, of 0] assms by (auto simp: vl_ok_def)
    next
      case stay
      then show ?thesis using assms by (auto simp: vl_ok_def)
    qed
  qed
  then obtain c where c: "(if vl_len b - vl_size b < ?n then vl_grow hv_realloc ?n b
      else if vl_len b - vl_offset b - vl_size b < ?n
      then do { b \<leftarrow> vl_mem_op (memmove 0 (vl_offset b) (vl_size b)) b; Some (b\<lparr>vl_offset := 0\<rparr>) }
      else Some b) = Some c" "vl_ok c" "vl_contents c = vl_contents b" "vl_offset c + vl_size c + ?n \<le> vl_len c" by blast
  from vl_write_back [OF c(2,4)] show ?thesis unfolding vl_push_back_def c(1) using c(3) by auto
qed

lemma vl_push_front_refines:
  assumes "vl_ok b"
  shows "\<exists>c. vl_push_front hv_realloc bs b = Some c \<and> vl_ok c \<and> vl_contents c = bs @ vl_contents b"
proof -
  let ?n = "length bs"
  obtain d where d: "(if vl_len b - vl_size b < ?n then vl_grow hv_realloc ?n b else Some b) = Some d" "vl_ok d"
    "vl_contents d = vl_contents b" "?n \<le> vl_len d - vl_size d"
    using vl_grow_ok [OF assms, of ?n] assms by (cases "vl_len b - vl_size b < ?n") auto
  have "\<exists>c. (if vl_offset d < ?n
      then do { b \<leftarrow> vl_mem_op (memmove (vl_len d - vl_size d) (vl_offset d) (vl_size d)) d; Some (b\<lparr>vl_offset := vl_len b - vl_size b\<rparr>) }
      else Some d) = Some c \<and> vl_ok c \<and> vl_contents c = vl_contents d \<and> ?n \<le> vl_offset c"
  proof (cases "vl_offset d < ?n")
    case True
    then show ?thesis using vl_move [OF d(2), of "vl_len d - vl_size d"] d(2,4) by (auto simp: vl_ok_def)
  next
    case False
    then show ?thesis using d(2) by simp
  qed
  then obtain c where c: "(if vl_offset d < ?n
      then do { b \<leftarrow> vl_mem_op (memmove (vl_len d - vl_size d) (vl_offset d) (vl_size d)) d; Some (b\<lparr>vl_offset := vl_len b - vl_size b\<rparr>) }
      else Some d) = Some c" "vl_ok c" "vl_contents c = vl_contents d" "?n \<le> vl_offset c" by blast
  from vl_write_front [OF c(2,4)] show ?thesis
    unfolding vl_push_front_def d(1) bind.bind_lunit c(1) using c(3,4) d(3) by auto
qed

end

lemma vl_pop_front_refines:
  assumes "vl_ok b"
  shows "\<exists>c r. vl_pop_front out n b = Some (c, r) \<and> vl_ok c \<and> deque_step (vl_op_pop_front out n) (vl_contents b) = (vl_contents c, r)"
proof (cases "n \<le> vl_size b")
  case True
  let ?o = "vl_offset b + n"
  let ?c = "b\<lparr>vl_offset := (if vl_len b \<le> ?o then 0 else ?o), vl_size := vl_size b - n\<rparr>"
  have ok: "vl_len b = length (vl_mem b)" "vl_offset b + vl_size b \<le> vl_len b" using assms by (auto simp: vl_ok_def hb_ok_def)
  have "vl_contents ?c = drop n (vl_contents b)"
    using ok True by (auto simp: vl_contents_def drop_take add.commute)
  moreover have "take n (vl_contents b) = take n (drop (vl_offset b) (vl_mem b))" using True by (simp add: vl_contents_def min_absorb1)
  moreover have "vl_ok ?c" using assms True by (auto simp: vl_ok_def)
  ultimately show ?thesis
    using True ok length_contents [OF assms] by (simp add: vl_pop_front_def deque_step_def read_at_def Let_def)
next
  case False
  then show ?thesis using assms length_contents [OF assms] by (simp add: vl_pop_front_def deque_step_def)
qed

lemma vl_pop_back_refines:
  assumes "vl_ok b"
  shows "\<exists>c r. vl_pop_back out n b = Some (c, r) \<and> vl_ok c \<and> deque_step (vl_op_pop_back out n) (vl_contents b) = (vl_contents c, r)"
proof (cases "n \<le> vl_size b")
  case True
  let ?c = "b\<lparr>vl_size := vl_size b - n\<rparr>"
  have ok: "vl_len b = length (vl_mem b)" "vl_offset b + vl_size b \<le> vl_len b" using assms by (auto simp: vl_ok_def hb_ok_def)
  have "vl_contents ?c = drop_last n (vl_contents b)"
    using True length_contents [OF assms] by (simp add: drop_last_def) (simp add: vl_contents_def min_absorb1)
  moreover have "drop (vl_size b - n) (vl_contents b) = take n (drop (vl_offset b + vl_size b - n) (vl_mem b))"
    using True by (simp add: vl_contents_def drop_take add.commute)
  moreover have "vl_ok ?c" using assms True by (auto simp: vl_ok_def)
  ultimately show ?thesis
    using True ok length_contents [OF assms] by (simp add: vl_pop_back_def deque_step_def read_at_def)
next
  case False
  then show ?thesis using assms length_contents [OF assms] by (simp add: vl_pop_back_def deque_step_def)
qed

lemma vl_data_refines: "vl_ok b \<Longrightarrow> vl_data b = Some (vl_contents b)"
  by (simp add: vl_data_def read_at_def vl_ok_def hb_ok_def vl_contents_def)

lemma vl_remove_refines:
  assumes "vl_ok b"
  shows "\<exists>c. vl_remove n b = Some c \<and> vl_ok c \<and> deque_step (vl_op_remove n) (vl_contents b) = (vl_contents c, None)"
proof -
  obtain c r where c: "vl_pop_front False n b = Some (c, r)" "vl_ok c" "deque_step (vl_op_pop_front False n) (vl_contents b) = (vl_contents c, r)"
    using vl_pop_front_refines [OF assms] by blast
  then show ?thesis by (auto simp: vl_remove_def deque_step_def split: if_splits)
qed

context hv_memory
begin

lemma vl_step_refines:
  assumes "vl_ok b"
  shows "\<exists>c r. vl_step hv_realloc op b = Some (c, r) \<and> vl_ok c \<and> deque_step op (vl_contents b) = (vl_contents c, r)"
proof (cases op)
  case (vl_op_pop_front out n)
  then show ?thesis using vl_pop_front_refines [OF assms] by (simp add: vl_step_def)
next
  case (vl_op_pop_back out n)
  then show ?thesis using vl_pop_back_refines [OF assms] by (simp add: vl_step_def)
next
  case vl_op_clear
  then show ?thesis using assms by (simp add: vl_step_def deque_step_def vl_clear_def vl_ok_def vl_contents_def)
next
  case (vl_op_remove n)
  then show ?thesis using vl_remove_refines [OF assms, of n] by (auto simp: vl_step_def)
next
  case vl_op_data
  then show ?thesis using assms by (simp add: vl_step_def deque_step_def vl_data_refines)
qed (use vl_push_front_refines [OF assms] vl_push_back_refines [OF assms] in
    \<open>force simp: vl_step_def deque_step_def vl_prepend_def vl_append_def vl_insert_def\<close>)+

end

sublocale hv_memory \<subseteq> vl: call_simulation "vl_step hv_realloc" deque_step vl_ok vl_contents
  by unfold_locales (rule vl_step_refines)

context hv_memory
begin

lemma vl_cap_ok: "\<exists>b. HVLBuf_cap hv_realloc g cap = Some b \<and> vl_ok b \<and> vl_contents b = []"
  by (auto simp: HVLBuf_cap_def HBuf_cap_def HBuf_resize_def vl_ok_def hb_ok_def hb_mem_def vl_contents_def)

lemma vl_run:
  "\<exists>b c rs. HVLBuf_cap hv_realloc g cap = Some b \<and> run_calls (vl_step hv_realloc) ops b = Some (c, rs) \<and>
     spec_calls deque_step ops [] = (vl_contents c, rs) \<and> vl_offset c + vl_size c \<le> vl_len c"
proof -
  obtain b where b: "HVLBuf_cap hv_realloc g cap = Some b" "vl_ok b" "vl_contents b = []" using vl_cap_ok by blast
  then show ?thesis using vl.run_refines [OF b(2), of ops] by (auto simp: vl_ok_def)
qed

end

text \<open>C36: The variable-length buffer is a queue of bytes with two ends: for every sequence of calls on a new buffer of
  any capacity, no copy leaves its memory, every result is that of the queue, and afterwards the
  contents are those of the queue and lie inside the block. Reallocation keeps the old bytes.\<close>

theorem hvlbuf_refines_deque:
  assumes "hv_memory R"
  shows "\<exists>b c rs. HVLBuf_cap R g cap = Some b \<and> run_calls (vl_step R) ops b = Some (c, rs) \<and>
    spec_calls deque_step ops [] = (vl_contents c, rs) \<and> vl_offset c + vl_size c \<le> vl_len c"
  by (rule hv_memory.vl_run [OF assms])

theorem hvlbuf_refines_deque_witness:
  "\<exists>b c. HVLBuf_cap zero_realloc False 2 = Some b \<and>
     run_calls (vl_step zero_realloc) [vl_op_push_back [1, 2, 3], vl_op_push_front [9], vl_op_pop_front True 2] b = Some (c, [None, None, Some [9, 1]]) \<and>
     vl_contents c = [2, 3]"
proof -
  have s: "spec_calls deque_step [vl_op_push_back [1, 2, 3], vl_op_push_front [9], vl_op_pop_front True 2] [] = ([2, 3], [None, None, Some [9, 1]])"
    by (simp add: deque_step_def)
  show ?thesis
    using hvlbuf_refines_deque [OF zero_mem.hv_memory_axioms, of False 2
        "[vl_op_push_back [1, 2, 3], vl_op_push_front [9], vl_op_pop_front True 2]"]
    unfolding s by auto
qed

text \<open>A buffer made from memory of the caller reallocates that memory when it has to grow.\<close>

lemma hvlbuf_view_reallocates: "bs \<noteq> [] \<Longrightarrow> vl_push_back R bs (HVLBuf_view [0]) = None"
  by (auto simp: vl_push_back_def HVLBuf_view_def HBuf_view_def vl_grow_def HBuf_resize_def)

end
