(* ===== verification/RingBuf.thy ===== *)
theory RingBuf
  imports HbusPrelude
begin

text \<open>
  The ring buffer \<^verbatim>\<open>HRingBuf\<close> of \<^verbatim>\<open>hv/hbuf.h\<close>: it hands out blocks of a region of memory that are given back in
  the order in which they were handed out. A block never wraps; if the rest of the region is too
  short, it is skipped. Positions are offsets in the region, and a null pointer is \<open>None\<close>.
  \<^verbatim>\<open>free\<close> takes a number of bytes and knows nothing of blocks: it is right when the bytes are those of
  the oldest blocks and these lie side by side, and wrong for a part of a block or for blocks on both
  sides of a skipped rest. The user of the model frees any number of bytes, and a flag of its state
  records whether every free so far was of the first kind.
\<close>

section \<open>The ring buffer\<close>

record ring =
  ring_len :: nat
  ring_head :: nat
  ring_tail :: nat
  ring_size :: nat

definition HRingBuf_cap :: "nat \<Rightarrow> ring" where
  "HRingBuf_cap cap = \<lparr>ring_len = cap, ring_head = 0, ring_tail = 0, ring_size = 0\<rparr>"

text \<open>Subtraction wraps in \<^verbatim>\<open>size_t\<close>.\<close>

definition sub_size :: "nat \<Rightarrow> nat \<Rightarrow> nat" where
  "sub_size a b = (if b \<le> a then a - b else 2 ^ 64 + a - b)"

text \<open>The place that \<^verbatim>\<open>alloc\<close> takes and the new tail. Without memory the place is the null pointer.\<close>

definition ring_place :: "nat \<Rightarrow> ring \<Rightarrow> nat option \<times> nat" where
  "ring_place len r =
     (if ring_head r < ring_tail r \<or> ring_size r = 0 then
        (if len \<le> sub_size (ring_len r) (ring_tail r) then
           let tail = ring_tail r + len in (Some (ring_tail r), if tail = ring_len r then 0 else tail)
         else if len \<le> ring_head r then (Some 0, len)
         else (None, ring_tail r))
      else if len \<le> sub_size (ring_head r) (ring_tail r) then (Some (ring_tail r), ring_tail r + len)
      else (None, ring_tail r))"

definition ring_alloc :: "nat \<Rightarrow> ring \<Rightarrow> ring \<times> nat option" where
  "ring_alloc len r =
     (let (place, tail) = ring_place len r;
          ret = (if ring_len r = 0 then None else place)
      in (r\<lparr>ring_tail := tail, ring_size := ring_size r + (if ret \<noteq> None then len else 0)\<rparr>, ret))"

definition ring_free :: "nat \<Rightarrow> ring \<Rightarrow> ring" where
  "ring_free len r =
     (let r = r\<lparr>ring_size := sub_size (ring_size r) len\<rparr> in
      if len \<le> sub_size (ring_len r) (ring_head r) then
        (let head = ring_head r + len in r\<lparr>ring_head := (if head = ring_len r then 0 else head)\<rparr>)
      else r\<lparr>ring_head := len\<rparr>)"

definition ring_clear :: "ring \<Rightarrow> ring" where
  "ring_clear r = r\<lparr>ring_head := 0, ring_tail := 0, ring_size := 0\<rparr>"

section \<open>A user of the buffer\<close>

text \<open>The blocks in use, oldest first, as position and length. \<open>give n q\<close> are the blocks left when the oldest
  ones, which lie side by side and have \<open>n\<close> bytes together, are given back; \<open>None\<close> if there are no such
  blocks.\<close>

fun give :: "nat \<Rightarrow> (nat \<times> nat) list \<Rightarrow> (nat \<times> nat) list option" where
  "give n [] = (if n = 0 then Some [] else None)"
| "give n ((p, m) # q) =
     (if n = 0 then Some ((p, m) # q)
      else if n < m then None
      else if n = m then Some q
      else if q \<noteq> [] \<and> fst (hd q) = p + m then give (n - m) q
      else None)"

datatype ring_op = ring_get nat | ring_give_back nat | ring_reset

type_synonym ring_use = "ring \<times> (nat \<times> nat) list \<times> bool"

definition ring_user :: "ring_op \<Rightarrow> ring_use \<Rightarrow> ring_use" where
  "ring_user op s =
     (let (r, q, ok) = s in
      case op of
        ring_get n \<Rightarrow>
          (let (r', p) = ring_alloc n r in (r', case p of None \<Rightarrow> q | Some p \<Rightarrow> q @ [(p, n)], ok))
      | ring_give_back n \<Rightarrow>
          (case give n q of Some q' \<Rightarrow> (ring_free n r, q', ok) | None \<Rightarrow> (ring_free n r, q, False))
      | ring_reset \<Rightarrow> (ring_clear r, [], True))"

definition ring_run :: "ring_op list \<Rightarrow> nat \<Rightarrow> ring_use" where
  "ring_run ops cap = fold ring_user ops (HRingBuf_cap cap, [], True)"

section \<open>The layout of the blocks\<close>

text \<open>Blocks side by side from \<open>a\<close> to \<open>b\<close>.\<close>

fun chain :: "nat \<Rightarrow> (nat \<times> nat) list \<Rightarrow> nat \<Rightarrow> bool" where
  "chain a [] b \<longleftrightarrow> a = b"
| "chain a ((p, n) # q) b \<longleftrightarrow> p = a \<and> chain (a + n) q b"

definition used :: "(nat \<times> nat) list \<Rightarrow> nat" where
  "used q = sum_list (map snd q)"

definition disjoint_blocks :: "nat \<times> nat \<Rightarrow> nat \<times> nat \<Rightarrow> bool" where
  "disjoint_blocks x y \<longleftrightarrow> fst x + snd x \<le> fst y \<or> fst y + snd y \<le> fst x"

lemma used_simps [simp]: "used [] = 0" "used (x # q) = snd x + used q" "used (q @ q') = used q + used q'"
  by (simp_all add: used_def)

lemma chain_end: "chain a q b \<Longrightarrow> b = a + used q"
  by (induction a q b rule: chain.induct) auto

lemma chain_append: "chain a q b \<Longrightarrow> chain a (q @ [(b, n)]) (b + n)"
  by (induction a q b rule: chain.induct) auto

lemma chain_within: "chain a q b \<Longrightarrow> x \<in> set q \<Longrightarrow> a \<le> fst x \<and> fst x + snd x \<le> b"
proof (induction a q b rule: chain.induct)
  case (2 a p n q b)
  then show ?case using chain_end [of "a + n" q b] by auto
qed simp

lemma chain_disjoint: "chain a q b \<Longrightarrow> sorted_wrt disjoint_blocks q"
proof (induction a q b rule: chain.induct)
  case (2 a p n q b)
  then show ?case using chain_within [of "a + n" q b] by (auto simp: disjoint_blocks_def)
qed simp

text \<open>All blocks in one row up to \<open>e\<close>, or in two rows with the second at the start of the region; a block
  starts the second row only if the rest behind the first was too short for it.\<close>

definition one_row :: "ring \<Rightarrow> (nat \<times> nat) list \<Rightarrow> bool" where
  "one_row r q \<longleftrightarrow>
     (\<exists>e. chain (ring_head r) q e \<and> e \<le> ring_len r \<and> ring_tail r = (if e = ring_len r then 0 else e))"

definition two_rows :: "ring \<Rightarrow> (nat \<times> nat) list \<Rightarrow> bool" where
  "two_rows r q \<longleftrightarrow>
     (\<exists>q1 q2 g. q = q1 @ q2 \<and> q2 \<noteq> [] \<and> chain (ring_head r) q1 g \<and> chain 0 q2 (ring_tail r) \<and> ring_tail r \<le> ring_head r \<and>
        g \<le> ring_len r \<and> (g = ring_len r \<or> ring_len r - g < snd (hd q2)))"

definition ring_ok :: "ring \<Rightarrow> (nat \<times> nat) list \<Rightarrow> bool" where
  "ring_ok r q \<longleftrightarrow> ring_size r = used q \<and> ring_head r < ring_len r \<and> ring_tail r < ring_len r \<and>
     (\<forall>x \<in> set q. fst x < ring_len r) \<and> (one_row r q \<or> two_rows r q)"

lemma sub_size_le [simp]: "b \<le> a \<Longrightarrow> sub_size a b = a - b"
  by (simp add: sub_size_def)

lemma one_rowI:
  "chain (ring_head r) q e \<Longrightarrow> e \<le> ring_len r \<Longrightarrow> ring_tail r = (if e = ring_len r then 0 else e) \<Longrightarrow> one_row r q"
  by (auto simp: one_row_def)

lemma two_rowsI:
  "chain (ring_head r) q1 g \<Longrightarrow> chain 0 q2 (ring_tail r) \<Longrightarrow> q2 \<noteq> [] \<Longrightarrow> ring_tail r \<le> ring_head r \<Longrightarrow> g \<le> ring_len r \<Longrightarrow>
   g = ring_len r \<or> ring_len r - g < snd (hd q2) \<Longrightarrow> two_rows r (q1 @ q2)"
  by (auto simp: two_rows_def)

lemma two_rows_used:
  assumes "two_rows r q" "ring_head r < ring_len r"
  shows "0 < used q"
proof -
  obtain q1 q2 g where q: "q = q1 @ q2" "q2 \<noteq> []" "chain (ring_head r) q1 g" "g = ring_len r \<or> ring_len r - g < snd (hd q2)"
    using assms(1) by (auto simp: two_rows_def)
  then show ?thesis using chain_end [OF q(3)] assms(2) by (cases q2) auto
qed

section \<open>Handing out a block\<close>

text \<open>The new block follows the last one, or starts the second row.\<close>

lemma alloc_one_row:
  assumes "chain (ring_head r) q e" "e \<le> ring_len r" "ring_tail r = (if e = ring_len r then 0 else e)"
    and head: "ring_head r < ring_len r" and size: "ring_size r = used q" and p: "ring_place n r = (Some p, t)"
    and r': "ring_head r' = ring_head r" "ring_len r' = ring_len r" "ring_tail r' = t"
  shows "(one_row r' (q @ [(p, n)]) \<or> two_rows r' (q @ [(p, n)])) \<and> p < ring_len r \<and> t < ring_len r"
proof -
  have e: "e = ring_head r + used q" using chain_end [OF assms(1)] .
  consider (row) "e < ring_len r" "n \<le> ring_len r - e" "p = e" "t = (if e + n = ring_len r then 0 else e + n)"
    | (skip) "e < ring_len r" "ring_len r - e < n" "n \<le> ring_head r" "p = 0" "t = n"
    | (start) "e = ring_len r" "n \<le> ring_head r" "p = 0" "t = n"
    using p assms(2,3) head size e by (auto simp: ring_place_def Let_def split: if_splits)
  then show ?thesis
  proof cases
    case row
    then have "one_row r' (q @ [(p, n)])" using chain_append [OF assms(1), of n] r' by (intro one_rowI [of r' _ "e + n"]) auto
    then show ?thesis using row by auto
  next
    case skip
    then have "two_rows r' (q @ [(p, n)])" using assms(1) r' by (intro two_rowsI) auto
    then show ?thesis using skip head by auto
  next
    case start
    then have "two_rows r' (q @ [(p, n)])" using assms(1) r' by (intro two_rowsI) auto
    then show ?thesis using start head by auto
  qed
qed

lemma alloc_two_rows:
  assumes "two_rows r q" "ring_head r < ring_len r" "ring_size r = used q" and p: "ring_place n r = (Some p, t)"
    and r': "ring_head r' = ring_head r" "ring_len r' = ring_len r" "ring_tail r' = t"
  shows "two_rows r' (q @ [(p, n)]) \<and> p < ring_len r \<and> t < ring_len r"
proof -
  obtain q1 q2 g where q: "q = q1 @ q2" "q2 \<noteq> []" "chain (ring_head r) q1 g" "chain 0 q2 (ring_tail r)" "ring_tail r \<le> ring_head r"
    "g \<le> ring_len r" "g = ring_len r \<or> ring_len r - g < snd (hd q2)" using assms(1) by (auto simp: two_rows_def)
  have n: "n \<le> ring_head r - ring_tail r" "p = ring_tail r" "t = ring_tail r + n"
    using p two_rows_used [OF assms(1,2)] assms(3) q(5) by (auto simp: ring_place_def split: if_splits)
  have "two_rows r' (q1 @ (q2 @ [(p, n)]))"
    using q n r' chain_append [OF q(4), of n] by (intro two_rowsI) auto
  then show ?thesis using q(1,5) n assms(2) by auto
qed

lemma alloc_ok:
  assumes "ring_ok r q" "ring_alloc n r = (r', p)"
  shows "ring_ok r' (case p of None \<Rightarrow> q | Some p \<Rightarrow> q @ [(p, n)]) \<and> ring_len r' = ring_len r"
proof -
  obtain place t where pl: "ring_place n r = (place, t)" by fastforce
  have ok: "ring_size r = used q" "ring_head r < ring_len r" "ring_tail r < ring_len r" "\<forall>x \<in> set q. fst x < ring_len r"
    "one_row r q \<or> two_rows r q" using assms(1) by (auto simp: ring_ok_def)
  have r': "r' = r\<lparr>ring_tail := t, ring_size := ring_size r + (if place \<noteq> None then n else 0)\<rparr>" "p = place"
    using assms(2) ok(2) pl by (auto simp: ring_alloc_def)
  show ?thesis
  proof (cases place)
    case None
    then have "t = ring_tail r" using pl by (auto simp: ring_place_def Let_def split: if_splits)
    then show ?thesis using assms(1) r' None by simp
  next
    case (Some x)
    have "(one_row r' (q @ [(x, n)]) \<or> two_rows r' (q @ [(x, n)])) \<and> x < ring_len r \<and> t < ring_len r"
      using ok(5)
    proof
      assume "one_row r q"
      then obtain e where "chain (ring_head r) q e" "e \<le> ring_len r" "ring_tail r = (if e = ring_len r then 0 else e)"
        by (auto simp: one_row_def)
      from alloc_one_row [OF this ok(2,1), of n x t r'] show ?thesis using pl Some r' by simp
    next
      assume "two_rows r q"
      from alloc_two_rows [OF this ok(2,1), of n x t r'] show ?thesis using pl Some r' by simp
    qed
    then show ?thesis using ok r' Some by (auto simp: ring_ok_def)
  qed
qed

section \<open>Giving back the oldest block\<close>

lemma free_fields:
  assumes "ring_head r < ring_len r"
  shows "ring_head (ring_free n r) =
      (if ring_head r + n \<le> ring_len r then if ring_head r + n = ring_len r then 0 else ring_head r + n else n)"
    "ring_tail (ring_free n r) = ring_tail r" "ring_len (ring_free n r) = ring_len r"
    "ring_size (ring_free n r) = sub_size (ring_size r) n"
  using assms by (auto simp: ring_free_def Let_def)

lemma free_one_row:
  assumes "one_row r ((p, n) # q)" "ring_head r < ring_len r" "ring_tail r < ring_len r" "\<forall>x \<in> set q. fst x < ring_len r"
  shows "one_row (ring_free n r) q \<and> ring_head (ring_free n r) < ring_len r"
proof -
  obtain e where e: "chain (ring_head r + n) q e" "e \<le> ring_len r" "ring_tail r = (if e = ring_len r then 0 else e)"
    using assms(1) by (auto simp: one_row_def)
  have n: "ring_head r + n \<le> e" using chain_end [OF e(1)] by simp
  note f = free_fields [OF assms(2), of n]
  show ?thesis
  proof (cases "ring_head r + n = ring_len r")
    case True
    then have "q = []" using e(1,2) assms(4) n by (cases q) auto
    then show ?thesis using True n e assms(2) f by (auto intro!: one_rowI [of _ _ 0])
  next
    case False
    then show ?thesis using e n f by (auto intro!: one_rowI [of _ _ e])
  qed
qed

lemma free_two_rows:
  assumes "two_rows r ((p, n) # q)" "ring_head r < ring_len r" "ring_tail r < ring_len r" "\<forall>x \<in> set q. fst x < ring_len r"
  shows "(one_row (ring_free n r) q \<or> two_rows (ring_free n r) q) \<and> ring_head (ring_free n r) < ring_len r"
proof -
  note f = free_fields [OF assms(2), of n]
  obtain q1 q2 g where q: "(p, n) # q = q1 @ q2" "q2 \<noteq> []" "chain (ring_head r) q1 g" "chain 0 q2 (ring_tail r)" "ring_tail r \<le> ring_head r"
    "g \<le> ring_len r" "g = ring_len r \<or> ring_len r - g < snd (hd q2)" using assms(1) by (auto simp: two_rows_def)
  show ?thesis
  proof (cases q1)
    case Nil
    then have "ring_head r = g" "chain n q (ring_tail r)" "ring_len r - ring_head r < n" using q assms(2) by auto
    moreover from this have "n \<le> ring_tail r" using chain_end by fastforce
    ultimately show ?thesis using f assms(2,3) by (auto intro!: one_rowI [of _ _ "ring_tail r"])
  next
    case (Cons x q1')
    then have q': "q = q1' @ q2" "chain (ring_head r + n) q1' g" using q(1,3) by auto
    then have n: "ring_head r + n \<le> g" using chain_end by fastforce
    show ?thesis
    proof (cases "ring_head r + n = ring_len r")
      case True
      then have "q1' = []" using q' assms(4) n q(6) by (cases q1') auto
      then show ?thesis using True q' q(4) f assms(2,3) by (auto intro!: one_rowI [of _ _ "ring_tail r"])
    next
      case False
      then have "two_rows (ring_free n r) (q1' @ q2)" using q q' n f by (intro two_rowsI [of _ _ g]) auto
      then show ?thesis using q'(1) False n q(6) f by auto
    qed
  qed
qed

lemma free_ok:
  assumes "ring_ok r ((p, n) # q)"
  shows "ring_ok (ring_free n r) q"
proof -
  have ok: "ring_size r = n + used q" "ring_head r < ring_len r" "ring_tail r < ring_len r" "\<forall>x \<in> set q. fst x < ring_len r"
    "one_row r ((p, n) # q) \<or> two_rows r ((p, n) # q)" using assms by (auto simp: ring_ok_def)
  then have "(one_row (ring_free n r) q \<or> two_rows (ring_free n r) q) \<and> ring_head (ring_free n r) < ring_len r"
    using free_one_row free_two_rows by blast
  then show ?thesis using ok free_fields [OF ok(2), of n] by (auto simp: ring_ok_def)
qed

section \<open>The blocks in use\<close>

lemma ring_ok_blocks:
  assumes "ring_ok r q"
  shows "sorted_wrt disjoint_blocks q" "list_all (\<lambda>(p, n). p + n \<le> ring_len r) q"
proof -
  have "sorted_wrt disjoint_blocks q \<and> (\<forall>x \<in> set q. fst x + snd x \<le> ring_len r)"
  proof (cases "one_row r q")
    case True
    then obtain e where "chain (ring_head r) q e" "e \<le> ring_len r" by (auto simp: one_row_def)
    then show ?thesis using chain_disjoint chain_within by fastforce
  next
    case False
    then obtain q1 q2 g where q: "q = q1 @ q2" "chain (ring_head r) q1 g" "chain 0 q2 (ring_tail r)" "ring_tail r \<le> ring_head r" "g \<le> ring_len r"
      using assms by (auto simp: ring_ok_def two_rows_def)
    have w: "\<forall>x \<in> set q1. ring_head r \<le> fst x \<and> fst x + snd x \<le> g" "\<forall>y \<in> set q2. fst y + snd y \<le> ring_tail r"
      using chain_within [OF q(2)] chain_within [OF q(3)] by auto
    then have "disjoint_blocks x y" if "x \<in> set q1" "y \<in> set q2" for x y
      using that q(4) by (fastforce simp: disjoint_blocks_def)
    then show ?thesis
      using w q chain_disjoint [OF q(2)] chain_disjoint [OF q(3)] assms by (fastforce simp: sorted_wrt_append ring_ok_def)
  qed
  then show "sorted_wrt disjoint_blocks q" "list_all (\<lambda>(p, n). p + n \<le> ring_len r) q" by (auto simp: list_all_iff)
qed

section \<open>Giving back several blocks at once\<close>

lemma ring_free_twice:
  assumes "m \<le> n" "n \<le> ring_size r" "ring_head r < ring_len r"
    and "ring_head r + m < ring_len r \<and> ring_head r + n \<le> ring_len r \<or> ring_len r < ring_head r + m \<and> n < ring_len r"
  shows "ring_free (n - m) (ring_free m r) = ring_free n r"
proof -
  note f = free_fields [OF assms(3), of m]
  have h: "ring_head (ring_free m r) < ring_len (ring_free m r)"
    using assms by (auto simp: f)
  have "ring_head (ring_free (n - m) (ring_free m r)) = ring_head (ring_free n r)"
    using assms unfolding free_fields(1) [OF h] free_fields(1) [OF assms(3)] f(3) by auto
  moreover have "ring_size (ring_free (n - m) (ring_free m r)) = ring_size (ring_free n r)"
    using assms(1,2) unfolding free_fields(4) [OF h] free_fields(4) [OF assms(3)] f(4) by simp
  ultimately show ?thesis
    by (intro ring.equality) (simp_all add: free_fields [OF h] free_fields [OF assms(3)])
qed

text \<open>Blocks that are given back together end inside whatever encloses each of them.\<close>

lemma give_within:
  assumes "give n q = Some q'" "q \<noteq> []" "\<forall>x \<in> set q. fst x + snd x \<le> L"
  shows "fst (hd q) + n \<le> L \<and> n \<le> used q"
  using assms
proof (induction n q rule: give.induct)
  case (2 n p m q)
  show ?case
  proof (cases "n \<le> m")
    case True
    then show ?thesis using 2(4) by auto
  next
    case False
    then have q: "q \<noteq> []" "fst (hd q) = p + m" "give (n - m) q = Some q'" using 2(2) by (auto split: if_splits)
    have "fst (hd q) + (n - m) \<le> L \<and> n - m \<le> used q"
      by (rule 2(1)) (use q False 2(4) in simp_all)
    then show ?thesis using q(2) False by auto
  qed
qed simp

text \<open>The oldest block starts at the head or, behind a skipped rest, at the start of the region.\<close>

lemma first_block:
  assumes "ring_ok r ((p, m) # q)"
  shows "p = ring_head r \<or> p = 0 \<and> ring_len r < ring_head r + m \<and> (\<forall>x \<in> set ((p, m) # q). fst x + snd x \<le> ring_tail r)"
proof (cases "one_row r ((p, m) # q)")
  case True
  then show ?thesis by (auto simp: one_row_def)
next
  case False
  then obtain q1 q2 g where q: "(p, m) # q = q1 @ q2" "chain (ring_head r) q1 g" "chain 0 q2 (ring_tail r)"
    "g \<le> ring_len r" "g = ring_len r \<or> ring_len r - g < snd (hd q2)" "ring_head r < ring_len r"
    using assms by (auto simp: ring_ok_def two_rows_def)
  show ?thesis
  proof (cases q1)
    case Nil
    then show ?thesis using q chain_within [OF q(3)] by auto
  next
    case (Cons x q1')
    then show ?thesis using q(1,2) by (cases x) auto
  qed
qed

lemma give_free_twice:
  assumes ok: "ring_ok r ((p, m) # q)" and q: "q \<noteq> []" "fst (hd q) = p + m" "give (n - m) q = Some q'" and n: "m < n"
  shows "ring_free (n - m) (ring_free m r) = ring_free n r"
proof (rule ring_free_twice)
  have f: "ring_size r = m + used q" "ring_head r < ring_len r" "ring_tail r < ring_len r" "fst (hd q) < ring_len r"
    using ok q(1) by (auto simp: ring_ok_def)
  have g: "give n ((p, m) # q) = Some q'" using q n by simp
  have all: "\<forall>x \<in> set ((p, m) # q). fst x + snd x \<le> ring_len r" using ring_ok_blocks(2) [OF ok] by (auto simp: list_all_iff)
  then have w: "p + n \<le> ring_len r" "n \<le> used ((p, m) # q)"
    using give_within [OF g, of "ring_len r"] by auto
  show "m \<le> n" "n \<le> ring_size r" "ring_head r < ring_len r" using n f w(2) by simp_all
  show "ring_head r + m < ring_len r \<and> ring_head r + n \<le> ring_len r \<or> ring_len r < ring_head r + m \<and> n < ring_len r"
    using first_block [OF ok]
  proof
    assume "p = ring_head r"
    then show ?thesis using w(1) f(4) q(2) by simp
  next
    assume "p = 0 \<and> ring_len r < ring_head r + m \<and> (\<forall>x \<in> set ((p, m) # q). fst x + snd x \<le> ring_tail r)"
    then show ?thesis using give_within [OF g, of "ring_tail r"] f(3) by auto
  qed
qed

lemma give_ok:
  assumes "ring_ok r q" "give n q = Some q'"
  shows "ring_ok (ring_free n r) q'"
  using assms
proof (induction n q arbitrary: r rule: give.induct)
  case (1 n)
  then have "n = 0" "q' = []" by (auto split: if_splits)
  moreover have "ring_free 0 r = r" using 1(1) by (simp add: ring_ok_def ring_free_def Let_def)
  ultimately show ?case using 1(1) by simp
next
  case (2 n p m q)
  consider "n = 0" "q' = (p, m) # q" | "n = m" "q' = q" | "n \<noteq> 0" "m < n" "q \<noteq> []" "fst (hd q) = p + m" "give (n - m) q = Some q'"
    using 2(3) by (auto split: if_splits)
  then show ?case
  proof cases
    case 1
    moreover have "ring_free 0 r = r" using 2(2) by (simp add: ring_ok_def ring_free_def Let_def)
    ultimately show ?thesis using 2(2) by simp
  next
    case 2
    then show ?thesis using free_ok \<open>ring_ok r ((p, m) # q)\<close> by simp
  next
    case 3
    then have "ring_ok (ring_free (n - m) (ring_free m r)) q'" using 2(1) [of "ring_free m r"] free_ok [OF 2(2)] by simp
    then show ?thesis using give_free_twice [OF 2(2) 3(3-5,2)] by simp
  qed
qed

section \<open>Every sequence of calls\<close>

lemma clear_ok: "0 < ring_len r \<Longrightarrow> ring_ok (ring_clear r) []"
  by (auto simp: ring_clear_def ring_ok_def intro!: one_rowI [of _ _ 0])

text \<open>A buffer without memory hands out nothing.\<close>

definition use_ok :: "nat \<Rightarrow> ring_use \<Rightarrow> bool" where
  "use_ok cap s = (let (r, q, ok) = s in ring_len r = cap \<and>
     (ok \<longrightarrow> (if cap = 0 then r = HRingBuf_cap 0 \<and> q = [] else ring_ok r q)))"

lemma ring_len_keeps: "ring_len (ring_free n r) = ring_len r" "ring_len (fst (ring_alloc n r)) = ring_len r"
  "ring_len (ring_clear r) = ring_len r"
  by (auto simp: ring_free_def ring_alloc_def ring_clear_def Let_def split: prod.splits)

lemma empty_ring: "ring_alloc n (HRingBuf_cap 0) = (HRingBuf_cap 0, None)" "ring_free 0 (HRingBuf_cap 0) = HRingBuf_cap 0"
  by (auto simp: ring_alloc_def ring_place_def ring_free_def HRingBuf_cap_def)

lemma ring_user_ok:
  assumes "use_ok cap (r, q, ok)"
  shows "use_ok cap (ring_user op (r, q, ok))"
proof (cases op)
  case (ring_get n)
  obtain r' p where a: "ring_alloc n r = (r', p)" by fastforce
  then show ?thesis
    using assms ring_get alloc_ok [OF _ a] ring_len_keeps(2) [of n r] empty_ring(1) [of n]
    by (auto simp: use_ok_def ring_user_def)
next
  case (ring_give_back n)
  show ?thesis
  proof (cases "give n q")
    case None
    then show ?thesis using assms ring_give_back by (simp add: use_ok_def ring_user_def ring_len_keeps)
  next
    case (Some q')
    then have u: "ring_user op (r, q, ok) = (ring_free n r, q', ok)" using ring_give_back by (simp add: ring_user_def)
    show ?thesis
      using assms give_ok [OF _ Some] Some empty_ring(2) unfolding u
      by (auto simp: use_ok_def ring_len_keeps split: if_splits)
  qed
next
  case ring_reset
  have "ring_clear r = HRingBuf_cap 0" if "ring_len r = 0" using that by (simp add: ring_clear_def HRingBuf_cap_def)
  then show ?thesis using assms ring_reset clear_ok [of r] by (auto simp: use_ok_def ring_user_def ring_len_keeps)
qed

lemma ring_run_ok: "use_ok cap s \<Longrightarrow> use_ok cap (fold ring_user ops s)"
proof (induction ops arbitrary: s)
  case (Cons op ops)
  obtain r q ok where s: "s = (r, q, ok)" by (cases s)
  then show ?case using Cons.IH [of "ring_user op s"] ring_user_ok [of cap r q ok op] Cons.prems by simp
qed simp

lemma ring_start_ok: "use_ok cap (HRingBuf_cap cap, [], True)"
  using clear_ok [of "HRingBuf_cap cap"] by (auto simp: use_ok_def HRingBuf_cap_def ring_clear_def)

text \<open>C37: Blocks of the ring buffer never overlap: whatever a user asks for, as long as each \<^verbatim>\<open>free\<close> since the last
  \<^verbatim>\<open>clear\<close> was for exactly the bytes of some of the oldest blocks in use and these lay side by side (no
  part of a block, and not across a skipped rest of the region), all blocks in use lie inside the
  region and no two of them share a byte, and the size that the buffer reports is the sum of their
  lengths. The flag in the third component of the state records that condition.\<close>

theorem ring_blocks_disjoint:
  assumes "ring_run ops cap = (r, q, True)"
  shows "sorted_wrt disjoint_blocks q \<and> list_all (\<lambda>(p, n). p + n \<le> cap) q \<and> ring_size r = used q"
proof -
  have "use_ok cap (r, q, True)" using ring_run_ok [OF ring_start_ok, of cap ops] assms by (simp add: ring_run_def)
  then have "cap = 0 \<and> q = [] \<and> ring_size r = 0 \<or> ring_len r = cap \<and> ring_ok r q"
    by (auto simp: use_ok_def HRingBuf_cap_def split: if_splits)
  then show ?thesis using ring_ok_blocks [of r q] by (auto simp: ring_ok_def)
qed

theorem ring_blocks_disjoint_witness:
  "sorted_wrt disjoint_blocks [(0, 4), (4, 2)] \<and> list_all (\<lambda>(p, n). p + n \<le> 10) [(0 :: nat, 4), (4, 2)]"
proof -
  have "ring_run [ring_get 3, ring_get 3, ring_get 3, ring_give_back 6, ring_get 4, ring_give_back 3, ring_get 2] 10 =
      (\<lparr>ring_len = 10, ring_head = 9, ring_tail = 6, ring_size = 6\<rparr>, [(0, 4), (4, 2)], True)"
    by code_simp
  from ring_blocks_disjoint [OF this] show ?thesis by simp
qed

text \<open>Without that condition blocks do overlap: of ten bytes, the blocks at 4 and 0 are given back with one
  call of eight bytes, which leaves the head at 8 although the skipped rest is free too; the next two
  blocks are [4, 10) and [0, 8).\<close>

lemma ring_free_across_the_rest_overlaps:
  "let (r, q, ok) = ring_run [ring_get 4, ring_get 4, ring_give_back 4, ring_get 4, ring_give_back 8] 10;
       (r1, p1) = ring_alloc 6 r; (r2, p2) = ring_alloc 8 r1
   in \<not> ok \<and> p1 = Some 4 \<and> p2 = Some 0 \<and> \<not> disjoint_blocks (4, 6) (0, 8)"
  by code_simp

text \<open>An empty buffer need not have room for a block of its own length: the two ends stay where they are.\<close>

lemma ring_empty_refuses: "snd (ring_alloc 6 (fst (ring_run [ring_get 5, ring_give_back 5] 10))) = None"
  by code_simp

end
