(* ===== verification/ObjectPool.thy ===== *)
theory ObjectPool
  imports HbusPrelude
begin

text \<open>
  The object pool of \<^verbatim>\<open>hv/hobjectpool.h\<close>. Every part of a member function that holds the mutex is one step; the calls of
  \<^verbatim>\<open>Borrow\<close> in progress are program points, so that any number of threads interleave. A \<^verbatim>\<open>shared_ptr\<close> is the
  number of its object, and a null pointer is \<open>None\<close>; \<^verbatim>\<open>Add\<close> does not test for one, so the list of idle objects
  may hold null pointers. The factory may also throw, out of a section where \<^verbatim>\<open>Borrow\<close> has unlocked the mutex
  behind the back of its \<^verbatim>\<open>unique_lock\<close>.
\<close>

section \<open>Member functions\<close>

record pool =
  pool_object_num :: int
  pool_max_num :: int
  pool_timeout :: int
  pool_objects :: "nat option list"

text \<open>The constructor, with what the calls of the factory return; if one of them throws there is no pool.\<close>

definition HObjectPool :: "nat option list \<Rightarrow> int \<Rightarrow> int \<Rightarrow> pool" where
  "HObjectPool created max_num timeout =
     (let objs = filter (\<lambda>p. p \<noteq> None) created in
      \<lparr>pool_object_num = int (length objs), pool_max_num = max_num, pool_timeout = timeout, pool_objects = objs\<rparr>)"

definition IdleNum :: "pool \<Rightarrow> int" where
  "IdleNum P = int (length (pool_objects P))"

definition BorrowNum :: "pool \<Rightarrow> int" where
  "BorrowNum P = pool_object_num P - IdleNum P"

definition TryBorrow :: "pool \<Rightarrow> pool \<times> nat option" where
  "TryBorrow P =
     (case pool_objects P of [] \<Rightarrow> (P, None) | p # ps \<Rightarrow> (P\<lparr>pool_objects := ps\<rparr>, p))"

text \<open>\<^verbatim>\<open>Borrow\<close> after a failed \<^verbatim>\<open>TryBorrow\<close>: with the mutex locked again; with the mutex locked after the factory was
  called; and after the wait.\<close>

datatype borrow_phase = B_try | B_lock | B_create | B_wait | B_done "nat option" | B_thrown

definition borrow_lock :: "pool \<Rightarrow> pool \<times> borrow_phase" where
  "borrow_lock P =
     (if pool_object_num P < pool_max_num P then (P\<lparr>pool_object_num := pool_object_num P + 1\<rparr>, B_create)
      else if 0 < pool_timeout P then (P, B_wait)
      else (P, B_done None))"

definition borrow_created :: "nat option \<Rightarrow> pool \<Rightarrow> pool" where
  "borrow_created p P = (if p = None then P\<lparr>pool_object_num := pool_object_num P - 1\<rparr> else P)"

definition borrow_wake :: "bool \<Rightarrow> pool \<Rightarrow> pool \<times> nat option" where
  "borrow_wake timed_out P = (if timed_out then (P, None) else TryBorrow P)"

definition Return :: "nat option \<Rightarrow> pool \<Rightarrow> pool" where
  "Return obj P = (if obj = None then P else P\<lparr>pool_objects := pool_objects P @ [obj]\<rparr>)"

definition Add :: "nat option \<Rightarrow> pool \<Rightarrow> pool \<times> bool" where
  "Add p P =
     (if pool_max_num P \<le> pool_object_num P then (P, False)
      else (P\<lparr>pool_objects := pool_objects P @ [p], pool_object_num := pool_object_num P + 1\<rparr>, True))"

fun erase_first :: "nat option \<Rightarrow> nat option list \<Rightarrow> nat option list option" where
  "erase_first p [] = None"
| "erase_first p (q # qs) = (if q = p then Some qs else map_option ((#) q) (erase_first p qs))"

definition Remove :: "nat option \<Rightarrow> pool \<Rightarrow> pool \<times> bool" where
  "Remove p P =
     (case erase_first p (pool_objects P) of
        None \<Rightarrow> (P, False)
      | Some ps \<Rightarrow> (P\<lparr>pool_objects := ps, pool_object_num := pool_object_num P - 1\<rparr>, True))"

definition Clear :: "pool \<Rightarrow> pool" where
  "Clear P = P\<lparr>pool_objects := [], pool_object_num := 0\<rparr>"

section \<open>Threads that share a pool\<close>

text \<open>The threads in \<^verbatim>\<open>Borrow\<close>, the objects that were borrowed and not yet returned, and what has happened: a call
  of \<^verbatim>\<open>Clear\<close>, null pointers that were added, how many null pointers were taken out again, and an exception of
  the factory.\<close>

record pool_sys =
  sys_pool :: pool
  sys_threads :: "borrow_phase list"
  sys_held :: "nat list"
  sys_cleared :: bool
  sys_null_added :: bool
  sys_lost :: nat
  sys_threw :: bool

datatype pool_event =
  E_borrow | E_try nat | E_lock nat | E_created nat "nat option" | E_throw nat | E_wake nat bool |
  E_try_borrow | E_return "nat option" | E_add "nat option" | E_remove "nat option" | E_clear

definition at_phase :: "borrow_phase \<Rightarrow> nat \<Rightarrow> pool_sys \<Rightarrow> bool" where
  "at_phase ph i s \<longleftrightarrow> i < length (sys_threads s) \<and> sys_threads s ! i = ph"

text \<open>An object that is new to the pool: fresh memory, or an object the user brings.\<close>

definition unknown :: "pool_sys \<Rightarrow> nat \<Rightarrow> bool" where
  "unknown s p \<longleftrightarrow> Some p \<notin> set (pool_objects (sys_pool s)) \<and> p \<notin> set (sys_held s)"

definition goto :: "nat \<Rightarrow> borrow_phase \<Rightarrow> pool_sys \<Rightarrow> pool_sys" where
  "goto i ph s = s\<lparr>sys_threads := (sys_threads s)[i := ph]\<rparr>"

definition hold :: "nat option \<Rightarrow> pool_sys \<Rightarrow> pool_sys" where
  "hold obj s = (case obj of None \<Rightarrow> s | Some p \<Rightarrow> s\<lparr>sys_held := p # sys_held s\<rparr>)"

text \<open>The system after \<open>P\<close> lost its first idle entry: a null pointer among the entries is gone for good.\<close>

definition take_front :: "pool \<Rightarrow> pool_sys \<Rightarrow> pool_sys" where
  "take_front P s = s\<lparr>sys_pool := P,
     sys_lost := sys_lost s + count_list (pool_objects (sys_pool s)) None - count_list (pool_objects P) None\<rparr>"

text \<open>A step, or \<open>None\<close> if it is not enabled: a thread returns only what it has borrowed, and adds only objects that are
  not in the pool. An exception of the factory leaves the counter as it is; the destructor of the
  \<^verbatim>\<open>unique_lock\<close> then unlocks a mutex that the thread does not hold, which is undefined.\<close>

fun pool_step :: "pool_event \<Rightarrow> pool_sys \<Rightarrow> pool_sys option" where
  "pool_step E_borrow s = Some (s\<lparr>sys_threads := sys_threads s @ [B_try]\<rparr>)"
| "pool_step (E_try i) s =
     (if at_phase B_try i s then
        (case TryBorrow (sys_pool s) of
           (P, Some p) \<Rightarrow> Some (hold (Some p) (goto i (B_done (Some p)) (take_front P s)))
         | (P, None) \<Rightarrow> Some (goto i B_lock (take_front P s)))
      else None)"
| "pool_step (E_lock i) s =
     (if at_phase B_lock i s then
        let (P, ph) = borrow_lock (sys_pool s) in Some (goto i ph (s\<lparr>sys_pool := P\<rparr>))
      else None)"
| "pool_step (E_created i obj) s =
     (if at_phase B_create i s \<and> (case obj of None \<Rightarrow> True | Some p \<Rightarrow> unknown s p) then
        Some (hold obj (goto i (B_done obj) (s\<lparr>sys_pool := borrow_created obj (sys_pool s)\<rparr>)))
      else None)"
| "pool_step (E_throw i) s =
     (if at_phase B_create i s then Some (goto i B_thrown (s\<lparr>sys_threw := True\<rparr>)) else None)"
| "pool_step (E_wake i timed_out) s =
     (if at_phase B_wait i s then
        let (P, obj) = borrow_wake timed_out (sys_pool s) in Some (hold obj (goto i (B_done obj) (take_front P s)))
      else None)"
| "pool_step E_try_borrow s =
     (let (P, obj) = TryBorrow (sys_pool s) in Some (hold obj (take_front P s)))"
| "pool_step (E_return obj) s =
     (case obj of
        None \<Rightarrow> Some (s\<lparr>sys_pool := Return None (sys_pool s)\<rparr>)
      | Some p \<Rightarrow>
          if p \<in> set (sys_held s)
          then Some (s\<lparr>sys_pool := Return (Some p) (sys_pool s), sys_held := remove1 p (sys_held s)\<rparr>)
          else None)"
| "pool_step (E_add obj) s =
     (if (case obj of None \<Rightarrow> True | Some p \<Rightarrow> unknown s p)
      then Some (s\<lparr>sys_pool := fst (Add obj (sys_pool s)), sys_null_added := sys_null_added s \<or> obj = None\<rparr>)
      else None)"
| "pool_step (E_remove obj) s = Some (s\<lparr>sys_pool := fst (Remove obj (sys_pool s))\<rparr>)"
| "pool_step E_clear s = Some (s\<lparr>sys_pool := Clear (sys_pool s), sys_cleared := True\<rparr>)"

definition pool_start :: "nat option list \<Rightarrow> int \<Rightarrow> int \<Rightarrow> pool_sys" where
  "pool_start created max_num timeout =
     \<lparr>sys_pool = HObjectPool created max_num timeout, sys_threads = [], sys_held = [], sys_cleared = False,
      sys_null_added = False, sys_lost = 0, sys_threw = False\<rparr>"

text \<open>The objects among the entries.\<close>

definition non_null :: "nat option list \<Rightarrow> nat list" where
  "non_null xs = map the (filter (\<lambda>p. p \<noteq> None) xs)"

text \<open>The states after any sequence of enabled steps; the factory never gives one object twice.\<close>

inductive pool_reachable :: "pool_sys \<Rightarrow> pool_sys \<Rightarrow> bool" for init where
  start: "distinct (non_null (pool_objects (sys_pool init))) \<Longrightarrow> pool_reachable init init"
| step: "pool_reachable init s \<Longrightarrow> pool_step e s = Some s' \<Longrightarrow> pool_reachable init s'"

section \<open>Every object has one owner and is counted\<close>

definition creating :: "pool_sys \<Rightarrow> nat" where
  "creating s = length (filter (\<lambda>ph. ph = B_create) (sys_threads s))"



lemma non_null_simps [simp]:
  "non_null [] = []" "non_null (None # xs) = non_null xs" "non_null (Some p # xs) = p # non_null xs"
  "non_null (xs @ ys) = non_null xs @ non_null ys" "set (non_null xs) = {p. Some p \<in> set xs}"
  by (auto simp: non_null_def image_iff) (metis option.distinct(1) option.sel)




lemma sys_simps [simp]:
  "sys_pool (goto i ph s) = sys_pool s" "sys_held (goto i ph s) = sys_held s" "sys_cleared (goto i ph s) = sys_cleared s"
  "sys_null_added (goto i ph s) = sys_null_added s" "sys_lost (goto i ph s) = sys_lost s" "sys_threw (goto i ph s) = sys_threw s"
  "sys_pool (hold obj s) = sys_pool s" "sys_cleared (hold obj s) = sys_cleared s" "creating (hold obj s) = creating s"
  "sys_null_added (hold obj s) = sys_null_added s" "sys_lost (hold obj s) = sys_lost s" "sys_threw (hold obj s) = sys_threw s"
  "sys_held (hold None s) = sys_held s" "sys_held (hold (Some p) s) = p # sys_held s"
  "creating (s\<lparr>sys_pool := P\<rparr>) = creating s" "at_phase ph i (s\<lparr>sys_pool := P\<rparr>) = at_phase ph i s"
  "sys_pool (take_front P s) = P" "sys_held (take_front P s) = sys_held s" "sys_cleared (take_front P s) = sys_cleared s"
  "sys_null_added (take_front P s) = sys_null_added s" "sys_threw (take_front P s) = sys_threw s"
  "creating (take_front P s) = creating s" "at_phase ph i (take_front P s) = at_phase ph i s"
  by (simp_all add: goto_def hold_def creating_def at_phase_def take_front_def split: option.split)

lemma take_front_lost [simp]:
  "sys_lost (take_front P s) = sys_lost s + count_list (pool_objects (sys_pool s)) None - count_list (pool_objects P) None"
  by (simp add: take_front_def)











section \<open>Runs\<close>

fun pool_run :: "pool_event list \<Rightarrow> pool_sys \<Rightarrow> pool_sys option" where
  "pool_run [] s = Some s"
| "pool_run (e # es) s = Option.bind (pool_step e s) (pool_run es)"

lemma pool_run_reachable:
  "pool_run es s = Some s' \<Longrightarrow> pool_reachable init s \<Longrightarrow> pool_reachable init s'"
  by (induction es s rule: pool_run.induct) (auto split: Option.bind_splits intro: pool_reachable.step)

lemma pool_run_start: "pool_run es (pool_start [] m t) = Some s \<Longrightarrow> pool_reachable (pool_start [] m t) s"
  by (erule pool_run_reachable) (simp add: pool_reachable.start pool_start_def HObjectPool_def)

lemmas pool_eval = pool_start_def HObjectPool_def at_phase_def TryBorrow_def goto_def hold_def borrow_lock_def
  borrow_created_def unknown_def Return_def Clear_def Add_def take_front_def

definition one_borrowed :: "pool_event list" where
  "one_borrowed = [E_borrow, E_try 0, E_lock 0, E_created 0 (Some 7)]"


text \<open>A thread that found the pool empty does not look again before it waits: an object that is returned in between stays idle
  while the thread waits, and it may wait until the timeout.\<close>

lemma borrow_misses_returned:
  "\<exists>s. pool_reachable (pool_start [] 1 3000) s \<and> at_phase B_wait 1 s \<and> pool_objects (sys_pool s) = [Some 7]"
proof -
  obtain s where "pool_run (one_borrowed @ [E_borrow, E_try 1, E_return (Some 7), E_lock 1]) (pool_start [] 1 3000) = Some s"
    "at_phase B_wait 1 s" "pool_objects (sys_pool s) = [Some 7]"
    by (simp add: one_borrowed_def pool_eval)
  then show ?thesis using pool_run_start by blast
qed

text \<open>Clearing the pool forgets the borrowed objects: afterwards more objects exist than the maximum.\<close>

lemma clear_exceeds_maximum:
  "\<exists>s. pool_reachable (pool_start [] 1 3000) s \<and> sys_held s = [8, 7] \<and> pool_max_num (sys_pool s) = 1"
proof -
  obtain s where "pool_run (one_borrowed @ [E_clear, E_borrow, E_try 1, E_lock 1, E_created 1 (Some 8)]) (pool_start [] 1 3000) = Some s"
    "sys_held s = [8, 7]" "pool_max_num (sys_pool s) = 1"
    by (simp add: one_borrowed_def pool_eval)
  then show ?thesis using pool_run_start by blast
qed

text \<open>A factory that throws leaves the counter raised: with a maximum of one, the pool then has no object and
  will never make one.\<close>

lemma throwing_factory_leaks:
  "\<exists>s. pool_reachable (pool_start [] 1 3000) s \<and> pool_object_num (sys_pool s) = 1 \<and> pool_objects (sys_pool s) = [] \<and>
    sys_held s = [] \<and> creating s = 0 \<and> snd (borrow_lock (sys_pool s)) = B_wait"
proof -
  obtain s where "pool_run [E_borrow, E_try 0, E_lock 0, E_throw 0] (pool_start [] 1 3000) = Some s"
    "pool_object_num (sys_pool s) = 1" "pool_objects (sys_pool s) = []" "sys_held s = []" "creating s = 0"
    "snd (borrow_lock (sys_pool s)) = B_wait"
    by (simp add: pool_eval creating_def)
  then show ?thesis using pool_run_start by blast
qed

text \<open>A null pointer that is added counts as an object: once it is taken out, the pool believes that an object
  is lent although nobody holds one.\<close>

lemma null_object_counts:
  "\<exists>s. pool_reachable (pool_start [] 1 3000) s \<and> BorrowNum (sys_pool s) = 1 \<and> sys_held s = [] \<and> creating s = 0 \<and>
    snd (borrow_lock (sys_pool s)) = B_wait"
proof -
  obtain s where "pool_run [E_add None, E_try_borrow] (pool_start [] 1 3000) = Some s"
    "BorrowNum (sys_pool s) = 1" "sys_held s = []" "creating s = 0" "snd (borrow_lock (sys_pool s)) = B_wait"
    by (simp add: pool_eval creating_def BorrowNum_def IdleNum_def)
  then show ?thesis using pool_run_start by blast
qed

end
