(* ===== verification/ThreadPool.thy ===== *)
theory ThreadPool
  imports HbusPrelude
begin

text \<open>
  The thread pool of \<^verbatim>\<open>hv/hthreadpool.h\<close>. Worker threads and the calls of users are program points between
  accesses to shared data: the atomic counters and the status, the queue under \<^verbatim>\<open>task_mutex\<close>, and the list of
  threads under \<^verbatim>\<open>thread_mutex\<close>. Any number of them interleave. A task is a number. The calls come from threads
  that are not workers of the pool.

  Three things in the code are not synchronised, and the model records them instead of hiding them.
  \<^verbatim>\<open>stop\<close> walks and clears the list of threads without \<^verbatim>\<open>thread_mutex\<close>: the flag \<open>raced\<close> is set when that happens
  while another thread is inside \<^verbatim>\<open>delThread\<close> or \<^verbatim>\<open>addThread\<close>, which is a data race, and nothing is claimed
  afterwards. \<^verbatim>\<open>stop\<close> may overlap with \<^verbatim>\<open>start\<close> and \<^verbatim>\<open>commit\<close>, which changes the counters behind its back: the
  flag \<open>overlapped\<close>. \<^verbatim>\<open>wait\<close> reads the queue and the two counters one after the other, so the values it compares
  are of different moments; \<open>changes\<close> counts the changes of the number of threads. The reads of the queue in
  \<^verbatim>\<open>wait\<close> and \<^verbatim>\<open>commit\<close>, which are made without \<^verbatim>\<open>task_mutex\<close>, are taken as atomic.
\<close>

section \<open>State\<close>

datatype tp_status = STOP | RUNNING | PAUSE

record thread_data =
  td_id :: nat
  td_status :: tp_status
  td_stop_time :: nat

text \<open>The function of a worker thread: the loop test, the loop of a paused pool, the wait, the execution of a task, and the three parts of
  \<^verbatim>\<open>delThread\<close>.\<close>

datatype worker = W_loop | W_pause | W_wait | W_run nat | W_del0 | W_del1 | W_del2 | W_exit

text \<open>What a call does after it has created a thread: the rest of the loop of \<^verbatim>\<open>start\<close>, which was called by the user or
  for a task, or the push of a task.\<close>

datatype after = A_start nat "nat option" | A_push nat

text \<open>The calls: \<^verbatim>\<open>commit\<close> and \<^verbatim>\<open>start\<close>; \<^verbatim>\<open>stop\<close> with its loop over the list, the clearing and the two resets; \<^verbatim>\<open>pause\<close> and
  \<^verbatim>\<open>resume\<close> with their test and their store; \<^verbatim>\<open>wait\<close> with its reads. Besides the value it has read, a \<^verbatim>\<open>wait\<close>
  carries, for the statements only, the tasks that were committed and the changes that were counted when
  it found the queue empty.\<close>

datatype user =
  U_commit nat | U_begin int "nat option" | U_run int "nat option" | U_start nat "nat option" | U_check nat |
  U_create after | U_add nat after | U_add2 nat after | U_push nat |
  U_stop | U_stop1 | U_join nat | U_clear | U_cur | U_idle |
  U_pause | U_pause1 | U_resume | U_resume1 |
  U_wait | U_wait1 | U_wait2 "nat list" nat | U_wait3 int "nat list" nat | U_done

record tpool =
  min_thread_num :: int
  max_thread_num :: int
  status :: tp_status
  cur_thread_num :: int
  idle_thread_num :: int
  threads :: "thread_data list"
  tasks :: "nat list"
  task_locked :: bool
  thread_locked :: bool
  workers :: "worker list"
  users :: "user list"
  raced :: bool
  overlapped :: bool
  changes :: nat
  committed :: "nat list"
  started :: "nat list"
  finished :: "nat list"

definition HThreadPool :: "int \<Rightarrow> int \<Rightarrow> tpool" where
  "HThreadPool min_threads max_threads =
     \<lparr>min_thread_num = min_threads, max_thread_num = max_threads, status = STOP, cur_thread_num = 0, idle_thread_num = 0,
      threads = [], tasks = [], task_locked = False, thread_locked = False, workers = [], users = [], raced = False,
      overlapped = False, changes = 0,
      committed = [], started = [], finished = []\<rparr>"

section \<open>Worker threads\<close>

definition worker_to :: "nat \<Rightarrow> worker \<Rightarrow> tpool \<Rightarrow> tpool" where
  "worker_to w ph s = s\<lparr>workers := (workers s)[w := ph]\<rparr>"

text \<open>After the wait, with \<^verbatim>\<open>task_mutex\<close> locked. A thread that is to be removed keeps the mutex.\<close>

definition after_wait :: "nat \<Rightarrow> tpool \<Rightarrow> tpool" where
  "after_wait w s =
     (if status s = STOP then worker_to w W_exit s
      else case tasks s of
        [] \<Rightarrow> if min_thread_num s < cur_thread_num s then worker_to w W_del0 (s\<lparr>task_locked := True\<rparr>) else worker_to w W_loop s
      | t # ts \<Rightarrow> worker_to w (W_run t)
          (s\<lparr>idle_thread_num := idle_thread_num s - 1, tasks := ts, started := started s @ [t]\<rparr>))"

text \<open>The loop of \<^verbatim>\<open>delThread\<close>: threads that stopped before this second are joined and erased, the thread itself is
  marked.\<close>

definition joins :: "nat \<Rightarrow> thread_data \<Rightarrow> bool" where
  "joins now d \<longleftrightarrow> td_status d = STOP \<and> td_stop_time d < now"

definition del_loop :: "nat \<Rightarrow> nat \<Rightarrow> nat \<Rightarrow> thread_data list \<Rightarrow> thread_data list" where
  "del_loop now stop_time w ds =
     map (\<lambda>d. if td_id d = w then d\<lparr>td_status := STOP, td_stop_time := stop_time\<rparr> else d) (filter (\<lambda>d. \<not> joins now d) ds)"

definition exited :: "tpool \<Rightarrow> nat \<Rightarrow> bool" where
  "exited s w \<longleftrightarrow> w < length (workers s) \<and> workers s ! w = W_exit"

text \<open>One step of a worker; \<open>None\<close> if it is blocked. The arguments say whether the wait has timed out, and the two readings of
  the clock in \<^verbatim>\<open>delThread\<close>.\<close>

definition worker_step :: "bool \<Rightarrow> nat \<Rightarrow> nat \<Rightarrow> nat \<Rightarrow> tpool \<Rightarrow> tpool option" where
  "worker_step timed_out now stop_time w s =
     (case workers s ! w of
        W_loop \<Rightarrow> Some (worker_to w (if status s = STOP then W_exit else W_pause) s)
      | W_pause \<Rightarrow> Some (if status s = PAUSE then s else worker_to w W_wait s)
      | W_wait \<Rightarrow>
          if \<not> task_locked s \<and> (status s = STOP \<or> tasks s \<noteq> [] \<or> timed_out) then Some (after_wait w s) else None
      | W_run t \<Rightarrow>
          Some (worker_to w W_loop (s\<lparr>idle_thread_num := idle_thread_num s + 1, finished := finished s @ [t]\<rparr>))
      | W_del0 \<Rightarrow>
          if thread_locked s then None
          else Some (worker_to w W_del1
            (s\<lparr>thread_locked := True, cur_thread_num := cur_thread_num s - 1, changes := changes s + 1\<rparr>))
      | W_del1 \<Rightarrow>
          Some (worker_to w W_del2 (s\<lparr>idle_thread_num := idle_thread_num s - 1, changes := changes s + 1\<rparr>))
      | W_del2 \<Rightarrow>
          if list_all (\<lambda>d. joins now d \<longrightarrow> exited s (td_id d)) (threads s)
          then Some (worker_to w W_exit
            (s\<lparr>threads := del_loop now stop_time w (threads s), thread_locked := False, task_locked := False\<rparr>))
          else None
      | W_exit \<Rightarrow> None)"

section \<open>Calls\<close>

definition user_to :: "nat \<Rightarrow> user \<Rightarrow> tpool \<Rightarrow> tpool" where
  "user_to u ph s = s\<lparr>users := (users s)[u := ph]\<rparr>"

definition start_threads :: "int \<Rightarrow> tpool \<Rightarrow> nat" where
  "start_threads n s = nat (min (max n (min_thread_num s)) (max_thread_num s))"

primrec continue :: "after \<Rightarrow> user" where
  "continue (A_start k t) = U_start k t"
| "continue (A_push t) = U_push t"

text \<open>\<^verbatim>\<open>addThread\<close> after the first increment.\<close>

definition add_entry :: "nat \<Rightarrow> tpool \<Rightarrow> tpool" where
  "add_entry w s =
     s\<lparr>idle_thread_num := idle_thread_num s + 1, thread_locked := False,
       threads := threads s @ [\<lparr>td_id = w, td_status = RUNNING, td_stop_time = 0\<rparr>], changes := changes s + 1\<rparr>"

text \<open>\<^verbatim>\<open>stop\<close>: the test and the store of the status; the loop over the list, which joins one thread after the
  other and blocks until it has ended; the clearing of the list; the two resets.\<close>

fun stops :: "user \<Rightarrow> bool" where
  "stops U_stop = True"
| "stops U_stop1 = True"
| "stops (U_join i) = True"
| "stops U_clear = True"
| "stops U_cur = True"
| "stops U_idle = True"
| "stops _ = False"

definition stop_step :: "nat \<Rightarrow> tpool \<Rightarrow> tpool option" where
  "stop_step u s =
     (case users s ! u of
        U_stop \<Rightarrow> Some (user_to u (if status s = STOP then U_done else U_stop1) s)
      | U_stop1 \<Rightarrow> Some (user_to u (U_join 0) (s\<lparr>status := STOP\<rparr>))
      | U_join i \<Rightarrow>
          if i < length (threads s)
          then (if exited s (td_id (threads s ! i)) then Some (user_to u (U_join (i + 1)) s) else None)
          else Some (user_to u U_clear s)
      | U_clear \<Rightarrow> Some (user_to u U_cur (s\<lparr>threads := []\<rparr>))
      | U_cur \<Rightarrow> Some (user_to u U_idle (s\<lparr>cur_thread_num := 0, changes := changes s + 1\<rparr>))
      | U_idle \<Rightarrow> Some (user_to u U_done (s\<lparr>idle_thread_num := 0, changes := changes s + 1\<rparr>))
      | _ \<Rightarrow> None)"

text \<open>\<^verbatim>\<open>wait\<close>: the reads of the status, of the queue, and of the two counters.\<close>

definition wait_step :: "nat \<Rightarrow> tpool \<Rightarrow> tpool option" where
  "wait_step u s =
     (case users s ! u of
        U_wait \<Rightarrow> Some (user_to u (if status s = STOP then U_done else U_wait1) s)
      | U_wait1 \<Rightarrow> Some (user_to u (if tasks s = [] then U_wait2 (committed s) (changes s) else U_wait) s)
      | U_wait2 com n \<Rightarrow> Some (user_to u (U_wait3 (idle_thread_num s) com n) s)
      | U_wait3 idle com n \<Rightarrow> Some (user_to u (if idle = cur_thread_num s then U_done else U_wait) s)
      | _ \<Rightarrow> None)"

text \<open>One step of a call. \<^verbatim>\<open>start\<close> on a started pool goes on at the end of its loop. \<^verbatim>\<open>createThread\<close> tests the counter, makes the thread, and then enters it in
  \<^verbatim>\<open>addThread\<close>. In the test of \<^verbatim>\<open>commit\<close> a negative counter becomes a large unsigned number.\<close>

definition user_step :: "nat \<Rightarrow> tpool \<Rightarrow> tpool option" where
  "user_step u s =
     (case users s ! u of
        U_commit t \<Rightarrow> Some (user_to u (if status s = STOP then U_begin 0 (Some t) else U_check t) s)
      | U_begin n t \<Rightarrow> Some (user_to u (if status s = STOP then U_run n t else U_start 0 t) s)
      | U_run n t \<Rightarrow> Some (user_to u (U_start (start_threads n s) t) (s\<lparr>status := RUNNING\<rparr>))
      | U_start 0 None \<Rightarrow> Some (user_to u U_done s)
      | U_start 0 (Some t) \<Rightarrow> Some (user_to u (U_check t) s)
      | U_start (Suc k) t \<Rightarrow> Some (user_to u (U_create (A_start k t)) s)
      | U_check t \<Rightarrow>
          Some (user_to u
            (if 0 \<le> idle_thread_num s \<and> idle_thread_num s \<le> int (length (tasks s)) \<and> cur_thread_num s < max_thread_num s
             then U_create (A_push t) else U_push t) s)
      | U_create a \<Rightarrow>
          Some (if max_thread_num s \<le> cur_thread_num s then user_to u (continue a) s
                else user_to u (U_add (length (workers s)) a) (s\<lparr>workers := workers s @ [W_loop]\<rparr>))
      | U_add w a \<Rightarrow>
          if thread_locked s then None
          else Some (user_to u (U_add2 w a) (s\<lparr>thread_locked := True, cur_thread_num := cur_thread_num s + 1,
            changes := changes s + 1\<rparr>))
      | U_add2 w a \<Rightarrow>
          Some (user_to u (continue a) (add_entry w s))
      | U_push t \<Rightarrow>
          if task_locked s then None
          else Some (user_to u U_done (s\<lparr>tasks := tasks s @ [t], committed := committed s @ [t]\<rparr>))
      | U_pause \<Rightarrow> Some (user_to u (if status s = RUNNING then U_pause1 else U_done) s)
      | U_pause1 \<Rightarrow> Some (user_to u U_done (s\<lparr>status := PAUSE\<rparr>))
      | U_resume \<Rightarrow> Some (user_to u (if status s = PAUSE then U_resume1 else U_done) s)
      | U_resume1 \<Rightarrow> Some (user_to u U_done (s\<lparr>status := RUNNING\<rparr>))
      | U_done \<Rightarrow> None
      | ph \<Rightarrow> if stops ph then stop_step u s else wait_step u s)"

text \<open>Two threads use the list of threads at once, one of them in \<^verbatim>\<open>stop\<close>.\<close>

fun walks :: "user \<Rightarrow> bool" where
  "walks (U_join i) = True"
| "walks U_clear = True"
| "walks _ = False"

fun adding :: "user \<Rightarrow> bool" where
  "adding (U_add2 w a) = True"
| "adding _ = False"

definition race :: "tpool \<Rightarrow> bool" where
  "race s \<longleftrightarrow> list_ex walks (users s) \<and>
     (W_del2 \<in> set (workers s) \<or> list_ex adding (users s) \<or> 1 < length (filter walks (users s)))"

fun quiet :: "user \<Rightarrow> bool" where
  "quiet U_pause = True"
| "quiet U_pause1 = True"
| "quiet U_resume = True"
| "quiet U_resume1 = True"
| "quiet U_wait = True"
| "quiet U_wait1 = True"
| "quiet (U_wait2 com n) = True"
| "quiet (U_wait3 idle com n) = True"
| "quiet U_done = True"
| "quiet _ = False"

definition call :: "user \<Rightarrow> tpool \<Rightarrow> tpool" where
  "call ph s = s\<lparr>users := users s @ [ph]\<rparr>"

datatype tp_event =
  T_work nat bool nat nat | T_user nat | T_start int | T_commit nat | T_pause | T_resume | T_wait | T_stop |
  T_set_min int | T_set_max int

text \<open>A step of the system, or \<open>None\<close>. A \<^verbatim>\<open>stop\<close> that is called during a \<^verbatim>\<open>start\<close>, a \<^verbatim>\<open>commit\<close> or another \<^verbatim>\<open>stop\<close>, and a \<^verbatim>\<open>start\<close>
  or \<^verbatim>\<open>commit\<close> that is called during a \<^verbatim>\<open>stop\<close>, are noted.\<close>

fun tp_move :: "tp_event \<Rightarrow> tpool \<Rightarrow> tpool option" where
  "tp_move (T_work w timed_out now stop_time) s =
     (if w < length (workers s) then worker_step timed_out now stop_time w s else None)"
| "tp_move (T_user u) s = (if u < length (users s) then user_step u s else None)"
| "tp_move (T_start n) s = Some (call (U_begin n None) (s\<lparr>overlapped := overlapped s \<or> list_ex stops (users s)\<rparr>))"
| "tp_move (T_commit t) s = Some (call (U_commit t) (s\<lparr>overlapped := overlapped s \<or> list_ex stops (users s)\<rparr>))"
| "tp_move T_pause s = Some (call U_pause s)"
| "tp_move T_resume s = Some (call U_resume s)"
| "tp_move T_wait s = Some (call U_wait s)"
| "tp_move T_stop s = Some (call U_stop (s\<lparr>overlapped := overlapped s \<or> \<not> list_all quiet (users s)\<rparr>))"
| "tp_move (T_set_min n) s = Some (s\<lparr>min_thread_num := n\<rparr>)"
| "tp_move (T_set_max n) s = Some (s\<lparr>max_thread_num := n\<rparr>)"

definition tp_step :: "tp_event \<Rightarrow> tpool \<Rightarrow> tpool option" where
  "tp_step e s = map_option (\<lambda>s'. s'\<lparr>raced := raced s' \<or> race s'\<rparr>) (tp_move e s)"

inductive tp_reachable :: "int \<Rightarrow> int \<Rightarrow> tpool \<Rightarrow> bool" for mn mx where
  init: "tp_reachable mn mx (HThreadPool mn mx)"
| step: "tp_reachable mn mx s \<Longrightarrow> tp_step e s = Some s' \<Longrightarrow> tp_reachable mn mx s'"

end
