(* ===== verification/ThreadPoolProps.thy ===== *)
theory ThreadPoolProps
  imports ThreadPool "HOL-Library.Multiset"
begin

text \<open>
  The thread pool loses no task: the invariant of tasks, threads and counters, its preservation by the steps of
  workers and of calls, the property of the pool and of \<^verbatim>\<open>wait\<close>, and runs that show where the pool fails.
\<close>

section \<open>Invariant\<close>

fun run_task :: "worker \<Rightarrow> nat multiset" where
  "run_task (W_run t) = {#t#}"
| "run_task _ = {#}"

fun worker_weight :: "worker \<Rightarrow> int" where
  "worker_weight (W_run t) = 1"
| "worker_weight W_del1 = -1"
| "worker_weight _ = 0"

fun user_weight :: "user \<Rightarrow> int" where
  "user_weight (U_add2 w a) = 1"
| "user_weight _ = 0"

fun adds :: "user \<Rightarrow> nat option" where
  "adds (U_add w a) = Some w"
| "adds (U_add2 w a) = Some w"
| "adds _ = None"

definition running_tasks :: "tpool \<Rightarrow> nat multiset" where
  "running_tasks s = (\<Sum>ph \<leftarrow> workers s. run_task ph)"

definition unbalanced :: "tpool \<Rightarrow> int" where
  "unbalanced s = (\<Sum>ph \<leftarrow> workers s. worker_weight ph) + (\<Sum>ph \<leftarrow> users s. user_weight ph)"

definition entered :: "tpool \<Rightarrow> nat \<Rightarrow> bool" where
  "entered s w \<longleftrightarrow> w \<in> td_id ` set (threads s) \<or> Some w \<in> adds ` set (users s)"

text \<open>The tasks: nothing is lost, nothing runs twice.\<close>

definition tp_ok :: "tpool \<Rightarrow> bool" where
  "tp_ok s \<longleftrightarrow> committed s = started s @ tasks s \<and> mset (started s) = mset (finished s) + running_tasks s"

text \<open>The threads: every thread that has not ended is in the list or on its way into it; a \<^verbatim>\<open>stop\<close> is alone but for
  calls that only read or set the status, and has joined what it has passed; and the counters differ by
  the threads between two changes, except between the two resets of \<^verbatim>\<open>stop\<close>.\<close>

definition tp_sync :: "tpool \<Rightarrow> bool" where
  "tp_sync s \<longleftrightarrow>
     (\<forall>w < length (workers s). workers s ! w \<noteq> W_exit \<longrightarrow> entered s w) \<and>
     (\<forall>u < length (users s). stops (users s ! u) \<longrightarrow> (\<forall>v < length (users s). v \<noteq> u \<longrightarrow> quiet (users s ! v))) \<and>
     (\<forall>i. U_join i \<in> set (users s) \<longrightarrow> (\<forall>j < i. j < length (threads s) \<longrightarrow> exited s (td_id (threads s ! j)))) \<and>
     (U_clear \<in> set (users s) \<longrightarrow> (\<forall>d \<in> set (threads s). exited s (td_id d))) \<and>
     (U_cur \<in> set (users s) \<or> U_idle \<in> set (users s) \<longrightarrow> threads s = []) \<and>
     (if U_idle \<in> set (users s) then cur_thread_num s = 0 else idle_thread_num s + unbalanced s = cur_thread_num s)"

text \<open>The calls of \<^verbatim>\<open>wait\<close>: what was committed when the queue was empty has been started; and if the number of
  threads has not changed since and the counter of idle threads was equal to it, has finished.\<close>

fun wait_ok :: "tpool \<Rightarrow> user \<Rightarrow> bool" where
  "wait_ok s (U_wait2 com n) \<longleftrightarrow> mset com \<subseteq># mset (started s) \<and> n \<le> changes s"
| "wait_ok s (U_wait3 idle com n) \<longleftrightarrow> n \<le> changes s \<and>
     (n = changes s \<and> idle = cur_thread_num s \<and> W_del1 \<notin> set (workers s) \<longrightarrow> mset com \<subseteq># mset (finished s))"
| "wait_ok s _ \<longleftrightarrow> True"

definition tp_core :: "tpool \<Rightarrow> bool" where
  "tp_core s \<longleftrightarrow> tp_ok s \<and>
     (\<not> raced s \<and> \<not> overlapped s \<longrightarrow> tp_sync s \<and> (\<forall>ph \<in> set (users s). wait_ok s ph))"

definition tp_inv :: "tpool \<Rightarrow> bool" where
  "tp_inv s \<longleftrightarrow> tp_core s \<and> (race s \<longrightarrow> raced s)"

lemma sum_list_map_update:
  fixes f :: "'a \<Rightarrow> 'b :: comm_monoid_add"
  assumes "i < length xs"
  shows "(\<Sum>x \<leftarrow> xs[i := y]. f x) + f (xs ! i) = (\<Sum>x \<leftarrow> xs. f x) + f y"
  using assms
proof (induction xs arbitrary: i)
  case (Cons x xs)
  then show ?case by (cases i) (simp_all add: ac_simps)
qed simp

lemma worker_to_simps [simp]:
  "committed (worker_to w ph s) = committed s" "started (worker_to w ph s) = started s" "finished (worker_to w ph s) = finished s"
  "tasks (worker_to w ph s) = tasks s" "idle_thread_num (worker_to w ph s) = idle_thread_num s"
  "cur_thread_num (worker_to w ph s) = cur_thread_num s" "raced (worker_to w ph s) = raced s"
  "overlapped (worker_to w ph s) = overlapped s" "changes (worker_to w ph s) = changes s"
  "users (worker_to w ph s) = users s" "threads (worker_to w ph s) = threads s"
  "workers (worker_to w ph s) = (workers s)[w := ph]"
  by (simp_all add: worker_to_def)

lemma user_to_simps [simp]:
  "committed (user_to u ph s) = committed s" "started (user_to u ph s) = started s" "finished (user_to u ph s) = finished s"
  "tasks (user_to u ph s) = tasks s" "idle_thread_num (user_to u ph s) = idle_thread_num s"
  "cur_thread_num (user_to u ph s) = cur_thread_num s" "raced (user_to u ph s) = raced s"
  "overlapped (user_to u ph s) = overlapped s" "changes (user_to u ph s) = changes s"
  "workers (user_to u ph s) = workers s" "threads (user_to u ph s) = threads s" "users (user_to u ph s) = (users s)[u := ph]"
  by (simp_all add: user_to_def)

lemma phase_kinds:
  "quiet ph \<Longrightarrow> adds ph = None \<and> user_weight ph = 0 \<and> \<not> stops ph"
  "stops ph \<Longrightarrow> adds ph = None \<and> user_weight ph = 0 \<and> wait_ok s ph"
  "stops (U_join i)" "stops U_clear" "stops U_cur" "stops U_idle"
  by (cases ph; simp)+

lemma tp_syncD:
  assumes "tp_sync s"
  shows "w < length (workers s) \<Longrightarrow> workers s ! w \<noteq> W_exit \<Longrightarrow> entered s w"
    "u < length (users s) \<Longrightarrow> stops (users s ! u) \<Longrightarrow> v < length (users s) \<Longrightarrow> v \<noteq> u \<Longrightarrow> quiet (users s ! v)"
    "U_join i \<in> set (users s) \<Longrightarrow> j < i \<Longrightarrow> j < length (threads s) \<Longrightarrow> exited s (td_id (threads s ! j))"
    "U_clear \<in> set (users s) \<Longrightarrow> d \<in> set (threads s) \<Longrightarrow> exited s (td_id d)"
    "U_cur \<in> set (users s) \<or> U_idle \<in> set (users s) \<Longrightarrow> threads s = []"
    "U_idle \<in> set (users s) \<Longrightarrow> cur_thread_num s = 0"
    "U_idle \<notin> set (users s) \<Longrightarrow> idle_thread_num s + unbalanced s = cur_thread_num s"
  using assms unfolding tp_sync_def by (blast | metis)+

text \<open>While a \<^verbatim>\<open>stop\<close> is on its way, a thread that has not ended is in the list.\<close>

lemma stop_entered:
  assumes "tp_sync s" "u < length (users s)" "stops (users s ! u)" "w < length (workers s)" "workers s ! w \<noteq> W_exit"
  shows "w \<in> td_id ` set (threads s)"
proof (rule ccontr)
  assume "w \<notin> td_id ` set (threads s)"
  then obtain v where v: "v < length (users s)" "adds (users s ! v) = Some w"
    using tp_syncD(1) [OF assms(1,4,5)] by (auto simp: entered_def in_set_conv_nth)
  then show False
    using phase_kinds(1,2) [of "users s ! v"] assms(3) tp_syncD(2) [OF assms(1-3) v(1)] by (cases "v = u") auto
qed

lemma reset_exited:
  assumes "tp_sync s" "U_cur \<in> set (users s) \<or> U_idle \<in> set (users s)" "w < length (workers s)"
  shows "workers s ! w = W_exit"
proof (rule ccontr)
  assume ne: "workers s ! w \<noteq> W_exit"
  obtain u where "u < length (users s)" "stops (users s ! u)" using assms(2) phase_kinds(5,6) by (auto simp: in_set_conv_nth)
  from stop_entered [OF assms(1) this assms(3) ne] tp_syncD(5) [OF assms(1,2)] show False by simp
qed

lemma wait_ok_mono:
  assumes "wait_ok s ph" "mset (started s) \<subseteq># mset (started s')" "mset (finished s) \<subseteq># mset (finished s')"
    and "changes s < changes s' \<or> changes s' = changes s \<and> cur_thread_num s' = cur_thread_num s \<and>
      (W_del1 \<in> set (workers s) \<longrightarrow> W_del1 \<in> set (workers s'))"
  shows "wait_ok s' ph"
  using assms by (cases ph) (auto intro: subset_mset.order_trans)

section \<open>Steps of workers\<close>

text \<open>A worker that moves: the tasks, the counters and the list of threads change as the move demands.\<close>

lemma tp_ok_worker:
  assumes "tp_ok s" "w < length (workers s)" "committed s' = started s' @ tasks s'"
    and "mset (started s') + mset (finished s) + run_task (workers s ! w) = mset (started s) + mset (finished s') + run_task ph"
    and "workers s' = workers s"
  shows "tp_ok (worker_to w ph s')"
proof -
  have r: "running_tasks (worker_to w ph s') + run_task (workers s ! w) = running_tasks s + run_task ph"
    using sum_list_map_update [OF assms(2), of run_task ph] assms(5) by (simp add: running_tasks_def)
  have "mset (started s') + (mset (finished s) + run_task (workers s ! w)) =
      mset (finished s') + running_tasks (worker_to w ph s') + (mset (finished s) + run_task (workers s ! w))"
    using assms(1,4) r by (simp add: tp_ok_def ac_simps)
  then show ?thesis using assms(3) by (simp add: tp_ok_def)
qed

lemma sync_worker:
  assumes sync: "tp_sync s" and w: "w < length (workers s)" "workers s ! w \<noteq> W_exit"
    and bal: "idle_thread_num s' - idle_thread_num s + worker_weight ph - worker_weight (workers s ! w) = cur_thread_num s' - cur_thread_num s"
    and s': "workers s' = workers s" "users s' = users s"
    and thr: "threads s' = threads s \<or> \<not> list_ex walks (users s)"
    and ids: "\<And>v. v < length (workers s) \<Longrightarrow> workers s ! v \<noteq> W_exit \<Longrightarrow> v \<in> td_id ` set (threads s) \<Longrightarrow> v \<in> td_id ` set (threads s')"
  shows "tp_sync (worker_to w ph s')"
proof -
  have no: "U_cur \<notin> set (users s)" "U_idle \<notin> set (users s)" using reset_exited [OF sync _ w(1)] w(2) by auto
  have u: "unbalanced (worker_to w ph s') + worker_weight (workers s ! w) = unbalanced s + worker_weight ph"
    using sum_list_map_update [OF w(1), of worker_weight ph] s' by (simp add: unbalanced_def)
  have e: "entered (worker_to w ph s') v" if "v < length (workers s)" "(workers s)[w := ph] ! v \<noteq> W_exit" for v
  proof -
    have ne: "workers s ! v \<noteq> W_exit" using that w(2) by (cases "v = w") simp_all
    then have "entered s v" by (rule tp_syncD(1) [OF sync that(1)])
    then show ?thesis using s'(2) ids [OF that(1) ne] by (auto simp: entered_def)
  qed
  have x: "exited (worker_to w ph s') v" if "exited s v" for v
    using that w(2) s'(1) by (cases "v = w") (simp_all add: exited_def)
  have walk: "\<exists>ph \<in> set (users s). walks ph" if "U_join i \<in> set (users s) \<or> U_clear \<in> set (users s)" for i using that by force
  then have t: "threads s' = threads s" if "U_join i \<in> set (users s) \<or> U_clear \<in> set (users s)" for i
    using thr that by (auto simp: list_ex_iff)
  have J: "exited (worker_to w ph s') (td_id (threads s' ! j))"
    if "U_join i \<in> set (users s)" "j < i" "j < length (threads s')" for i j
    using tp_syncD(3) [OF sync that(1,2)] t [of i] that x by simp
  have C: "exited (worker_to w ph s') (td_id d)" if "U_clear \<in> set (users s)" "d \<in> set (threads s')" for d
    using tp_syncD(4) [OF sync that(1)] t that x by simp
  have "idle_thread_num s' + unbalanced (worker_to w ph s') = cur_thread_num s'"
    using bal u tp_syncD(7) [OF sync no(2)] by simp
  then show ?thesis
    using e J C tp_syncD(2) [OF sync] no unfolding tp_sync_def by (simp add: s')
qed

lemma core_worker:
  assumes inv: "tp_inv s" and w: "w < length (workers s)" "workers s ! w \<noteq> W_exit"
    and "committed s' = started s' @ tasks s'"
    and "mset (started s') + mset (finished s) + run_task (workers s ! w) = mset (started s) + mset (finished s') + run_task ph"
    and bal: "idle_thread_num s' - idle_thread_num s + worker_weight ph - worker_weight (workers s ! w) = cur_thread_num s' - cur_thread_num s"
    and s': "workers s' = workers s" "users s' = users s" "raced s' = raced s" "overlapped s' = overlapped s"
    and thr: "threads s' = threads s \<or> workers s ! w = W_del2"
    and ids: "\<And>v. v < length (workers s) \<Longrightarrow> workers s ! v \<noteq> W_exit \<Longrightarrow> v \<in> td_id ` set (threads s) \<Longrightarrow> v \<in> td_id ` set (threads s')"
    and mono: "mset (started s) \<subseteq># mset (started s')" "mset (finished s) \<subseteq># mset (finished s')"
    and chg: "changes s < changes s' \<or> changes s' = changes s \<and> cur_thread_num s' = cur_thread_num s \<and> workers s ! w \<noteq> W_del1"
  shows "tp_core (worker_to w ph s')"
proof -
  have "tp_ok (worker_to w ph s')" using inv by (intro tp_ok_worker [OF _ w(1)]) (use assms in \<open>simp_all add: tp_inv_def tp_core_def\<close>)
  moreover have "tp_sync (worker_to w ph s') \<and> (\<forall>q \<in> set (users s). wait_ok (worker_to w ph s') q)"
    if ok: "\<not> raced s" "\<not> overlapped s"
  proof (intro conjI ballI)
    have nr: "\<not> race s" using inv ok by (simp add: tp_inv_def)
    have "\<not> list_ex walks (users s)" if "workers s ! w = W_del2"
      using nr w(1) that nth_mem [OF w(1)] by (auto simp: race_def)
    then show "tp_sync (worker_to w ph s')"
      using inv ok thr by (intro sync_worker [OF _ w bal s'(1,2) _ ids]) (auto simp: tp_inv_def tp_core_def)
    fix q
    assume "q \<in> set (users s)"
    then have "wait_ok s q" using inv ok by (simp add: tp_inv_def tp_core_def)
    moreover have "W_del1 \<in> set ((workers s)[w := ph])" if d: "W_del1 \<in> set (workers s)" "workers s ! w \<noteq> W_del1"
    proof -
      obtain i where "i < length (workers s)" "workers s ! i = W_del1" using d(1) by (auto simp: in_set_conv_nth)
      moreover then have "i \<noteq> w" using d(2) by auto
      ultimately show ?thesis by (metis length_list_update nth_list_update_neq nth_mem)
    qed
    ultimately show "wait_ok (worker_to w ph s') q"
      using mono chg s'(1) by (intro wait_ok_mono [of s q "worker_to w ph s'"]) auto
  qed
  ultimately show ?thesis using s' by (simp add: tp_core_def)
qed

lemma ids_del_loop: "td_id ` set (del_loop now stop_time w ds) = td_id ` {d \<in> set ds. \<not> joins now d}"
  unfolding del_loop_def set_map set_filter image_image by (rule image_cong) simp_all

lemma worker_step_core:
  assumes "tp_inv s" "w < length (workers s)" "worker_step timed_out now stop_time w s = Some s'"
  shows "tp_core s'"
proof -
  have c: "committed s = started s @ tasks s" and k: "tp_core s" using assms(1) by (simp_all add: tp_inv_def tp_core_def tp_ok_def)
  show ?thesis
  proof (cases "workers s ! w")
    case W_loop
    then have "s' = worker_to w (if status s = STOP then W_exit else W_pause) s" using assms(3) by (simp add: worker_step_def)
    then show ?thesis using assms(1,2) W_loop c by (simp add: core_worker)
  next
    case W_pause
    then show ?thesis using assms c k by (auto simp: worker_step_def core_worker split: if_splits)
  next
    case W_wait
    then have s': "s' = after_wait w s" using assms(3) by (simp add: worker_step_def split: if_splits)
    consider "s' = worker_to w W_exit s" | "s' = worker_to w W_del0 (s\<lparr>task_locked := True\<rparr>)" | "s' = worker_to w W_loop s"
      | t ts where "tasks s = t # ts" "s' = worker_to w (W_run t)
          (s\<lparr>idle_thread_num := idle_thread_num s - 1, tasks := ts, started := started s @ [t]\<rparr>)"
      using s' by (cases "tasks s") (auto simp: after_wait_def split: if_splits)
    then show ?thesis using assms(1,2) W_wait c by cases (auto simp: core_worker)
  next
    case (W_run t)
    then show ?thesis using assms c by (auto simp: worker_step_def core_worker)
  next
    case W_del0
    then show ?thesis using assms c by (auto simp: worker_step_def core_worker split: if_splits)
  next
    case W_del1
    then show ?thesis using assms c by (auto simp: worker_step_def core_worker)
  next
    case W_del2
    then have j: "list_all (\<lambda>d. joins now d \<longrightarrow> exited s (td_id d)) (threads s)"
      and s': "s' = worker_to w W_exit
        (s\<lparr>threads := del_loop now stop_time w (threads s), thread_locked := False, task_locked := False\<rparr>)"
      using assms(3) by (simp_all add: worker_step_def split: if_splits)
    have "v \<in> td_id ` set (del_loop now stop_time w (threads s))"
      if v: "workers s ! v \<noteq> W_exit" "v \<in> td_id ` set (threads s)" for v
    proof -
      obtain d where d: "d \<in> set (threads s)" "td_id d = v" using v(2) by blast
      then have "\<not> joins now d" using j v(1) by (auto simp: list_all_iff exited_def)
      then show ?thesis using d by (auto simp: ids_del_loop)
    qed
    then show ?thesis unfolding s' using assms(1,2) W_del2 c by (intro core_worker) auto
  next
    case W_exit
    then show ?thesis using assms(3) by (simp add: worker_step_def)
  qed
qed

section \<open>Steps of calls\<close>

lemma unbalanced_user:
  assumes "u < length (users s)" "users s' = users s"
    and "workers s' = workers s \<or> workers s' = workers s @ [W_loop]"
  shows "unbalanced (user_to u ph s') + user_weight (users s ! u) = unbalanced s + user_weight ph"
    "running_tasks (user_to u ph s') = running_tasks s"
proof -
  have "run_task W_loop = {#}" "worker_weight W_loop = 0" by simp_all
  then show "unbalanced (user_to u ph s') + user_weight (users s ! u) = unbalanced s + user_weight ph"
    "running_tasks (user_to u ph s') = running_tasks s"
    using sum_list_map_update [OF assms(1), of user_weight ph] assms(2,3) by (auto simp: unbalanced_def running_tasks_def)
qed

lemma other_users:
  assumes "x \<in> set ((users s)[u := ph])"
  obtains "x = ph" | v where "v < length (users s)" "v \<noteq> u" "x = users s ! v"
proof -
  obtain v where v: "v < length ((users s)[u := ph])" "x = (users s)[u := ph] ! v" using assms by (auto simp: in_set_conv_nth)
  then show ?thesis using that by (cases "v = u") (auto simp: nth_list_update)
qed

text \<open>A thread stays entered when a call moves and takes care of the thread it has made.\<close>

lemma entered_user:
  assumes u: "u < length (users s)" and s': "users s' = users s" "set (threads s) \<subseteq> set (threads s')"
    and own: "\<And>v. adds (users s ! u) = Some v \<Longrightarrow> adds ph = Some v \<or> v \<in> td_id ` set (threads s')"
    and v: "entered s v"
  shows "entered (user_to u ph s') v"
proof (cases "v \<in> td_id ` set (threads s)")
  case True
  then show ?thesis using s'(2) by (auto simp: entered_def)
next
  case False
  then obtain i where i: "i < length (users s)" "adds (users s ! i) = Some v" using v by (auto simp: entered_def in_set_conv_nth)
  show ?thesis
  proof (cases "i = u")
    case True
    then have "adds ph = Some v \<or> v \<in> td_id ` set (threads s')" using own i(2) by blast
    moreover have "ph \<in> set ((users s)[u := ph])" using u by (rule set_update_memI)
    ultimately show ?thesis using s'(1) by (force simp: entered_def)
  next
    case ne: False
    then have "(users s)[u := ph] ! i = users s ! i" by simp
    then have "users s ! i \<in> set ((users s)[u := ph])" using i(1) by (metis length_list_update nth_mem)
    then show ?thesis using i(2) s'(1) by (force simp: entered_def)
  qed
qed

lemma waits_user:
  assumes "\<forall>q \<in> set (users s). wait_ok s q" "u < length (users s)" "wait_ok (user_to u ph s') ph"
    and "started s' = started s" "finished s' = finished s"
    and "workers s' = workers s \<or> workers s' = workers s @ [W_loop]"
    and "changes s < changes s' \<or> changes s' = changes s \<and> cur_thread_num s' = cur_thread_num s"
  shows "\<forall>q \<in> set ((users s)[u := ph]). wait_ok (user_to u ph s') q"
proof
  fix q
  assume "q \<in> set ((users s)[u := ph])"
  then show "wait_ok (user_to u ph s') q"
  proof (cases rule: other_users)
    case 1
    then show ?thesis using assms(3) by simp
  next
    case (2 v)
    then have "wait_ok s q" using assms(1) by simp
    then show ?thesis using assms(4-7) by (intro wait_ok_mono [of s q "user_to u ph s'"]) auto
  qed
qed

text \<open>A move of \<^verbatim>\<open>start\<close> or \<^verbatim>\<open>commit\<close>: no \<^verbatim>\<open>stop\<close> is on its way.\<close>

lemma core_busy:
  assumes core: "tp_core s" and u: "u < length (users s)" "\<not> quiet (users s ! u)" "\<not> stops (users s ! u)"
    and ph: "\<not> stops ph" "wait_ok (user_to u ph s') ph"
    and tk: "committed s' = started s' @ tasks s'" "started s' = started s" "finished s' = finished s"
    and bal: "idle_thread_num s' - idle_thread_num s + user_weight ph - user_weight (users s ! u) = cur_thread_num s' - cur_thread_num s"
    and s': "users s' = users s" "raced s' = raced s" "overlapped s' = overlapped s" "set (threads s) \<subseteq> set (threads s')"
    and ws: "workers s' = workers s \<or> workers s' = workers s @ [W_loop] \<and> adds ph = Some (length (workers s))"
    and own: "\<And>v. adds (users s ! u) = Some v \<Longrightarrow> adds ph = Some v \<or> v \<in> td_id ` set (threads s')"
    and chg: "changes s < changes s' \<or> changes s' = changes s \<and> cur_thread_num s' = cur_thread_num s"
  shows "tp_core (user_to u ph s')"
proof -
  note b = unbalanced_user [OF u(1) s'(1)]
  have ws': "workers s' = workers s \<or> workers s' = workers s @ [W_loop]" using ws by blast
  have "tp_ok (user_to u ph s')" using core tk b(2) [OF ws'] by (simp add: tp_core_def tp_ok_def)
  moreover have "tp_sync (user_to u ph s')" if sync: "tp_sync s"
  proof -
    have no: "\<not> stops q" if "q \<in> set (users s)" for q
      using that u tp_syncD(2) [OF sync, of _ u] by (auto simp: in_set_conv_nth)
    have no': "\<not> stops q" if "q \<in> set ((users s)[u := ph])" for q
      using that by (cases rule: other_users) (use ph no in auto)
    have ent: "entered (user_to u ph s') v" if "v < length (workers s')" "workers s' ! v \<noteq> W_exit" for v
    proof (cases "v < length (workers s)")
      case True
      then have "entered s v" using that ws by (intro tp_syncD(1) [OF sync]) (auto simp: nth_append)
      then show ?thesis using entered_user [OF u(1) s'(1,4), of ph v] own by blast
    next
      case False
      then have "v = length (workers s)" "adds ph = Some (length (workers s))" using that ws by auto
      then show ?thesis using s'(1) set_update_memI [OF u(1), of ph] by (force simp: entered_def)
    qed
    have "U_idle \<notin> set (users s)" using no [of U_idle] by auto
    then have "idle_thread_num s' + unbalanced (user_to u ph s') = cur_thread_num s'"
      using bal b(1) [OF ws', of ph] tp_syncD(7) [OF sync] by simp
    then show ?thesis
      using ent no' s'(1) phase_kinds(3-6) unfolding tp_sync_def by (fastforce simp del: stops.simps)
  qed
  moreover have "\<forall>q \<in> set ((users s)[u := ph]). wait_ok (user_to u ph s') q" if "\<forall>q \<in> set (users s). wait_ok s q"
    by (rule waits_user [OF that u(1) ph(2) tk(2,3) ws' chg])
  ultimately show ?thesis using core s' by (simp add: tp_core_def)
qed

text \<open>A move of a call that only reads, or sets the status.\<close>

lemma core_quiet:
  assumes core: "tp_core s" and u: "u < length (users s)" "quiet (users s ! u)" and ph: "quiet ph"
    and w: "tp_ok s \<Longrightarrow> tp_sync s \<Longrightarrow> wait_ok s (users s ! u) \<Longrightarrow> wait_ok s ph"
  shows "tp_core (user_to u ph (s\<lparr>status := st\<rparr>))"
proof -
  let ?s = "user_to u ph (s\<lparr>status := st\<rparr>)"
  have b: "unbalanced ?s = unbalanced s" "running_tasks ?s = running_tasks s"
    using unbalanced_user [OF u(1), of "s\<lparr>status := st\<rparr>" ph] phase_kinds(1) [OF u(2)] phase_kinds(1) [OF ph] by simp_all
  have "tp_ok ?s" using core b by (simp add: tp_core_def tp_ok_def)
  moreover have "tp_sync ?s" if sync: "tp_sync s"
  proof -
    have mem: "q \<in> set (users s)" if "q \<in> set ((users s)[u := ph])" "stops q" for q
      using that(1) by (cases rule: other_users) (use ph phase_kinds(1) that(2) in auto)
    have mem': "q \<in> set ((users s)[u := ph])" if "q \<in> set (users s)" "stops q" for q
      using that u phase_kinds(1) [OF u(2)] by (metis in_set_conv_nth length_list_update nth_list_update_neq)
    have iff: "q \<in> set ((users s)[u := ph]) \<longleftrightarrow> q \<in> set (users s)" if "stops q" for q using mem mem' that by blast
    have ent: "entered ?s v" if "v < length (workers s)" "workers s ! v \<noteq> W_exit" for v
      using tp_syncD(1) [OF sync that] phase_kinds(1) [OF u(2)]
      by (intro entered_user [of u s "s\<lparr>status := st\<rparr>" ph, OF u(1)]) auto
    have alone: "quiet ((users s)[u := ph] ! v)"
      if "i < length (users s)" "stops ((users s)[u := ph] ! i)" "v < length (users s)" "v \<noteq> i" for i v
      using that ph phase_kinds(1) [OF ph] u tp_syncD(2) [OF sync that(1)] by (auto simp: nth_list_update split: if_splits)
    have ex: "exited ?s = exited s" by (simp add: exited_def [abs_def])
    show ?thesis
      using ent alone b(1) tp_syncD(3-7) [OF sync] unfolding tp_sync_def
      by (simp add: iff ex del: split_paired_All)
  qed
  moreover have "\<forall>q \<in> set ((users s)[u := ph]). wait_ok ?s q" if "tp_sync s" "\<forall>q \<in> set (users s). wait_ok s q"
  proof -
    have "wait_ok s ph" using w core that u(1) by (simp add: tp_core_def)
    then have "wait_ok ?s ph" by (rule wait_ok_mono) simp_all
    then show ?thesis using waits_user [OF that(2) u(1), of ph "s\<lparr>status := st\<rparr>"] by simp
  qed
  ultimately show ?thesis using core by (simp add: tp_core_def)
qed

text \<open>A move of \<^verbatim>\<open>stop\<close>.\<close>

lemma core_stop:
  assumes core: "tp_core s" and u: "u < length (users s)" "stops (users s ! u)" and ph: "stops ph \<or> ph = U_done"
    and tk: "committed s' = committed s" "tasks s' = tasks s" "started s' = started s" "finished s' = finished s"
    and s': "users s' = users s" "workers s' = workers s" "raced s' = raced s" "overlapped s' = overlapped s"
    and chg: "changes s < changes s' \<or> changes s' = changes s \<and> cur_thread_num s' = cur_thread_num s"
    and E: "tp_sync s \<Longrightarrow> threads s' = threads s \<or> threads s' = [] \<and> (\<forall>w < length (workers s). workers s ! w = W_exit)"
    and J: "\<And>i j. tp_sync s \<Longrightarrow> ph = U_join i \<Longrightarrow> j < i \<Longrightarrow> j < length (threads s') \<Longrightarrow> exited s (td_id (threads s' ! j))"
    and C: "\<And>d. tp_sync s \<Longrightarrow> ph = U_clear \<Longrightarrow> d \<in> set (threads s') \<Longrightarrow> exited s (td_id d)"
    and R: "tp_sync s \<Longrightarrow> ph = U_cur \<or> ph = U_idle \<Longrightarrow> threads s' = []"
    and F: "tp_sync s \<Longrightarrow> if ph = U_idle then cur_thread_num s' = 0 else idle_thread_num s' + unbalanced s = cur_thread_num s'"
  shows "tp_core (user_to u ph s')"
proof -
  have w0: "user_weight ph = 0" "user_weight (users s ! u) = 0" "adds (users s ! u) = None" "\<And>s. wait_ok s ph"
    using ph phase_kinds(2) [of ph] phase_kinds(2) [OF u(2)] by auto
  have b: "unbalanced (user_to u ph s') = unbalanced s" "running_tasks (user_to u ph s') = running_tasks s"
    using unbalanced_user [OF u(1) s'(1), of ph] s'(2) w0 by simp_all
  have "tp_ok (user_to u ph s')" using core tk b by (simp add: tp_core_def tp_ok_def)
  moreover have "tp_sync (user_to u ph s')" if sync: "tp_sync s"
  proof -
    have alone: "quiet (users s ! v)" if "v < length (users s)" "v \<noteq> u" for v using tp_syncD(2) [OF sync u that] .
    have only: "q = ph" if "q \<in> set ((users s)[u := ph])" "stops q" for q
      using that(1) by (cases rule: other_users) (use alone phase_kinds(1) that(2) in auto)
    have mem: "ph \<in> set ((users s)[u := ph])" by (rule set_update_memI [OF u(1)])
    have ent: "entered (user_to u ph s') v" if v: "v < length (workers s)" "workers s ! v \<noteq> W_exit" for v
      using stop_entered [OF sync u v] E [OF sync] v by (auto simp: entered_def)
    have q: "quiet ((users s)[u := ph] ! v)"
      if "i < length (users s)" "stops ((users s)[u := ph] ! i)" "v < length (users s)" "v \<noteq> i" for i v
    proof -
      have "i = u" using that(1,2) alone [of i] phase_kinds(1) by (cases "i = u") auto
      then show ?thesis using alone that by simp
    qed
    have ex: "exited (user_to u ph s') = exited s" by (simp add: exited_def [abs_def] s'(2))
    have "U_idle \<in> set ((users s)[u := ph]) \<longleftrightarrow> ph = U_idle" using only [of U_idle] mem phase_kinds(6) by auto
    moreover have "exited s (td_id (threads s' ! j))"
      if "U_join i \<in> set ((users s)[u := ph])" "j < i" "j < length (threads s')" for i j
      using J [OF sync _ that(2,3)] only [OF that(1)] by simp
    moreover have "exited s (td_id d)" if "U_clear \<in> set ((users s)[u := ph])" "d \<in> set (threads s')" for d
      using C [OF sync _ that(2)] only [OF that(1)] by simp
    moreover have "ph = U_cur" if "U_cur \<in> set ((users s)[u := ph])" using only [OF that] by simp
    ultimately show ?thesis
      using ent q R [OF sync] F [OF sync] b(1) unfolding tp_sync_def by (simp add: s'(1,2) ex)
  qed
  moreover have "\<forall>q \<in> set ((users s)[u := ph]). wait_ok (user_to u ph s') q" if "\<forall>q \<in> set (users s). wait_ok s q"
    using waits_user [OF that u(1) w0(4) tk(3,4) _ chg] s'(2) by blast
  ultimately show ?thesis using core s' by (simp add: tp_core_def)
qed

lemma balanced_idle:
  assumes "unbalanced s = 0" "W_del1 \<notin> set (workers s)"
  shows "running_tasks s = {#}"
proof -
  have "ph \<noteq> W_del1 \<Longrightarrow> 0 \<le> worker_weight ph" for ph by (cases ph) simp_all
  then have w: "0 \<le> worker_weight ph" if "ph \<in> set (workers s)" for ph using that assms(2) by metis
  have u: "0 \<le> user_weight ph" for ph by (cases ph) auto
  have "0 \<le> (\<Sum>ph \<leftarrow> workers s. worker_weight ph)" "0 \<le> (\<Sum>ph \<leftarrow> users s. user_weight ph)"
    using w u by (auto intro!: sum_list_nonneg)
  then have "(\<Sum>ph \<leftarrow> workers s. worker_weight ph) = 0" using assms(1) by (simp add: unbalanced_def)
  then have z: "worker_weight ph = 0" if "ph \<in> set (workers s)" for ph
    using w that sum_list_nonneg_eq_0_iff [of "map worker_weight (workers s)"] by auto
  have "worker_weight ph = 0 \<Longrightarrow> run_task ph = {#}" for ph by (cases ph) simp_all
  then show ?thesis using z by (simp add: running_tasks_def cong: map_cong)
qed

lemma all_exited_idle:
  assumes "\<forall>w < length (workers s). workers s ! w = W_exit"
  shows "running_tasks s = {#}" "(\<Sum>ph \<leftarrow> workers s. worker_weight ph) = 0"
proof -
  have "ph = W_exit" if "ph \<in> set (workers s)" for ph using assms that by (auto simp: in_set_conv_nth)
  then have "run_task ph = {#} \<and> worker_weight ph = 0" if "ph \<in> set (workers s)" for ph using that by fastforce
  then show "running_tasks s = {#}" "(\<Sum>ph \<leftarrow> workers s. worker_weight ph) = 0"
    by (simp_all add: running_tasks_def cong: map_cong)
qed

text \<open>At a moment at which the counters are equal and no thread is between the two decrements of \<^verbatim>\<open>delThread\<close>, no
  task runs.\<close>

lemma equal_counters_idle:
  assumes "tp_sync s" "idle_thread_num s = cur_thread_num s" "W_del1 \<notin> set (workers s)"
  shows "running_tasks s = {#}"
proof (cases "U_idle \<in> set (users s)")
  case True
  then show ?thesis using all_exited_idle(1) reset_exited [OF assms(1)] by blast
next
  case False
  then show ?thesis using tp_syncD(7) [OF assms(1)] assms(2) balanced_idle [OF _ assms(3)] by simp
qed

lemma wait_step_core:
  assumes core: "tp_core s" and u: "u < length (users s)" and ph: "quiet (users s ! u)" and step: "wait_step u s = Some s'"
  shows "tp_core s'"
proof -
  have same: "s\<lparr>status := status s\<rparr> = s" by simp
  note move = core_quiet [OF core u ph, where st = "status s", unfolded same]
  show ?thesis
  proof (cases "users s ! u")
    case U_wait
    then have s': "s' = user_to u (if status s = STOP then U_done else U_wait1) s" using step by (simp add: wait_step_def)
    show ?thesis unfolding s' by (rule move) simp_all
  next
    case U_wait1
    then have s': "s' = user_to u (if tasks s = [] then U_wait2 (committed s) (changes s) else U_wait) s"
      using step by (simp add: wait_step_def)
    show ?thesis unfolding s' by (rule move) (simp_all add: tp_ok_def)
  next
    case (U_wait2 com n)
    then have s': "s' = user_to u (U_wait3 (idle_thread_num s) com n) s" using step by (simp add: wait_step_def)
    show ?thesis
      unfolding s'
    proof (rule move)
      assume a: "tp_ok s" "tp_sync s" "wait_ok s (users s ! u)"
      then show "wait_ok s (U_wait3 (idle_thread_num s) com n)"
        using equal_counters_idle [OF a(2)] U_wait2 by (auto simp: tp_ok_def)
    qed simp
  next
    case (U_wait3 idle com n)
    then have s': "s' = user_to u (if idle = cur_thread_num s then U_done else U_wait) s" using step by (simp add: wait_step_def)
    show ?thesis unfolding s' by (rule move) simp_all
  qed (use step in \<open>simp_all add: wait_step_def\<close>)
qed

lemma stop_step_core:
  assumes core: "tp_core s" and u: "u < length (users s)" and ph: "stops (users s ! u)" and step: "stop_step u s = Some s'"
  shows "tp_core s'"
proof -
  note move = core_stop [OF core u ph]
  have mem: "users s ! u \<in> set (users s)" using u by simp
  have bal: "idle_thread_num s + unbalanced s = cur_thread_num s" if sync: "tp_sync s" and ne: "users s ! u \<noteq> U_idle"
  proof (rule tp_syncD(7) [OF sync])
    have "users s ! v \<noteq> U_idle" if "v < length (users s)" for v
      using tp_syncD(2) [OF sync u ph that] ne by (cases "v = u") auto
    then show "U_idle \<notin> set (users s)" by (auto simp: in_set_conv_nth)
  qed
  show ?thesis
  proof (cases "users s ! u")
    case U_stop
    then have s': "s' = user_to u (if status s = STOP then U_done else U_stop1) s" using step by (simp add: stop_step_def)
    show ?thesis unfolding s' using U_stop bal by (intro move) (auto split: if_splits)
  next
    case U_stop1
    then have s': "s' = user_to u (U_join 0) (s\<lparr>status := STOP\<rparr>)" using step by (simp add: stop_step_def)
    show ?thesis unfolding s' using U_stop1 bal by (intro move) auto
  next
    case (U_join i)
    have old: "exited s (td_id (threads s ! j))" if "tp_sync s" "j < i" "j < length (threads s)" for j
      using tp_syncD(3) [OF that(1) _ that(2,3)] mem U_join by simp
    show ?thesis
    proof (cases "i < length (threads s)")
      case True
      then have ex: "exited s (td_id (threads s ! i))" and s': "s' = user_to u (U_join (i + 1)) s"
        using step U_join by (simp_all add: stop_step_def split: if_splits)
      have "exited s (td_id (threads s ! j))" if "tp_sync s" "j < i + 1" "j < length (threads s)" for j
        using old [OF that(1) _ that(3)] ex that(2) by (cases "j = i") auto
      then show ?thesis unfolding s' using U_join bal by (intro move) auto
    next
      case False
      then have s': "s' = user_to u U_clear s" using step U_join by (simp add: stop_step_def)
      have "exited s (td_id d)" if "tp_sync s" "d \<in> set (threads s)" for d
        using old [OF that(1)] that(2) False by (fastforce simp: in_set_conv_nth)
      then show ?thesis unfolding s' using U_join bal by (intro move) auto
    qed
  next
    case U_clear
    then have s': "s' = user_to u U_cur (s\<lparr>threads := []\<rparr>)" using step by (simp add: stop_step_def)
    have "workers s ! w = W_exit" if sync: "tp_sync s" and w: "w < length (workers s)" for w
    proof (rule ccontr)
      assume ne: "workers s ! w \<noteq> W_exit"
      then obtain d where "d \<in> set (threads s)" "td_id d = w" using stop_entered [OF sync u ph w] by blast
      then show False using tp_syncD(4) [OF sync] mem U_clear ne by (auto simp: exited_def)
    qed
    then show ?thesis unfolding s' using U_clear bal by (intro move) auto
  next
    case U_cur
    then have s': "s' = user_to u U_idle (s\<lparr>cur_thread_num := 0, changes := changes s + 1\<rparr>)" using step by (simp add: stop_step_def)
    have "threads s = []" if "tp_sync s" using tp_syncD(5) [OF that] mem U_cur by simp
    then show ?thesis unfolding s' using U_cur by (intro move) auto
  next
    case U_idle
    then have s': "s' = user_to u U_done (s\<lparr>idle_thread_num := 0, changes := changes s + 1\<rparr>)" using step by (simp add: stop_step_def)
    have "unbalanced s = 0" if sync: "tp_sync s"
    proof -
      have "user_weight ph' = 0" if m: "ph' \<in> set (users s)" for ph'
      proof -
        obtain v where "v < length (users s)" "ph' = users s ! v" using m by (auto simp: in_set_conv_nth)
        then show ?thesis using tp_syncD(2) [OF sync u ph] phase_kinds(1,2) ph by (cases "v = u") auto
      qed
      moreover have "(\<Sum>ph \<leftarrow> workers s. worker_weight ph) = 0"
        using all_exited_idle(2) reset_exited [OF sync] mem U_idle by metis
      ultimately show ?thesis by (simp add: unbalanced_def cong: map_cong)
    qed
    moreover have "cur_thread_num s = 0" if "tp_sync s" using tp_syncD(6) [OF that] mem U_idle by simp
    ultimately show ?thesis unfolding s' using U_idle by (intro move) auto
  qed (use ph in simp_all)
qed

lemma user_step_core:
  assumes "tp_core s" "u < length (users s)" "user_step u s = Some s'"
  shows "tp_core s'"
proof -
  have c: "committed s = started s @ tasks s" using assms(1) by (simp add: tp_core_def tp_ok_def)
  have same: "s\<lparr>status := status s\<rparr> = s" by simp
  note move = core_busy [OF assms(1,2)]
  note quiet = core_quiet [OF assms(1,2)]
  note still = quiet [where st = "status s", unfolded same]
  show ?thesis
  proof (cases "users s ! u")
    case (U_commit t)
    then have "s' = user_to u (if status s = STOP then U_begin 0 (Some t) else U_check t) s"
      using assms(3) by (simp add: user_step_def)
    then show ?thesis using U_commit c by (auto intro!: move)
  next
    case (U_begin n t)
    then have "s' = user_to u (if status s = STOP then U_run n t else U_start 0 t) s"
      using assms(3) by (simp add: user_step_def)
    then show ?thesis using U_begin c by (auto intro!: move)
  next
    case (U_run n t)
    then show ?thesis using assms(3) c by (auto simp: user_step_def intro!: move)
  next
    case (U_start k t)
    then show ?thesis using assms(3) c by (auto simp: user_step_def intro!: move split: nat.splits option.splits)
  next
    case (U_check t)
    then show ?thesis using assms(3) c by (auto simp: user_step_def intro!: move split: if_splits)
  next
    case (U_create a)
    have "user_weight (continue a) = 0" "adds (continue a) = None" "\<not> stops (continue a)" "\<And>s. wait_ok s (continue a)"
      by (cases a; simp)+
    then show ?thesis using assms(3) c U_create by (auto simp: user_step_def intro!: move split: if_splits)
  next
    case (U_add w a)
    then show ?thesis using assms(3) c by (auto simp: user_step_def intro!: move split: if_splits)
  next
    case (U_add2 w a)
    have "user_weight (continue a) = 0" "\<not> stops (continue a)" "\<And>s. wait_ok s (continue a)" by (cases a; simp)+
    then show ?thesis using assms(3) c U_add2 by (auto simp: user_step_def add_entry_def intro!: move)
  next
    case (U_push t)
    then show ?thesis using assms(3) c by (auto simp: user_step_def intro!: move split: if_splits)
  next
    case U_pause
    then show ?thesis using assms(3) by (auto simp: user_step_def intro!: still)
  next
    case U_pause1
    then show ?thesis using assms(3) by (auto simp: user_step_def intro!: quiet)
  next
    case U_resume
    then show ?thesis using assms(3) by (auto simp: user_step_def intro!: still)
  next
    case U_resume1
    then show ?thesis using assms(3) by (auto simp: user_step_def intro!: quiet)
  next
    case U_done
    then show ?thesis using assms(3) by (simp add: user_step_def)
  qed (use assms(3) stop_step_core [OF assms(1,2)] wait_step_core [OF assms(1,2)] in \<open>simp_all add: user_step_def\<close>)
qed

section \<open>Every reachable state\<close>

text \<open>A call that begins: nothing moves, and a \<^verbatim>\<open>stop\<close> stays alone.\<close>

lemma core_call:
  assumes core: "tp_core s" and ph: "user_weight ph = 0" "adds ph = None" "\<And>i. ph \<noteq> U_join i" "ph \<notin> {U_clear, U_cur, U_idle}"
    "\<And>s. wait_ok s ph"
    and o: "overlapped s \<longrightarrow> ov" and alone: "\<not> ov \<longrightarrow> quiet ph \<or> \<not> stops ph \<and> \<not> list_ex stops (users s) \<or> list_all quiet (users s)"
  shows "tp_core (call ph (s\<lparr>overlapped := ov\<rparr>))"
proof -
  let ?s = "call ph (s\<lparr>overlapped := ov\<rparr>)"
  have f: "unbalanced ?s = unbalanced s" "running_tasks ?s = running_tasks s" "entered ?s = entered s" "exited ?s = exited s"
    using ph(1,2) by (auto simp: call_def unbalanced_def running_tasks_def entered_def [abs_def] exited_def [abs_def])
  have "tp_ok ?s" using core f(2) by (simp add: tp_core_def tp_ok_def) (simp add: call_def)
  moreover have "tp_sync ?s" if sync: "tp_sync s" and "\<not> ov"
  proof -
    have "quiet ((users s @ [ph]) ! v)"
      if "i < length (users s @ [ph])" "stops ((users s @ [ph]) ! i)" "v < length (users s @ [ph])" "v \<noteq> i" for i v
      using that alone \<open>\<not> ov\<close> tp_syncD(2) [OF sync, of i v] phase_kinds(1)
      by (auto simp: nth_append list_ex_iff list_all_iff less_Suc_eq split: if_splits)
    moreover have "U_idle \<noteq> ph" "U_cur \<noteq> ph" "U_clear \<noteq> ph" "U_join i \<noteq> ph" for i using ph(3) [of i] ph(4) by auto
    ultimately show ?thesis
      using sync f unfolding tp_sync_def by (simp add: call_def)
  qed
  moreover have "wait_ok ?s q" if "wait_ok s q" for q using that by (cases q) (simp_all add: call_def)
  ultimately show ?thesis using core o ph(5) by (auto simp: tp_core_def call_def)
qed

lemma core_cong:
  assumes "tp_core s"
    and eq: "workers s' = workers s" "users s' = users s" "threads s' = threads s" "committed s' = committed s" "started s' = started s"
      "finished s' = finished s" "tasks s' = tasks s" "idle_thread_num s' = idle_thread_num s" "cur_thread_num s' = cur_thread_num s"
      "changes s' = changes s" "overlapped s' = overlapped s" and "raced s \<longrightarrow> raced s'"
  shows "tp_core s'"
proof -
  have "wait_ok s' q = wait_ok s q" for q by (cases q) (simp_all add: eq)
  moreover have "running_tasks s' = running_tasks s" "unbalanced s' = unbalanced s" "entered s' = entered s" "exited s' = exited s"
    by (simp_all add: running_tasks_def unbalanced_def entered_def [abs_def] exited_def [abs_def] eq)
  ultimately have "tp_ok s' = tp_ok s" "tp_sync s' = tp_sync s" "\<And>q. wait_ok s' q = wait_ok s q"
    by (simp_all add: tp_ok_def tp_sync_def eq)
  then show ?thesis using assms(1,12,13) by (auto simp: tp_core_def eq)
qed

lemma tp_move_core:
  assumes "tp_inv s" "tp_move e s = Some s'"
  shows "tp_core s'"
proof -
  have core: "tp_core s" using assms(1) by (simp add: tp_inv_def)
  have same: "s\<lparr>overlapped := overlapped s\<rparr> = s" by simp
  note quiet = core_call [OF core, where ov = "overlapped s", unfolded same]
  show ?thesis
  proof (cases e)
    case (T_work w timed_out now stop_time)
    then show ?thesis using assms worker_step_core by (simp split: if_splits)
  next
    case (T_user u)
    then show ?thesis using assms user_step_core [OF core] by (simp split: if_splits)
  qed (use assms(2) in \<open>auto intro!: core_call [OF core] quiet core_cong [OF core]\<close>)
qed

lemma tp_reachable_inv: "tp_reachable mn mx s \<Longrightarrow> tp_inv s"
proof (induction rule: tp_reachable.induct)
  case init
  show ?case
    by (simp add: tp_inv_def tp_core_def tp_ok_def tp_sync_def HThreadPool_def running_tasks_def unbalanced_def race_def)
next
  case (step s e s')
  then obtain s1 where s1: "tp_move e s = Some s1" "s' = s1\<lparr>raced := raced s1 \<or> race s1\<rparr>" by (auto simp: tp_step_def)
  have "race (s1\<lparr>raced := b\<rparr>) = race s1" for b by (simp add: race_def)
  then show ?case using core_cong [OF tp_move_core [OF step(3) s1(1)], of s'] s1(2) by (simp add: tp_inv_def)
qed

section \<open>Properties\<close>

text \<open>C38: The thread pool loses no task and runs none twice: at every moment, whatever threads and calls do, as long as
  no \<^verbatim>\<open>stop\<close> has used the list of threads while another thread was inside \<^verbatim>\<open>delThread\<close> or \<^verbatim>\<open>addThread\<close> (nothing in the
  code prevents it), the tasks committed are those that were started, in the order of the commits,
  followed by the queue; and those started are the finished ones and the ones that run, each on one
  thread. If moreover no \<^verbatim>\<open>stop\<close> has overlapped with a \<^verbatim>\<open>start\<close>, a \<^verbatim>\<open>commit\<close> or another \<^verbatim>\<open>stop\<close>, a call of \<^verbatim>\<open>wait\<close> that is about
  to return because the number of idle threads it has read equals the number of threads finds every
  task finished that was committed when it saw the queue empty, provided that no thread was added or removed since
  then and none is between the two decrements of \<^verbatim>\<open>delThread\<close>.\<close>

theorem thread_pool_tasks:
  assumes "tp_reachable mn mx s" and "\<not> raced s"
  shows "committed s = started s @ tasks s \<and> mset (started s) = mset (finished s) + running_tasks s \<and>
    (\<not> overlapped s \<longrightarrow> (\<forall>idle com n. U_wait3 idle com n \<in> set (users s) \<and> idle = cur_thread_num s \<and>
       n = changes s \<and> W_del1 \<notin> set (workers s) \<longrightarrow> mset com \<subseteq># mset (finished s)))"
proof -
  have inv: "tp_core s" using tp_reachable_inv [OF assms(1)] by (simp add: tp_inv_def)
  then have "wait_ok s ph" if "\<not> overlapped s" "ph \<in> set (users s)" for ph using that assms(2) by (simp add: tp_core_def)
  then show ?thesis using inv by (fastforce simp: tp_core_def tp_ok_def)
qed

section \<open>Runs\<close>

fun tp_run :: "tp_event list \<Rightarrow> tpool \<Rightarrow> tpool option" where
  "tp_run [] s = Some s"
| "tp_run (e # es) s = (case tp_step e s of None \<Rightarrow> None | Some s' \<Rightarrow> tp_run es s')"

lemma tp_run_from: "tp_run es s = Some s' \<Longrightarrow> tp_reachable mn mx s \<Longrightarrow> tp_reachable mn mx s'"
  by (induction es s rule: tp_run.induct) (auto split: option.splits intro: tp_reachable.step)

lemmas tp_run_reachable = tp_run_from [OF _ tp_reachable.init]

lemmas tp_eval = HThreadPool_def tp_step_def race_def call_def worker_step_def user_step_def stop_step_def wait_step_def
  worker_to_def user_to_def after_wait_def start_threads_def add_entry_def exited_def

definition call_steps :: "nat \<Rightarrow> nat \<Rightarrow> tp_event list" where
  "call_steps n u = replicate n (T_user u)"

definition work_steps :: "nat \<Rightarrow> bool \<Rightarrow> nat \<Rightarrow> tp_event list" where
  "work_steps n timed_out w = replicate n (T_work w timed_out 0 0)"

text \<open>A pool of one thread runs a task, and a call of \<^verbatim>\<open>wait\<close> is about to return.\<close>

definition one_task :: "tp_event list" where
  "one_task = T_commit 5 # call_steps 10 0 @ work_steps 4 False 0 @ T_wait # call_steps 3 1"

theorem thread_pool_tasks_witness:
  "\<exists>s. tp_run one_task (HThreadPool 1 1) = Some s \<and> committed s = [5] \<and> mset [5] \<subseteq># mset (finished s)"
proof -
  obtain s where s: "tp_run one_task (HThreadPool 1 1) = Some s" "committed s = [5]" "users s = [U_done, U_wait3 1 [5] 2]"
    "cur_thread_num s = 1" "changes s = 2" "workers s = [W_loop]" "\<not> raced s" "\<not> overlapped s"
    by (simp add: one_task_def call_steps_def work_steps_def numeral_eq_Suc tp_eval)
  have u: "U_wait3 1 [5] 2 \<in> set (users s)" "W_del1 \<notin> set (workers s)" using s by simp_all
  have "\<forall>idle com n. U_wait3 idle com n \<in> set (users s) \<and> idle = cur_thread_num s \<and>
       n = changes s \<and> W_del1 \<notin> set (workers s) \<longrightarrow> mset com \<subseteq># mset (finished s)"
    using thread_pool_tasks [OF tp_run_reachable [OF s(1)] s(7)] s(8) by blast
  from this [rule_format, of 1 "[5]" 2] have "mset [5] \<subseteq># mset (finished s)" using s(4,5) u by simp
  then show ?thesis using s(1,2) by blast
qed

text \<open>With a thread between the two decrements of \<^verbatim>\<open>delThread\<close> a call of \<^verbatim>\<open>wait\<close> returns though a task still runs.\<close>

lemma wait_returns_early:
  "\<exists>s s'. tp_reachable 1 2 s \<and> \<not> raced s \<and> \<not> overlapped s \<and> users s ! 2 = U_wait3 1 [5] 5 \<and> workers s = [W_run 5, W_del1] \<and>
    wait_step 2 s = Some s' \<and> users s' ! 2 = U_done"
proof -
  obtain s where s: "tp_run (T_start 2 # call_steps 11 0 @ T_commit 5 # call_steps 3 1 @ work_steps 3 False 0 @ work_steps 4 True 1 @
      T_wait # call_steps 3 2) (HThreadPool 1 2) = Some s" "\<not> raced s" "\<not> overlapped s" "users s = [U_done, U_done, U_wait3 1 [5] 5]"
    "workers s = [W_run 5, W_del1]" "cur_thread_num s = 1"
    by (simp add: call_steps_def work_steps_def numeral_eq_Suc tp_eval)
  then have "wait_step 2 s = Some (user_to 2 U_done s)" by (simp add: wait_step_def)
  then show ?thesis using tp_run_reachable [OF s(1)] s by (intro exI [of _ s] exI [of _ "user_to 2 U_done s"]) simp
qed

text \<open>A \<^verbatim>\<open>stop\<close> that walks over the list of threads while an idle thread removes itself from it.\<close>

lemma stop_races_with_delThread: "\<exists>s. tp_reachable 0 1 s \<and> raced s \<and> \<not> overlapped s"
proof -
  obtain s where "tp_run (T_start 1 # call_steps 7 0 @ work_steps 4 True 0 @ T_stop # call_steps 2 1 @ work_steps 1 True 0)
      (HThreadPool 0 1) = Some s" "raced s" "\<not> overlapped s"
    by (simp add: call_steps_def work_steps_def numeral_eq_Suc tp_eval)
  then show ?thesis using tp_run_reachable by blast
qed

text \<open>A \<^verbatim>\<open>commit\<close> during a \<^verbatim>\<open>stop\<close> starts a thread whose count \<^verbatim>\<open>stop\<close> then resets: a call of \<^verbatim>\<open>wait\<close> returns though the task runs,
  with no thread between two decrements.\<close>

lemma stop_during_commit_desynchronises:
  "\<exists>s s' n. tp_reachable 1 2 s \<and> \<not> raced s \<and> overlapped s \<and> users s ! 3 = U_wait3 0 [5] n \<and> n = changes s \<and>
    workers s = [W_exit, W_run 5] \<and> wait_step 3 s = Some s' \<and> users s' ! 3 = U_done"
proof -
  obtain s n where s: "tp_run (T_start 1 # call_steps 7 0 @ T_stop # call_steps 2 1 @ work_steps 1 False 0 @ call_steps 3 1 @
      T_commit 5 # call_steps 10 2 @ work_steps 3 False 1 @ call_steps 2 1 @ T_wait # call_steps 3 3)
      (HThreadPool 1 2) = Some s" "\<not> raced s" "overlapped s" "users s = [U_done, U_done, U_done, U_wait3 0 [5] n]"
    "n = changes s" "workers s = [W_exit, W_run 5]" "cur_thread_num s = 0"
    by (simp add: call_steps_def work_steps_def numeral_eq_Suc tp_eval)
  then have "wait_step 3 s = Some (user_to 3 U_done s)" by (simp add: wait_step_def)
  then show ?thesis using tp_run_reachable [OF s(1)] s by (intro exI [of _ s] exI [of _ "user_to 3 U_done s"] exI [of _ n]) simp
qed

text \<open>Two calls of \<^verbatim>\<open>commit\<close> that both test the counter before either has entered its thread exceed the maximum.\<close>

lemma commits_exceed_maximum: "\<exists>s. tp_reachable 0 1 s \<and> cur_thread_num s = 2 \<and> max_thread_num s = 1"
proof -
  obtain s where "tp_run (T_start 0 # call_steps 3 0 @ [T_commit 5, T_commit 6] @ call_steps 3 1 @ call_steps 3 2 @
      call_steps 2 1 @ call_steps 2 2) (HThreadPool 0 1) = Some s" "cur_thread_num s = 2" "max_thread_num s = 1"
    by (simp add: call_steps_def numeral_eq_Suc tp_eval)
  then show ?thesis using tp_run_reachable by blast
qed

end
