(* ===== verification/Spec2Isabelle.thy ===== *)
theory Spec2Isabelle
  imports BrokerProps MapProps NodeProps RequestProps Unpack JsonProps JsonRoundtrip JsonMerge LruRefine VlBuf RingBuf ObjectPool ThreadPoolProps
begin

text \<open>
  \<^bold>\<open>hbus.\<close> A message bus: a broker process (\<^verbatim>\<open>src/src/hbroker.c\<close>) to which nodes connect over TCP, and the
  client library of the nodes (\<^verbatim>\<open>src/src/hnode.c\<close>, \<^verbatim>\<open>src/include/hnode.h\<close>) for publish/subscribe and
  request/response. Both use the message header of \<^verbatim>\<open>src/include/hmsg.h\<close>, the hash map of
  \<^verbatim>\<open>hcore/hhash.h\<close> and \<^verbatim>\<open>hcore/stb_ds.h\<close>, and byte buffers of \<^verbatim>\<open>hcore/hbuf.h\<close>. The tree also brings the
  headers of libhv, of which the JSON library, the LRU cache, the buffer classes and the object and thread
  pools are code of their own.

  \<^bold>\<open>Parts and theories.\<close>

  \<^item> Shared: \<open>HbusPrelude\<close> has the machine integers, little-endian byte strings and list lemmas.

  \<^item> Buffers: \<open>Hbuf\<close> states what hbus relies on from the buffer functions as the locales \<open>hbuf_lib\<close> and
    \<open>hbuf_mem\<close>, models the item macros of \<^verbatim>\<open>hbuf.h\<close>, and interprets the locales on buffers that are bounded by an
    allocation limit; 1 GiB is enough for every run within the message limits.

  \<^item> Hash table: \<open>StbHash\<close> (hash functions), \<open>StbTable\<close> (the index with its slots), \<open>StbMap\<close> (find, put, delete,
    growth and shrinking), \<open>StbProbe\<close> (probe sequences as the locale \<open>probing\<close>), \<open>StbIndex\<close> and \<open>StbRefine\<close>
    (the table refines an association list), \<open>Hhash\<close> (the macros of \<^verbatim>\<open>hhash.h\<close> and the locale
    \<open>int_map\<close>), \<open>MapProps\<close> (properties).

  \<^item> Messages: \<open>Hmsg\<close> has the header, its layout in bytes, its flags and the extended topics; \<open>Unpack\<close> has the package
    settings that broker and node give to libhv, and what the cutting of the byte stream gives with them.

  \<^item> Broker: \<open>Broker\<close> (state and callbacks), \<open>BrokerMap\<close> and \<open>BrokerSpec\<close> (invariant, abstract broker, refinement of each
    callback), \<open>BrokerLoop\<close> and \<open>BrokerRefine\<close> (event sequences), \<open>BrokerProps\<close>.

  \<^item> Client library: \<open>Node\<close> (life cycle, callbacks, publish, subscribe), \<open>NodeSpec\<close>, \<open>NodeLoop\<close>, \<open>NodeProps\<close>.

  \<^item> Requests: \<open>Request\<close> has \<^verbatim>\<open>hnode_request\<close> as a system of any number of threads that interleave with the I/O
    thread at every atomic operation, lock and wait; the I/O thread holds the mutex of a slot between two
    steps of \<^verbatim>\<open>hnode_on_respond\<close>; \<open>RequestProps\<close>.

  \<^item> JSON parser (\<^verbatim>\<open>hv/json.hpp\<close>): \<open>JsonLexer\<close>, \<open>JsonScan\<close> (the class \<^verbatim>\<open>lexer\<close>), \<open>JsonParser\<close> (\<^verbatim>\<open>parser\<close>, the acceptor and
    the consumer that builds values), \<open>JsonTotal\<close> (termination), \<open>JsonSax\<close> (the contract of a consumer as the
    locale \<open>sax_consumer\<close>), \<open>JsonUtf8\<close>, \<open>JsonDom\<close> (interpretation on the value builder), \<open>JsonReads\<close>,
    \<open>JsonToken\<close> and \<open>JsonGrammar\<close> (the grammar of JSON texts and completeness), \<open>JsonProps\<close>.

  \<^item> JSON serializer: \<open>JsonDump\<close> (\<^verbatim>\<open>serializer\<close> and \<^verbatim>\<open>basic_json::dump\<close>), \<open>JsonEscape\<close> and \<open>JsonStrict\<close> (strings),
    \<open>JsonRender\<close> (integers, indentation, values), \<open>JsonRoundtrip\<close> (properties).

  \<^item> JSON pointers and patches: \<open>JsonPointer\<close> (\<^verbatim>\<open>json_pointer\<close>: escaping, strings, indices, resolution), \<open>JsonPatch\<close> (\<^verbatim>\<open>operator==\<close>,
    \<^verbatim>\<open>patch_inplace\<close>, \<^verbatim>\<open>patch\<close>, \<^verbatim>\<open>diff\<close>, \<^verbatim>\<open>merge_patch\<close>), \<open>JsonOps\<close> (operations below a pointer), \<open>JsonDiff\<close>, \<open>JsonMerge\<close>.

  \<^item> Calls: \<open>Calls\<close> runs sequences of calls on a component and on its specification; its locale \<open>call_simulation\<close> has
    the simulation argument that LRU cache and variable-length buffer share.

  \<^item> LRU cache (\<^verbatim>\<open>hv/LRUCache.h\<close>): \<open>LruCache\<close> (all member functions on a store of nodes and the specification),
    \<open>LruRefine\<close> (invariant and refinement).

  \<^item> Buffer classes (\<^verbatim>\<open>hv/hbuf.h\<close>): \<open>VlBuf\<close> (\<^verbatim>\<open>HBuf\<close> and \<^verbatim>\<open>HVLBuf\<close> on a byte list, refinement of a double-ended queue; the locale
    \<open>hv_memory\<close> has what they need of \<^verbatim>\<open>hv_realloc\<close>), \<open>RingBuf\<close> (\<^verbatim>\<open>HRingBuf\<close> with its blocks in use).

  \<^item> Pools: \<open>ObjectPool\<close> (\<^verbatim>\<open>hv/hobjectpool.h\<close>) and \<open>ThreadPool\<close> with \<open>ThreadPoolProps\<close> (\<^verbatim>\<open>hv/hthreadpool.h\<close>) are systems of
    threads whose program points lie between the accesses to shared data.

  \<^item> This theory composes node and broker: a published message reaches the handler of a subscribed node.

  \<^bold>\<open>Modelling.\<close> A struct is a record with the fields of the source, a callback or function is a definition of the same
  name on an explicit state. \<open>None\<close> is a result that C does not define: a loop that never ends or a pointer
  that is not valid. Errors that the source reports are return codes or values of sum types. Pointers to
  sessions and list nodes are addresses in a store, so that dangling pointers are visible. Output of the
  broker and of the nodes, of the serializer and of the eviction callback is recorded in the order written.

  \<^bold>\<open>What is shown.\<close>

  \<^item> Broker: every run refines an abstract publish/subscribe broker; no callback uses an invalid pointer as long as
    memory suffices; a message is delivered to exactly the subscribers it is addressed to; a closed
    connection leaves no trace. The behaviour without memory, of the timer and of unsubscribe messages is stated as it is.

  \<^item> Map: every history of calls behaves like an association list, lookups find the last write, probing ends.

  \<^item> Client: no call or callback crashes on any event sequence, except when no connection can be created, whose \<^verbatim>\<open>NULL\<close> the
    code does not test; calls and callbacks are single steps there; subscription, dispatch, publishing and status
    messages do what they should; what a reconnect and an unsubscribe do is stated as it is.

  \<^item> Requests: a request returns its own reply or an error, a slot has one owner, late responses do no harm, a request
    is refused as busy only if another request or the I/O thread has its slot, and a waiting request is always able to end.

  \<^item> JSON: parser and acceptor return on every input and agree; parsed values are well-formed; the parser is complete for
    the grammar; what the serializer writes is in the grammar, so that values survive a round trip; string
    escaping stays in its buffer.

  \<^item> JSON pointers and patches: pointers and their strings correspond one to one; the patch that \<^verbatim>\<open>diff\<close> computes turns
    the source into the target; merge patches follow RFC 7396 and are idempotent; \<^verbatim>\<open>contains\<close> agrees with \<^verbatim>\<open>at\<close>
    (lemma \<open>pointer_contains_at\<close>).

  \<^item> LRU cache: every sequence of calls agrees with a list of entries in the order of use.

  \<^item> Buffer classes: a variable-length buffer is a double-ended queue and stays in its memory; the blocks of a ring buffer do
    not overlap if the oldest ones are given back and no \<^verbatim>\<open>free\<close> spans a skipped rest. Lemmas \<open>hvlbuf_view_reallocates\<close>,
    \<open>ring_free_across_the_rest_overlaps\<close> and \<open>ring_empty_refuses\<close> state three surprises as they are.

  \<^item> Pools: no object is lent twice and the counter is exact, as long as no factory throws; no task is lost or run twice as long as
    \<^verbatim>\<open>stop\<close> does not race with \<^verbatim>\<open>delThread\<close> or \<^verbatim>\<open>addThread\<close>, and a returning \<^verbatim>\<open>wait\<close> means that the tasks have finished unless the
    number of threads changes meanwhile or \<^verbatim>\<open>stop\<close> overlaps with other calls. Lemmas \<open>borrow_misses_returned\<close>,
    \<open>clear_exceeds_maximum\<close>, \<open>throwing_factory_leaks\<close>, \<open>null_object_counts\<close>, \<open>wait_returns_early\<close>, \<open>stop_races_with_delThread\<close>,
    \<open>stop_during_commit_desynchronises\<close> and \<open>commits_exceed_maximum\<close> show where they fail.

  \<^bold>\<open>Bounds and termination.\<close> The broker theorems assume at most \<open>MAX_SESSIONS\<close> = \<open>2 ^ 27\<close> sessions, so that lists of 8-byte pointers stay
  below 1 GiB. Loops are total functions with a measure, or \<open>partial_function (option)\<close> where the
  source need not end (probing without an empty slot, the token loop of the parser); that they return is
  proved. Counters of the lexer that the source keeps in \<^verbatim>\<open>size_t\<close> are natural numbers, since a text is shorter
  than the address space. The serializer theorems bound the indentation step by 512: the source grows its
  indentation string only by doubling, and lemma \<open>indent_overrun\<close> shows a step for which that is not enough.

  \<^bold>\<open>Parameters.\<close> The buffer functions of libhcore and the package cutting of libhv are in prebuilt libraries and appear as
  arguments with their documented laws. Results of connects, timers, \<^verbatim>\<open>malloc\<close> and condition waits are arguments or
  events. Reading, printing and comparing of floating-point numbers (\<^verbatim>\<open>strtod\<close>, \<^verbatim>\<open>isfinite\<close>, \<^verbatim>\<open>to_chars\<close>, \<^verbatim>\<open>==\<close>) are
  arguments, as are \<^verbatim>\<open>hv_realloc\<close> and, for patches, the order in which C++ evaluates two operands. Exceptions of pointers and
  patches are their class and number, without the message.

  \<^bold>\<open>Not modelled.\<close> Clock readings and log output; the string-keyed maps and dynamic arrays of stb_ds, which hbus does not use;
  the rest of the JSON library (binary formats, flattening, iterators and the other accessors of the container, the digit
  generation for floating-point numbers, which has no exact counterpart for the type parameter used here);
  the C++ wrappers of libhv, which only forward to the prebuilt library; the test programs.
\<close>

section \<open>From publisher to subscriber\<close>

lemma publish_out:
  assumes "node_ok node" "n_status node = 3"
  obtains io where "hnode_publish node t to payload =
    Some (node\<lparr>n_out := n_out node @ [(io, hmsg_bytes (hnode_msg 0x10 t (n_id node) to 0 payload))]\<rparr>, 0)"
proof -
  obtain io where "n_io node = Some io" using node_okD(2) [OF assms] by blast
  then show ?thesis using that assms(2) by (simp add: hnode_publish_def hio_write_some HMSG_FLAGS_def)
qed

text \<open>The broker on a subscribe message of a node and on a publish message to everyone.\<close>

lemma broker_sub_then_pub:
  assumes B: "hbuf_mem B" and ok: "broker_ok st" and a: "context_of st a \<noteq> None" and b: "context_of st b \<noteq> None"
    and len: "length payload \<le> 67108832"
  obtains st1 st2 ws where "on_read B a (hmsg_bytes (sub_msg node 0 t)) st = Some st1"
    "on_read B b (hmsg_bytes (hnode_msg 0x10 t n 0xFFFF 0 payload)) st1 = Some st2"
    "outbox st1 = outbox st" "outbox st2 = outbox st1 @ ws"
    "(a, hmsg_bytes (hnode_msg 0x10 t n 0xFFFF 0 payload)) \<in> set ws"
proof -
  let ?s = "sub_msg node 0 t" and ?p = "hnode_msg 0x10 t n 0xFFFF 0 payload"
  obtain pa where pa: "context_of st a = Some pa" using a by blast
  have valid: "HMSG_HEAD_VALID ?s (int (length (hmsg_bytes ?s)))" "HMSG_HEAD_VALID ?p (int (length (hmsg_bytes ?p)))"
    using len unfolding sub_msg_def by (subst hnode_msg_valid; simp)+
  have sub: "m_to ?s = 0xFFFE" "bit (m_flags ?s) 5" "sub_topic ?s = topicex 0 0x10 t"
    by (simp_all add: sub_msg_def hnode_msg_def HMSG_FLAGS_def sub_topic_def HMSG_FLAGS_DATA_def bit_simps)
  obtain st1 where st1: "on_read B a (hmsg_bytes ?s) st = Some st1" "broker_ok st1"
    "abs_broker st1 = a_subscribe a (topicex 0 0x10 t) (abs_broker st)" "outbox st1 = outbox st"
    using on_read_spec [OF B ok pa refl, of "hmsg_bytes ?s"] sub valid(1)
    by (auto simp: outcome_def hmsg_roundtrip a_read_def)
  have "context_of st1 b \<noteq> None"
    using b unfolding open_abs [OF st1(2)] open_abs [OF ok] st1(3) by (simp add: a_subscribe_def)
  then obtain pb where pb: "context_of st1 b = Some pb" by blast
  have pub: "m_to ?p = 0xFFFF" "HMSG_TOPICEX_INMSG ?p = topicex 0 0x10 t"
    by (simp_all add: hnode_msg_def hmsg_zero_def topicex_inmsg)
  let ?ios = "a_recipients ?p (abs_broker st1)"
  have "a \<in> set ?ios"
    by (simp add: a_recipients_def pub st1(3) a_subscribe_def append_new_def)
  moreover obtain st2 where "on_read B b (hmsg_bytes ?p) st1 = Some st2"
    "outbox st2 = outbox st1 @ map (\<lambda>i. (i, hmsg_bytes ?p)) ?ios"
    using on_read_spec [OF B st1(2) pb refl, of "hmsg_bytes ?p"] valid(2) pub(1)
    by (auto simp: outcome_def hmsg_roundtrip a_read_def)
  ultimately show ?thesis using that st1 by (metis (no_types, lifting) image_eqI set_map)
qed

text \<open>C6: From end to end: a connected node subscribes a topic, the broker reads what it wrote; another
  connected node publishes to everyone on that topic, the broker reads what it wrote and writes it to
  the first node's connection; when that node reads it, its handler is called exactly once, with the
  publisher's id and payload.\<close>

theorem publish_reaches_handler:
  assumes "hbuf_mem B" and "reachable st" and "context_of st a \<noteq> None" and "context_of st b \<noteq> None"
    and "node_reachable sub" and "n_status sub = 3" and "handler_for sub (sub_key 0 t) = None" and "r \<noteq> 0"
    and "node_reachable pub" and "n_status pub = 3" and "length payload \<le> 67108832"
  shows "\<exists>sub1 io1 w1 st1 pub1 io2 w2 st2 ws sub2 msg.
    hnode_subscribe r sub t (user_fn f) p = Some (sub1, 0) \<and> n_out sub1 = n_out sub @ [(io1, w1)] \<and>
    on_read B a w1 st = Some st1 \<and>
    hnode_publish pub t 0xFFFF payload = Some (pub1, 0) \<and> n_out pub1 = n_out pub @ [(io2, w2)] \<and>
    on_read B b w2 st1 = Some st2 \<and> outbox st2 = outbox st1 @ ws \<and> (a, w2) \<in> set ws \<and>
    hnode_on_read B w2 sub1 = Some sub2 \<and>
    n_calls sub2 = n_calls sub @ [(\<lparr>handle_func = Some (user_fn f), handle_param = p\<rparr>, msg)] \<and>
    m_payload msg = payload \<and> m_from msg = n_id pub \<and> m_topic msg = t"
proof -
  let ?p = "hnode_msg 0x10 t (n_id pub) 0xFFFF 0 payload"
  obtain st1 st2 ws where st: "on_read B a (hmsg_bytes (sub_msg sub 0 t)) st = Some st1"
    "on_read B b (hmsg_bytes ?p) st1 = Some st2" "outbox st2 = outbox st1 @ ws" "(a, hmsg_bytes ?p) \<in> set ws"
    by (rule broker_sub_then_pub [OF assms(1) reachable_broker_ok [OF assms(2)] assms(3,4,11)])
  obtain io2 where pub: "hnode_publish pub t 0xFFFF payload = Some (pub\<lparr>n_out := n_out pub @ [(io2, hmsg_bytes ?p)]\<rparr>, 0)"
    by (rule publish_out [OF node_reachable_ok [OF assms(9)] assms(10)])
  have valid: "HMSG_HEAD_VALID ?p (int (length (hmsg_bytes ?p)))" using assms(11) by (subst hnode_msg_valid) simp_all
  have p: "m_version ?p = 0" "m_flags ?p = 0x10" "m_topic ?p = t" "m_payload ?p = payload" "m_from ?p = n_id pub"
    by (simp_all add: hnode_msg_def hmsg_zero_def)
  obtain sub1 sub2 io1 where s: "hnode_subscribe_i r sub 0 t (user_fn f) p = Some (sub1, 0)"
    "n_out sub1 = n_out sub @ [(io1, hmsg_bytes (sub_msg sub 0 t))]" "hnode_on_read B (hmsg_bytes ?p) sub1 = Some sub2"
    "n_calls sub2 = n_calls sub @ [(\<lparr>handle_func = Some (user_fn f), handle_param = p\<rparr>, ?p)]"
    using subscribe_dispatch [OF assms(5,6) _ assms(8,7), of "hmsg_bytes ?p" f p B] valid p
    by (auto simp: hmsg_roundtrip)
  show ?thesis
    using st pub s p
    by (intro exI [of _ sub1] exI [of _ io1] exI [of _ "hmsg_bytes (sub_msg sub 0 t)"] exI [of _ st1]
        exI [of _ "pub\<lparr>n_out := n_out pub @ [(io2, hmsg_bytes ?p)]\<rparr>"] exI [of _ io2] exI [of _ "hmsg_bytes ?p"]
        exI [of _ st2] exI [of _ ws] exI [of _ sub2] exI [of _ ?p])
      (simp add: hnode_subscribe_def)
qed

theorem publish_reaches_handler_witness:
  "\<exists>sub1 w2 sub2 msg. hnode_subscribe 1 ex_node 12 (user_fn 3) 8 = Some (sub1, 0) \<and>
    hnode_on_read hbuf_1g w2 sub1 = Some sub2 \<and>
    n_calls sub2 = n_calls ex_node @ [(\<lparr>handle_func = Some (user_fn 3), handle_param = 8\<rparr>, msg)] \<and> m_payload msg = [1, 2]"
proof -
  have "context_of ex_state 3 \<noteq> None" "context_of ex_state 4 \<noteq> None" by (simp_all add: ex_state_eq)
  moreover have "handler_for ex_node (sub_key 0 12) = None" by (simp add: ex_node_handlers ex_key)
  ultimately show ?thesis
    using publish_reaches_handler [OF one_gib.hbuf_mem_axioms ex_reachable _ _ ex_node, of 3 4 12 1 ex_node "[1, 2]" 3 8] ex_node
    by auto
qed

end
